(* ===== verification/Prelude.thy ===== *)
theory Prelude
  imports Complex_Main "HOL-Library.Word" "HOL-Library.Multiset"
begin

text \<open>
  Shared vocabulary of the development: the types of Go values (bytes, int64, the pair of a
  result and an error), the loops that UnLynx splits over goroutines in blocks of
  VPARALLELIZE indices, Go maps and the order in which a range loop visits them, and the
  generic lemmas on lists and results that the component theories share.
\<close>

section \<open>Values, errors and panics\<close>

type_synonym byte = "8 word"
type_synonym int64 = "64 word"

text \<open>
  A Go function of type (T, error) either returns a value, returns an error, or panics (an index
  out of range, a nil dereference), which ends the whole process.
\<close>

datatype go_error = Err string | Panic

type_synonym 'a res = "go_error + 'a"

definition andThen :: "'a res \<Rightarrow> ('a \<Rightarrow> 'b res) \<Rightarrow> 'b res" where
  "andThen r f = (case r of Inl e \<Rightarrow> Inl e | Inr v \<Rightarrow> f v)"

definition slice :: "'a list \<Rightarrow> nat \<Rightarrow> nat \<Rightarrow> 'a list res" where
  \<comment> \<open>The expression xs[lo:hi] on a slice without spare capacity.\<close>
  "slice xs lo hi = (if lo \<le> hi \<and> hi \<le> length xs then Inr (take (hi - lo) (drop lo xs)) else Inl Panic)"

definition store_at :: "'a list \<Rightarrow> nat \<Rightarrow> 'a \<Rightarrow> 'a list res" where
  "store_at xs i v = (if i < length xs then Inr (xs[i := v]) else Inl Panic)"

definition index_at :: "'a list \<Rightarrow> nat \<Rightarrow> 'a res" where
  "index_at xs i = (if i < length xs then Inr (xs ! i) else Inl Panic)"

fun traverse :: "('a \<Rightarrow> 'b res) \<Rightarrow> 'a list \<Rightarrow> 'b list res" where
  \<comment> \<open>A loop that appends one result per element and returns at the first error.\<close>
  "traverse f [] = Inr []"
| "traverse f (x # xs) = andThen (f x) (\<lambda>y. andThen (traverse f xs) (\<lambda>ys. Inr (y # ys)))"

fun fold_res :: "('a \<Rightarrow> 'b \<Rightarrow> 'b res) \<Rightarrow> 'a list \<Rightarrow> 'b \<Rightarrow> 'b res" where
  \<comment> \<open>A loop that updates a state and returns at the first error.\<close>
  "fold_res f [] s = Inr s"
| "fold_res f (x # xs) s = andThen (f x s) (fold_res f xs)"

lemma small_sint: "\<bar>i\<bar> < 2 ^ 62 \<Longrightarrow> sint (word_of_int i :: int64) = i"
  using signed_of_int [where ?'a = int and ?'b = 64, of i] by (simp add: signed_take_bit_int_eq_self abs_less_iff)

named_theorems res_simps "evaluation of results"

lemma andThen_Inr [simp, res_simps]: "andThen (Inr v) f = f v"
  by (simp add: andThen_def)

lemma andThen_Inl [simp, res_simps]: "andThen (Inl e) f = Inl e"
  by (simp add: andThen_def)

lemma andThen_eq_Inr: "andThen r f = Inr y \<longleftrightarrow> (\<exists>v. r = Inr v \<and> f v = Inr y)"
  by (cases r) simp_all

lemma andThen_eq_Inl: "andThen r f = Inl e \<longleftrightarrow> r = Inl e \<or> (\<exists>v. r = Inr v \<and> f v = Inl e)"
  by (cases r) simp_all

lemma andThen_return [simp]: "andThen r Inr = r"
  by (cases r) simp_all

lemma andThen_assoc: "andThen (andThen r f) g = andThen r (\<lambda>v. andThen (f v) g)"
  by (cases r) simp_all

lemma index_at_Inr [simp]: "i < length xs \<Longrightarrow> index_at xs i = Inr (xs ! i)"
  by (simp add: index_at_def)

lemma store_at_Inr [simp]: "i < length xs \<Longrightarrow> store_at xs i v = Inr (xs[i := v])"
  by (simp add: store_at_def)

lemma slice_append [simp]:
  "lo = length pre \<Longrightarrow> hi = length pre + length xs \<Longrightarrow> slice (pre @ xs @ suf) lo hi = Inr xs"
  by (simp add: slice_def)

lemma slice_prefix [simp]: "hi = length xs \<Longrightarrow> slice (xs @ suf) 0 hi = Inr xs"
  by (simp add: slice_def)

lemma slice_suffix [simp]:
  "lo = length pre \<Longrightarrow> hi = length pre + length xs \<Longrightarrow> slice (pre @ xs) lo hi = Inr xs"
  by (simp add: slice_def)

lemma slice_eq_Inr:
  "slice xs lo hi = Inr ys \<longleftrightarrow> lo \<le> hi \<and> hi \<le> length xs \<and> ys = take (hi - lo) (drop lo xs)"
  by (auto simp: slice_def)

lemma slice_concat:
  assumes "\<forall>b\<in>set bs. length b = n" and "i < length bs"
  shows "slice (concat bs) (i * n) (i * n + n) = Inr (bs ! i)"
proof -
  have len: "length (concat xs) = length xs * n" if "\<forall>b\<in>set xs. length b = n" for xs :: "'a list list"
    using that by (induction xs) simp_all
  have bs: "bs = take i bs @ bs ! i # drop (Suc i) bs" using assms(2) by (rule id_take_nth_drop)
  have "length (concat (take i bs)) = i * n" using len [of "take i bs"] assms by (auto dest: in_set_takeD)
  moreover have "length (bs ! i) = n" using assms by simp
  ultimately show ?thesis
    by (subst (1) bs) (simp add: slice_append)
qed

lemma traverse_eq_Inr: "traverse f xs = Inr ys \<longleftrightarrow> list_all2 (\<lambda>x y. f x = Inr y) xs ys"
proof (induction xs arbitrary: ys)
  case Nil
  then show ?case by auto
next
  case (Cons x xs)
  then show ?case by (cases ys) (auto simp: andThen_eq_Inr)
qed

lemma traverse_Inr_map [simp]: "(\<And>x. x \<in> set xs \<Longrightarrow> f x = Inr (g x)) \<Longrightarrow> traverse f xs = Inr (map g xs)"
  by (induction xs) simp_all

lemma traverse_length: "traverse f xs = Inr ys \<Longrightarrow> length ys = length xs"
  by (auto simp: traverse_eq_Inr dest: list_all2_lengthD)

lemma traverse_cong [fundef_cong]:
  "xs = ys \<Longrightarrow> (\<And>x. x \<in> set ys \<Longrightarrow> f x = g x) \<Longrightarrow> traverse f xs = traverse g ys"
  by (induction xs arbitrary: ys) auto

lemma traverse_append:
  "traverse f (xs @ ys) = andThen (traverse f xs) (\<lambda>as. andThen (traverse f ys) (\<lambda>bs. Inr (as @ bs)))"
  by (induction xs) (simp_all add: andThen_assoc)

lemma fold_res_append: "fold_res f (xs @ ys) s = andThen (fold_res f xs s) (fold_res f ys)"
proof (induction xs arbitrary: s)
  case Nil
  then show ?case by simp
next
  case (Cons x xs)
  then show ?case by (cases "f x s") simp_all
qed

lemma fold_res_invariant:
  assumes "fold_res f xs s = Inr t" and "P s"
    and "\<And>x s t. x \<in> set xs \<Longrightarrow> P s \<Longrightarrow> f x s = Inr t \<Longrightarrow> P t"
  shows "P t"
  using assms
proof (induction xs arbitrary: s)
  case Nil
  then show ?case by simp
next
  case (Cons x xs)
  from Cons.prems(1) obtain u where u: "f x s = Inr u" "fold_res f xs u = Inr t"
    by (auto simp: andThen_eq_Inr)
  from Cons.prems u have "P u" by auto
  with u(2) Cons.prems(3) show ?case by (auto intro: Cons.IH)
qed

lemma fold_res_map: "fold_res f (map g xs) s = fold_res (\<lambda>x. f (g x)) xs s"
  by (induction xs arbitrary: s) (simp_all, metis)

lemma fold_res_const: "(\<And>x. x \<in> set xs \<Longrightarrow> f x s = Inr s) \<Longrightarrow> fold_res f xs s = Inr s"
  by (induction xs) simp_all

text \<open>Two accumulators that one loop updates independently.\<close>

lemma fold_res_pair:
  assumes "fold_res f xs a = Inr a'" and "fold_res g xs b = Inr b'"
  shows "fold_res (\<lambda>x (a, b). andThen (f x a) (\<lambda>a'. andThen (g x b) (\<lambda>b'. Inr (a', b')))) xs (a, b) = Inr (a', b')"
  using assms by (induction xs arbitrary: a b) (auto simp: andThen_eq_Inr)

lemma store_loop:
  "n \<le> length xs \<Longrightarrow> fold_res (\<lambda>i acc. store_at acc i (f i)) [0..<n] xs = Inr (map f [0..<n] @ drop n xs)"
proof (induction n)
  case 0
  then show ?case by simp
next
  case (Suc n)
  then have "(map f [0..<n] @ drop n xs)[n := f n] = map f [0..<Suc n] @ drop (Suc n) xs"
    by (intro nth_equalityI) (auto simp: nth_append nth_list_update less_Suc_eq)
  with Suc show ?case by (simp add: fold_res_append)
qed

section \<open>Loops split over goroutines\<close>

text \<open>
  Most loops of the library have the shape
  \<^verbatim>\<open>
  for i := 0; i < n; i += VPARALLELIZE {
    go func(i int) { for j := 0; j < VPARALLELIZE && i+j < n; j++ { out[i+j] = f(i+j) } }(i)
  }
  wg.Wait()
  \<close>
  The blocks are the goroutines. A goroutine may run at any time between its start and the wait,
  so a schedule is any order of the writes that keeps each block's own order.
\<close>

function chunks :: "nat \<Rightarrow> nat \<Rightarrow> nat \<Rightarrow> nat list list" where
  "chunks V n i = (if i < n \<and> 0 < V then [i..<min (i + V) n] # chunks V n (i + V) else [])"
  by pat_completeness auto
termination by (relation "measure (\<lambda>(V, n, i). n - i)") auto

declare chunks.simps [simp del]

lemma concat_chunks: "0 < V \<Longrightarrow> i \<le> n \<Longrightarrow> concat (chunks V n i) = [i..<n]"
proof (induction V n i rule: chunks.induct)
  case (1 V n i)
  show ?case
  proof (cases "i + V \<le> n")
    case True
    have "[i..<i + V] @ [i + V..<n] = [i..<n]"
      using True upt_add_eq_append [of i "i + V" "n - (i + V)"] by simp
    with True 1 show ?thesis
      by (subst chunks.simps) (auto simp: min_def)
  next
    case False
    then show ?thesis
      by (subst chunks.simps) (auto simp: min_def chunks.simps [of V n "i + V"])
  qed
qed

text \<open>Loops whose body cannot fail.\<close>

definition write_all :: "(nat \<Rightarrow> 'a) \<Rightarrow> nat list \<Rightarrow> 'a list \<Rightarrow> 'a list" where
  "write_all f is xs = fold (\<lambda>i ys. ys[i := f i]) is xs"

definition par_map :: "nat \<Rightarrow> nat \<Rightarrow> (nat \<Rightarrow> 'a) \<Rightarrow> 'a list \<Rightarrow> 'a list" where
  "par_map V n f xs = fold (write_all f) (chunks V n 0) xs"

lemma length_write_all [simp]: "length (write_all f is xs) = length xs"
  unfolding write_all_def by (induction "is" arbitrary: xs) simp_all

lemma nth_write_all:
  "k < length xs \<Longrightarrow> write_all f is xs ! k = (if k \<in> set is then f k else xs ! k)"
  unfolding write_all_def by (induction "is" arbitrary: xs) (auto simp: nth_list_update)

lemma write_all_schedule:
  "set is = {..<n} \<Longrightarrow> n \<le> length xs \<Longrightarrow> write_all f is xs = map f [0..<n] @ drop n xs"
  by (rule nth_equalityI) (auto simp: nth_write_all nth_append)

lemma fold_write_all: "fold (write_all f) iss xs = write_all f (concat iss) xs"
  unfolding write_all_def by (induction iss arbitrary: xs) simp_all

lemma par_map_eq [simp]: "0 < V \<Longrightarrow> length xs = n \<Longrightarrow> par_map V n f xs = map f [0..<n]"
  by (simp add: par_map_def fold_write_all concat_chunks write_all_schedule [of _ n] atLeast0LessThan)

lemma par_map_any_schedule:
  assumes "0 < V" and "mset sched = mset (concat (chunks V (length xs) 0))"
  shows "write_all f sched xs = par_map V (length xs) f xs"
proof -
  have "set sched = {..<length xs}"
    using assms by (metis atLeast0LessThan concat_chunks mset_eq_setD set_upt zero_le)
  then show ?thesis using assms(1) by (simp add: write_all_schedule [of _ "length xs"])
qed

text \<open>
  Loops whose body can fail: a block that meets an error stores it in the shared variable err and
  stops, the other blocks go on, and the error is examined after the wait. A panic in any
  goroutine ends the process, so it takes precedence.
\<close>

fun run_block :: "(nat \<Rightarrow> 'a res) \<Rightarrow> nat list \<Rightarrow> 'a list \<times> go_error option \<Rightarrow> 'a list \<times> go_error option" where
  "run_block f [] s = s"
| "run_block f (i # is) (xs, e) =
     (case andThen (f i) (\<lambda>v. if i < length xs then Inr v else Inl Panic) of
        Inr v \<Rightarrow> run_block f is (xs[i := v], e)
      | Inl er \<Rightarrow> (xs, Some (if e = Some Panic then Panic else er)))"

definition par_fill :: "nat \<Rightarrow> nat \<Rightarrow> (nat \<Rightarrow> 'a res) \<Rightarrow> 'a list \<Rightarrow> 'a list res" where
  "par_fill V n f xs =
     (case fold (run_block f) (chunks V n 0) (xs, None) of
        (ys, None) \<Rightarrow> Inr ys
      | (ys, Some e) \<Rightarrow> Inl e)"

lemma run_block_ok:
  "(\<And>i. i \<in> set is \<Longrightarrow> i < length xs \<and> f i = Inr (g i)) \<Longrightarrow> run_block f is (xs, e) = (write_all g is xs, e)"
  by (induction "is" arbitrary: xs) (auto simp: write_all_def)

lemma run_block_err_kept: "snd s \<noteq> None \<Longrightarrow> snd (run_block f is s) \<noteq> None"
  by (induction f "is" s rule: run_block.induct) (auto split: sum.splits)

lemma run_block_fails:
  "i \<in> set is \<Longrightarrow> f i = Inl er \<Longrightarrow> snd (run_block f is s) \<noteq> None"
proof (induction f "is" s rule: run_block.induct)
  case (1 f s)
  then show ?case by simp
next
  case (2 f i' "is" xs e)
  then show ?case by (auto split: sum.splits)
qed

lemma fold_run_block_err_kept: "snd s \<noteq> None \<Longrightarrow> snd (fold (run_block f) iss s) \<noteq> None"
  by (induction iss arbitrary: s) (simp_all add: run_block_err_kept del: not_None_eq)

lemma fold_run_block_fails:
  "i \<in> set (concat iss) \<Longrightarrow> f i = Inl er \<Longrightarrow> snd (fold (run_block f) iss s) \<noteq> None"
proof (induction iss arbitrary: s)
  case Nil
  then show ?case by simp
next
  case (Cons blk iss)
  then show ?case
    by (cases "i \<in> set blk")
      (simp_all add: run_block_fails fold_run_block_err_kept del: not_None_eq)
qed

lemma fold_run_block_ok:
  "(\<And>i. i \<in> set (concat iss) \<Longrightarrow> i < length xs \<and> f i = Inr (g i)) \<Longrightarrow>
   fold (run_block f) iss (xs, e) = (write_all g (concat iss) xs, e)"
proof (induction iss arbitrary: xs)
  case Nil
  then show ?case by (simp add: write_all_def)
next
  case (Cons blk iss)
  have 1: "run_block f blk (xs, e) = (write_all g blk xs, e)"
    using Cons.prems by (intro run_block_ok) auto
  have 2: "fold (run_block f) iss (write_all g blk xs, e) = (write_all g (concat iss) (write_all g blk xs), e)"
    using Cons.prems by (intro Cons.IH) auto
  show ?case by (simp add: 1 2) (simp add: write_all_def)
qed

lemma par_fill_Inr:
  assumes "0 < V" and "n \<le> length xs" and "\<And>i. i < n \<Longrightarrow> f i = Inr (g i)"
  shows "par_fill V n f xs = Inr (map g [0..<n] @ drop n xs)"
proof -
  have "fold (run_block f) (chunks V n 0) (xs, None) = (write_all g (concat (chunks V n 0)) xs, None)"
    using assms by (intro fold_run_block_ok) (auto simp: concat_chunks)
  then show ?thesis
    using assms by (simp add: par_fill_def concat_chunks write_all_schedule [of _ n] atLeast0LessThan)
qed

lemma par_fill_Inl:
  assumes "0 < V" and "i < n" and "f i = Inl e"
  shows "\<exists>e'. par_fill V n f xs = Inl e'"
proof -
  have "snd (fold (run_block f) (chunks V n 0) (xs, None)) \<noteq> None"
    using assms by (intro fold_run_block_fails [of i]) (auto simp: concat_chunks)
  then show ?thesis by (auto simp: par_fill_def split: prod.splits option.splits)
qed

lemma run_block_only_panic:
  "(\<And>i e. f i = Inl e \<Longrightarrow> e = Panic) \<Longrightarrow> snd s \<in> {None, Some Panic} \<Longrightarrow> snd (run_block f is s) \<in> {None, Some Panic}"
proof (induction "is" arbitrary: s)
  case Nil
  then show ?case by simp
next
  case (Cons i "is")
  obtain xs e where s: "s = (xs, e)" by (cases s)
  show ?case
  proof (cases "andThen (f i) (\<lambda>v. if i < length xs then Inr v else Inl Panic)")
    case (Inl er)
    then have "er = Panic" using Cons.prems(1) by (auto simp: andThen_eq_Inl split: if_splits)
    with Inl show ?thesis by (simp add: s)
  next
    case (Inr v)
    with Cons s show ?thesis by simp
  qed
qed

lemma par_fill_only_panic:
  assumes "\<And>i e. f i = Inl e \<Longrightarrow> e = Panic" and "par_fill V n f xs = Inl e"
  shows "e = Panic"
proof -
  have "snd (fold (run_block f) iss s) \<in> {None, Some Panic}" if "snd s \<in> {None, Some Panic}" for iss s
    using that
  proof (induction iss arbitrary: s)
    case (Cons blk iss)
    have "snd (run_block f blk s) \<in> {None, Some Panic}"
      using Cons.prems by (intro run_block_only_panic assms(1))
    then show ?case using Cons.IH by simp
  qed simp
  from this [of "(xs, None)" "chunks V n 0"] assms(2) show ?thesis
    by (auto simp: par_fill_def split: prod.splits option.splits)
qed

lemma run_block_error:
  "(\<And>i e. i \<in> set is \<Longrightarrow> f i = Inl e \<Longrightarrow> P e) \<Longrightarrow> set is \<subseteq> {..<length xs} \<Longrightarrow> pred_option P e \<Longrightarrow>
   pred_option P (snd (run_block f is (xs, e))) \<and> length (fst (run_block f is (xs, e))) = length xs"
proof (induction "is" arbitrary: xs)
  case Nil
  then show ?case by simp
next
  case (Cons i "is")
  show ?case
  proof (cases "f i")
    case (Inl er)
    then show ?thesis using Cons.prems by auto
  next
    case (Inr v)
    have "pred_option P (snd (run_block f is (xs[i := v], e))) \<and> length (fst (run_block f is (xs[i := v], e))) = length (xs[i := v])"
      using Cons.prems by (intro Cons.IH) auto
    then show ?thesis using Inr Cons.prems by simp
  qed
qed

lemma par_fill_error:
  assumes "0 < V" and "n \<le> length xs" and f: "\<And>i e. i < n \<Longrightarrow> f i = Inl e \<Longrightarrow> P e" and r: "par_fill V n f xs = Inl e"
  shows "P e"
proof -
  have "pred_option P (snd (fold (run_block f) iss (ys, er)))"
    if "set (concat iss) \<subseteq> {..<n}" "n \<le> length ys" "pred_option P er" for iss ys er
    using that
  proof (induction iss arbitrary: ys er)
    case (Cons blk iss)
    obtain zs er' where z: "run_block f blk (ys, er) = (zs, er')" by fastforce
    have "pred_option P er' \<and> length zs = length ys"
      using run_block_error [of blk f P ys er] f Cons.prems z by force
    with Cons z show ?case by simp
  qed simp
  from this [of "chunks V n 0" xs None] r assms(1,2) show ?thesis
    by (auto simp: par_fill_def concat_chunks atLeast0LessThan split: prod.splits option.splits)
qed

lemma par_fill_eq_Inr:
  assumes "0 < V" and "n \<le> length xs"
  shows "par_fill V n f xs = Inr ys \<longleftrightarrow>
    length ys = length xs \<and> (\<forall>i<n. f i = Inr (ys ! i)) \<and> drop n ys = drop n xs"
proof
  assume r: "par_fill V n f xs = Inr ys"
  have ok: "f i = Inr (projr (f i))" if "i < n" for i
  proof (cases "f i")
    case (Inl e)
    then show ?thesis using par_fill_Inl [of V i n f e xs] assms(1) that r by auto
  qed simp
  then have "par_fill V n f xs = Inr (map (\<lambda>i. projr (f i)) [0..<n] @ drop n xs)"
    by (intro par_fill_Inr assms) simp
  with r have "ys = map (\<lambda>i. projr (f i)) [0..<n] @ drop n xs" by simp
  then show "length ys = length xs \<and> (\<forall>i<n. f i = Inr (ys ! i)) \<and> drop n ys = drop n xs"
    using ok assms(2) by (auto simp: nth_append)
next
  assume h: "length ys = length xs \<and> (\<forall>i<n. f i = Inr (ys ! i)) \<and> drop n ys = drop n xs"
  then have "par_fill V n f xs = Inr (map ((!) ys) [0..<n] @ drop n xs)" by (intro par_fill_Inr assms) auto
  moreover have "map ((!) ys) [0..<n] = take n ys" 
    using h assms(2) by (intro nth_equalityI) auto
  ultimately show "par_fill V n f xs = Inr ys" using h by (metis append_take_drop_id)
qed

text \<open>A loop whose results do not fit the slice it writes to panics.\<close>

lemma run_block_overflow:
  "(\<And>i. i \<in> set is \<Longrightarrow> f i = Inr (g i)) \<Longrightarrow>
   (\<forall>i\<in>set is. i < length xs) \<and> (\<exists>ys. run_block f is (xs, e) = (ys, e) \<and> length ys = length xs) \<or>
   (\<exists>i\<in>set is. length xs \<le> i) \<and> snd (run_block f is (xs, e)) = Some Panic"
proof (induction "is" arbitrary: xs)
  case Nil
  then show ?case by simp
next
  case (Cons i "is")
  show ?case
  proof (cases "i < length xs")
    case True
    have "run_block f (i # is) (xs, e) = run_block f is (xs[i := g i], e)"
      using True Cons.prems [of i] by simp
    with Cons.IH [of "xs[i := g i]"] Cons.prems True show ?thesis by auto
  next
    case False
    then show ?thesis using Cons.prems [of i] by auto
  qed
qed

lemma run_block_panic_kept: "snd s = Some Panic \<Longrightarrow> snd (run_block f is s) = Some Panic"
  by (induction f "is" s rule: run_block.induct) (auto split: sum.splits)

lemma par_fill_overflow:
  assumes "0 < V" and "length xs < n" and "\<And>i. i < n \<Longrightarrow> f i = Inr (g i)"
  shows "par_fill V n f xs = Inl Panic"
proof -
  have kept: "snd s = Some Panic \<Longrightarrow> snd (fold (run_block f) iss s) = Some Panic" for iss s
    by (induction iss arbitrary: s) (simp_all add: run_block_panic_kept)
  have "snd (fold (run_block f) iss (ys, None)) = Some Panic"
    if "set (concat iss) \<subseteq> {..<n}" "\<exists>i\<in>set (concat iss). length ys \<le> i" for iss ys
    using that
  proof (induction iss arbitrary: ys)
    case (Cons blk iss)
    have "(\<forall>i\<in>set blk. i < length ys) \<and> (\<exists>zs. run_block f blk (ys, None) = (zs, None) \<and> length zs = length ys) \<or>
        (\<exists>i\<in>set blk. length ys \<le> i) \<and> snd (run_block f blk (ys, None)) = Some Panic"
      using Cons.prems assms(3) by (intro run_block_overflow) auto
    then show ?case
    proof
      assume "(\<forall>i\<in>set blk. i < length ys) \<and> (\<exists>zs. run_block f blk (ys, None) = (zs, None) \<and> length zs = length ys)"
      then obtain zs where z: "\<forall>i\<in>set blk. i < length ys" "run_block f blk (ys, None) = (zs, None)" "length zs = length ys" by blast
      have "snd (fold (run_block f) iss (zs, None)) = Some Panic"
        using Cons.prems z by (intro Cons.IH) force+
      with z show ?thesis by simp
    qed (simp add: kept)
  qed simp
  note run = this
  have cc: "set (concat (chunks V n 0)) = {..<n}"
    using assms(1) by (simp only: concat_chunks atLeast0LessThan set_upt)
  have "snd (fold (run_block f) (chunks V n 0) (xs, None)) = Some Panic"
    by (rule run) (use cc assms(2) in auto)
  then show ?thesis
    by (cases "fold (run_block f) (chunks V n 0) (xs, None)") (simp add: par_fill_def)
qed

text \<open>
  A loop that fills a fresh slice of length n; None is the zero value of an element that was not
  written, and no element has it after a run without error.
\<close>

definition par_list :: "nat \<Rightarrow> nat \<Rightarrow> (nat \<Rightarrow> 'a res) \<Rightarrow> 'a list res" where
  "par_list V n f =
     andThen (par_fill V n (\<lambda>i. andThen (f i) (\<lambda>v. Inr (Some v))) (replicate n None)) (\<lambda>ys. Inr (map the ys))"

lemma par_list_Inr:
  assumes "0 < V" and "\<And>i. i < n \<Longrightarrow> f i = Inr (g i)"
  shows "par_list V n f = Inr (map g [0..<n])"
proof -
  have "par_fill V n (\<lambda>i. andThen (f i) (\<lambda>v. Inr (Some v))) (replicate n None) =
      Inr (map (\<lambda>i. Some (g i)) [0..<n] @ drop n (replicate n None))"
    using assms by (intro par_fill_Inr) simp_all
  then show ?thesis by (simp add: par_list_def comp_def)
qed

lemma par_list_Inl:
  assumes "0 < V" and "i < n" and "f i = Inl e"
  shows "\<exists>e'. par_list V n f = Inl e'"
proof -
  have "\<exists>e'. par_fill V n (\<lambda>i. andThen (f i) (\<lambda>v. Inr (Some v))) (replicate n None) = Inl e'"
    using assms by (intro par_fill_Inl [of V i n _ e]) simp_all
  then show ?thesis by (auto simp: par_list_def)
qed

lemma par_list_error:
  assumes "0 < V" and "\<And>i e. i < n \<Longrightarrow> f i = Inl e \<Longrightarrow> P e" and "par_list V n f = Inl e"
  shows "P e"
proof -
  have "par_fill V n (\<lambda>i. andThen (f i) (\<lambda>v. Inr (Some v))) (replicate n None) = Inl e"
    using assms(3) by (auto simp: par_list_def andThen_eq_Inl)
  then show ?thesis
    by (rule par_fill_error [rotated 3]) (use assms(1,2) in \<open>auto simp: andThen_eq_Inl\<close>)
qed

lemma par_list_eq_Inr:
  assumes "0 < V"
  shows "par_list V n f = Inr ys \<longleftrightarrow> length ys = n \<and> (\<forall>i<n. f i = Inr (ys ! i))"
proof
  assume r: "par_list V n f = Inr ys"
  have ok: "f i = Inr (projr (f i))" if "i < n" for i
  proof (cases "f i")
    case (Inl e)
    then show ?thesis using par_list_Inl [of V i n f e] assms that r by auto
  qed simp
  then have "par_list V n f = Inr (map (\<lambda>i. projr (f i)) [0..<n])"
    using assms by (intro par_list_Inr)
  with r ok show "length ys = n \<and> (\<forall>i<n. f i = Inr (ys ! i))" by auto
next
  assume h: "length ys = n \<and> (\<forall>i<n. f i = Inr (ys ! i))"
  then have "par_list V n f = Inr (map ((!) ys) [0..<n])" using assms by (intro par_list_Inr) auto
  moreover have "map ((!) ys) [0..<n] = ys" using h map_nth [of ys] by simp
  ultimately show "par_list V n f = Inr ys" by simp
qed

lemma par_list_roundtrip:
  assumes "\<And>x. andThen (enc x) decode = Inr x"
  shows "andThen (par_list 1 (length xs) (\<lambda>i. enc (xs ! i))) (\<lambda>bs. par_list 1 (length bs) (\<lambda>i. decode (bs ! i))) = Inr xs"
proof -
  have "\<forall>x. \<exists>y. enc x = Inr y \<and> decode y = Inr x"
    using assms by (simp add: andThen_eq_Inr)
  then obtain g where g: "\<And>x. enc x = Inr (g x)" "\<And>x. decode (g x) = Inr x"
    by metis
  have 1: "par_list 1 (length xs) (\<lambda>i. enc (xs ! i)) = Inr (map (\<lambda>i. g (xs ! i)) [0..<length xs])"
    by (rule par_list_Inr) (simp_all add: g)
  have "par_list 1 (length xs) (\<lambda>i. decode (map (\<lambda>i. g (xs ! i)) [0..<length xs] ! i)) = Inr (map ((!) xs) [0..<length xs])"
    by (rule par_list_Inr) (simp_all add: g)
  with 1 show ?thesis by (simp add: map_nth)
qed

section \<open>Go maps\<close>

text \<open>
  A Go map is a finite partial function. A range loop over it visits every key once in an order
  the language leaves open, so such a loop takes the visited entries as an extra argument, and
  its theorems hold for every list of entries that enumerates the map.
\<close>

definition enumerates :: "('k \<times> 'v) list \<Rightarrow> ('k \<rightharpoonup> 'v) \<Rightarrow> bool" where
  "enumerates es m \<longleftrightarrow> distinct (map fst es) \<and> map_of es = m"

lemma enumerates_Nil [simp]: "enumerates [] m \<longleftrightarrow> m = Map.empty"
  by (auto simp: enumerates_def)

lemma enumerates_set: "enumerates es m \<Longrightarrow> (k, v) \<in> set es \<longleftrightarrow> m k = Some v"
  unfolding enumerates_def by (metis map_of_eq_Some_iff)

lemma enumerates_dom: "enumerates es m \<Longrightarrow> dom m = fst ` set es"
  unfolding enumerates_def by (metis dom_map_of_conv_image_fst)

lemma enumerates_length: "enumerates es m \<Longrightarrow> length es = card (dom m)"
  by (metis distinct_card enumerates_def enumerates_dom length_map set_map)

lemma enumerates_mset:
  assumes "enumerates es m" and "enumerates fs m"
  shows "mset es = mset fs"
proof -
  have "distinct es" "distinct fs"
    using assms by (auto simp: enumerates_def distinct_map)
  moreover have "set es = set fs"
    using enumerates_set [OF assms(1)] enumerates_set [OF assms(2)] by auto
  ultimately show ?thesis by (simp add: set_eq_iff_mset_eq_distinct)
qed

lemma enumerates_exists:
  assumes "finite (dom m)"
  shows "\<exists>es. enumerates es m"
proof -
  obtain ks where ks: "set ks = dom m" "distinct ks"
    using finite_distinct_list [OF assms] by auto
  have "map_of (map (\<lambda>k. (k, the (m k))) ks) = (\<lambda>k. Some (the (m k))) |` dom m"
    unfolding ks(1) [symmetric] by (simp add: map_of_map_restrict o_def)
  also have "\<dots> = m"
  proof
    fix k
    show "((\<lambda>k. Some (the (m k))) |` dom m) k = m k"
      by (cases "m k") (simp_all add: restrict_map_def dom_def)
  qed
  finally have "enumerates (map (\<lambda>k. (k, the (m k))) ks) m"
    using ks(2) by (simp add: enumerates_def o_def)
  then show ?thesis ..
qed

text \<open>A range loop that fills another map under the same keys and returns at the first error.\<close>

fun map_loop :: "('k \<Rightarrow> 'v \<Rightarrow> 'w res) \<Rightarrow> ('k \<times> 'v) list \<Rightarrow> ('k \<rightharpoonup> 'w) \<Rightarrow> ('k \<rightharpoonup> 'w) res" where
  "map_loop f [] acc = Inr acc"
| "map_loop f ((k, v) # es) acc = andThen (f k v) (\<lambda>w. map_loop f es (acc(k \<mapsto> w)))"

lemma map_loop_Inr:
  assumes "\<And>k v. (k, v) \<in> set es \<Longrightarrow> f k v = Inr (g k v)" and "distinct (map fst es)"
  shows "map_loop f es acc = Inr (acc ++ (\<lambda>k. map_option (g k) (map_of es k)))"
  using assms
proof (induction es arbitrary: acc)
  case Nil
  then show ?case by (simp add: map_add_def)
next
  case (Cons e es)
  obtain k v where e: "e = (k, v)" by (cases e)
  from Cons.prems e have "map_of es k = None" by (force simp: map_of_eq_None_iff)
  then have "acc(k \<mapsto> g k v) ++ (\<lambda>k. map_option (g k) (map_of es k)) =
      acc ++ (\<lambda>k'. map_option (g k') (map_of (e # es) k'))"
    by (auto simp: e map_add_def fun_eq_iff split: option.splits)
  with Cons e show ?case by simp
qed

lemma map_loop_enumerates:
  assumes "enumerates es m" and "\<And>k v. m k = Some v \<Longrightarrow> f k v = Inr (g k v)"
  shows "map_loop f es Map.empty = Inr (\<lambda>k. map_option (g k) (m k))"
  using assms map_loop_Inr [of es f g Map.empty] enumerates_set [OF assms(1)]
  by (simp add: enumerates_def map_add_def fun_eq_iff)

lemma map_loop_Inl:
  assumes "(k, v) \<in> set es" and "f k v = Inl e"
  shows "\<exists>e'. map_loop f es acc = Inl e'"
  using assms
proof (induction es arbitrary: acc)
  case Nil
  then show ?case by simp
next
  case (Cons e es)
  then show ?case by (cases e, cases "f (fst e) (snd e)") auto
qed

section \<open>Accumulation by key\<close>

text \<open>
  Several components add values into a map, merging the values that share a key. The locale
  states the contract of one such insertion, over the part of a value that is summed; the lemmas
  give the contents of the map after any sequence of insertions.
\<close>

definition total :: "('m \<Rightarrow> 'm \<Rightarrow> 'm) \<Rightarrow> 'm \<Rightarrow> 'm list \<Rightarrow> 'm" where
  "total merge neutral ms = foldr merge ms neutral"

definition of_key :: "'k \<Rightarrow> ('k \<times> 'v) list \<Rightarrow> 'v list" where
  "of_key k kvs = map snd (filter (\<lambda>kv. fst kv = k) kvs)"

lemma of_key_simps [simp]:
  "of_key k [] = []" "of_key k ((k', v) # kvs) = (if k' = k then v # of_key k kvs else of_key k kvs)"
  "of_key k (kvs @ kvs') = of_key k kvs @ of_key k kvs'"
  by (simp_all add: of_key_def)

lemma mset_of_key: "mset kvs = mset kvs' \<Longrightarrow> mset (of_key k kvs) = mset (of_key k kvs')"
  by (simp add: of_key_def mset_filter)

lemma of_key_eq_Nil: "of_key k kvs = [] \<longleftrightarrow> k \<notin> fst ` set kvs"
  by (auto simp: of_key_def filter_empty_conv)

lemma foldr_mset:
  assumes "\<And>a b c. f a (f b c) = f b (f a c)"
  shows "mset xs = mset ys \<Longrightarrow> foldr f xs z = foldr f ys z"
proof (induction xs arbitrary: ys)
  case Nil
  then show ?case by simp
next
  case (Cons x xs)
  then have "x \<in> set ys" by (metis list.set_intros(1) mset_eq_setD)
  then obtain us vs where ys: "ys = us @ x # vs" by (auto simp: in_set_conv_decomp)
  have mid: "foldr f us (f x c) = f x (foldr f us c)" for c
    by (induction us) (simp_all, metis assms)
  have "foldr f xs z = foldr f (us @ vs) z" using Cons.prems by (intro Cons.IH) (simp add: ys)
  then show ?case by (simp add: ys mid)
qed

locale key_accumulator =
  fixes add :: "'k \<Rightarrow> 'v \<Rightarrow> ('k \<rightharpoonup> 'v) \<Rightarrow> ('k \<rightharpoonup> 'v) res"
    and valid :: "'v \<Rightarrow> bool"
    and summed :: "'v \<Rightarrow> 'm"
    and merge :: "'m \<Rightarrow> 'm \<Rightarrow> 'm"
    and neutral :: 'm
  assumes merge_assoc: "merge (merge a b) c = merge a (merge b c)"
    and merge_commute: "merge a b = merge b a"
    and merge_neutral: "merge neutral a = a"
    and add_new: "m k = None \<Longrightarrow> add k v m = Inr (m(k \<mapsto> v))"
    and add_old: "m k = Some u \<Longrightarrow> valid u \<Longrightarrow> valid v \<Longrightarrow>
      \<exists>w. add k v m = Inr (m(k \<mapsto> w)) \<and> valid w \<and> summed w = merge (summed u) (summed v)"
begin

definition sum_at :: "('k \<rightharpoonup> 'v) \<Rightarrow> 'k \<Rightarrow> 'm" where
  "sum_at m k = (case m k of None \<Rightarrow> neutral | Some v \<Rightarrow> summed v)"

definition valid_map :: "('k \<rightharpoonup> 'v) \<Rightarrow> bool" where
  "valid_map m \<longleftrightarrow> (\<forall>k v. m k = Some v \<longrightarrow> valid v)"

lemma valid_map_empty [simp]: "valid_map Map.empty"
  by (simp add: valid_map_def)

lemma sum_at_empty [simp]: "sum_at Map.empty k = neutral"
  by (simp add: sum_at_def)

lemma merge_left_commute: "merge a (merge b c) = merge b (merge a c)"
  by (metis merge_assoc merge_commute)

lemma total_mset: "mset ms = mset ms' \<Longrightarrow> total merge neutral ms = total merge neutral ms'"
  unfolding total_def by (rule foldr_mset) (rule merge_left_commute)

lemma add_step:
  assumes "valid_map m" and "valid v"
  obtains m' where "add k v m = Inr m'" "valid_map m'" "dom m' = insert k (dom m)"
    "\<And>k'. sum_at m' k' = (if k' = k then merge (sum_at m k) (summed v) else sum_at m k')"
proof (cases "m k")
  case None
  with assms add_new [of m k v] show ?thesis
    by (intro that [of "m(k \<mapsto> v)"]) (auto simp: valid_map_def sum_at_def merge_neutral)
next
  case (Some u)
  with assms obtain w where "add k v m = Inr (m(k \<mapsto> w))" "valid w" "summed w = merge (summed u) (summed v)"
    using add_old [of m k u v] Some by (auto simp: valid_map_def)
  with assms Some show ?thesis
    by (intro that [of "m(k \<mapsto> w)"]) (auto simp: valid_map_def sum_at_def)
qed

lemma add_all_from:
  assumes "valid_map m" and "\<forall>v\<in>snd ` set kvs. valid v"
  shows "\<exists>m'. fold_res (\<lambda>(k, v). add k v) kvs m = Inr m' \<and> valid_map m' \<and> dom m' = dom m \<union> fst ` set kvs \<and>
    (\<forall>k. sum_at m' k = merge (sum_at m k) (total merge neutral (map summed (of_key k kvs))))"
  using assms
proof (induction kvs arbitrary: m)
  case Nil
  then show ?case by (auto simp: total_def merge_neutral merge_commute [of _ neutral])
next
  case (Cons kv kvs)
  obtain k v where kv: "kv = (k, v)" by (cases kv)
  with Cons.prems have "valid v" by simp
  then obtain m1 where m1: "add k v m = Inr m1" "valid_map m1" "dom m1 = insert k (dom m)"
    "\<And>k'. sum_at m1 k' = (if k' = k then merge (sum_at m k) (summed v) else sum_at m k')"
    using add_step [OF Cons.prems(1), of v k] by metis
  obtain m' where m': "fold_res (\<lambda>(k, v). add k v) kvs m1 = Inr m'" "valid_map m'" "dom m' = dom m1 \<union> fst ` set kvs"
    "\<And>k. sum_at m' k = merge (sum_at m1 k) (total merge neutral (map summed (of_key k kvs)))"
    using Cons.IH [OF m1(2)] Cons.prems by auto
  then show ?case by (intro exI [of _ m']) (auto simp: kv m1 total_def merge_assoc)
qed

lemma add_all:
  assumes "\<forall>v\<in>snd ` set kvs. valid v"
  obtains m where "fold_res (\<lambda>(k, v). add k v) kvs Map.empty = Inr m" "valid_map m" "dom m = fst ` set kvs"
    "\<And>k. sum_at m k = total merge neutral (map summed (of_key k kvs))"
  using add_all_from [of Map.empty kvs] assms by (auto simp: merge_neutral)

lemma add_all_order:
  assumes "\<forall>v\<in>snd ` set kvs. valid v" and "mset kvs = mset kvs'"
    and "fold_res (\<lambda>(k, v). add k v) kvs Map.empty = Inr m" and "fold_res (\<lambda>(k, v). add k v) kvs' Map.empty = Inr m'"
  shows "dom m = dom m'" "sum_at m k = sum_at m' k"
proof -
  have s: "set kvs = set kvs'" using assms(2) by (rule mset_eq_setD)
  show "dom m = dom m'"
    using add_all [of kvs] add_all [of kvs'] assms s by (metis sum.inject(2))
  have "total merge neutral (map summed (of_key k kvs)) = total merge neutral (map summed (of_key k kvs'))"
    using mset_of_key [OF assms(2), of k] by (intro total_mset) (simp add: mset_map)
  then show "sum_at m k = sum_at m' k"
    using add_all [of kvs] add_all [of kvs'] assms s by (metis sum.inject(2))
qed

end

end
