(* ===== verification/Suite.thy ===== *)
theory Suite
  imports Prelude "HOL-Library.Numeral_Type"
begin

text \<open>
  The cryptographic suite of lib/suite.go: SuiTe is suites.MustFind("Ed25519") of
  go.dedis.ch/kyber/v3, a package that is not part of the repository. The model takes it as a
  record of operations, one field per kyber method that UnLynx calls. What UnLynx relies on is
  kyber's documented contract, stated as the assumptions of the locale kyber_suite: points form
  a commutative group on which scalars act as a commutative ring, MarshalBinary and
  UnmarshalBinary are inverse on encodings of PointLen bytes, and String prints that encoding in
  hexadecimal. Points are the elements of the prime-order subgroup generated by the base point.

  The theory closes with an instance of the contract: the subgroup of Ed25519 written
  additively by discrete logarithms modulo the group order, with 32-byte little-endian
  encodings. Every hypothesis kyber_suite S of the development is discharged there.
\<close>

section \<open>The operations of kyber that UnLynx calls\<close>

record ('s, 'p) suite =
  Point_Null :: 'p                                  \<comment> \<open>SuiTe.Point().Null()\<close>
  Point_Base :: 'p                                  \<comment> \<open>SuiTe.Point().Base()\<close>
  Point_Add :: "'p \<Rightarrow> 'p \<Rightarrow> 'p"
  Point_Sub :: "'p \<Rightarrow> 'p \<Rightarrow> 'p"
  Point_Neg :: "'p \<Rightarrow> 'p"
  Point_Mul :: "'s \<Rightarrow> 'p \<Rightarrow> 'p"
  Point_Equal :: "'p \<Rightarrow> 'p \<Rightarrow> bool"
  Point_String :: "'p \<Rightarrow> string"
  Point_MarshalBinary :: "'p \<Rightarrow> byte list res"
  Point_UnmarshalBinary :: "byte list \<Rightarrow> 'p res"
  PointLen :: nat
  Scalar_Zero :: 's
  Scalar_One :: 's
  Scalar_Add :: "'s \<Rightarrow> 's \<Rightarrow> 's"
  Scalar_Sub :: "'s \<Rightarrow> 's \<Rightarrow> 's"
  Scalar_Neg :: "'s \<Rightarrow> 's"
  Scalar_Mul :: "'s \<Rightarrow> 's \<Rightarrow> 's"
  Scalar_SetInt64 :: "int64 \<Rightarrow> 's"
  Scalar_MarshalBinary :: "'s \<Rightarrow> byte list res"
  Scalar_UnmarshalBinary :: "byte list \<Rightarrow> 's res"
  ScalarLen :: nat
  XOF_Pick :: "byte list \<Rightarrow> byte list list \<Rightarrow> 's"     \<comment> \<open>Scalar().Pick of XOF(seed) after the given Writes\<close>

locale kyber_suite =
  fixes S :: "('s, 'p) suite"
  assumes point_add_assoc: "Point_Add S (Point_Add S P Q) R = Point_Add S P (Point_Add S Q R)"
    and point_add_commute: "Point_Add S P Q = Point_Add S Q P"
    and point_add_null: "Point_Add S (Point_Null S) P = P"
    and point_neg: "Point_Add S (Point_Neg S P) P = Point_Null S"
    and point_sub: "Point_Sub S P Q = Point_Add S P (Point_Neg S Q)"
    and scalar_add_assoc: "Scalar_Add S (Scalar_Add S a b) c = Scalar_Add S a (Scalar_Add S b c)"
    and scalar_add_commute: "Scalar_Add S a b = Scalar_Add S b a"
    and scalar_add_zero: "Scalar_Add S (Scalar_Zero S) a = a"
    and scalar_neg: "Scalar_Add S (Scalar_Neg S a) a = Scalar_Zero S"
    and scalar_sub: "Scalar_Sub S a b = Scalar_Add S a (Scalar_Neg S b)"
    and scalar_mul_assoc: "Scalar_Mul S (Scalar_Mul S a b) c = Scalar_Mul S a (Scalar_Mul S b c)"
    and scalar_mul_commute: "Scalar_Mul S a b = Scalar_Mul S b a"
    and scalar_mul_one: "Scalar_Mul S (Scalar_One S) a = a"
    and scalar_distrib: "Scalar_Mul S (Scalar_Add S a b) c = Scalar_Add S (Scalar_Mul S a c) (Scalar_Mul S b c)"
    and scalar_zero_neq_one: "Scalar_Zero S \<noteq> Scalar_One S"
    and mul_point_add: "Point_Mul S a (Point_Add S P Q) = Point_Add S (Point_Mul S a P) (Point_Mul S a Q)"
    and mul_scalar_add: "Point_Mul S (Scalar_Add S a b) P = Point_Add S (Point_Mul S a P) (Point_Mul S b P)"
    and mul_mul: "Point_Mul S a (Point_Mul S b P) = Point_Mul S (Scalar_Mul S a b) P"
    and mul_one: "Point_Mul S (Scalar_One S) P = P"
    and set_int_one: "Scalar_SetInt64 S 1 = Scalar_One S"
    and set_int_add: "sint (i + j) = sint i + sint j \<Longrightarrow>
      Scalar_SetInt64 S (i + j) = Scalar_Add S (Scalar_SetInt64 S i) (Scalar_SetInt64 S j)"
    and base_injective: "Point_Mul S (Scalar_SetInt64 S i) (Point_Base S) = Point_Mul S (Scalar_SetInt64 S j) (Point_Base S) \<Longrightarrow> i = j"
    and point_equal: "Point_Equal S P Q \<longleftrightarrow> P = Q"
    and point_string_inject: "Point_String S P = Point_String S Q \<longleftrightarrow> P = Q"
    and point_string_length: "length (Point_String S P) = 2 * PointLen S"
    and point_string_hex: "set (Point_String S P) \<subseteq> set ''0123456789abcdef''"
    and point_len_pos: "0 < PointLen S"
    and point_marshal: "\<exists>enc. Point_MarshalBinary S P = Inr enc \<and> length enc = PointLen S \<and> Point_UnmarshalBinary S enc = Inr P"
    and point_unmarshal_err: "Point_UnmarshalBinary S enc \<noteq> Inl Panic"
    and point_unmarshal_len: "Point_UnmarshalBinary S enc = Inr P \<Longrightarrow> length enc = PointLen S"
    and scalar_marshal: "\<exists>enc. Scalar_MarshalBinary S a = Inr enc \<and> length enc = ScalarLen S \<and> Scalar_UnmarshalBinary S enc = Inr a"
    and scalar_len_pos: "0 < ScalarLen S"
begin

sublocale pt: ab_group_add "Point_Add S" "Point_Null S" "Point_Sub S" "Point_Neg S"
  by unfold_locales
    (metis point_add_assoc point_add_commute point_add_null point_neg point_sub)+

sublocale sc: ab_group_add "Scalar_Add S" "Scalar_Zero S" "Scalar_Sub S" "Scalar_Neg S"
  by unfold_locales
    (metis scalar_add_assoc scalar_add_zero scalar_neg scalar_sub scalar_add_commute)+

lemma scalar_mul_left_commute: "Scalar_Mul S a (Scalar_Mul S b c) = Scalar_Mul S b (Scalar_Mul S a c)"
  by (metis scalar_mul_assoc scalar_mul_commute)

lemma mul_null [simp]: "Point_Mul S a (Point_Null S) = Point_Null S"
  by (metis mul_point_add pt.add_cancel_right_right pt.add_0_left)

lemma mul_zero [simp]: "Point_Mul S (Scalar_Zero S) P = Point_Null S"
  by (metis mul_scalar_add pt.add_cancel_right_right sc.add_0_left)

lemma mul_neg: "Point_Mul S a (Point_Neg S P) = Point_Neg S (Point_Mul S a P)"
proof -
  have "Point_Add S (Point_Mul S a (Point_Neg S P)) (Point_Mul S a P) = Point_Null S"
    by (simp add: mul_point_add [symmetric])
  then show ?thesis by (simp add: pt.eq_neg_iff_add_eq_0)
qed

lemma mul_scalar_neg: "Point_Mul S (Scalar_Neg S a) P = Point_Neg S (Point_Mul S a P)"
proof -
  have "Point_Add S (Point_Mul S (Scalar_Neg S a) P) (Point_Mul S a P) = Point_Null S"
    by (simp add: mul_scalar_add [symmetric])
  then show ?thesis by (simp add: pt.eq_neg_iff_add_eq_0)
qed

lemma mul_sub: "Point_Mul S a (Point_Sub S P Q) = Point_Sub S (Point_Mul S a P) (Point_Mul S a Q)"
  unfolding point_sub by (simp only: mul_point_add mul_neg)

lemma mul_scalar_sub: "Point_Mul S (Scalar_Sub S a b) P = Point_Sub S (Point_Mul S a P) (Point_Mul S b P)"
  unfolding scalar_sub point_sub by (simp only: mul_scalar_add mul_scalar_neg)

lemma mul_commute: "Point_Mul S a (Point_Mul S b P) = Point_Mul S b (Point_Mul S a P)"
  by (simp add: mul_mul scalar_mul_commute)

lemmas mul_linear = mul_point_add mul_scalar_add mul_mul mul_neg mul_scalar_neg
lemmas pt_ac = pt.add.assoc pt.add.commute pt.add.left_commute
lemmas sc_ac = scalar_mul_assoc scalar_mul_commute scalar_mul_left_commute

lemma pt_cancel [simp]:
  "Point_Sub S (Point_Add S P Q) P = Q" "Point_Sub S (Point_Add S P Q) Q = P"
  "Point_Add S P (Point_Sub S Q P) = Q" "Point_Add S (Point_Sub S Q P) P = Q"
  by (simp_all add: algebra_simps)

lemma marshal_ex: obtains b where "Point_MarshalBinary S P = Inr b" "length b = PointLen S" "Point_UnmarshalBinary S b = Inr P"
  using point_marshal by blast

lemma set_int_zero [simp]: "Scalar_SetInt64 S 0 = Scalar_Zero S"
  using set_int_add [of 0 0] by simp

lemma set_int_neg:
  assumes "sint (- i) = - sint i"
  shows "Scalar_SetInt64 S (- i) = Scalar_Neg S (Scalar_SetInt64 S i)"
  using set_int_add [of i "- i"] assms by (simp add: sc.eq_neg_iff_add_eq_0 sc.add.commute)

end

section \<open>The subgroup of Ed25519 by discrete logarithms\<close>

text \<open>
  The subgroup generated by the Ed25519 base point is cyclic of the prime order
  2^252 + 27742317777372353535851937790883648493, so it is isomorphic to the integers modulo that
  number, the base point being 1. Encodings are 32 bytes, little endian.
\<close>

type_synonym ed_l = "7237005577332262213973186563042994240857116359379907606001950938285454250989"

fun le_bytes :: "nat \<Rightarrow> int \<Rightarrow> byte list" where
  "le_bytes 0 v = []"
| "le_bytes (Suc n) v = word_of_int v # le_bytes n (v div 256)"

fun le_val :: "byte list \<Rightarrow> int" where
  "le_val [] = 0"
| "le_val (b # bs) = uint b + 256 * le_val bs"

definition hex_byte :: "byte \<Rightarrow> string" where
  "hex_byte b = [''0123456789abcdef'' ! (unat b div 16), ''0123456789abcdef'' ! (unat b mod 16)]"

definition ed_encode :: "ed_l \<Rightarrow> byte list" where
  "ed_encode x = le_bytes 32 (Rep_bit1 x)"

definition ed_decode :: "byte list \<Rightarrow> ed_l res" where
  "ed_decode bs =
     (if length bs = 32 \<and> le_val bs < int CARD(ed_l) then Inr (of_int (le_val bs))
      else Inl (Err ''invalid Ed25519 curve point''))"

definition ed25519 :: "(ed_l, ed_l) suite" where
  "ed25519 = \<lparr>
     Point_Null = 0, Point_Base = 1, Point_Add = (+), Point_Sub = (-), Point_Neg = uminus,
     Point_Mul = (*), Point_Equal = (=),
     Point_String = (\<lambda>x. concat (map hex_byte (ed_encode x))),
     Point_MarshalBinary = (\<lambda>x. Inr (ed_encode x)), Point_UnmarshalBinary = ed_decode, PointLen = 32,
     Scalar_Zero = 0, Scalar_One = 1, Scalar_Add = (+), Scalar_Sub = (-), Scalar_Neg = uminus,
     Scalar_Mul = (*), Scalar_SetInt64 = (\<lambda>i. of_int (sint i)),
     Scalar_MarshalBinary = (\<lambda>x. Inr (ed_encode x)), Scalar_UnmarshalBinary = ed_decode, ScalarLen = 32,
     XOF_Pick = (\<lambda>seed ws. of_int (le_val (seed @ concat ws)))\<rparr>"

lemma length_le_bytes [simp]: "length (le_bytes n v) = n"
  by (induction n arbitrary: v) simp_all

lemma le_val_le_bytes: "0 \<le> v \<Longrightarrow> v < 256 ^ n \<Longrightarrow> le_val (le_bytes n v) = v"
proof (induction n arbitrary: v)
  case 0
  then show ?case by simp
next
  case (Suc n)
  from Suc.prems have "le_val (le_bytes n (v div 256)) = v div 256"
    by (intro Suc.IH) (auto simp: pos_imp_zdiv_nonneg_iff div_less_iff_less_mult mult.commute)
  then show ?case by (simp add: uint_word_of_int)
qed

lemma ed_rep_bounds: "0 \<le> Rep_bit1 (x :: ed_l)" "Rep_bit1 (x :: ed_l) < int CARD(ed_l)"
  using bit1.Rep_less_n [of x] Rep_bit1 [of x] by simp_all

lemma ed_rep_of_int: "Rep_bit1 (of_int z :: ed_l) = z mod int CARD(ed_l)"
  by (simp only: bit1.of_int_eq bit1.Rep_Abs_mod)

lemma ed_of_int_rep: "of_int (Rep_bit1 x) = (x :: ed_l)"
  using ed_rep_of_int [of "Rep_bit1 x"] unfolding bit1.Rep_mod by (simp only: Rep_bit1_inject)

lemma ed_encode_le_val: "le_val (ed_encode x) = Rep_bit1 x"
  unfolding ed_encode_def using ed_rep_bounds [of x] by (intro le_val_le_bytes) simp_all

lemma ed_decode_encode: "ed_decode (ed_encode x) = Inr x"
  using ed_rep_bounds [of x] ed_encode_le_val [of x]
  by (simp add: ed_decode_def ed_of_int_rep) (simp add: ed_encode_def)

lemma ed_of_sint_inject:
  fixes i j :: int64
  shows "(of_int (sint i) :: ed_l) = of_int (sint j) \<longleftrightarrow> i = j"
proof
  assume "(of_int (sint i) :: ed_l) = of_int (sint j)"
  then have "sint i mod int CARD(ed_l) = sint j mod int CARD(ed_l)"
    by (metis ed_rep_of_int)
  then have "int CARD(ed_l) dvd sint i - sint j" by (simp only: mod_eq_dvd_iff)
  moreover have "\<bar>sint i - sint j\<bar> < int CARD(ed_l)"
    using sint_range_size [of i] sint_range_size [of j] by (simp add: word_size abs_less_iff)
  ultimately have "sint i - sint j = 0"
    by (metis dvd_imp_le_int abs_of_nat linorder_not_less)
  then show "i = j" by (simp add: signed_word_eqI)
qed simp

lemma hex_digit_inject:
  "m < 16 \<Longrightarrow> n < 16 \<Longrightarrow> ''0123456789abcdef'' ! m = ''0123456789abcdef'' ! n \<longleftrightarrow> m = n"
  by (rule nth_eq_iff_index_eq) simp_all

lemma hex_byte_inject [simp]: "hex_byte a = hex_byte b \<longleftrightarrow> a = b"
proof
  assume h: "hex_byte a = hex_byte b"
  have "unat a < 256" "unat b < 256"
    using unsigned_less [of a] unsigned_less [of b] by simp_all
  with h have "unat a div 16 = unat b div 16" "unat a mod 16 = unat b mod 16"
    by (simp_all add: hex_byte_def hex_digit_inject div_less_iff_less_mult del: nth_Cons_numeral)
  then have "unat a = unat b" by (metis div_mult_mod_eq)
  then show "a = b" by (simp add: word_unat_eq_iff)
qed simp

lemma concat_hex_inject:
  "length xs = length ys \<Longrightarrow> concat (map hex_byte xs) = concat (map hex_byte ys) \<longleftrightarrow> xs = ys"
proof (induction xs ys rule: list_induct2)
  case Nil
  then show ?case by simp
next
  case (Cons x xs y ys)
  have "length (hex_byte x) = length (hex_byte y)" by (simp add: hex_byte_def)
  with Cons show ?case by (simp add: append_eq_append_conv)
qed

lemma set_hex_byte: "set (hex_byte b) \<subseteq> set ''0123456789abcdef''"
proof -
  have "unat b < 256" using unsigned_less [of b] by simp
  then have "unat b div 16 < length ''0123456789abcdef''" "unat b mod 16 < length ''0123456789abcdef''"
    by (simp_all add: div_less_iff_less_mult)
  then show ?thesis unfolding hex_byte_def by (metis empty_set insert_subset list.simps(15) nth_mem empty_subsetI)
qed

lemma ed_string:
  "length (concat (map hex_byte (ed_encode x))) = 64"
  "set (concat (map hex_byte (ed_encode x))) \<subseteq> set ''0123456789abcdef''"
  "concat (map hex_byte (ed_encode x)) = concat (map hex_byte (ed_encode y)) \<longleftrightarrow> x = y"
proof -
  have "length (concat (map hex_byte bs)) = 2 * length bs" for bs
    by (induction bs) (simp_all add: hex_byte_def)
  then show "length (concat (map hex_byte (ed_encode x))) = 64" by (simp add: ed_encode_def)
  show "set (concat (map hex_byte (ed_encode x))) \<subseteq> set ''0123456789abcdef''"
    using set_hex_byte by fastforce
  have "ed_encode x = ed_encode y \<longleftrightarrow> x = y" by (metis ed_decode_encode sum.inject(2))
  then show "concat (map hex_byte (ed_encode x)) = concat (map hex_byte (ed_encode y)) \<longleftrightarrow> x = y"
    using concat_hex_inject [of "ed_encode x" "ed_encode y"] by (simp add: ed_encode_def)
qed

lemma ed_decode_cases: "ed_decode bs = Inr P \<Longrightarrow> length bs = 32" "ed_decode bs \<noteq> Inl Panic"
  by (auto simp: ed_decode_def split: if_splits)

named_theorems ed_simps "the operations of the model group"

lemma ed25519_sel [ed_simps]:
  "Point_Null ed25519 = 0" "Point_Base ed25519 = 1" "Point_Add ed25519 = (+)" "Point_Sub ed25519 = (-)"
  "Point_Neg ed25519 = uminus" "Point_Mul ed25519 = (*)" "Point_Equal ed25519 = (=)"
  "Point_String ed25519 = (\<lambda>x. concat (map hex_byte (ed_encode x)))"
  "Point_MarshalBinary ed25519 = (\<lambda>x. Inr (ed_encode x))" "Point_UnmarshalBinary ed25519 = ed_decode"
  "PointLen ed25519 = 32" "Scalar_Zero ed25519 = 0" "Scalar_One ed25519 = 1" "Scalar_Add ed25519 = (+)"
  "Scalar_Sub ed25519 = (-)" "Scalar_Neg ed25519 = uminus" "Scalar_Mul ed25519 = (*)"
  "Scalar_SetInt64 ed25519 = (\<lambda>i. of_int (sint i))"
  "Scalar_MarshalBinary ed25519 = (\<lambda>x. Inr (ed_encode x))" "Scalar_UnmarshalBinary ed25519 = ed_decode"
  "ScalarLen ed25519 = 32" "XOF_Pick ed25519 = (\<lambda>seed ws. of_int (le_val (seed @ concat ws)))"
  by (simp_all add: ed25519_def)

interpretation ed: kyber_suite ed25519
proof (unfold_locales, goal_cases)
  case (21 i j)
  then show ?case unfolding ed_simps by (simp only: of_int_add)
next
  case (22 i j)
  then show ?case unfolding ed_simps mult_1_right by (simp only: ed_of_sint_inject)
next
  case 26
  show ?case unfolding ed_simps by (rule ed_string(2))
next
  case 28
  show ?case by (simp add: ed_simps ed_decode_encode) (simp add: ed_encode_def)
next
  case 29
  show ?case unfolding ed_simps by (rule ed_decode_cases(2))
next
  case 30
  then show ?case unfolding ed_simps by (rule ed_decode_cases(1))
next
  case 31
  show ?case by (simp add: ed_simps ed_decode_encode) (simp add: ed_encode_def)
qed (simp_all add: ed_simps algebra_simps ed_string(1) ed_string(3))

end
