(* ===== verification/Crypto.thy ===== *)
theory Crypto
  imports Suite
begin

text \<open>
  lib/crypto.go: ElGamal ciphertexts over the suite, their vectors, key pairs, encryption,
  the homomorphic operations, and the random permutation used by the shuffle. Random choices
  (Pick(random.New())) are arguments: a function from the position of the choice to the scalar
  or integer that was drawn, so a theorem about all such functions holds for every outcome.
  Decryption to integers is in DiscreteLog, byte encodings are in Marshal.
\<close>

section \<open>Constants and types\<close>

definition VPARALLELIZE :: nat where
  "VPARALLELIZE = 100"

lemma VPARALLELIZE_pos [simp]: "0 < VPARALLELIZE"
  by (simp add: VPARALLELIZE_def)

record 'p CipherText =
  ctK :: 'p
  ctC :: 'p

type_synonym 'p CipherVector = "'p CipherText list"

datatype 'p DeterministCipherText = DeterministCipherText (Point: 'p)

type_synonym 'p DeterministCipherVector = "'p DeterministCipherText list"
type_synonym GroupingKey = string

record 'p PublishedSimpleAdditionProof =
  C1 :: "'p CipherVector"
  C2 :: "'p CipherVector"
  C1PlusC2 :: "'p CipherVector"

section \<open>Constructors and key pairs\<close>

definition NewCipherText :: "('s, 'p) suite \<Rightarrow> 'p CipherText" where
  "NewCipherText S = \<lparr>ctK = Point_Null S, ctC = Point_Null S\<rparr>"

definition NewCipherVector :: "('s, 'p) suite \<Rightarrow> nat \<Rightarrow> 'p CipherVector" where
  "NewCipherVector S len = map (\<lambda>_. NewCipherText S) [0..<len]"

definition NewDeterministicCipherText :: "('s, 'p) suite \<Rightarrow> 'p DeterministCipherText" where
  "NewDeterministicCipherText S = DeterministCipherText (Point_Null S)"

definition NewDeterministicCipherVector :: "('s, 'p) suite \<Rightarrow> nat \<Rightarrow> 'p DeterministCipherVector" where
  "NewDeterministicCipherVector S len = map (\<lambda>_. NewDeterministicCipherText S) [0..<len]"

text \<open>The private scalar of a fresh key pair is the random choice; key.NewKeyPair computes its public point.\<close>

definition GenKey :: "('s, 'p) suite \<Rightarrow> 's \<Rightarrow> 's \<times> 'p" where
  "GenKey S priv = (priv, Point_Mul S priv (Point_Base S))"

fun GenKeys_loop :: "('s, 'p) suite \<Rightarrow> (nat \<Rightarrow> 's) \<Rightarrow> nat list \<Rightarrow> 'p \<times> 's list \<times> 'p list \<Rightarrow> 'p \<times> 's list \<times> 'p list" where
  "GenKeys_loop S picks [] st = st"
| "GenKeys_loop S picks (i # is) (grp, priv, pub) =
     (let (a, A) = GenKey S (picks i) in GenKeys_loop S picks is (Point_Add S grp A, priv @ [a], pub @ [A]))"

definition GenKeys :: "('s, 'p) suite \<Rightarrow> (nat \<Rightarrow> 's) \<Rightarrow> nat \<Rightarrow> 'p \<times> 's list \<times> 'p list" where
  "GenKeys S picks n = GenKeys_loop S picks [0..<n] (Point_Null S, [], [])"

text \<open>
  SplitScalar subtracts in place: the receiver of Sub is the caller's rootScalar, so the second
  component is the value the caller's scalar holds after the call.
\<close>

fun SplitScalar_loop :: "('s, 'p) suite \<Rightarrow> (nat \<Rightarrow> 's) \<Rightarrow> nat list \<Rightarrow> 's list \<times> 's \<Rightarrow> 's list \<times> 's" where
  "SplitScalar_loop S picks [] st = st"
| "SplitScalar_loop S picks (i # is) (acc, rest) =
     SplitScalar_loop S picks is (acc @ [picks i], Scalar_Sub S rest (picks i))"

definition SplitScalar :: "('s, 'p) suite \<Rightarrow> (nat \<Rightarrow> 's) \<Rightarrow> 's \<Rightarrow> nat \<Rightarrow> 's list \<times> 's" where
  "SplitScalar S picks rootScalar nbrSplits =
     (let (allScalars, rest) = SplitScalar_loop S picks [0..<nbrSplits] ([], rootScalar)
      in (allScalars @ [rest], rest))"

section \<open>Encryption\<close>

definition encryptPoint :: "('s, 'p) suite \<Rightarrow> 'p \<Rightarrow> 'p \<Rightarrow> 's \<Rightarrow> 'p CipherText \<times> 's" where
  "encryptPoint S pubkey M r =
     (let B = Point_Base S;
          K = Point_Mul S r B;
          Sh = Point_Mul S r pubkey;
          C = Point_Add S Sh M
      in (\<lparr>ctK = K, ctC = C\<rparr>, r))"

definition IntToPoint :: "('s, 'p) suite \<Rightarrow> int64 \<Rightarrow> 'p" where
  "IntToPoint S integer = (let B = Point_Base S; i = Scalar_SetInt64 S integer in Point_Mul S i B)"

definition PointToCipherText :: "('s, 'p) suite \<Rightarrow> 'p \<Rightarrow> 'p CipherText" where
  "PointToCipherText S point = \<lparr>ctK = Point_Null S, ctC = point\<rparr>"

definition IntToCipherText :: "('s, 'p) suite \<Rightarrow> int64 \<Rightarrow> 'p CipherText" where
  "IntToCipherText S integer = PointToCipherText S (IntToPoint S integer)"

definition IntArrayToCipherVector :: "('s, 'p) suite \<Rightarrow> int64 list \<Rightarrow> 'p CipherVector" where
  "IntArrayToCipherVector S integers = map (\<lambda>v. PointToCipherText S (IntToPoint S v)) integers"

definition EncryptInt :: "('s, 'p) suite \<Rightarrow> 'p \<Rightarrow> int64 \<Rightarrow> 's \<Rightarrow> 'p CipherText" where
  "EncryptInt S pubkey integer r = fst (encryptPoint S pubkey (IntToPoint S integer) r)"

definition EncryptIntGetR :: "('s, 'p) suite \<Rightarrow> 'p \<Rightarrow> int64 \<Rightarrow> 's \<Rightarrow> 'p CipherText \<times> 's" where
  "EncryptIntGetR S pubkey integer r = encryptPoint S pubkey (IntToPoint S integer) r"

definition EncryptScalar :: "('s, 'p) suite \<Rightarrow> 'p \<Rightarrow> 's \<Rightarrow> 's \<Rightarrow> 'p CipherText" where
  "EncryptScalar S pubkey scalar r = fst (encryptPoint S pubkey (Point_Mul S scalar (Point_Base S)) r)"

definition EncryptIntVector :: "('s, 'p) suite \<Rightarrow> 'p \<Rightarrow> int64 list \<Rightarrow> (nat \<Rightarrow> 's) \<Rightarrow> 'p CipherVector" where
  "EncryptIntVector S pubkey intArray picks =
     par_map VPARALLELIZE (length intArray) (\<lambda>i. EncryptInt S pubkey (intArray ! i) (picks i))
       (NewCipherVector S (length intArray))"

definition EncryptIntVectorGetRs :: "('s, 'p) suite \<Rightarrow> 'p \<Rightarrow> int64 list \<Rightarrow> (nat \<Rightarrow> 's) \<Rightarrow> 'p CipherVector \<times> 's list" where
  "EncryptIntVectorGetRs S pubkey intArray picks =
     (let n = length intArray; enc = (\<lambda>i. EncryptIntGetR S pubkey (intArray ! i) (picks i))
      in (par_map VPARALLELIZE n (\<lambda>i. fst (enc i)) (NewCipherVector S n),
          par_map VPARALLELIZE n (\<lambda>i. snd (enc i)) (map (\<lambda>_. Scalar_Zero S) [0..<n])))"

definition EncryptScalarVector :: "('s, 'p) suite \<Rightarrow> 'p \<Rightarrow> 's list \<Rightarrow> (nat \<Rightarrow> 's) \<Rightarrow> 'p CipherVector" where
  "EncryptScalarVector S pubkey intArray picks =
     par_map VPARALLELIZE (length intArray) (\<lambda>i. EncryptScalar S pubkey (intArray ! i) (picks i))
       (NewCipherVector S (length intArray))"

definition NullCipherVector :: "('s, 'p) suite \<Rightarrow> nat \<Rightarrow> 'p \<Rightarrow> (nat \<Rightarrow> 's) \<Rightarrow> 'p CipherVector" where
  "NullCipherVector S len pubkey picks = EncryptIntVector S pubkey (replicate len 0) picks"

section \<open>Decryption to points\<close>

definition decryptPoint :: "('s, 'p) suite \<Rightarrow> 's \<Rightarrow> 'p CipherText \<Rightarrow> 'p" where
  "decryptPoint S prikey c =
     (let Sh = Point_Mul S prikey (ctK c); M = Point_Sub S (ctC c) Sh in M)"

definition DecryptCheckZero :: "('s, 'p) suite \<Rightarrow> 's \<Rightarrow> 'p CipherText \<Rightarrow> int64" where
  "DecryptCheckZero S prikey cipher =
     (let M = decryptPoint S prikey cipher in if Point_Equal S M (Point_Null S) then 0 else 1)"

definition DecryptCheckZeroVector :: "('s, 'p) suite \<Rightarrow> 's \<Rightarrow> 'p CipherVector \<Rightarrow> int64 list" where
  "DecryptCheckZeroVector S prikey cv = map (DecryptCheckZero S prikey) cv"

section \<open>Homomorphic operations\<close>

text \<open>The method stores the result in its receiver; the model returns the receiver's new value.\<close>

definition ct_Add :: "('s, 'p) suite \<Rightarrow> 'p CipherText \<Rightarrow> 'p CipherText \<Rightarrow> 'p CipherText" where
  "ct_Add S c1 c2 = \<lparr>ctK = Point_Add S (ctK c1) (ctK c2), ctC = Point_Add S (ctC c1) (ctC c2)\<rparr>"

definition MulCipherTextbyScalar :: "('s, 'p) suite \<Rightarrow> 'p CipherText \<Rightarrow> 's \<Rightarrow> 'p CipherText" where
  "MulCipherTextbyScalar S cMul a = \<lparr>ctK = Point_Mul S a (ctK cMul), ctC = Point_Mul S a (ctC cMul)\<rparr>"

definition ct_Sub :: "('s, 'p) suite \<Rightarrow> 'p CipherText \<Rightarrow> 'p CipherText \<Rightarrow> 'p CipherText" where
  "ct_Sub S c1 c2 = \<lparr>ctK = Point_Sub S (ctK c1) (ctK c2), ctC = Point_Sub S (ctC c1) (ctC c2)\<rparr>"

definition ct_Equal :: "('s, 'p) suite \<Rightarrow> 'p CipherText \<Rightarrow> 'p CipherText \<Rightarrow> bool" where
  "ct_Equal S c c2 \<longleftrightarrow> Point_Equal S (ctK c2) (ctK c) \<and> Point_Equal S (ctC c2) (ctC c)"

text \<open>
  The vector operations index all three slices by the positions of cv1, so they panic when cv2 or
  the receiver cv is shorter than cv1.
\<close>

definition cv_Add :: "('s, 'p) suite \<Rightarrow> 'p CipherVector \<Rightarrow> 'p CipherVector \<Rightarrow> 'p CipherVector \<Rightarrow> 'p CipherVector res" where
  "cv_Add S cv cv1 cv2 =
     par_fill VPARALLELIZE (length cv1)
       (\<lambda>i. andThen (index_at cv2 i) (\<lambda>c2. Inr (ct_Add S (cv1 ! i) c2))) cv"

definition cv_Sub :: "('s, 'p) suite \<Rightarrow> 'p CipherVector \<Rightarrow> 'p CipherVector \<Rightarrow> 'p CipherVector \<Rightarrow> 'p CipherVector res" where
  "cv_Sub S cv cv1 cv2 =
     fold_res (\<lambda>i cv. andThen (index_at cv2 i) (\<lambda>c2. store_at cv i (ct_Sub S (cv1 ! i) c2))) [0..<length cv1] cv"

definition cv_Equal :: "('s, 'p) suite \<Rightarrow> 'p CipherVector option \<Rightarrow> 'p CipherVector option \<Rightarrow> bool" where
  \<comment> \<open>None is a nil *CipherVector; the loop leaves at the first differing element.\<close>
  "cv_Equal S cv cv2 =
     (case (cv, cv2) of
        (Some v, Some v2) \<Rightarrow>
          (if length v \<noteq> length v2 then False
           else list_all (\<lambda>i. ct_Equal S (v ! i) (v2 ! i)) [0..<length v2])
      | _ \<Rightarrow> cv = None \<and> cv2 = None)"

definition Acum :: "('s, 'p) suite \<Rightarrow> 'p CipherVector \<Rightarrow> 'p CipherText res" where
  "Acum S cv =
     andThen (index_at cv 0)
       (\<lambda>first. Inr (fold (\<lambda>i acum. ct_Add S acum (cv ! i)) [1..<length cv] first))"

section \<open>Representation\<close>

definition dct_Equal :: "('s, 'p) suite \<Rightarrow> 'p DeterministCipherText \<Rightarrow> 'p DeterministCipherText \<Rightarrow> bool" where
  "dct_Equal S dc dc2 \<longleftrightarrow> Point_Equal S (Point dc2) (Point dc)"

definition dcv_Equal :: "('s, 'p) suite \<Rightarrow> 'p DeterministCipherVector option \<Rightarrow> 'p DeterministCipherVector option \<Rightarrow> bool" where
  "dcv_Equal S dcv dcv2 =
     (case (dcv, dcv2) of
        (Some v, Some v2) \<Rightarrow>
          (if length v \<noteq> length v2 then False
           else list_all (\<lambda>i. dct_Equal S (v ! i) (v2 ! i)) [0..<length v2])
      | _ \<Rightarrow> dcv = None \<and> dcv2 = None)"

definition dct_String :: "('s, 'p) suite \<Rightarrow> 'p DeterministCipherText \<Rightarrow> string" where
  "dct_String S dc = Point_String S (Point dc)"

definition dcv_Key :: "('s, 'p) suite \<Rightarrow> 'p DeterministCipherVector \<Rightarrow> GroupingKey" where
  "dcv_Key S dcv = concat (map (dct_String S) dcv)"

definition ct_String :: "('s, 'p) suite \<Rightarrow> 'p CipherText \<Rightarrow> string res" where
  "ct_String S c =
     andThen (slice (Point_String S (ctC c)) 1 7) (\<lambda>cstr.
     andThen (slice (Point_String S (ctK c)) 1 7) (\<lambda>kstr.
     Inr (''CipherText{'' @ kstr @ '','' @ cstr @ ''}'')))"

section \<open>Random slices and permutations\<close>

definition RandomScalarSlice :: "(nat \<Rightarrow> 's) \<Rightarrow> nat \<Rightarrow> 's list" where
  "RandomScalarSlice picks k = map picks [0..<k]"

text \<open>The swaps of RandomPermutation, from i = k - 1 down to 1; draw i is the random integer of that turn.\<close>

fun RandomPermutation_loop :: "(nat \<Rightarrow> nat) \<Rightarrow> nat \<Rightarrow> nat list \<Rightarrow> nat list" where
  "RandomPermutation_loop draw 0 perm = perm"
| "RandomPermutation_loop draw (Suc i) perm =
     (let j = draw (Suc i) mod (Suc i + 1);
          perm' = (if j \<noteq> Suc i then (perm[j := perm ! Suc i])[Suc i := perm ! j] else perm)
      in RandomPermutation_loop draw i perm')"

definition RandomPermutation :: "(nat \<Rightarrow> nat) \<Rightarrow> nat \<Rightarrow> nat list" where
  "RandomPermutation draw k = RandomPermutation_loop draw (k - 1) [0..<k]"

section \<open>Basic facts\<close>

named_theorems crypto_defs "definitions of the scalar cryptographic operations"

lemmas [crypto_defs] = NewCipherText_def encryptPoint_def IntToPoint_def PointToCipherText_def
  IntToCipherText_def EncryptInt_def EncryptIntGetR_def EncryptScalar_def decryptPoint_def
  ct_Add_def MulCipherTextbyScalar_def ct_Sub_def ct_Equal_def GenKey_def Let_def

lemma length_NewCipherVector [simp]: "length (NewCipherVector S n) = n"
  by (simp add: NewCipherVector_def)

lemma nth_NewCipherVector [simp]: "i < n \<Longrightarrow> NewCipherVector S n ! i = NewCipherText S"
  by (simp add: NewCipherVector_def)

lemma EncryptIntVector_eq:
  "EncryptIntVector S pubkey xs picks = map (\<lambda>i. EncryptInt S pubkey (xs ! i) (picks i)) [0..<length xs]"
  by (simp add: EncryptIntVector_def)

lemma cv_Add_Inr:
  assumes "length cv1 \<le> length cv2" and "length cv1 \<le> length cv"
  shows "cv_Add S cv cv1 cv2 = Inr (map2 (ct_Add S) cv1 cv2 @ drop (length cv1) cv)"
proof -
  have "cv_Add S cv cv1 cv2 = Inr (map (\<lambda>i. ct_Add S (cv1 ! i) (cv2 ! i)) [0..<length cv1] @ drop (length cv1) cv)"
    unfolding cv_Add_def using assms by (intro par_fill_Inr) auto
  moreover have "map (\<lambda>i. ct_Add S (cv1 ! i) (cv2 ! i)) [0..<length cv1] = map2 (ct_Add S) cv1 cv2"
    using assms(1) by (intro nth_equalityI) auto
  ultimately show ?thesis by simp
qed

lemma cv_Add_fails:
  assumes "length cv2 < length cv1"
  shows "cv_Add S cv cv1 cv2 = Inl Panic"
proof -
  have "\<exists>e. cv_Add S cv cv1 cv2 = Inl e"
    unfolding cv_Add_def
    by (rule par_fill_Inl [of _ "length cv2"]) (use assms in \<open>simp_all add: index_at_def\<close>)
  then obtain e where e: "cv_Add S cv cv1 cv2 = Inl e" by blast
  moreover have "e = Panic"
    using e unfolding cv_Add_def
    by (rule par_fill_only_panic [rotated]) (auto simp: index_at_def split: if_splits)
  ultimately show ?thesis by simp
qed

lemma cv_Sub_loop:
  assumes "m \<le> length cv2" and "m \<le> length cv"
  shows "fold_res (\<lambda>i cv. andThen (index_at cv2 i) (\<lambda>c2. store_at cv i (ct_Sub S (cv1 ! i) c2))) [0..<m] cv =
    Inr (map (\<lambda>i. ct_Sub S (cv1 ! i) (cv2 ! i)) [0..<m] @ drop m cv)"
  using assms
proof (induction m)
  case 0
  then show ?case by simp
next
  case (Suc m)
  then show ?case by (simp add: fold_res_append list_update_append Cons_nth_drop_Suc [symmetric])
qed

lemma cv_Sub_Inr:
  assumes "length cv1 \<le> length cv2" and "length cv1 \<le> length cv"
  shows "cv_Sub S cv cv1 cv2 = Inr (map2 (ct_Sub S) cv1 cv2 @ drop (length cv1) cv)"
proof -
  have "map (\<lambda>i. ct_Sub S (cv1 ! i) (cv2 ! i)) [0..<length cv1] = map2 (ct_Sub S) cv1 cv2"
    using assms(1) by (intro nth_equalityI) auto
  then show ?thesis using cv_Sub_loop [OF assms, of S cv1] by (simp add: cv_Sub_def)
qed

text \<open>The permutation loop only swaps, whatever is drawn.\<close>

lemma RandomPermutation_loop_mset:
  "i < length perm \<Longrightarrow> mset (RandomPermutation_loop draw i perm) = mset perm"
proof (induction draw i perm rule: RandomPermutation_loop.induct)
  case (1 draw perm)
  then show ?case by simp
next
  case (2 draw i perm)
  define j where "j = draw (Suc i) mod (Suc i + 1)"
  have "j < length perm" using 2(2) by (simp add: j_def) (meson Suc_leI less_le_trans mod_less_divisor zero_less_Suc)
  then have swap: "mset ((perm[j := perm ! Suc i])[Suc i := perm ! j]) = mset perm"
    using 2(2) mset_swap by fastforce
  have "RandomPermutation_loop draw (Suc i) perm =
      RandomPermutation_loop draw i (if j \<noteq> Suc i then (perm[j := perm ! Suc i])[Suc i := perm ! j] else perm)"
    unfolding RandomPermutation_loop.simps(2) Let_def j_def ..
  also have "mset \<dots> = mset perm"
    using 2(1) [OF j_def refl] 2(2) swap by (simp split: if_splits)
  finally show ?case .
qed

lemma RandomPermutation_mset: "mset (RandomPermutation draw k) = mset [0..<k]"
proof (cases k)
  case 0
  then show ?thesis by (simp add: RandomPermutation_def)
next
  case (Suc m)
  then show ?thesis
    unfolding RandomPermutation_def by (intro RandomPermutation_loop_mset) simp
qed

lemma RandomPermutation_perm:
  "length (RandomPermutation draw k) = k" "distinct (RandomPermutation draw k)"
  "set (RandomPermutation draw k) = {..<k}"
  using RandomPermutation_mset [of draw k]
  by (metis size_mset length_upt minus_nat.diff_0)
     (metis RandomPermutation_mset distinct_upt mset_eq_imp_distinct_iff,
      metis RandomPermutation_mset atLeast0LessThan mset_eq_setD set_upt)

section \<open>Sums of points and scalars\<close>

definition psum :: "('s, 'p) suite \<Rightarrow> 'p list \<Rightarrow> 'p" where
  "psum S ps = foldr (Point_Add S) ps (Point_Null S)"

definition ssum :: "('s, 'p) suite \<Rightarrow> 's list \<Rightarrow> 's" where
  "ssum S as = foldr (Scalar_Add S) as (Scalar_Zero S)"

definition sprod :: "('s, 'p) suite \<Rightarrow> 's list \<Rightarrow> 's" where
  "sprod S as = foldr (Scalar_Mul S) as (Scalar_One S)"

definition csum :: "('s, 'p) suite \<Rightarrow> 'p CipherText list \<Rightarrow> 'p CipherText" where
  "csum S cs = foldr (ct_Add S) cs (NewCipherText S)"

lemma csum_simps [simp]: "csum S [] = NewCipherText S" "csum S (c # cs) = ct_Add S c (csum S cs)"
  by (simp_all add: csum_def)

lemma sum_simps [simp]:
  "psum S [] = Point_Null S" "psum S (P # ps) = Point_Add S P (psum S ps)"
  "ssum S [] = Scalar_Zero S" "ssum S (a # as) = Scalar_Add S a (ssum S as)"
  "sprod S [] = Scalar_One S" "sprod S (a # as) = Scalar_Mul S a (sprod S as)"
  by (simp_all add: psum_def ssum_def sprod_def)

context kyber_suite
begin

lemma psum_append [simp]: "psum S (ps @ qs) = Point_Add S (psum S ps) (psum S qs)"
  by (induction ps) (simp_all add: pt_ac)

lemma ssum_append [simp]: "ssum S (as @ bs) = Scalar_Add S (ssum S as) (ssum S bs)"
  by (induction as) (simp_all add: sc.add.assoc)

lemma sprod_append: "sprod S (as @ bs) = Scalar_Mul S (sprod S as) (sprod S bs)"
  by (induction as) (simp_all add: scalar_mul_one scalar_mul_assoc)

lemma mul_ssum: "Point_Mul S (ssum S as) P = psum S (map (\<lambda>a. Point_Mul S a P) as)"
  by (induction as) (simp_all add: mul_scalar_add)

lemma mul_psum: "Point_Mul S a (psum S ps) = psum S (map (Point_Mul S a) ps)"
  by (induction ps) (simp_all add: mul_point_add)

lemma psum_mset: "mset ps = mset qs \<Longrightarrow> psum S ps = psum S qs"
  unfolding psum_def by (rule foldr_mset) (simp_all add: pt_ac)

lemma ssum_mset: "mset as = mset bs \<Longrightarrow> ssum S as = ssum S bs"
  unfolding ssum_def by (rule foldr_mset) (simp_all add: sc.add.left_commute)

lemma sprod_mset: "mset as = mset bs \<Longrightarrow> sprod S as = sprod S bs"
  unfolding sprod_def by (rule foldr_mset) (metis scalar_mul_assoc scalar_mul_commute)

lemma decrypt_encrypt:
  "decryptPoint S x (fst (encryptPoint S (Point_Mul S x (Point_Base S)) M r)) = M"
  by (simp add: crypto_defs mul_commute)

lemma decrypt_EncryptInt:
  "decryptPoint S x (EncryptInt S (Point_Mul S x (Point_Base S)) i r) = IntToPoint S i"
  by (simp add: EncryptInt_def decrypt_encrypt)

lemma decrypt_PointToCipherText: "decryptPoint S x (PointToCipherText S M) = M"
  by (simp add: crypto_defs)

lemma decrypt_IntToCipherText: "decryptPoint S x (IntToCipherText S i) = IntToPoint S i"
  by (simp add: IntToCipherText_def decrypt_PointToCipherText)

lemma decrypt_NewCipherText: "decryptPoint S x (NewCipherText S) = Point_Null S"
  by (simp add: crypto_defs)

lemma decrypt_add: "decryptPoint S x (ct_Add S c d) = Point_Add S (decryptPoint S x c) (decryptPoint S x d)"
  by (simp add: crypto_defs mul_linear algebra_simps)

lemma decrypt_sub: "decryptPoint S x (ct_Sub S c d) = Point_Sub S (decryptPoint S x c) (decryptPoint S x d)"
  by (simp add: crypto_defs mul_sub algebra_simps)

lemma decrypt_mul: "decryptPoint S x (MulCipherTextbyScalar S c a) = Point_Mul S a (decryptPoint S x c)"
  by (simp add: crypto_defs mul_sub mul_commute)

lemmas decrypt_simps = decrypt_encrypt decrypt_EncryptInt decrypt_PointToCipherText
  decrypt_IntToCipherText decrypt_NewCipherText decrypt_add decrypt_sub decrypt_mul

lemma ct_Equal_iff [simp]: "ct_Equal S c d \<longleftrightarrow> c = d"
  by (cases c, cases d) (auto simp: ct_Equal_def point_equal)

lemma ct_Add_assoc: "ct_Add S (ct_Add S c d) e = ct_Add S c (ct_Add S d e)"
  by (simp add: crypto_defs pt_ac)

lemma ct_Add_commute: "ct_Add S c d = ct_Add S d c"
  by (simp add: crypto_defs pt.add.commute)

lemma ct_Add_null [simp]: "ct_Add S (NewCipherText S) c = c" "ct_Add S c (NewCipherText S) = c"
  by (simp_all add: crypto_defs)

lemma ct_Add_left_commute: "ct_Add S c (ct_Add S d e) = ct_Add S d (ct_Add S c e)"
  by (metis ct_Add_assoc ct_Add_commute)

lemmas ct_ac = ct_Add_assoc ct_Add_commute ct_Add_left_commute

lemma csum_append [simp]: "csum S (cs @ ds) = ct_Add S (csum S cs) (csum S ds)"
  by (induction cs) (simp_all add: ct_ac)

lemma fold_ct_Add: "fold (\<lambda>d acc. ct_Add S acc d) cs c = ct_Add S c (csum S cs)"
  by (induction cs arbitrary: c) (simp_all add: ct_ac)

lemma csum_mset: "mset cs = mset ds \<Longrightarrow> csum S cs = csum S ds"
  unfolding csum_def by (rule foldr_mset) (simp_all add: ct_Add_left_commute)

lemma decrypt_csum: "decryptPoint S x (csum S cs) = psum S (map (decryptPoint S x) cs)"
  by (induction cs) (simp_all add: decrypt_simps)

lemma decrypt_fold_add:
  "decryptPoint S x (fold (\<lambda>c acc. ct_Add S acc c) cs c0) =
   Point_Add S (decryptPoint S x c0) (psum S (map (decryptPoint S x) cs))"
  by (induction cs arbitrary: c0) (simp_all add: decrypt_add pt_ac)

lemma Acum_Cons: "Acum S (c # cs) = Inr (fold (\<lambda>d acc. ct_Add S acc d) cs c)"
proof -
  have "fold (\<lambda>i acum. ct_Add S acum ((c # cs) ! i)) [1..<Suc (length cs)] c =
    fold (\<lambda>d acc. ct_Add S acc d) (map ((!) (c # cs)) [1..<Suc (length cs)]) c"
    by (simp add: fold_map comp_def)
  also have "map ((!) (c # cs)) [1..<Suc (length cs)] = cs"
    by (intro nth_equalityI) (simp_all del: upt_Suc)
  finally show ?thesis by (simp add: Acum_def del: upt_Suc)
qed

lemma dcv_Key_inject: "length as = length bs \<Longrightarrow> dcv_Key S as = dcv_Key S bs \<longleftrightarrow> as = bs"
proof (induction as bs rule: list_induct2)
  case Nil
  then show ?case by simp
next
  case (Cons a as b bs)
  then show ?case
    by (cases a, cases b) (simp add: dcv_Key_def dct_String_def append_eq_append_conv point_string_length point_string_inject)
qed

end

end
