(* ===== verification/DiscreteLog.thy ===== *)
theory DiscreteLog
  imports Crypto
begin

text \<open>
  Decryption to integers in lib/crypto.go. The integer of a decrypted point is found by brute
  force, and the points met on the way are remembered in the package variables PointToInt,
  currentGreatestM and currentGreatestInt, so decryption is an operation on that table. The
  loop runs over integers below MaxHomomorphicInt = 100000 in absolute value, far inside int64,
  so its counters are mathematical integers; the values stored and returned are int64.
  PointToInt is a concurrent map whose Put fails only on nil keys; its keys here are strings,
  so the branch that returns that error is unreachable and the map is a partial function.
\<close>

section \<open>The table and the search loop\<close>

definition MaxHomomorphicInt :: int where
  "MaxHomomorphicInt = 100000"

record 'p dlog_table =
  PointToInt :: "string \<rightharpoonup> int64"
  currentGreatestM :: "'p option"      \<comment> \<open>nil before the first search\<close>
  currentGreatestInt :: int

definition empty_table :: "'p dlog_table" where
  "empty_table = \<lparr>PointToInt = Map.empty, currentGreatestM = None, currentGreatestInt = 0\<rparr>"

text \<open>The local variables of the loop.\<close>

record 'p dlog_loop =
  tab :: "string \<rightharpoonup> int64"
  guess :: 'p
  guessInt :: int
  guessIntMinus :: int
  foundPos :: bool
  foundNeg :: bool
  start :: bool

definition dlog_body :: "('s, 'p) suite \<Rightarrow> 'p \<Rightarrow> bool \<Rightarrow> int \<Rightarrow> 'p dlog_loop \<Rightarrow> 'p dlog_loop" where
  "dlog_body S P checkNeg i l =
     (let B = Point_Base S;
          g = (if \<not> start l then Point_Add S (guess l) B else guess l);
          t = (tab l)(Point_String S g \<mapsto> word_of_int i);
          minus = (if checkNeg then - i else guessIntMinus l);
          gneg = Point_Mul S (Scalar_SetInt64 S (word_of_int minus)) B;
          t' = (if checkNeg then t(Point_String S gneg \<mapsto> word_of_int minus) else t);
          fneg = (foundNeg l \<or> checkNeg \<and> Point_Equal S gneg P);
          fpos = (foundPos l \<or> \<not> fneg \<and> Point_Equal S g P)
      in \<lparr>tab = t', guess = g, guessInt = i, guessIntMinus = minus, foundPos = fpos, foundNeg = fneg,
          start = False\<rparr>)"

function dlog_search :: "('s, 'p) suite \<Rightarrow> 'p \<Rightarrow> bool \<Rightarrow> int \<Rightarrow> 'p dlog_loop \<Rightarrow> 'p dlog_loop" where
  "dlog_search S P checkNeg i l =
     (if i < MaxHomomorphicInt \<and> \<not> foundPos l \<and> \<not> foundNeg l
      then dlog_search S P checkNeg (i + 1) (dlog_body S P checkNeg i l) else l)"
  by pat_completeness auto
termination by (relation "measure (\<lambda>(S, P, neg, i, l). nat (MaxHomomorphicInt - i))") auto

declare dlog_search.simps [simp del]

definition discreteLog :: "('s, 'p) suite \<Rightarrow> 'p dlog_table \<Rightarrow> 'p \<Rightarrow> bool \<Rightarrow> int64 res \<times> 'p dlog_table" where
  "discreteLog S st P checkNeg =
     (case PointToInt st (Point_String S P) of
        Some decrypted \<Rightarrow> (Inr decrypted, st)
      | None \<Rightarrow>
          (case (if currentGreatestInt st = 0 then Some (Point_Null S) else currentGreatestM st) of
             None \<Rightarrow> (Inl Panic, st)
           | Some g0 \<Rightarrow>
               (let l = dlog_search S P checkNeg (currentGreatestInt st)
                          \<lparr>tab = PointToInt st, guess = g0, guessInt = currentGreatestInt st, guessIntMinus = 0,
                           foundPos = False, foundNeg = False, start = True\<rparr>;
                    st' = \<lparr>PointToInt = tab l, currentGreatestM = Some (guess l), currentGreatestInt = guessInt l\<rparr>
                in (if \<not> foundPos l \<and> \<not> foundNeg l then (Inr 0, st')
                    else if foundNeg l then (Inr (word_of_int (guessIntMinus l)), st')
                    else (Inr (word_of_int (guessInt l)), st')))))"

section \<open>Decryption\<close>

definition or_zero :: "int64 res \<times> 'p dlog_table \<Rightarrow> int64 res \<times> 'p dlog_table" where
  \<comment> \<open>if err != nil { return 0 }: an error becomes 0, a panic does not\<close>
  "or_zero r = (case r of (Inl (Err _), st) \<Rightarrow> (Inr 0, st) | _ \<Rightarrow> r)"

definition DecryptInt :: "('s, 'p) suite \<Rightarrow> 'p dlog_table \<Rightarrow> 's \<Rightarrow> 'p CipherText \<Rightarrow> int64 res \<times> 'p dlog_table" where
  "DecryptInt S st prikey cipher = (let M = decryptPoint S prikey cipher in or_zero (discreteLog S st M False))"

definition DecryptIntWithNeg :: "('s, 'p) suite \<Rightarrow> 'p dlog_table \<Rightarrow> 's \<Rightarrow> 'p CipherText \<Rightarrow> int64 res \<times> 'p dlog_table" where
  "DecryptIntWithNeg S st prikey cipher = (let M = decryptPoint S prikey cipher in or_zero (discreteLog S st M True))"

fun DecryptIntVector :: "('s, 'p) suite \<Rightarrow> 'p dlog_table \<Rightarrow> 's \<Rightarrow> 'p CipherVector \<Rightarrow> int64 list res \<times> 'p dlog_table" where
  "DecryptIntVector S st prikey [] = (Inr [], st)"
| "DecryptIntVector S st prikey (c # cs) =
     (case DecryptInt S st prikey c of
        (Inl e, st') \<Rightarrow> (Inl e, st')
      | (Inr v, st') \<Rightarrow>
          (case DecryptIntVector S st' prikey cs of
             (Inl e, st'') \<Rightarrow> (Inl e, st'') | (Inr vs, st'') \<Rightarrow> (Inr (v # vs), st'')))"

fun DecryptIntVectorWithNeg :: "('s, 'p) suite \<Rightarrow> 'p dlog_table \<Rightarrow> 's \<Rightarrow> 'p CipherVector \<Rightarrow> int64 list res \<times> 'p dlog_table" where
  "DecryptIntVectorWithNeg S st prikey [] = (Inr [], st)"
| "DecryptIntVectorWithNeg S st prikey (c # cs) =
     (case DecryptIntWithNeg S st prikey c of
        (Inl e, st') \<Rightarrow> (Inl e, st')
      | (Inr v, st') \<Rightarrow>
          (case DecryptIntVectorWithNeg S st' prikey cs of
             (Inl e, st'') \<Rightarrow> (Inl e, st'') | (Inr vs, st'') \<Rightarrow> (Inr (v # vs), st'')))"

definition CreateDecryptionTable :: "('s, 'p) suite \<Rightarrow> 'p dlog_table \<Rightarrow> int64 \<Rightarrow> 'p \<Rightarrow> 's \<Rightarrow> 's \<Rightarrow> 'p dlog_table" where
  "CreateDecryptionTable S st limit pubKey secKey r =
     (let dummy = EncryptInt S pubKey limit r in snd (DecryptIntWithNeg S st secKey dummy))"

text \<open>The reachable tables: any sequence of searches from the empty one.\<close>

inductive reachable_table :: "('s, 'p) suite \<Rightarrow> 'p dlog_table \<Rightarrow> bool" for S where
  init: "reachable_table S empty_table"
| search: "reachable_table S st \<Longrightarrow> reachable_table S (snd (discreteLog S st P checkNeg))"

section \<open>The table invariant\<close>

abbreviation int_point :: "('s, 'p) suite \<Rightarrow> int \<Rightarrow> 'p" where
  "int_point S i \<equiv> IntToPoint S (word_of_int i)"

text \<open>Every entry of the table is true, and after a search it holds all integers up to the greatest one met.\<close>

definition table_sound :: "('s, 'p) suite \<Rightarrow> (string \<rightharpoonup> int64) \<Rightarrow> bool" where
  "table_sound S t \<longleftrightarrow> (\<forall>k v. t k = Some v \<longrightarrow> k = Point_String S (IntToPoint S v))"

definition covers :: "('s, 'p) suite \<Rightarrow> (string \<rightharpoonup> int64) \<Rightarrow> int \<Rightarrow> bool" where
  "covers S t i \<longleftrightarrow> t (Point_String S (int_point S i)) = Some (word_of_int i)"

definition table_inv :: "('s, 'p) suite \<Rightarrow> 'p dlog_table \<Rightarrow> bool" where
  "table_inv S st \<longleftrightarrow>
     0 \<le> currentGreatestInt st \<and> currentGreatestInt st < MaxHomomorphicInt \<and>
     (currentGreatestInt st \<noteq> 0 \<longrightarrow> currentGreatestM st = Some (int_point S (currentGreatestInt st))) \<and>
     table_sound S (PointToInt st) \<and>
     (currentGreatestInt st \<noteq> 0 \<longrightarrow> (\<forall>i\<in>{0..currentGreatestInt st}. covers S (PointToInt st) i))"

lemma table_inv_empty [simp]: "table_inv S empty_table"
  by (simp add: table_inv_def empty_table_def table_sound_def MaxHomomorphicInt_def)

lemma small_word_inject:
  "\<bar>i\<bar> < 2 ^ 62 \<Longrightarrow> \<bar>j\<bar> < 2 ^ 62 \<Longrightarrow> (word_of_int i :: int64) = word_of_int j \<longleftrightarrow> i = j"
  by (metis small_sint)

lemma int_interval_split: "i \<le> n \<Longrightarrow> {i..n} = insert i {i + 1..n}" "i < n \<Longrightarrow> {i..<n} = insert i {i + 1..<n}"
  for i n :: int
  by auto

text \<open>Negative integers are only found when every earlier search also looked for them.\<close>

definition neg_covered :: "('s, 'p) suite \<Rightarrow> 'p dlog_table \<Rightarrow> bool" where
  "neg_covered S st \<longleftrightarrow>
     (currentGreatestInt st \<noteq> 0 \<longrightarrow> (\<forall>i\<in>{0..currentGreatestInt st}. covers S (PointToInt st) (- i)))"

inductive reachable_neg_table :: "('s, 'p) suite \<Rightarrow> 'p dlog_table \<Rightarrow> bool" for S where
  init: "reachable_neg_table S empty_table"
| search: "reachable_neg_table S st \<Longrightarrow> reachable_neg_table S (snd (discreteLog S st P True))"

lemma neg_covered_empty [simp]: "neg_covered S empty_table"
  by (simp add: neg_covered_def empty_table_def)

text \<open>What the loop knows before the turn of i, and what a finished search gives.\<close>

definition loop_inv :: "('s, 'p) suite \<Rightarrow> int \<Rightarrow> 'p dlog_loop \<Rightarrow> bool" where
  "loop_inv S i l \<longleftrightarrow>
     guess l = (if start l then int_point S i else int_point S (i - 1)) \<and>
     table_sound S (tab l) \<and> (\<forall>j\<in>{0..<i}. covers S (tab l) j)"

definition search_post :: "('s, 'p) suite \<Rightarrow> 'p \<Rightarrow> bool \<Rightarrow> int \<Rightarrow> (string \<rightharpoonup> int64) \<Rightarrow> 'p dlog_loop \<Rightarrow> bool" where
  "search_post S P neg i t0 l \<longleftrightarrow>
     (\<forall>j. covers S t0 j \<longrightarrow> covers S (tab l) j) \<and>
     (\<not> neg \<longrightarrow> (\<forall>k v. tab l k = Some v \<longrightarrow> t0 k = Some v \<or> 0 \<le> sint v)) \<and>
     i \<le> guessInt l \<and> guessInt l < MaxHomomorphicInt \<and> guess l = int_point S (guessInt l) \<and>
     table_sound S (tab l) \<and> (\<forall>j\<in>{0..guessInt l}. covers S (tab l) j) \<and>
     (neg \<longrightarrow> (\<forall>j\<in>{i..guessInt l}. covers S (tab l) (- j))) \<and>
     (foundPos l \<longrightarrow> P = int_point S (guessInt l)) \<and>
     (foundNeg l \<longrightarrow> P = int_point S (- guessInt l) \<and> guessIntMinus l = - guessInt l) \<and>
     (\<not> foundPos l \<and> \<not> foundNeg l \<longrightarrow>
        (\<forall>j\<in>{i..<MaxHomomorphicInt}. P \<noteq> int_point S j \<and> (neg \<longrightarrow> P \<noteq> int_point S (- j))))"

context kyber_suite
begin

lemma IntToPoint_inject [simp]: "IntToPoint S v = IntToPoint S w \<longleftrightarrow> v = w"
  by (auto simp: IntToPoint_def dest: base_injective)

lemma IntToPoint_add:
  "sint (v + w) = sint v + sint w \<Longrightarrow> IntToPoint S (v + w) = Point_Add S (IntToPoint S v) (IntToPoint S w)"
  by (simp add: IntToPoint_def Let_def set_int_add mul_scalar_add)

lemma int_point_0 [simp]: "IntToPoint S 0 = Point_Null S"
  by (simp add: IntToPoint_def)

lemma int_point_succ:
  assumes "\<bar>i\<bar> < 2 ^ 61"
  shows "Point_Add S (int_point S i) (Point_Base S) = int_point S (i + 1)"
proof -
  have "sint (word_of_int i + 1 :: int64) = sint (word_of_int i :: int64) + sint (1 :: int64)"
    using assms small_sint [of i] small_sint [of "i + 1"] by simp
  from IntToPoint_add [OF this] show ?thesis
    by (simp add: IntToPoint_def [of S 1] Let_def set_int_one mul_one)
qed

lemma table_sound_upd: "table_sound S t \<Longrightarrow> table_sound S (t(Point_String S (IntToPoint S v) \<mapsto> v))"
  by (auto simp: table_sound_def)

lemma table_sound_lookup: "table_sound S t \<Longrightarrow> t (Point_String S (IntToPoint S w)) = Some v \<Longrightarrow> v = w"
  by (metis IntToPoint_inject point_string_inject table_sound_def)

lemma covers_upd:
  assumes "table_sound S t" and "covers S t i"
  shows "covers S (t(Point_String S (IntToPoint S v) \<mapsto> v)) i"
  using assms by (auto simp: covers_def point_string_inject)

lemma covers_new: "covers S (t(Point_String S (int_point S i) \<mapsto> word_of_int i)) i"
  by (simp add: covers_def)

lemma dlog_body_facts:
  fixes i :: int and P :: 'p and neg :: bool
  assumes "loop_inv S i l" and "0 \<le> i" and "i < MaxHomomorphicInt" and "\<not> foundPos l" and "\<not> foundNeg l"
  defines "l' \<equiv> dlog_body S P neg i l"
  shows "guess l' = int_point S i" and "guessInt l' = i" and "\<not> start l'"
    and "table_sound S (tab l')" and "covers S (tab l') i" and "neg \<Longrightarrow> covers S (tab l') (- i)"
    and "\<And>j. covers S (tab l) j \<Longrightarrow> covers S (tab l') j"
    and "foundNeg l' \<longleftrightarrow> neg \<and> P = int_point S (- i)" and "neg \<Longrightarrow> guessIntMinus l' = - i"
    and "foundPos l' \<longleftrightarrow> \<not> foundNeg l' \<and> P = int_point S i"
    and "\<not> neg \<Longrightarrow> tab l' k = Some v \<Longrightarrow> tab l k = Some v \<or> 0 \<le> sint v"
proof -
  have g: "(if \<not> start l then Point_Add S (guess l) (Point_Base S) else guess l) = int_point S i"
    using assms int_point_succ [of "i - 1"] by (auto simp: loop_inv_def MaxHomomorphicInt_def)
  have m: "Point_Mul S (Scalar_SetInt64 S w) (Point_Base S) = IntToPoint S w" for w
    by (simp add: IntToPoint_def)
  have s0: "table_sound S (tab l)" using assms by (simp add: loop_inv_def)
  note s1 = table_sound_upd [OF s0] and s2 = table_sound_upd [OF table_sound_upd [OF s0]]
  show "guess l' = int_point S i" "guessInt l' = i" "\<not> start l'"
    unfolding l'_def dlog_body_def Let_def by (simp_all only: g dlog_loop.simps not_False_eq_True)
  show "table_sound S (tab l')"
    unfolding l'_def dlog_body_def Let_def g m using s1 s2 by simp
  show "covers S (tab l') i"
    unfolding l'_def dlog_body_def Let_def g m using s1 covers_upd [OF s1 covers_new] by (simp add: covers_new)
  show "covers S (tab l') (- i)" if neg
    unfolding l'_def dlog_body_def Let_def g m using that by (simp add: covers_def)
  show "covers S (tab l') j" if "covers S (tab l) j" for j
    unfolding l'_def dlog_body_def Let_def g m using s0 s1 that by (auto intro!: covers_upd)
  show "foundNeg l' \<longleftrightarrow> neg \<and> P = int_point S (- i)" "neg \<Longrightarrow> guessIntMinus l' = - i"
    "foundPos l' \<longleftrightarrow> \<not> foundNeg l' \<and> P = int_point S i"
    unfolding l'_def dlog_body_def Let_def g m using assms(4,5) by (auto simp: point_equal)
  show "tab l k = Some v \<or> 0 \<le> sint v" if "\<not> neg" "tab l' k = Some v"
    using that assms(2,3) small_sint [of i] unfolding l'_def dlog_body_def Let_def
    by (auto simp: MaxHomomorphicInt_def split: if_splits)
qed

lemma dlog_search_post:
  assumes "loop_inv S i l" and "0 \<le> i" and "i < MaxHomomorphicInt" and "\<not> foundPos l" and "\<not> foundNeg l"
  shows "search_post S P neg i (tab l) (dlog_search S P neg i l)"
  using assms
proof (induction "nat (MaxHomomorphicInt - i)" arbitrary: i l rule: less_induct)
  case less
  define l' where "l' = dlog_body S P neg i l"
  note b = dlog_body_facts [OF less.prems, where P = P and neg = neg, folded l'_def]
  have step: "dlog_search S P neg i l = dlog_search S P neg (i + 1) l'"
    using less.prems by (simp add: dlog_search.simps [of S P neg i l] l'_def)
  have cov: "covers S (tab l') j" if "j \<in> {0..i}" for j
    using that b(5) b(7) less.prems(1) by (cases "j = i") (auto simp: loop_inv_def)
  have miss: "P \<noteq> int_point S i \<and> (neg \<longrightarrow> P \<noteq> int_point S (- i))" if "\<not> foundPos l'" "\<not> foundNeg l'"
    using that b(8) b(10) by auto
  show ?case
  proof (cases "foundPos l' \<or> foundNeg l' \<or> i + 1 = MaxHomomorphicInt")
    case True
    then have stop: "dlog_search S P neg (i + 1) l' = l'"
      by (subst dlog_search.simps) auto
    have none: "{i..<MaxHomomorphicInt} = {i}" if "\<not> foundPos l' \<and> \<not> foundNeg l'"
      using that True by auto
    show ?thesis
      unfolding step stop search_post_def b(2)
      using b(1,4,6-11) cov miss none less.prems(3) by (auto simp: b(2))
  next
    case False
    have inv': "loop_inv S (i + 1) l'"
      using b(1-4) cov by (auto simp: loop_inv_def)
    have post: "search_post S P neg (i + 1) (tab l') (dlog_search S P neg (i + 1) l')"
      using False less.prems by (intro less.hyps inv') auto
    define r where "r = dlog_search S P neg (i + 1) l'"
    have mono: "covers S (tab r) j" if "covers S (tab l) j" for j
      using post b(7) that by (auto simp: search_post_def r_def)
    have "neg \<longrightarrow> covers S (tab r) (- i)"
      using post b(6) by (auto simp: search_post_def r_def)
    moreover have "\<forall>k v. tab r k = Some v \<longrightarrow> tab l k = Some v \<or> 0 \<le> sint v" if "\<not> neg"
    proof (intro allI impI)
      fix k v
      assume "tab r k = Some v"
      then have "tab l' k = Some v \<or> 0 \<le> sint v"
        using post that unfolding search_post_def r_def by blast
      then show "tab l k = Some v \<or> 0 \<le> sint v" using b(11) that by blast
    qed
    ultimately show ?thesis
      unfolding step r_def [symmetric] search_post_def
      using mono post miss False less.prems(3)
      by (auto simp: int_interval_split [of i] search_post_def r_def [symmetric])
  qed
qed

lemma table_inv_loop:
  "table_inv S st \<Longrightarrow> g0 = int_point S (currentGreatestInt st) \<Longrightarrow>
   loop_inv S (currentGreatestInt st)
     \<lparr>tab = PointToInt st, guess = g0, guessInt = n, guessIntMinus = 0, foundPos = False, foundNeg = False, start = True\<rparr>"
  by (auto simp: table_inv_def loop_inv_def)

text \<open>A call either finds the point in the table or runs the loop to a state described by search_post.\<close>

lemma discreteLog_cases [consumes 1, case_names hit miss]:
  assumes "table_inv S st"
  obtains
    (hit) v where "PointToInt st (Point_String S P) = Some v" "P = IntToPoint S v"
      "discreteLog S st P neg = (Inr v, st)"
  | (miss) l where "PointToInt st (Point_String S P) = None"
      "search_post S P neg (currentGreatestInt st) (PointToInt st) l"
      "discreteLog S st P neg =
        (Inr (if \<not> foundPos l \<and> \<not> foundNeg l then 0
              else if foundNeg l then word_of_int (guessIntMinus l) else word_of_int (guessInt l)),
         \<lparr>PointToInt = tab l, currentGreatestM = Some (guess l), currentGreatestInt = guessInt l\<rparr>)"
proof (cases "PointToInt st (Point_String S P)")
  case (Some v)
  have "table_sound S (PointToInt st)" using assms by (simp add: table_inv_def)
  with Some have "Point_String S P = Point_String S (IntToPoint S v)" by (auto simp: table_sound_def)
  with Some show ?thesis by (intro hit) (auto simp: point_string_inject discreteLog_def)
next
  case None
  define l0 where "l0 = \<lparr>tab = PointToInt st, guess = int_point S (currentGreatestInt st),
    guessInt = currentGreatestInt st, guessIntMinus = 0, foundPos = False, foundNeg = False, start = True\<rparr>"
  have g: "(if currentGreatestInt st = 0 then Some (Point_Null S) else currentGreatestM st) =
      Some (int_point S (currentGreatestInt st))"
    using assms by (auto simp: table_inv_def)
  have "search_post S P neg (currentGreatestInt st) (tab l0) (dlog_search S P neg (currentGreatestInt st) l0)"
    using assms by (intro dlog_search_post) (auto simp: l0_def table_inv_loop, auto simp: table_inv_def)
  then have "search_post S P neg (currentGreatestInt st) (PointToInt st) (dlog_search S P neg (currentGreatestInt st) l0)"
    by (simp add: l0_def)
  then show ?thesis
    by (intro miss [OF None]) (auto simp: discreteLog_def None g l0_def Let_def)
qed

lemma discreteLog_inv:
  assumes inv: "table_inv S st"
  shows "table_inv S (snd (discreteLog S st P neg))"
  using inv
proof (cases rule: discreteLog_cases [where P = P and neg = neg])
  case hit
  with inv show ?thesis by simp
next
  case (miss l)
  then have "0 \<le> guessInt l" "guessInt l < MaxHomomorphicInt" "guess l = int_point S (guessInt l)"
    "table_sound S (tab l)" "\<forall>j\<in>{0..guessInt l}. covers S (tab l) j"
    using inv by (simp_all add: search_post_def table_inv_def)
  with miss(3) show ?thesis by (simp add: table_inv_def)
qed

lemma reachable_table_inv: "reachable_table S st \<Longrightarrow> table_inv S st"
  by (induction rule: reachable_table.induct) (simp_all add: discreteLog_inv)

lemma int_point_inject: "\<bar>i\<bar> < 2 ^ 62 \<Longrightarrow> \<bar>j\<bar> < 2 ^ 62 \<Longrightarrow> int_point S i = int_point S j \<longleftrightarrow> i = j"
  by (simp add: small_word_inject)

lemma miss_above:
  assumes "table_inv S st" and "PointToInt st (Point_String S (int_point S i)) = None" and "0 \<le> i"
  shows "currentGreatestInt st \<le> i"
  using assms by (force simp: table_inv_def covers_def)

lemma discreteLog_nonneg:
  assumes inv: "table_inv S st" and "0 \<le> i" and "i < MaxHomomorphicInt"
  shows "fst (discreteLog S st (int_point S i) neg) = Inr (word_of_int i)"
using inv proof (cases rule: discreteLog_cases [where P = "int_point S i" and neg = neg])
  case (hit v)
  then show ?thesis by simp
next
  case (miss l)
  have "currentGreatestInt st \<le> i" by (rule miss_above [OF inv miss(1) assms(2)])
  then have found: "foundPos l \<or> foundNeg l"
    using miss(2) assms(3) by (auto simp: search_post_def)
  have bounds: "0 \<le> guessInt l" "guessInt l < MaxHomomorphicInt"
    using miss(2) inv by (auto simp: search_post_def table_inv_def)
  have "foundNeg l \<Longrightarrow> i = - guessInt l" "foundPos l \<Longrightarrow> i = guessInt l" "foundNeg l \<Longrightarrow> guessIntMinus l = - guessInt l"
    using miss(2) assms bounds int_point_inject [of i "guessInt l"] int_point_inject [of i "- guessInt l"]
    by (auto simp: search_post_def MaxHomomorphicInt_def simp del: IntToPoint_inject)
  with found miss(3) show ?thesis by auto
qed

lemma discreteLog_neg_covered:
  assumes inv: "table_inv S st" and neg: "neg_covered S st"
  shows "neg_covered S (snd (discreteLog S st P True))"
  using inv
proof (cases rule: discreteLog_cases [where P = P and neg = True])
  case hit
  with neg show ?thesis by simp
next
  case (miss l)
  have "covers S (tab l) (- j)" if "j \<in> {0..guessInt l}" for j
  proof (cases "currentGreatestInt st \<le> j")
    case True
    then show ?thesis using miss(2) that by (simp add: search_post_def)
  next
    case False
    with that neg have "covers S (PointToInt st) (- j)" by (auto simp: neg_covered_def)
    then show ?thesis using miss(2) by (simp add: search_post_def)
  qed
  with miss(3) show ?thesis by (simp add: neg_covered_def)
qed

lemma reachable_neg_table_inv:
  "reachable_neg_table S st \<Longrightarrow> table_inv S st \<and> neg_covered S st"
  by (induction rule: reachable_neg_table.induct)
    (simp_all add: discreteLog_inv discreteLog_neg_covered)

text \<open>What a search with checkNeg returns for the point of a negative integer, on any good table.\<close>

lemma discreteLog_minus:
  assumes inv: "table_inv S st" and m: "0 < m" "m < MaxHomomorphicInt"
    and none: "PointToInt st (Point_String S (int_point S (- m))) = None"
  shows "fst (discreteLog S st (int_point S (- m)) True) =
    Inr (if m < currentGreatestInt st then 0 else word_of_int (- m))"
  using inv
proof (cases rule: discreteLog_cases [where P = "int_point S (- m)" and neg = True])
  case (hit v)
  with none show ?thesis by simp
next
  case (miss l)
  have bounds: "0 \<le> guessInt l" "guessInt l < MaxHomomorphicInt" "currentGreatestInt st \<le> guessInt l"
    using miss(2) inv by (auto simp: search_post_def table_inv_def)
  have fneg: "foundNeg l \<Longrightarrow> m = guessInt l \<and> guessIntMinus l = - m" and "\<not> foundPos l"
    using miss(2) m bounds int_point_inject [of "- m" "guessInt l"] int_point_inject [of "- m" "- guessInt l"]
    by (auto simp: search_post_def MaxHomomorphicInt_def simp del: IntToPoint_inject)
  moreover have "foundNeg l" if "\<not> m < currentGreatestInt st"
    using miss(2) that m(2) \<open>\<not> foundPos l\<close> by (auto simp: search_post_def)
  ultimately show ?thesis using miss(3) bounds(3) by auto
qed

lemma discreteLog_neg:
  assumes inv: "table_inv S st" and neg: "neg_covered S st" and m: "0 < m" "m < MaxHomomorphicInt"
  shows "fst (discreteLog S st (int_point S (- m)) True) = Inr (word_of_int (- m))"
proof (cases "PointToInt st (Point_String S (int_point S (- m)))")
  case None
  then have "\<not> m < currentGreatestInt st"
    using neg m by (force simp: neg_covered_def covers_def)
  then show ?thesis using discreteLog_minus [OF inv m None] by simp
next
  case (Some v)
  then have "v = word_of_int (- m)"
    using inv table_sound_lookup by (auto simp: table_inv_def)
  with Some show ?thesis by (simp add: discreteLog_def)
qed

text \<open>A search without checkNeg from the empty table leaves no negative entry.\<close>

lemma positive_search_entries:
  assumes "0 < n" and "n < MaxHomomorphicInt"
  defines "st \<equiv> snd (discreteLog S empty_table (int_point S n) False)"
  shows "currentGreatestInt st = n" and "PointToInt st k = Some v \<Longrightarrow> 0 \<le> sint v"
proof -
  have inv: "table_inv S empty_table" by simp
  have "currentGreatestInt st = n \<and> (PointToInt st k = Some v \<longrightarrow> 0 \<le> sint v)" for k v
    using inv
  proof (cases rule: discreteLog_cases [where P = "int_point S n" and neg = False])
    case (hit v)
    then show ?thesis by (simp add: empty_table_def)
  next
    case (miss l)
    have "0 \<le> guessInt l" "guessInt l < MaxHomomorphicInt"
      using miss(2) by (auto simp: search_post_def empty_table_def)
    then have "foundPos l \<Longrightarrow> guessInt l = n" "foundNeg l \<Longrightarrow> n = - guessInt l"
      using miss(2) assms(1,2) int_point_inject [of n "guessInt l"] int_point_inject [of n "- guessInt l"]
      by (auto simp: search_post_def MaxHomomorphicInt_def simp del: IntToPoint_inject)
    moreover have "foundPos l \<or> foundNeg l"
      using miss(2) assms(1,2) by (auto simp: search_post_def empty_table_def)
    ultimately have "guessInt l = n" using \<open>0 \<le> guessInt l\<close> assms(1) by auto
    moreover have "tab l k = Some v \<longrightarrow> 0 \<le> sint v"
      using miss(2) by (auto simp: search_post_def empty_table_def)
    ultimately show ?thesis using miss(3) by (simp add: st_def)
  qed
  then show "currentGreatestInt st = n" "PointToInt st k = Some v \<Longrightarrow> 0 \<le> sint v" by blast+
qed

lemma or_zero_simps [simp]: "fst r = Inr v \<Longrightarrow> fst (or_zero r) = Inr v" "snd (or_zero r) = snd r"
  by (cases r, auto simp: or_zero_def split: sum.splits go_error.splits)+

lemma DecryptInt_nonneg:
  assumes "table_inv S st" and "decryptPoint S x c = IntToPoint S m"
    and "0 \<le> sint m" and "sint m < MaxHomomorphicInt"
  shows "fst (DecryptInt S st x c) = Inr m" "fst (DecryptIntWithNeg S st x c) = Inr m"
    "table_inv S (snd (DecryptInt S st x c))"
  using discreteLog_nonneg [of st "sint m"] discreteLog_inv assms
  by (simp_all add: DecryptInt_def DecryptIntWithNeg_def)

lemma DecryptIntVector_nonneg:
  assumes "table_inv S st" and "map (decryptPoint S x) cv = map (IntToPoint S) ms"
    and "\<forall>m\<in>set ms. 0 \<le> sint m \<and> sint m < MaxHomomorphicInt"
  shows "fst (DecryptIntVector S st x cv) = Inr ms"
  using assms
proof (induction cv arbitrary: st ms)
  case Nil
  then show ?case by simp
next
  case (Cons c cv)
  then obtain m ms' where ms: "ms = m # ms'" "decryptPoint S x c = IntToPoint S m"
    "map (decryptPoint S x) cv = map (IntToPoint S) ms'" by (cases ms) auto
  note d = DecryptInt_nonneg [OF Cons.prems(1) ms(2)]
  have "fst (DecryptInt S st x c) = Inr m" "table_inv S (snd (DecryptInt S st x c))"
    using d Cons.prems(3) ms(1) by simp_all
  moreover from this have "fst (DecryptIntVector S (snd (DecryptInt S st x c)) x cv) = Inr ms'"
    using Cons.prems(3) ms by (intro Cons.IH) auto
  ultimately show ?case
    by (cases "DecryptInt S st x c", cases "DecryptIntVector S (snd (DecryptInt S st x c)) x cv")
      (simp add: ms(1))
qed

lemma decrypt_negative:
  assumes "reachable_neg_table S st" and "- MaxHomomorphicInt < sint m" and "sint m < 0"
  shows "fst (DecryptIntWithNeg S st x (EncryptInt S (Point_Mul S x (Point_Base S)) m r)) = Inr m"
proof -
  have "fst (discreteLog S st (int_point S (- (- sint m))) True) = Inr (word_of_int (- (- sint m)))"
    using assms reachable_neg_table_inv [OF assms(1)] by (intro discreteLog_neg) auto
  then show ?thesis by (simp add: DecryptIntWithNeg_def decrypt_EncryptInt)
qed

lemma negative_lost:
  assumes "0 < m" and "m < n" and "n < MaxHomomorphicInt"
  shows "fst (DecryptIntWithNeg S
      (snd (DecryptInt S empty_table x (EncryptInt S (Point_Mul S x (Point_Base S)) (word_of_int n) r)))
      x (EncryptInt S (Point_Mul S x (Point_Base S)) (word_of_int (- m)) r')) = Inr 0"
proof -
  define st where "st = snd (discreteLog S empty_table (int_point S n) False)"
  have n: "0 < n" using assms by simp
  note entries = positive_search_entries [OF n assms(3), folded st_def]
  have inv: "table_inv S st" unfolding st_def by (intro discreteLog_inv) simp
  have "PointToInt st (Point_String S (int_point S (- m))) = None"
  proof (cases "PointToInt st (Point_String S (int_point S (- m)))")
    case (Some v)
    then have "v = word_of_int (- m)"
      using inv table_sound_lookup by (auto simp: table_inv_def)
    moreover have "0 \<le> sint v" using entries(2) Some by auto
    ultimately show ?thesis
      using small_sint [of "- m"] assms by (simp add: MaxHomomorphicInt_def)
  qed simp
  then have "fst (discreteLog S st (int_point S (- m)) True) =
      Inr (if m < currentGreatestInt st then 0 else word_of_int (- m))"
    using assms by (intro discreteLog_minus inv) auto
  then show ?thesis
    using entries(1) assms by (simp add: DecryptIntWithNeg_def DecryptInt_def decrypt_EncryptInt st_def)
qed

lemma vector_addition:
  assumes "reachable_table S st" and len: "length ms1 = length ms2"
    and range: "\<forall>(a, b)\<in>set (zip ms1 ms2). 0 \<le> sint a + sint b \<and> sint a + sint b < MaxHomomorphicInt"
    and pk: "pk = Point_Mul S x (Point_Base S)"
  shows "andThen (cv_Add S (NewCipherVector S (length ms1)) (EncryptIntVector S pk ms1 r1) (EncryptIntVector S pk ms2 r2))
      (\<lambda>cv. fst (DecryptIntVector S st x cv)) = Inr (map2 (+) ms1 ms2)"
proof -
  have sum: "sint (a + b) = sint a + sint b" if "(a, b) \<in> set (zip ms1 ms2)" for a b
  proof -
    have "\<bar>sint a + sint b\<bar> < 2 ^ 62" using range that by (auto simp: MaxHomomorphicInt_def)
    then have "sint (word_of_int (sint a + sint b) :: int64) = sint a + sint b" by (rule small_sint)
    then show ?thesis by simp
  qed
  have sum': "sint (ms1 ! i + ms2 ! i) = sint (ms1 ! i) + sint (ms2 ! i)" if "i < length ms1" for i
    using that len by (intro sum) (auto simp: in_set_zip)
  let ?cv = "map2 (ct_Add S) (EncryptIntVector S pk ms1 r1) (EncryptIntVector S pk ms2 r2)"
  have "map (decryptPoint S x) ?cv = map (IntToPoint S) (map2 (+) ms1 ms2)"
    using len sum' by (intro nth_equalityI)
      (simp_all add: EncryptIntVector_eq decrypt_simps pk IntToPoint_add)
  moreover have "\<forall>m\<in>set (map2 (+) ms1 ms2). 0 \<le> sint m \<and> sint m < MaxHomomorphicInt"
    using sum range by fastforce
  ultimately have "fst (DecryptIntVector S st x ?cv) = Inr (map2 (+) ms1 ms2)"
    using reachable_table_inv [OF assms(1)] by (intro DecryptIntVector_nonneg)
  then show ?thesis using len by (simp add: cv_Add_Inr EncryptIntVector_eq)
qed

end

section \<open>Properties\<close>

text \<open>
  C4. Decryption inverts encryption for every integer from 0 up to MaxHomomorphicInt, whatever
  the randomness of the encryption and whatever searches filled the table before: both
  DecryptInt and DecryptIntWithNeg of a fresh encryption return the integer.
\<close>

theorem decrypt_encrypt_nonneg:
  assumes "kyber_suite S" and "reachable_table S st" and "0 \<le> sint m" and "sint m < MaxHomomorphicInt"
  shows "fst (DecryptInt S st x (EncryptInt S (Point_Mul S x (Point_Base S)) m r)) = Inr m \<and>
    fst (DecryptIntWithNeg S st x (EncryptInt S (Point_Mul S x (Point_Base S)) m r)) = Inr m"
  using assms
  by (simp add: kyber_suite.DecryptInt_nonneg kyber_suite.reachable_table_inv kyber_suite.decrypt_EncryptInt)

theorem decrypt_encrypt_nonneg_witness:
  "fst (DecryptInt ed25519 empty_table 7 (EncryptInt ed25519 (Point_Mul ed25519 7 (Point_Base ed25519)) 42 9)) = Inr 42"
  using decrypt_encrypt_nonneg [OF ed.kyber_suite_axioms reachable_table.init, of 42 7 9]
  by (simp add: MaxHomomorphicInt_def)

text \<open>
  DecryptIntWithNeg also inverts the encryption of negative integers above -MaxHomomorphicInt,
  provided every search that filled the table was itself one that looks for negative integers.
\<close>

theorem decrypt_encrypt_negative:
  assumes "kyber_suite S" and "reachable_neg_table S st"
    and "- MaxHomomorphicInt < sint m" and "sint m < 0"
  shows "fst (DecryptIntWithNeg S st x (EncryptInt S (Point_Mul S x (Point_Base S)) m r)) = Inr m"
  using assms by (rule kyber_suite.decrypt_negative)

theorem decrypt_encrypt_negative_witness:
  "fst (DecryptIntWithNeg ed25519 empty_table 7
     (EncryptInt ed25519 (Point_Mul ed25519 7 (Point_Base ed25519)) (- 3) 9)) = Inr (- 3)"
  using decrypt_encrypt_negative [OF ed.kyber_suite_axioms reachable_neg_table.init, of "- 3" 7 9]
  by (simp add: MaxHomomorphicInt_def)

text \<open>
  C20. Without that proviso negative integers are lost: after one DecryptInt of a positive n, the
  loop starts at n, never looks at -m for 0 < m < n, and DecryptIntWithNeg of a correct
  encryption of -m returns 0.
\<close>

theorem negative_lost_after_positive:
  assumes "kyber_suite S" and "0 < m" and "m < n" and "n < MaxHomomorphicInt"
  shows "fst (DecryptIntWithNeg S
      (snd (DecryptInt S empty_table x (EncryptInt S (Point_Mul S x (Point_Base S)) (word_of_int n) r)))
      x (EncryptInt S (Point_Mul S x (Point_Base S)) (word_of_int (- m)) r')) = Inr 0"
  using assms by (rule kyber_suite.negative_lost)

theorem negative_lost_after_positive_witness:
  "fst (DecryptIntWithNeg ed25519
      (snd (DecryptInt ed25519 empty_table 7 (EncryptInt ed25519 (Point_Mul ed25519 7 (Point_Base ed25519)) (word_of_int 5) 9)))
      7 (EncryptInt ed25519 (Point_Mul ed25519 7 (Point_Base ed25519)) (word_of_int (- 3)) 11)) = Inr 0"
  by (rule negative_lost_after_positive [OF ed.kyber_suite_axioms]) (simp_all add: MaxHomomorphicInt_def)

text \<open>
  The homomorphic sum of two encrypted vectors decrypts to the vector of the sums: encrypting
  ms1 and ms2 under the same key, adding the ciphervectors and decrypting gives ms1 + ms2, as
  long as each sum lies between 0 and MaxHomomorphicInt.
\<close>

theorem vector_addition_decrypts:
  assumes "kyber_suite S" and "reachable_table S st" and "length ms1 = length ms2"
    and "\<forall>(a, b)\<in>set (zip ms1 ms2). 0 \<le> sint a + sint b \<and> sint a + sint b < MaxHomomorphicInt"
    and "pk = Point_Mul S x (Point_Base S)"
  shows "andThen (cv_Add S (NewCipherVector S (length ms1)) (EncryptIntVector S pk ms1 r1) (EncryptIntVector S pk ms2 r2))
      (\<lambda>cv. fst (DecryptIntVector S st x cv)) = Inr (map2 (+) ms1 ms2)"
  using assms by (rule kyber_suite.vector_addition)

theorem vector_addition_decrypts_witness:
  "andThen (cv_Add ed25519 (NewCipherVector ed25519 (length [1, 2 :: int64]))
       (EncryptIntVector ed25519 (Point_Mul ed25519 7 (Point_Base ed25519)) [1, 2] (\<lambda>i. of_nat i + 3))
       (EncryptIntVector ed25519 (Point_Mul ed25519 7 (Point_Base ed25519)) [10, 20] (\<lambda>i. of_nat i + 8)))
      (\<lambda>cv. fst (DecryptIntVector ed25519 empty_table 7 cv)) = Inr [11, 22]"
  using vector_addition_decrypts [OF ed.kyber_suite_axioms reachable_table.init,
      of "[1, 2]" "[10, 20]" _ 7 "\<lambda>i. of_nat i + 3" "\<lambda>i. of_nat i + 8"]
  by (simp add: MaxHomomorphicInt_def)

end
