(* ===== verification/Tools.thy ===== *)
theory Tools
  imports Prelude
begin

text \<open>
  lib/tools/tools.go: the conversions between integers, bytes and strings that the wire formats
  rest on, the maps of clear integers, and the broadcast to the other servers of a roster.
  The functions of strconv, strings and encoding/binary that it calls are written out for the
  arguments it gives them.
\<close>

section \<open>Integers as bytes\<close>

text \<open>binary.BigEndian.PutUint32 and Uint32; Uint32 reads its first four bytes and panics on fewer.\<close>

definition PutUint32 :: "32 word \<Rightarrow> byte list" where
  "PutUint32 v = [ucast (drop_bit 24 v), ucast (drop_bit 16 v), ucast (drop_bit 8 v), ucast v]"

definition Uint32 :: "byte \<Rightarrow> byte \<Rightarrow> byte \<Rightarrow> byte \<Rightarrow> 32 word" where
  "Uint32 b0 b1 b2 b3 =
     or (ucast b3) (or (push_bit 8 (ucast b2)) (or (push_bit 16 (ucast b1)) (push_bit 24 (ucast b0))))"

definition UnsafeCastIntsToBytes :: "int64 list \<Rightarrow> byte list" where
  "UnsafeCastIntsToBytes ints = concat (map (\<lambda>num. PutUint32 (ucast num)) ints)"

text \<open>The loop reads four bytes per turn; the slice expression panics on a shorter rest.\<close>

fun UnsafeCastBytesToInts :: "byte list \<Rightarrow> int64 list res" where
  "UnsafeCastBytesToInts [] = Inr []"
| "UnsafeCastBytesToInts (b0 # b1 # b2 # b3 # bytes) =
     andThen (UnsafeCastBytesToInts bytes) (\<lambda>intsFinal. Inr (ucast (Uint32 b0 b1 b2 b3) # intsFinal))"
| "UnsafeCastBytesToInts bytes = Inl Panic"

lemma Uint32_PutUint32: "PutUint32 v = [b0, b1, b2, b3] \<Longrightarrow> Uint32 b0 b1 b2 b3 = v"
proof (rule bit_word_eqI)
  fix n
  assume "PutUint32 v = [b0, b1, b2, b3]" and "n < LENGTH(32)"
  moreover have "n < 24 \<or> 24 + (n - 24) = n" by auto
  ultimately show "bit (Uint32 b0 b1 b2 b3) n \<longleftrightarrow> bit v n"
    by (auto simp: PutUint32_def Uint32_def bit_simps)
qed

lemma length_UnsafeCastIntsToBytes [simp]: "length (UnsafeCastIntsToBytes ints) = 4 * length ints"
  by (induction ints) (simp_all add: UnsafeCastIntsToBytes_def PutUint32_def)

lemma UnsafeCast_truncates:
  "UnsafeCastBytesToInts (UnsafeCastIntsToBytes ints) = Inr (map (\<lambda>i. ucast (ucast i :: 32 word)) ints)"
proof (induction ints)
  case Nil
  then show ?case by (simp add: UnsafeCastIntsToBytes_def)
next
  case (Cons i ints)
  obtain b0 b1 b2 b3 where b: "PutUint32 (ucast i) = [b0, b1, b2, b3]"
    by (simp add: PutUint32_def)
  with Cons Uint32_PutUint32 [OF b] show ?case by (simp add: UnsafeCastIntsToBytes_def)
qed

lemma ucast_ucast_32: "(ucast (ucast i :: 32 word) :: int64) = i \<longleftrightarrow> 0 \<le> sint i \<and> sint i < 2 ^ 32"
proof -
  have "(ucast (ucast i :: 32 word) :: int64) = i \<longleftrightarrow> uint i < 2 ^ 32"
    by (simp add: word_uint_eq_iff unsigned_ucast_eq take_bit_int_eq_self_iff del: word_of_int_uint
        flip: unsigned_take_bit_eq) (simp add: unsigned_take_bit_eq take_bit_int_eq_self_iff)
  moreover have "sint i = (uint i + 2 ^ 63) mod 2 ^ 64 - 2 ^ 63"
    by (simp add: sint_uint signed_take_bit_eq_take_bit_shift take_bit_eq_mod)
  moreover have "(uint i + 2 ^ 63) mod 2 ^ 64 = (if uint i < 2 ^ 63 then uint i + 2 ^ 63 else uint i - 2 ^ 63)"
  proof (cases "uint i < 2 ^ 63")
    case False
    have "uint i + 2 ^ 63 = (uint i - 2 ^ 63) + 2 ^ 64" by simp
    then have "(uint i + 2 ^ 63) mod 2 ^ 64 = (uint i - 2 ^ 63) mod 2 ^ 64" by (metis mod_add_self2)
    with False uint_lt2p [of i] show ?thesis by simp
  qed simp
  ultimately show ?thesis using uint_lt2p [of i] by auto
qed

section \<open>Integers as strings\<close>

definition digit :: "nat \<Rightarrow> char" where
  "digit d = ''0123456789'' ! d"

fun dec :: "nat \<Rightarrow> string" where
  "dec n = (if n < 10 then [digit n] else dec (n div 10) @ [digit (n mod 10)])"

declare dec.simps [simp del]

definition Itoa :: "int64 \<Rightarrow> string" where
  "Itoa i = (if sint i < 0 then CHR ''-'' # dec (nat (- sint i)) else dec (nat (sint i)))"

definition digit_value :: "char \<Rightarrow> nat option" where
  "digit_value c = (let v = of_char c :: nat in if 48 \<le> v \<and> v \<le> 57 then Some (v - 48) else None)"

fun parse_digits :: "nat \<Rightarrow> string \<Rightarrow> nat option" where
  "parse_digits acc [] = Some acc"
| "parse_digits acc (c # cs) = (case digit_value c of None \<Rightarrow> None | Some d \<Rightarrow> parse_digits (10 * acc + d) cs)"

text \<open>strconv.ParseInt(s, 10, 64): an optional sign, at least one digit, and the range of int64.\<close>

definition ParseInt :: "string \<Rightarrow> int64 res" where
  "ParseInt s =
     (let neg = (s \<noteq> [] \<and> hd s = CHR ''-'');
          body = (if s \<noteq> [] \<and> (hd s = CHR ''-'' \<or> hd s = CHR ''+'') then tl s else s)
      in if body = [] then Inl (Err ''invalid syntax'')
         else case parse_digits 0 body of
           None \<Rightarrow> Inl (Err ''invalid syntax'')
         | Some un \<Rightarrow>
             if \<not> neg \<and> 2 ^ 63 \<le> un \<or> neg \<and> 2 ^ 63 < un then Inl (Err ''value out of range'')
             else Inr (if neg then - of_nat un else of_nat un))"

text \<open>strings.Split(s, sep) for a separator of one character.\<close>

fun Split :: "char \<Rightarrow> string \<Rightarrow> string list" where
  "Split sep [] = [[]]"
| "Split sep (c # cs) =
     (if c = sep then [] # Split sep cs
      else (case Split sep cs of [] \<Rightarrow> [[c]] | w # ws \<Rightarrow> (c # w) # ws))"

definition Int64ArrayToString :: "int64 list \<Rightarrow> string" where
  "Int64ArrayToString s = (if s = [] then [] else concat (map (\<lambda>elem. Itoa elem @ '' '') s))"

definition StringToInt64Array :: "string \<Rightarrow> int64 list" where
  "StringToInt64Array s =
     (if s = [] then []
      else case traverse ParseInt (filter (\<lambda>elem. elem \<noteq> []) (Split (CHR '' '') s)) of
        Inl err \<Rightarrow> []
      | Inr result \<Rightarrow> result)"

lemma digit_value_digit [simp]: "d < 10 \<Longrightarrow> digit_value (digit d) = Some d"
proof -
  have "list_all (\<lambda>d. digit_value (digit d) = Some d) [0..<10]" by code_simp
  then show "d < 10 \<Longrightarrow> digit_value (digit d) = Some d" by (simp add: list_all_iff)
qed

lemma digit_neq_sign [simp]: "d < 10 \<Longrightarrow> digit d \<noteq> CHR ''-''" "d < 10 \<Longrightarrow> digit d \<noteq> CHR ''+''" "d < 10 \<Longrightarrow> digit d \<noteq> CHR '' ''"
  using digit_value_digit [of d] by (auto simp: digit_value_def)

lemma dec_digits: "\<exists>ds. dec n = map digit ds \<and> ds \<noteq> [] \<and> (\<forall>d\<in>set ds. d < 10)"
proof (induction n rule: dec.induct)
  case (1 n)
  show ?case
  proof (cases "n < 10")
    case True
    then show ?thesis by (intro exI [of _ "[n]"]) (simp add: dec.simps)
  next
    case False
    with 1 obtain ds where "dec (n div 10) = map digit ds" "\<forall>d\<in>set ds. d < 10" by auto
    with False show ?thesis by (intro exI [of _ "ds @ [n mod 10]"]) (auto simp: dec.simps [of n])
  qed
qed

lemma dec_nonempty [simp]: "dec n \<noteq> []"
  using dec_digits [of n] by auto

lemma set_dec: "c \<in> set (dec n) \<Longrightarrow> \<exists>d<10. c = digit d"
  using dec_digits [of n] by (metis (no_types, opaque_lifting) imageE list.set_map)

lemma hd_dec [simp]: "hd (dec n) \<noteq> CHR ''-''" "hd (dec n) \<noteq> CHR ''+''"
  using set_dec [of "hd (dec n)" n] digit_neq_sign by (metis dec_nonempty hd_in_set)+

lemma parse_digits_append:
  "parse_digits acc (xs @ ys) = (case parse_digits acc xs of None \<Rightarrow> None | Some a \<Rightarrow> parse_digits a ys)"
  by (induction acc xs rule: parse_digits.induct) (auto split: option.splits)

lemma parse_dec: "parse_digits 0 (dec n) = Some n"
proof (induction n rule: dec.induct)
  case (1 n)
  then show ?case by (cases "n < 10") (simp_all add: dec.simps [of n] parse_digits_append)
qed

lemma ParseInt_Itoa [simp]: "ParseInt (Itoa i) = Inr i"
proof (cases "sint i < 0")
  case True
  then have "nat (- sint i) \<le> 2 ^ 63"
    using sint_range_size [of i] by (simp add: word_size)
  moreover have "- of_nat (nat (- sint i)) = i" using True by (simp flip: of_int_minus)
  ultimately show ?thesis using True by (simp add: ParseInt_def Itoa_def parse_dec Let_def)
next
  case False
  then have "nat (sint i) < 2 ^ 63"
    using sint_range_size [of i] by (simp add: word_size)
  moreover have "of_nat (nat (sint i)) = i" using False by simp
  ultimately show ?thesis using False by (simp add: ParseInt_def Itoa_def parse_dec Let_def)
qed

lemma Itoa_inject [simp]: "Itoa i = Itoa j \<longleftrightarrow> i = j"
  by (metis ParseInt_Itoa sum.inject(2))

lemma Itoa_no_space: "CHR '' '' \<notin> set (Itoa i)"
proof -
  have "CHR '' '' \<notin> set (dec n)" for n
    using set_dec [of "CHR '' ''" n] digit_neq_sign(3) by metis
  then show ?thesis by (simp add: Itoa_def)
qed

lemma Itoa_nonempty [simp]: "Itoa i \<noteq> []"
  by (simp add: Itoa_def)

lemma Split_word: "sep \<notin> set w \<Longrightarrow> Split sep (w @ sep # rest) = w # Split sep rest"
  by (induction w) auto

lemma Split_no_sep: "sep \<notin> set w \<Longrightarrow> Split sep w = [w]"
  by (induction w) auto

lemma Split_Int64ArrayToString:
  "Split (CHR '' '') (concat (map (\<lambda>elem. Itoa elem @ '' '') s)) = map Itoa s @ [[]]"
proof (induction s)
  case Nil
  then show ?case by simp
next
  case (Cons i s)
  then show ?case by (simp add: Split_word Itoa_no_space)
qed

lemma StringToInt64Array_Int64ArrayToString:
  "StringToInt64Array (Int64ArrayToString s) = s"
proof (cases s)
  case Nil
  then show ?thesis by (simp add: StringToInt64Array_def Int64ArrayToString_def)
next
  case (Cons i s')
  have "filter (\<lambda>elem. elem \<noteq> []) (map Itoa s @ [[]]) = map Itoa s" by (induction s) simp_all
  moreover have "traverse ParseInt (map Itoa s) = Inr s" by (induction s) simp_all
  ultimately show ?thesis
    using Cons Split_Int64ArrayToString [of s]
    by (simp add: StringToInt64Array_def Int64ArrayToString_def)
qed

section \<open>Clear integers by name\<close>

fun ConvertDataToMap_loop :: "int64 list \<Rightarrow> string \<Rightarrow> int64 \<Rightarrow> (string \<rightharpoonup> int64) \<Rightarrow> (string \<rightharpoonup> int64)" where
  "ConvertDataToMap_loop [] first start result = result"
| "ConvertDataToMap_loop (el # data) first start result =
     ConvertDataToMap_loop data first (start + 1) (result(first @ Itoa start \<mapsto> el))"

definition ConvertDataToMap :: "int64 list \<Rightarrow> string \<Rightarrow> int64 \<Rightarrow> (string \<rightharpoonup> int64)" where
  "ConvertDataToMap data first start = ConvertDataToMap_loop data first start Map.empty"

text \<open>Reading a missing key of a Go map gives the zero value.\<close>

definition ConvertMapToData :: "(string \<rightharpoonup> int64) \<Rightarrow> string \<Rightarrow> int64 \<Rightarrow> int64 list" where
  "ConvertMapToData data first start =
     map (\<lambda>i. case data (first @ Itoa (start + of_nat i)) of None \<Rightarrow> 0 | Some v \<Rightarrow> v) [0..<card (dom data)]"

abbreviation data_keys :: "string \<Rightarrow> int64 \<Rightarrow> nat \<Rightarrow> string list" where
  "data_keys first start n \<equiv> map (\<lambda>i. first @ Itoa (start + of_nat i)) [0..<n]"

lemma ConvertDataToMap_loop_eq:
  "ConvertDataToMap_loop data first start m = m(data_keys first start (length data) [\<mapsto>] data)"
proof (induction data first start m rule: ConvertDataToMap_loop.induct)
  case (1 first start result)
  then show ?case by simp
next
  case (2 el data first start result)
  have "data_keys first start (Suc (length data)) = (first @ Itoa start) # data_keys first (start + 1) (length data)"
    by (simp add: upt_conv_Cons map_Suc_upt [symmetric] algebra_simps del: upt_Suc)
  with 2 show ?case by (simp only: ConvertDataToMap_loop.simps length_Cons map_upds_Cons)
qed

lemma distinct_data_keys:
  assumes "n \<le> 2 ^ 64"
  shows "distinct (data_keys first start n)"
proof -
  have "inj_on (\<lambda>i. of_nat i :: int64) {0..<n}"
  proof (rule inj_onI)
    fix i j assume "i \<in> {0..<n}" "j \<in> {0..<n}" and "(of_nat i :: int64) = of_nat j"
    with assms show "i = j" by (simp add: word_of_nat_eq_iff take_bit_nat_eq_self)
  qed
  then show ?thesis by (simp add: distinct_map inj_on_def)
qed

lemma map_upds_nth:
  "distinct ks \<Longrightarrow> length ks = length vs \<Longrightarrow> i < length ks \<Longrightarrow> (m(ks [\<mapsto>] vs)) (ks ! i) = Some (vs ! i)"
proof (induction ks arbitrary: vs m i)
  case Nil
  then show ?case by simp
next
  case (Cons k ks)
  then obtain v vs' where "vs = v # vs'" "length ks = length vs'" by (cases vs) auto
  with Cons show ?case by (cases i) auto
qed

lemma ConvertMapToData_ConvertDataToMap:
  assumes "length data \<le> 2 ^ 64"
  shows "ConvertMapToData (ConvertDataToMap data first start) first start = data"
proof -
  let ?ks = "data_keys first start (length data)"
  note d = distinct_data_keys [OF assms, of first start]
  have m: "ConvertDataToMap data first start = Map.empty(?ks [\<mapsto>] data)"
    by (simp add: ConvertDataToMap_def ConvertDataToMap_loop_eq)
  then have "card (dom (ConvertDataToMap data first start)) = length data"
    using distinct_card [OF d] by simp
  moreover have "ConvertDataToMap data first start (first @ Itoa (start + of_nat i)) = Some (data ! i)"
    if "i < length data" for i
    using map_upds_nth [OF d, of data i Map.empty] that by (simp add: m)
  ultimately show ?thesis
    by (intro nth_equalityI) (simp_all add: ConvertMapToData_def)
qed

section \<open>Broadcast\<close>

text \<open>
  SendISMOthers sends to every server of the roster but the sender, goes on after a failure, and
  returns one error made of all the messages joined by newlines. SendRaw is onet's; it gives an
  error message or none. Errorf is fmt.Errorf, which takes the joined messages as its format.
\<close>

definition SendISMOthers ::
  "('id \<Rightarrow> string option) \<Rightarrow> (string \<Rightarrow> string) \<Rightarrow> 'id \<Rightarrow> 'id list \<Rightarrow> 'id list \<times> unit res" where
  "SendISMOthers SendRaw Errorf self el =
     (let targets = filter (\<lambda>e. e \<noteq> self) el;
          errStrs = List.map_filter SendRaw targets
      in (targets, if 0 < length errStrs then Inl (Err (Errorf (concat (case errStrs of
            [] \<Rightarrow> [] | e # es \<Rightarrow> e # map (\<lambda>m. CHR 0x0A # m) es)))) else Inr ()))"

lemma SendISMOthers_reaches_all:
  "set (fst (SendISMOthers SendRaw Errorf self el)) = set el - {self}"
  by (auto simp: SendISMOthers_def Let_def)

lemma SendISMOthers_ok:
  "snd (SendISMOthers SendRaw Errorf self el) = Inr () \<longleftrightarrow> (\<forall>e\<in>set el. e \<noteq> self \<longrightarrow> SendRaw e = None)"
  by (auto simp: SendISMOthers_def Let_def List.map_filter_def filter_empty_conv)

section \<open>Properties\<close>

text \<open>
  C22. Lengths written with UnsafeCastIntsToBytes are read back by UnsafeCastBytesToInts exactly
  when every one of them fits 32 unsigned bits; any other integer comes back changed.
\<close>

theorem int_bytes_roundtrip:
  "UnsafeCastBytesToInts (UnsafeCastIntsToBytes ints) = Inr ints \<longleftrightarrow>
     list_all (\<lambda>i. 0 \<le> sint i \<and> sint i < 2 ^ 32) ints"
  unfolding UnsafeCast_truncates by (simp add: map_idI list_all_iff map_eq_conv [of _ _ id, simplified] ucast_ucast_32)

text \<open>
  The text forms of clear data lose nothing: StringToInt64Array reads back the string that
  Int64ArrayToString prints, for all vectors of int64, and ConvertMapToData reads back in order
  the map that ConvertDataToMap fills, for at most 2^64 integers and any start of the numbering.
\<close>

theorem clear_data_roundtrip:
  assumes "length data \<le> 2 ^ 64"
  shows "StringToInt64Array (Int64ArrayToString data) = data \<and>
    ConvertMapToData (ConvertDataToMap data first start) first start = data"
  using assms by (simp add: StringToInt64Array_Int64ArrayToString ConvertMapToData_ConvertDataToMap)

end
