(* ===== verification/Marshal.thy ===== *)
theory Marshal
  imports Crypto Tools
begin

text \<open>
  The wire formats of lib/crypto.go: ciphertexts and ciphervectors as bytes, lists of points,
  arrays of ciphervectors with their lengths, and base64 text. The locale codec states what a
  fixed-width element encoding promises; lists of elements are proved correct once for any
  codec, and the points and ciphertexts of a suite are instances.
\<close>

section \<open>Base64\<close>

text \<open>
  base64.URLEncoding of the Go library: three bytes become four characters, the last group is
  padded with equal signs, and decoding skips carriage returns and newlines.
\<close>

definition b64_alphabet :: string where
  "b64_alphabet = ''ABCDEFGHIJKLMNOPQRSTUVWXYZabcdefghijklmnopqrstuvwxyz0123456789-_''"

definition b64_char :: "nat \<Rightarrow> char" where
  "b64_char v = b64_alphabet ! v"

definition b64_val :: "char \<Rightarrow> nat option" where
  "b64_val c = (let i = length (takeWhile (\<lambda>d. d \<noteq> c) b64_alphabet) in if i < 64 then Some i else None)"

fun EncodeToString :: "byte list \<Rightarrow> string" where
  "EncodeToString [] = []"
| "EncodeToString [a] =
     [b64_char (unat a div 4), b64_char (unat a mod 4 * 16), CHR ''='', CHR ''='']"
| "EncodeToString [a, b] =
     [b64_char (unat a div 4), b64_char (unat a mod 4 * 16 + unat b div 16), b64_char (unat b mod 16 * 4), CHR ''='']"
| "EncodeToString (a # b # c # bs) =
     b64_char (unat a div 4) # b64_char (unat a mod 4 * 16 + unat b div 16) #
     b64_char (unat b mod 16 * 4 + unat c div 64) # b64_char (unat c mod 64) # EncodeToString bs"

definition b64_corrupt :: "'a res" where
  "b64_corrupt = Inl (Err ''illegal base64 data'')"

fun decode_quads :: "string \<Rightarrow> byte list res" where
  "decode_quads [] = Inr []"
| "decode_quads (w # x # y # z # cs) =
     (case (b64_val w, b64_val x) of
        (Some p, Some q) \<Rightarrow>
          (let a = of_nat (p * 4 + q div 16) in
           case b64_val y of
             None \<Rightarrow> if y = CHR ''='' \<and> z = CHR ''='' \<and> cs = [] then Inr [a] else b64_corrupt
           | Some r \<Rightarrow>
               (let b = of_nat (q mod 16 * 16 + r div 4) in
                case b64_val z of
                  None \<Rightarrow> if z = CHR ''='' \<and> cs = [] then Inr [a, b] else b64_corrupt
                | Some t \<Rightarrow>
                    andThen (decode_quads cs) (\<lambda>bs. Inr (a # b # of_nat (r mod 4 * 64 + t) # bs))))
      | _ \<Rightarrow> b64_corrupt)"
| "decode_quads cs = b64_corrupt"

definition DecodeString :: "string \<Rightarrow> byte list res" where
  "DecodeString s = decode_quads (filter (\<lambda>c. c \<noteq> CHR 0x0A \<and> c \<noteq> CHR 0x0D) s)"

lemma b64_val_char [simp]: "v < 64 \<Longrightarrow> b64_val (b64_char v) = Some v"
proof -
  have "list_all (\<lambda>v. b64_val (b64_char v) = Some v) [0..<64]" by code_simp
  then show "v < 64 \<Longrightarrow> ?thesis" by (simp add: list_all_iff)
qed

lemma b64_val_pad [simp]: "b64_val (CHR ''='') = None"
  by code_simp

lemma b64_char_no_newline [simp]: "v < 64 \<Longrightarrow> b64_char v \<noteq> CHR 0x0A \<and> b64_char v \<noteq> CHR 0x0D"
proof -
  have "b64_val (CHR 0x0A) = None" "b64_val (CHR 0x0D) = None" by code_simp+
  then show "v < 64 \<Longrightarrow> ?thesis" by (metis b64_val_char option.distinct(1))
qed

lemma byte_high: "unat b div 16 < 16" "unat b div 64 < 4" for b :: byte
proof -
  have "unat b < 256" using unsigned_less [of b] by simp
  then show "unat b div 16 < 16" "unat b div 64 < 4" by (simp_all add: div_less_iff_less_mult)
qed

lemma byte_split [simp]:
  fixes a b c :: byte
  shows "unat a div 4 < 64" "unat a mod 4 * 16 + unat b div 16 < 64"
    "unat b mod 16 * 4 + unat c div 64 < 64" "unat a mod 4 * 16 < 64" "unat b mod 16 * 4 < 64"
proof -
  have "unat a < 256" "unat b < 256" "unat c < 256"
    using unsigned_less [of a] unsigned_less [of b] unsigned_less [of c] by simp_all
  then have "unat a div 4 < 64" "unat b div 16 < 16" "unat c div 64 < 4"
    by (simp_all add: div_less_iff_less_mult)
  moreover have "unat a mod 4 < 4" "unat b mod 16 < 16" by simp_all
  ultimately show "unat a div 4 < 64" "unat a mod 4 * 16 + unat b div 16 < 64"
    "unat b mod 16 * 4 + unat c div 64 < 64" "unat a mod 4 * 16 < 64" "unat b mod 16 * 4 < 64"
    by linarith+
qed

lemma byte_sextets:
  fixes a b c :: byte
  shows "(unat a mod 4 * 16 + unat b div 16) div 16 = unat a mod 4"
    "(unat b mod 16 * 4 + unat c div 64) div 4 = unat b mod 16"
    "(unat a mod 4 * 16 + unat b div 16) mod 16 = unat b div 16"
    "(unat b mod 16 * 4 + unat c div 64) mod 4 = unat c div 64"
  using byte_high [of b] byte_high [of c] by simp_all

lemma byte_high_mod: "unat b div 16 mod 16 = unat b div 16" "unat b div 64 mod 4 = unat b div 64" for b :: byte
  using byte_high [of b] by simp_all

lemma decode_encode_quads: "decode_quads (EncodeToString bs) = Inr bs"
  by (induction bs rule: EncodeToString.induct)
    (simp_all add: byte_sextets byte_high_mod Let_def del: of_nat_add of_nat_mult)

lemma DecodeString_EncodeToString [simp]: "DecodeString (EncodeToString bs) = Inr bs"
proof -
  have "filter (\<lambda>c. c \<noteq> CHR 0x0A \<and> c \<noteq> CHR 0x0D) (EncodeToString bs) = EncodeToString bs"
    by (induction bs rule: EncodeToString.induct) simp_all
  then show ?thesis by (simp add: DecodeString_def decode_encode_quads)
qed

section \<open>Fixed-width codecs\<close>

definition write_elements :: "('a \<Rightarrow> byte list res) \<Rightarrow> 'a list \<Rightarrow> byte list res" where
  \<comment> \<open>the loop of ToBytes: append the encodings, stop at the first error\<close>
  "write_elements enc xs = andThen (traverse enc xs) (\<lambda>bss. Inr (concat bss))"

definition read_elements :: "(byte list \<Rightarrow> 'a res) \<Rightarrow> nat \<Rightarrow> nat \<Rightarrow> byte list \<Rightarrow> 'a list res" where
  \<comment> \<open>the loop of FromBytes: decode data[i : i+width] at i = 0, width, ..., n times\<close>
  "read_elements decode width n data =
     traverse (\<lambda>pos. andThen (slice data (pos * width) (pos * width + width)) decode) [0..<n]"

locale codec =
  fixes enc :: "'a \<Rightarrow> byte list res" and decode :: "byte list \<Rightarrow> 'a res" and width :: nat
  assumes width_pos: "0 < width"
    and enc_decode: "\<exists>b. enc x = Inr b \<and> length b = width \<and> decode b = Inr x"
begin

lemma write_ex:
  obtains b where "write_elements enc xs = Inr b" "length b = length xs * width"
    "\<And>suf. read_elements decode width (length xs) (b @ suf) = Inr xs"
proof -
  have "\<exists>f. \<forall>x. enc x = Inr (f x) \<and> length (f x) = width \<and> decode (f x) = Inr x"
    using enc_decode by metis
  then obtain f where f: "\<And>x. enc x = Inr (f x)" "\<And>x. length (f x) = width" "\<And>x. decode (f x) = Inr x"
    by blast
  let ?b = "concat (map f xs)"
  have len: "length (concat (map f ys)) = length ys * width" for ys
    by (induction ys) (simp_all add: f(2))
  have "slice (?b @ suf) (pos * width) (pos * width + width) = Inr (f (xs ! pos))" if "pos < length xs" for pos suf
  proof -
    have "?b @ suf = concat (map f (take pos xs)) @ f (xs ! pos) @ concat (map f (drop (Suc pos) xs)) @ suf"
      using that by (subst id_take_nth_drop [OF that]) simp
    then show ?thesis using that by (simp add: len f(2) min_def)
  qed
  then have "read_elements decode width (length xs) (?b @ suf) = Inr (map (\<lambda>pos. xs ! pos) [0..<length xs])" for suf
    unfolding read_elements_def by (intro traverse_Inr_map) (simp add: f(3))
  then have "read_elements decode width (length xs) (?b @ suf) = Inr xs" for suf
    by (simp add: map_nth)
  moreover have "write_elements enc xs = Inr ?b"
    by (simp add: write_elements_def f(1))
  ultimately show thesis using that len by blast
qed

lemma write_total: "write_elements enc xs \<noteq> Inl e"
  by (rule write_ex [of xs]) simp

lemma length_write: "write_elements enc xs = Inr b \<Longrightarrow> length b = length xs * width"
  by (rule write_ex [of xs]) simp

lemma read_write: "write_elements enc xs = Inr b \<Longrightarrow> read_elements decode width (length xs) (b @ suf) = Inr xs"
  by (rule write_ex [of xs]) simp

lemma read_write_exact:
  "write_elements enc xs = Inr b \<Longrightarrow> read_elements decode width (length xs) b = Inr xs"
  using read_write [of xs b "[]"] by simp

lemma write_inject: "write_elements enc xs = Inr b \<Longrightarrow> write_elements enc ys = Inr b \<Longrightarrow> xs = ys"
  using read_write_exact [of xs b] read_write_exact [of ys b] length_write [of xs b] length_write [of ys b] width_pos
  by simp

lemma read_short:
  assumes "length data < n * width"
  shows "\<exists>e. read_elements decode width n data = Inl e"
proof (cases "read_elements decode width n data")
  case (Inr xs)
  then have l: "list_all2 (\<lambda>pos y. andThen (slice data (pos * width) (pos * width + width)) decode = Inr y) [0..<n] xs"
    by (simp add: read_elements_def traverse_eq_Inr)
  have n: "0 < n" using assms by (cases n) simp_all
  then have "andThen (slice data ((n - 1) * width) ((n - 1) * width + width)) decode = Inr (xs ! (n - 1))"
    using list_all2_nthD [OF l, of "n - 1"] by simp
  then have "(n - 1) * width + width \<le> length data" by (auto simp: andThen_eq_Inr slice_eq_Inr)
  moreover have "(n - 1) * width + width = n * width" using n by (cases n) simp_all
  ultimately show ?thesis using assms by simp
qed simp

end

section \<open>Ciphertexts and ciphervectors\<close>

definition CipherTextByteSize :: "('s, 'p) suite \<Rightarrow> nat" where
  "CipherTextByteSize S = 2 * PointLen S"

definition ct_ToBytes :: "('s, 'p) suite \<Rightarrow> 'p CipherText \<Rightarrow> byte list res" where
  "ct_ToBytes S c =
     andThen (Point_MarshalBinary S (ctK c)) (\<lambda>k.
     andThen (Point_MarshalBinary S (ctC c)) (\<lambda>cP. Inr (k @ cP)))"

definition ct_FromBytes :: "('s, 'p) suite \<Rightarrow> byte list \<Rightarrow> 'p CipherText res" where
  "ct_FromBytes S data =
     (let pointLength = PointLen S in
      andThen (slice data 0 pointLength) (\<lambda>kb. andThen (Point_UnmarshalBinary S kb) (\<lambda>k.
      andThen (slice data pointLength (length data)) (\<lambda>cb. andThen (Point_UnmarshalBinary S cb) (\<lambda>cP.
      Inr \<lparr>ctK = k, ctC = cP\<rparr>)))))"

definition cv_ToBytes :: "('s, 'p) suite \<Rightarrow> 'p CipherVector \<Rightarrow> (byte list \<times> nat) res" where
  "cv_ToBytes S cv = andThen (write_elements (ct_ToBytes S) cv) (\<lambda>b. Inr (b, length cv))"

definition cv_FromBytes :: "('s, 'p) suite \<Rightarrow> byte list \<Rightarrow> nat \<Rightarrow> 'p CipherVector res" where
  "cv_FromBytes S data len =
     (let cipherLength = 2 * PointLen S in read_elements (ct_FromBytes S) cipherLength len data)"

text \<open>Text forms.\<close>

definition Serialize :: "('s, 'p) suite \<Rightarrow> 'p CipherText \<Rightarrow> string res" where
  "Serialize S c = andThen (ct_ToBytes S c) (\<lambda>data. Inr (EncodeToString data))"

definition Deserialize :: "('s, 'p) suite \<Rightarrow> string \<Rightarrow> 'p CipherText res" where
  "Deserialize S b64Encoded =
     (case DecodeString b64Encoded of
        Inl (Err e) \<Rightarrow> Inl (Err (''invalid ciphertext (decoding failed): '' @ e))
      | Inl Panic \<Rightarrow> Inl Panic
      | Inr decoded \<Rightarrow> ct_FromBytes S decoded)"

definition NewCipherTextFromBase64 :: "('s, 'p) suite \<Rightarrow> string \<Rightarrow> 'p CipherText res" where
  "NewCipherTextFromBase64 S b64Encoded = Deserialize S b64Encoded"

definition SerializeElement :: "byte list res \<Rightarrow> string res" where
  \<comment> \<open>the argument is the result of the element's MarshalBinary\<close>
  "SerializeElement marshalled =
     (case marshalled of
        Inl (Err e) \<Rightarrow> Inl (Err (''error marshalling element: '' @ e))
      | Inl Panic \<Rightarrow> Inl Panic
      | Inr bytes \<Rightarrow> Inr (EncodeToString bytes))"

definition SerializePoint :: "('s, 'p) suite \<Rightarrow> 'p \<Rightarrow> string res" where
  "SerializePoint S point = SerializeElement (Point_MarshalBinary S point)"

definition SerializeScalar :: "('s, 'p) suite \<Rightarrow> 's \<Rightarrow> string res" where
  "SerializeScalar S scalar = SerializeElement (Scalar_MarshalBinary S scalar)"

definition deserialize_with :: "string \<Rightarrow> (byte list \<Rightarrow> 'a res) \<Rightarrow> string \<Rightarrow> 'a res" where
  \<comment> \<open>the common text of DeserializePoint and DeserializeScalar\<close>
  "deserialize_with what unmarshal encoded =
     (case DecodeString encoded of
        Inl (Err e) \<Rightarrow> Inl (Err (''error decoding '' @ what @ '': '' @ e))
      | Inl Panic \<Rightarrow> Inl Panic
      | Inr decoded \<Rightarrow>
          (case unmarshal decoded of
             Inl (Err e) \<Rightarrow> Inl (Err (''error unmarshalling '' @ what @ '': '' @ e))
           | Inl Panic \<Rightarrow> Inl Panic
           | Inr el \<Rightarrow> Inr el))"

definition DeserializePoint :: "('s, 'p) suite \<Rightarrow> string \<Rightarrow> 'p res" where
  "DeserializePoint S encodedPoint = deserialize_with ''point'' (Point_UnmarshalBinary S) encodedPoint"

definition DeserializeScalar :: "('s, 'p) suite \<Rightarrow> string \<Rightarrow> 's res" where
  "DeserializeScalar S encodedScalar = deserialize_with ''scalar'' (Scalar_UnmarshalBinary S) encodedScalar"

section \<open>Lists of points and arrays of ciphervectors\<close>

definition AbstractPointsToBytes :: "('s, 'p) suite \<Rightarrow> 'p list \<Rightarrow> byte list res" where
  "AbstractPointsToBytes S aps = write_elements (Point_MarshalBinary S) aps"

text \<open>The loop runs at i = 0, PointLen, 2 PointLen, ... while i is below the length of the target.\<close>

definition FromBytesToAbstractPoints :: "('s, 'p) suite \<Rightarrow> byte list \<Rightarrow> 'p list res" where
  "FromBytesToAbstractPoints S target =
     (let pointLength = PointLen S
      in read_elements (Point_UnmarshalBinary S) pointLength ((length target + pointLength - 1) div pointLength) target)"

text \<open>One goroutine per vector; each fills bb[i] and cvLengths[i].\<close>

definition ArrayCipherVectorToBytes :: "('s, 'p) suite \<Rightarrow> 'p CipherVector list \<Rightarrow> (byte list \<times> byte list) res" where
  "ArrayCipherVectorToBytes S data =
     andThen (par_fill 1 (length data) (\<lambda>i. cv_ToBytes S (data ! i)) (replicate (length data) ([], 0))) (\<lambda>bbl.
     Inr (concat (map fst bbl), UnsafeCastIntsToBytes (map (\<lambda>x. of_nat (snd x)) bbl)))"

text \<open>
  The main loop slices the data, vector by vector (an index out of range panics there), and
  starts one goroutine per slice.
\<close>

fun cut_vectors :: "nat \<Rightarrow> byte list \<Rightarrow> nat \<Rightarrow> int64 list \<Rightarrow> (byte list \<times> nat) list res" where
  "cut_vectors elementSize data bytePos [] = Inr []"
| "cut_vectors elementSize data bytePos (l # cvLengths) =
     (let nextBytePos = bytePos + unat l * elementSize in
      andThen (slice data bytePos nextBytePos) (\<lambda>v.
      andThen (cut_vectors elementSize data nextBytePos cvLengths) (\<lambda>vs. Inr ((v, unat l) # vs))))"

definition FromBytesToArrayCipherVector :: "('s, 'p) suite \<Rightarrow> byte list \<Rightarrow> byte list \<Rightarrow> 'p CipherVector list res" where
  "FromBytesToArrayCipherVector S data cvLengthsByte =
     andThen (UnsafeCastBytesToInts cvLengthsByte) (\<lambda>cvLengths.
     andThen (cut_vectors (CipherTextByteSize S) data 0 cvLengths) (\<lambda>parts.
     par_fill 1 (length cvLengths) (\<lambda>i. cv_FromBytes S (fst (parts ! i)) (snd (parts ! i)))
       (replicate (length cvLengths) [])))"

section \<open>The formats of a suite\<close>

context kyber_suite
begin

sublocale point_bytes: codec "Point_MarshalBinary S" "Point_UnmarshalBinary S" "PointLen S"
  by unfold_locales (rule point_len_pos, rule point_marshal)

sublocale scalar_bytes: codec "Scalar_MarshalBinary S" "Scalar_UnmarshalBinary S" "ScalarLen S"
  by unfold_locales (rule scalar_len_pos, rule scalar_marshal)

sublocale ct_bytes: codec "ct_ToBytes S" "ct_FromBytes S" "2 * PointLen S"
proof unfold_locales
  show "0 < 2 * PointLen S" using point_len_pos by simp
  show "\<exists>b. ct_ToBytes S c = Inr b \<and> length b = 2 * PointLen S \<and> ct_FromBytes S b = Inr c" for c
  proof -
    obtain k where k: "Point_MarshalBinary S (ctK c) = Inr k" "length k = PointLen S"
      "Point_UnmarshalBinary S k = Inr (ctK c)" by (rule marshal_ex)
    obtain d where d: "Point_MarshalBinary S (ctC c) = Inr d" "length d = PointLen S"
      "Point_UnmarshalBinary S d = Inr (ctC c)" by (rule marshal_ex)
    have "ct_FromBytes S (k @ d) = Inr c" using k d by (simp add: ct_FromBytes_def Let_def)
    with k d show ?thesis by (simp add: ct_ToBytes_def)
  qed
qed

lemma ct_FromBytes_ToBytes: "andThen (ct_ToBytes S c) (ct_FromBytes S) = Inr c"
  using ct_bytes.enc_decode [of c] by auto

lemma cv_bytes_ex:
  obtains b where "cv_ToBytes S cv = Inr (b, length cv)" "length b = length cv * (2 * PointLen S)"
    "cv_FromBytes S b (length cv) = Inr cv"
  by (rule ct_bytes.write_ex [of cv])
    (metis andThen_Inr append_Nil2 cv_FromBytes_def cv_ToBytes_def)

lemma cv_ToBytes_eq_Inr: "cv_ToBytes S cv = Inr (b, n) \<longleftrightarrow> write_elements (ct_ToBytes S) cv = Inr b \<and> n = length cv"
  by (auto simp: cv_ToBytes_def andThen_eq_Inr)

lemma cv_FromBytes_ToBytes:
  assumes "cv_ToBytes S cv = Inr (b, n)"
  shows "cv_FromBytes S b n = Inr cv" "n = length cv" "length b = length cv * (2 * PointLen S)"
  using assms ct_bytes.read_write_exact [of cv b] ct_bytes.length_write [of cv b]
  by (auto simp: cv_ToBytes_eq_Inr cv_FromBytes_def Let_def)

lemma cv_ToBytes_inject: "cv_ToBytes S cv = Inr (b, n) \<Longrightarrow> cv_ToBytes S cv' = Inr (b, m) \<Longrightarrow> cv = cv'"
  using ct_bytes.write_inject by (auto simp: cv_ToBytes_eq_Inr)

lemma cv_FromBytes_short: "length data < n * (2 * PointLen S) \<Longrightarrow> \<exists>e. cv_FromBytes S data n = Inl e"
  unfolding cv_FromBytes_def Let_def by (rule ct_bytes.read_short)

lemma Deserialize_Serialize: "andThen (Serialize S c) (Deserialize S) = Inr c"
  using ct_bytes.enc_decode [of c] by (auto simp: Serialize_def Deserialize_def)

lemma DeserializePoint_SerializePoint: "andThen (SerializePoint S P) (DeserializePoint S) = Inr P"
  using point_marshal [of P]
  by (auto simp: SerializePoint_def SerializeElement_def DeserializePoint_def deserialize_with_def)

lemma DeserializeScalar_SerializeScalar: "andThen (SerializeScalar S a) (DeserializeScalar S) = Inr a"
  using scalar_marshal [of a]
  by (auto simp: SerializeScalar_def SerializeElement_def DeserializeScalar_def deserialize_with_def)

lemma points_bytes_roundtrip: "andThen (AbstractPointsToBytes S aps) (FromBytesToAbstractPoints S) = Inr aps"
proof (rule point_bytes.write_ex [of aps])
  fix b
  assume b: "write_elements (Point_MarshalBinary S) aps = Inr b" "length b = length aps * PointLen S"
  have "(length aps * PointLen S + PointLen S - 1) div PointLen S = length aps"
    using point_len_pos by (cases "PointLen S") (simp_all del: mult_Suc_right)
  with b point_bytes.read_write_exact [OF b(1)] show ?thesis
    by (simp add: AbstractPointsToBytes_def FromBytesToAbstractPoints_def Let_def)
qed

lemma cut_vectors_written:
  assumes "list_all2 (\<lambda>cv b. cv_ToBytes S cv = Inr (b, length cv)) cvs bs" and "length pre = pos"
    and "\<forall>cv\<in>set cvs. length cv < 2 ^ 32"
  shows "cut_vectors (CipherTextByteSize S) (pre @ concat bs) pos (map (\<lambda>cv. of_nat (length cv)) cvs) =
    Inr (zip bs (map length cvs))"
  using assms
proof (induction cvs bs arbitrary: pre pos rule: list_all2_induct)
  case Nil
  then show ?case by simp
next
  case (Cons cv cvs b bs)
  have "unat (of_nat (length cv) :: int64) = length cv"
    using Cons.prems by (simp add: unat_of_nat take_bit_nat_eq_self)
  moreover have "length b = length cv * CipherTextByteSize S"
    using cv_FromBytes_ToBytes [OF Cons.hyps(1)] by (simp add: CipherTextByteSize_def)
  moreover have "cut_vectors (CipherTextByteSize S) ((pre @ b) @ concat bs) (pos + length b)
      (map (\<lambda>cv. of_nat (length cv)) cvs) = Inr (zip bs (map length cvs))"
    using Cons.prems by (intro Cons.IH) simp_all
  ultimately show ?case using Cons.prems by (simp add: Let_def)
qed

lemma array_bytes_roundtrip:
  assumes "\<forall>cv\<in>set cvs. length cv < 2 ^ 32"
  shows "andThen (ArrayCipherVectorToBytes S cvs) (\<lambda>(b, l). FromBytesToArrayCipherVector S b l) = Inr cvs"
proof -
  have "\<exists>f. \<forall>cv. cv_ToBytes S cv = Inr (f cv, length cv)" by (metis cv_bytes_ex)
  then obtain f where f: "\<And>cv. cv_ToBytes S cv = Inr (f cv, length cv)" by blast
  let ?n = "length cvs" and ?lens = "map (\<lambda>cv. of_nat (length cv)) cvs :: int64 list"
  have "par_fill 1 ?n (\<lambda>i. cv_ToBytes S (cvs ! i)) (replicate ?n ([], 0)) =
      Inr (map (\<lambda>i. (f (cvs ! i), length (cvs ! i))) [0..<?n] @ drop ?n (replicate ?n ([], 0)))"
    by (rule par_fill_Inr) (simp_all add: f)
  also have "map (\<lambda>i. (f (cvs ! i), length (cvs ! i))) [0..<?n] = map (\<lambda>cv. (f cv, length cv)) cvs"
    by (intro nth_equalityI) simp_all
  finally have w: "ArrayCipherVectorToBytes S cvs =
      Inr (concat (map f cvs), UnsafeCastIntsToBytes ?lens)"
    by (simp add: ArrayCipherVectorToBytes_def comp_def)
  have fit: "(ucast (ucast (of_nat (length cv) :: int64) :: 32 word) :: int64) = of_nat (length cv)"
    if "cv \<in> set cvs" for cv
  proof -
    have "length cv < 2 ^ 32" using assms that by blast
    then show ?thesis
      by (simp add: word_unat_eq_iff unsigned_ucast_eq unsigned_of_nat take_bit_nat_eq_self)
  qed
  have lens: "UnsafeCastBytesToInts (UnsafeCastIntsToBytes ?lens) = Inr ?lens"
    unfolding UnsafeCast_truncates using fit by (simp add: comp_def)
  have "list_all2 (\<lambda>cv b. cv_ToBytes S cv = Inr (b, length cv)) cvs (map f cvs)"
    by (simp add: list_all2_conv_all_nth f)
  from cut_vectors_written [OF this, of "[]" 0] assms
  have cut: "cut_vectors (CipherTextByteSize S) (concat (map f cvs)) 0 ?lens = Inr (zip (map f cvs) (map length cvs))"
    by simp
  let ?parts = "zip (map f cvs) (map length cvs)"
  have "par_fill 1 ?n (\<lambda>i. cv_FromBytes S (fst (?parts ! i)) (snd (?parts ! i))) (replicate ?n []) =
      Inr (map (\<lambda>i. cvs ! i) [0..<?n] @ drop ?n (replicate ?n []))"
    using cv_FromBytes_ToBytes(1) [OF f] by (intro par_fill_Inr) simp_all
  then show ?thesis by (simp add: w FromBytesToArrayCipherVector_def lens cut map_nth)
qed

end

interpretation ed_ct: codec "ct_ToBytes ed25519" "ct_FromBytes ed25519" "2 * PointLen ed25519"
  by (rule ed.ct_bytes.codec_axioms)

section \<open>Properties\<close>

text \<open>
  C21. Every wire format of lib/crypto.go reads back what it wrote: ciphertexts and ciphervectors
  from bytes, ciphertexts, points and scalars from base64 text, lists of points from bytes, and
  arrays of ciphervectors from their bytes and encoded lengths, empty vectors included, when no
  vector of the array has 2^32 elements or more.
\<close>

theorem wire_formats_roundtrip:
  assumes "kyber_suite S"
  shows "andThen (ct_ToBytes S c) (ct_FromBytes S) = Inr c \<and>
    andThen (cv_ToBytes S cv) (\<lambda>(b, n). cv_FromBytes S b n) = Inr cv \<and>
    andThen (Serialize S c) (Deserialize S) = Inr c \<and>
    andThen (SerializePoint S P) (DeserializePoint S) = Inr P \<and>
    andThen (SerializeScalar S a) (DeserializeScalar S) = Inr a \<and>
    andThen (AbstractPointsToBytes S aps) (FromBytesToAbstractPoints S) = Inr aps \<and>
    ((\<forall>v\<in>set cvs. length v < 2 ^ 32) \<longrightarrow>
      andThen (ArrayCipherVectorToBytes S cvs) (\<lambda>(b, l). FromBytesToArrayCipherVector S b l) = Inr cvs)"
proof -
  obtain b where "cv_ToBytes S cv = Inr (b, length cv)" "cv_FromBytes S b (length cv) = Inr cv"
    using kyber_suite.cv_bytes_ex [OF assms] by metis
  then show ?thesis
    using assms kyber_suite.array_bytes_roundtrip [OF assms, of cvs]
    by (simp add: kyber_suite.ct_FromBytes_ToBytes kyber_suite.Deserialize_Serialize kyber_suite.DeserializePoint_SerializePoint
        kyber_suite.DeserializeScalar_SerializeScalar kyber_suite.points_bytes_roundtrip)
qed

theorem wire_formats_roundtrip_witness:
  "andThen (cv_ToBytes ed25519 [\<lparr>ctK = 5, ctC = 6\<rparr>]) (\<lambda>(b, n). cv_FromBytes ed25519 b n) = Inr [\<lparr>ctK = 5, ctC = 6\<rparr>] \<and>
   andThen (ArrayCipherVectorToBytes ed25519 [[\<lparr>ctK = 5, ctC = 6\<rparr>], []])
     (\<lambda>(b, l). FromBytesToArrayCipherVector ed25519 b l) = Inr [[\<lparr>ctK = 5, ctC = 6\<rparr>], []]"
  using wire_formats_roundtrip [OF ed.kyber_suite_axioms, of _ "[\<lparr>ctK = 5, ctC = 6\<rparr>]" _ _ _ "[[\<lparr>ctK = 5, ctC = 6\<rparr>], []]"] by simp

end
