(* ===== verification/Structs.thy ===== *)
theory Structs
  imports Marshal
begin

text \<open>
  lib/structs.go: the responses of data providers and of the pipeline, their aggregation by
  grouping key, the encryption of a clear response, the textual grouping keys, and the byte
  formats. The two maps of a response are records over the type of the encrypted part, so the
  clear, the encrypted and the marshalled response are instances of one record.
\<close>

section \<open>Responses\<close>

definition SEPARATOR :: string where
  "SEPARATOR = ''/-/''"

record 'e dp_response =
  WhereClear :: "string \<rightharpoonup> int64"
  WhereEnc :: 'e
  GroupByClear :: "string \<rightharpoonup> int64"
  GroupByEnc :: 'e
  AggregatingAttributesClear :: "string \<rightharpoonup> int64"
  AggregatingAttributesEnc :: 'e

type_synonym DpClearResponse = "(string \<rightharpoonup> int64) dp_response"
type_synonym DpResponseToSend = "(string \<rightharpoonup> byte list) dp_response"

text \<open>Whether the encrypted maps of a DpResponse are nil decides how it is stored, so nil is None.\<close>

type_synonym 'p DpResponse = "(string \<rightharpoonup> 'p CipherText) option dp_response"

record 'p ProcessResponse =
  pr_WhereEnc :: "'p CipherVector"
  pr_GroupByEnc :: "'p CipherVector"
  pr_AggregatingAttributes :: "'p CipherVector"

record 'p WhereQueryAttribute =
  wq_Name :: string
  wq_Value :: "'p CipherText"

record WhereQueryAttributeTagged =
  wqt_Name :: string
  wqt_Value :: GroupingKey

record 'p ProcessResponseDet =
  PR :: "'p ProcessResponse"
  prd_DetTagGroupBy :: GroupingKey
  prd_DetTagWhere :: "GroupingKey list"

record 'p FilteredResponse =
  fr_GroupByEnc :: "'p CipherVector"
  fr_AggregatingAttributes :: "'p CipherVector"

record 'p FilteredResponseDet =
  frd_DetTagGroupBy :: GroupingKey
  Fr :: "'p FilteredResponse"

section \<open>Aggregation by grouping key\<close>

definition NewFilteredResponse :: "('s, 'p) suite \<Rightarrow> nat \<Rightarrow> nat \<Rightarrow> 'p FilteredResponse" where
  "NewFilteredResponse S grpEncSize attrSize =
     \<lparr>fr_GroupByEnc = NewCipherVector S grpEncSize, fr_AggregatingAttributes = NewCipherVector S attrSize\<rparr>"

definition fr_Add :: "('s, 'p) suite \<Rightarrow> 'p FilteredResponse \<Rightarrow> 'p FilteredResponse \<Rightarrow> 'p FilteredResponse \<Rightarrow> 'p FilteredResponse res" where
  "fr_Add S cv cv1 cv2 =
     andThen (cv_Add S (fr_AggregatingAttributes cv) (fr_AggregatingAttributes cv1) (fr_AggregatingAttributes cv2)) (\<lambda>aggr.
     Inr \<lparr>fr_GroupByEnc = fr_GroupByEnc cv1, fr_AggregatingAttributes = aggr\<rparr>)"

definition AddInMap :: "('s, 'p) suite \<Rightarrow> GroupingKey \<Rightarrow> 'p FilteredResponse \<Rightarrow> (GroupingKey \<rightharpoonup> 'p FilteredResponse)
    \<Rightarrow> (GroupingKey \<rightharpoonup> 'p FilteredResponse) res" where
  "AddInMap S key added s =
     (case s key of
        None \<Rightarrow> Inr (s(key \<mapsto> added))
      | Some localResult \<Rightarrow>
          (let nfr = NewFilteredResponse S (length (fr_GroupByEnc added)) (length (fr_AggregatingAttributes added)) in
           andThen (fr_Add S nfr localResult added) (\<lambda>nfr'. Inr (s(key \<mapsto> nfr')))))"

definition format_step :: "GroupingKey \<Rightarrow> nat \<times> 'p CipherText \<Rightarrow> (GroupingKey \<rightharpoonup> 'p CipherVector list)
    \<Rightarrow> (GroupingKey \<rightharpoonup> 'p CipherVector list) res" where
  "format_step key ict res =
     (let container = (case res key of None \<Rightarrow> [] | Some c \<Rightarrow> c); i = fst ict; ct = snd ict in
      andThen (index_at container i) (\<lambda>cv.
      andThen (store_at container i (cv @ [ct])) (\<lambda>container'. Inr (res(key \<mapsto> container')))))"

definition FormatAggregationProofs :: "'p FilteredResponseDet \<Rightarrow> (GroupingKey \<rightharpoonup> 'p CipherVector list)
    \<Rightarrow> (GroupingKey \<rightharpoonup> 'p CipherVector list) res" where
  "FormatAggregationProofs crd res =
     (let key = frd_DetTagGroupBy crd; aggr = fr_AggregatingAttributes (Fr crd) in
      case res key of
        Some _ \<Rightarrow> fold_res (format_step key) (enumerate 0 aggr) res
      | None \<Rightarrow> Inr (if aggr = [] then res else res(key \<mapsto> map (\<lambda>ct. [ct]) aggr)))"

section \<open>Encryption of a clear response\<close>

text \<open>
  The three range loops encrypt every value of the three maps; their visiting orders are the
  lists of entries grp, whr and aggr, the randomness of an entry is picked by section and name.
\<close>

definition encrypt_bytes :: "('s, 'p) suite \<Rightarrow> 'p \<Rightarrow> (string \<Rightarrow> 's) \<Rightarrow> string \<Rightarrow> int64 \<Rightarrow> byte list res" where
  "encrypt_bytes S key picks i v = ct_ToBytes S (EncryptInt S key v (picks i))"

definition EncryptDpClearResponse ::
  "('s, 'p) suite \<Rightarrow> (nat \<Rightarrow> string \<Rightarrow> 's) \<Rightarrow> (string \<times> int64) list \<Rightarrow> (string \<times> int64) list \<Rightarrow> (string \<times> int64) list
   \<Rightarrow> DpClearResponse \<Rightarrow> 'p \<Rightarrow> bool \<Rightarrow> DpResponseToSend res" where
  "EncryptDpClearResponse S picks grp whr aggr ccr encryptionKey withCount =
     andThen (map_loop (encrypt_bytes S encryptionKey (picks 0)) grp Map.empty) (\<lambda>groupByEnc.
     andThen (map_loop (encrypt_bytes S encryptionKey (picks 1)) whr Map.empty) (\<lambda>whereEnc.
     andThen (map_loop (encrypt_bytes S encryptionKey (picks 2)) aggr Map.empty) (\<lambda>aggrEnc.
     andThen (if withCount
              then andThen (ct_ToBytes S (EncryptInt S encryptionKey 1 (picks 3 ''count''))) (\<lambda>data.
                Inr (aggrEnc(''count'' \<mapsto> data)))
              else Inr aggrEnc) (\<lambda>aggrEnc'.
     Inr \<lparr>WhereClear = WhereClear ccr, WhereEnc = whereEnc, GroupByClear = GroupByClear ccr,
          GroupByEnc = groupByEnc, AggregatingAttributesClear = AggregatingAttributesClear ccr,
          AggregatingAttributesEnc = aggrEnc'\<rparr>))))"

text \<open>
  The way back at the server; every one of the three maps that is empty stays nil.
  MapBytesToMapCipherText is the same loop as the ones written out for WhereEnc and
  AggregatingAttributesEnc.
\<close>

definition MapBytesToMapCipherText ::
  "('s, 'p) suite \<Rightarrow> (string \<times> byte list) list \<Rightarrow> (string \<rightharpoonup> 'p CipherText) option res" where
  "MapBytesToMapCipherText S mapBytes =
     (if mapBytes \<noteq> []
      then andThen (map_loop (\<lambda>i v. ct_FromBytes S v) mapBytes Map.empty) (\<lambda>result. Inr (Some result))
      else Inr None)"

definition FromDpResponseToSend ::
  "('s, 'p) suite \<Rightarrow> (string \<times> byte list) list \<Rightarrow> (string \<times> byte list) list \<Rightarrow> (string \<times> byte list) list
   \<Rightarrow> DpResponseToSend \<Rightarrow> 'p DpResponse res" where
  "FromDpResponseToSend S grp whr aggr dprts =
     andThen (MapBytesToMapCipherText S grp) (\<lambda>groupByEnc.
     andThen (MapBytesToMapCipherText S whr) (\<lambda>whereEnc.
     andThen (MapBytesToMapCipherText S aggr) (\<lambda>aggrEnc.
     Inr \<lparr>WhereClear = WhereClear dprts, WhereEnc = whereEnc, GroupByClear = GroupByClear dprts,
          GroupByEnc = groupByEnc, AggregatingAttributesClear = AggregatingAttributesClear dprts,
          AggregatingAttributesEnc = aggrEnc\<rparr>)))"

section \<open>Grouping keys as text\<close>

definition Key :: "int64 list \<Rightarrow> GroupingKey" where
  "Key ga = concat (map (\<lambda>a. Itoa a @ '','') ga)"

text \<open>The loop of UnKey; nbrString is the one-element slice it joins before each conversion.\<close>

fun UnKey_loop :: "string \<Rightarrow> int64 list \<Rightarrow> string \<Rightarrow> int64 list res" where
  "UnKey_loop nbrString tab [] = Inr tab"
| "UnKey_loop nbrString tab (a # gk) =
     (if a \<noteq> CHR '','' then UnKey_loop [a] tab gk
      else andThen (ParseInt nbrString) (\<lambda>key. UnKey_loop [] (tab @ [key]) gk))"

definition UnKey :: "GroupingKey \<Rightarrow> int64 list res" where
  "UnKey gk = UnKey_loop [] [] gk"

section \<open>Bytes\<close>

definition string_bytes :: "string \<Rightarrow> byte list" where
  \<comment> \<open>the conversion of a string to bytes\<close>
  "string_bytes s = map (\<lambda>c. of_nat (of_char c)) s"

definition bytes_string :: "byte list \<Rightarrow> string" where
  "bytes_string bs = map (\<lambda>b. char_of (unat b)) bs"

fun Join :: "string \<Rightarrow> string list \<Rightarrow> string" where
  "Join sep [] = []"
| "Join sep [w] = w"
| "Join sep (w # ws) = w @ sep @ Join sep ws"

text \<open>strings.Split for the separator SEPARATOR: cut at its leftmost occurrences.\<close>

fun Split_sep :: "string \<Rightarrow> string list" where
  "Split_sep [] = [[]]"
| "Split_sep (c # cs) =
     (if take 3 (c # cs) = SEPARATOR then [] # Split_sep (drop 2 cs)
      else (case Split_sep cs of [] \<Rightarrow> [[c]] | w # ws \<Rightarrow> (c # w) # ws))"

definition fr_ToBytes :: "('s, 'p) suite \<Rightarrow> 'p FilteredResponse \<Rightarrow> (byte list \<times> nat \<times> nat) res" where
  "fr_ToBytes S cv =
     andThen (cv_ToBytes S (fr_AggregatingAttributes cv)) (\<lambda>(aab, aabLength).
     andThen (cv_ToBytes S (fr_GroupByEnc cv)) (\<lambda>(pgaeb, pgaebLength).
     Inr (aab @ pgaeb, pgaebLength, aabLength)))"

definition fr_FromBytes :: "('s, 'p) suite \<Rightarrow> byte list \<Rightarrow> nat \<Rightarrow> nat \<Rightarrow> 'p FilteredResponse res" where
  "fr_FromBytes S data aabLength pgaebLength =
     (let lengthCipher = 2 * PointLen S;
          aabByteLength = aabLength * lengthCipher;
          pgaebByteLength = pgaebLength * lengthCipher in
      andThen (slice data 0 aabByteLength) (\<lambda>aab.
      andThen (slice data aabByteLength (aabByteLength + pgaebByteLength)) (\<lambda>pgaeb.
      andThen (cv_FromBytes S aab aabLength) (\<lambda>aggr.
      andThen (cv_FromBytes S pgaeb pgaebLength) (\<lambda>grp.
      Inr \<lparr>fr_GroupByEnc = grp, fr_AggregatingAttributes = aggr\<rparr>)))))"

definition frd_ToBytes :: "('s, 'p) suite \<Rightarrow> 'p FilteredResponseDet \<Rightarrow> (byte list \<times> nat \<times> nat \<times> nat) res" where
  "frd_ToBytes S crd =
     andThen (fr_ToBytes S (Fr crd)) (\<lambda>(b, gacbLength, aabLength).
     let dtbgb = string_bytes (frd_DetTagGroupBy crd); dtbgbLength = length dtbgb
     in Inr (b @ dtbgb, gacbLength, aabLength, dtbgbLength))"

definition frd_FromBytes :: "('s, 'p) suite \<Rightarrow> byte list \<Rightarrow> nat \<Rightarrow> nat \<Rightarrow> nat \<Rightarrow> 'p FilteredResponseDet res" where
  "frd_FromBytes S data gacbLength aabLength dtbgbLength =
     (let lengthCipher = 2 * PointLen S;
          aabByteLength = aabLength * lengthCipher;
          gacbByteLength = gacbLength * lengthCipher in
      andThen (slice data 0 aabByteLength) (\<lambda>aab.
      andThen (slice data aabByteLength (gacbByteLength + aabByteLength)) (\<lambda>gacb.
      andThen (slice data (gacbByteLength + aabByteLength) (gacbByteLength + aabByteLength + dtbgbLength)) (\<lambda>dtbgb.
      andThen (cv_FromBytes S aab aabLength) (\<lambda>aggr.
      andThen (cv_FromBytes S gacb gacbLength) (\<lambda>grp.
      Inr \<lparr>frd_DetTagGroupBy = bytes_string dtbgb,
           Fr = \<lparr>fr_GroupByEnc = grp, fr_AggregatingAttributes = aggr\<rparr>\<rparr>))))))"

definition pr_ToBytes :: "('s, 'p) suite \<Rightarrow> 'p ProcessResponse \<Rightarrow> (byte list \<times> nat \<times> nat \<times> nat) res" where
  "pr_ToBytes S cv =
     andThen (cv_ToBytes S (pr_GroupByEnc cv)) (\<lambda>(gacb, gacbLength).
     andThen (cv_ToBytes S (pr_AggregatingAttributes cv)) (\<lambda>(aab, aabLength).
     andThen (cv_ToBytes S (pr_WhereEnc cv)) (\<lambda>(pgaeb, pgaebLength).
     Inr (gacb @ aab @ pgaeb, gacbLength, aabLength, pgaebLength))))"

definition pr_FromBytes :: "('s, 'p) suite \<Rightarrow> byte list \<Rightarrow> nat \<Rightarrow> nat \<Rightarrow> nat \<Rightarrow> 'p ProcessResponse res" where
  "pr_FromBytes S data gacbLength aabLength pgaebLength =
     (let cipherTextByteSize = CipherTextByteSize S;
          gacbByteLength = gacbLength * cipherTextByteSize;
          aabByteLength = aabLength * cipherTextByteSize;
          pgaebByteLength = pgaebLength * cipherTextByteSize in
      andThen (slice data 0 gacbByteLength) (\<lambda>gacb.
      andThen (slice data gacbByteLength (gacbByteLength + aabByteLength)) (\<lambda>aab.
      andThen (slice data (gacbByteLength + aabByteLength) (gacbByteLength + aabByteLength + pgaebByteLength)) (\<lambda>pgaeb.
      andThen (cv_FromBytes S gacb gacbLength) (\<lambda>grp.
      andThen (cv_FromBytes S aab aabLength) (\<lambda>aggr.
      andThen (cv_FromBytes S pgaeb pgaebLength) (\<lambda>whr.
      Inr \<lparr>pr_WhereEnc = whr, pr_GroupByEnc = grp, pr_AggregatingAttributes = aggr\<rparr>)))))))"

definition prd_ToBytes :: "('s, 'p) suite \<Rightarrow> 'p ProcessResponseDet \<Rightarrow> (byte list \<times> nat \<times> nat \<times> nat \<times> nat \<times> nat) res" where
  "prd_ToBytes S crd =
     andThen (pr_ToBytes S (PR crd)) (\<lambda>(b, gacbLength, aabLength, pgaebLength).
     let dtbgb = string_bytes (prd_DetTagGroupBy crd);
         dtbgbLength = length dtbgb;
         dtbw = string_bytes (Join SEPARATOR (prd_DetTagWhere crd));
         dtbwLength = length dtbw
     in Inr (b @ dtbgb @ dtbw, gacbLength, aabLength, pgaebLength, dtbgbLength, dtbwLength))"

text \<open>
  The upper bound of the last slice adds dtbgbLength twice, as in the source. The bytes are taken to
  have no spare capacity behind their length, as those of a received message; Go would
  let a slice reach into spare capacity, and the model has a panic there.
\<close>

definition prd_FromBytes :: "('s, 'p) suite \<Rightarrow> byte list \<Rightarrow> nat \<Rightarrow> nat \<Rightarrow> nat \<Rightarrow> nat \<Rightarrow> nat \<Rightarrow> 'p ProcessResponseDet res" where
  "prd_FromBytes S data gacbLength aabLength pgaebLength dtbgbLength dtbwLength =
     (let cipherTextByteSize = CipherTextByteSize S;
          aabByteLength = aabLength * cipherTextByteSize;
          pgaebByteLength = pgaebLength * cipherTextByteSize;
          gacbByteLength = gacbLength * cipherTextByteSize;
          body = gacbByteLength + aabByteLength + pgaebByteLength in
      andThen (slice data 0 gacbByteLength) (\<lambda>gacb.
      andThen (slice data gacbByteLength (gacbByteLength + aabByteLength)) (\<lambda>aab.
      andThen (slice data (gacbByteLength + aabByteLength) body) (\<lambda>pgaeb.
      andThen (slice data body (body + dtbgbLength)) (\<lambda>dtbgb.
      andThen (slice data (body + dtbgbLength) (body + dtbgbLength + dtbgbLength + dtbwLength)) (\<lambda>dtbw.
      andThen (cv_FromBytes S aab aabLength) (\<lambda>aggr.
      andThen (cv_FromBytes S pgaeb pgaebLength) (\<lambda>whr.
      andThen (cv_FromBytes S gacb gacbLength) (\<lambda>grp.
      Inr \<lparr>PR = \<lparr>pr_WhereEnc = whr, pr_GroupByEnc = grp, pr_AggregatingAttributes = aggr\<rparr>,
           prd_DetTagGroupBy = bytes_string dtbgb, prd_DetTagWhere = Split_sep (bytes_string dtbw)\<rparr>)))))))))"

section \<open>Aggregation adds the ciphertexts of each key\<close>

text \<open>The summed part of a response: its aggregating attributes, position by position.\<close>

definition aggr_at :: "('s, 'p) suite \<Rightarrow> 'p FilteredResponse \<Rightarrow> nat \<Rightarrow> 'p CipherText" where
  "aggr_at S fr i =
     (if i < length (fr_AggregatingAttributes fr) then fr_AggregatingAttributes fr ! i else NewCipherText S)"

definition has_attributes :: "nat \<Rightarrow> 'p FilteredResponse \<Rightarrow> bool" where
  "has_attributes n fr \<longleftrightarrow> length (fr_AggregatingAttributes fr) = n"

lemma AddInMap_new: "m k = None \<Longrightarrow> AddInMap S k fr m = Inr (m(k \<mapsto> fr))"
  by (simp add: AddInMap_def)

lemma AddInMap_shorter:
  assumes "m k = Some u" and "length (fr_AggregatingAttributes u) \<le> length (fr_AggregatingAttributes fr)"
  shows "AddInMap S k fr m = Inr (m(k \<mapsto> \<lparr>fr_GroupByEnc = fr_GroupByEnc u,
    fr_AggregatingAttributes = map2 (ct_Add S) (fr_AggregatingAttributes u) (fr_AggregatingAttributes fr) @
      replicate (length (fr_AggregatingAttributes fr) - length (fr_AggregatingAttributes u)) (NewCipherText S)\<rparr>))"
proof -
  have "drop k (NewCipherVector S n) = replicate (n - k) (NewCipherText S)" for k n
    by (simp add: NewCipherVector_def map_replicate_const)
  then show ?thesis
    using assms by (simp add: AddInMap_def fr_Add_def NewFilteredResponse_def cv_Add_Inr Let_def)
qed

lemma AddInMap_longer:
  assumes "m k = Some u" and "length (fr_AggregatingAttributes fr) < length (fr_AggregatingAttributes u)"
  shows "AddInMap S k fr m = Inl Panic"
  using assms by (simp add: AddInMap_def fr_Add_def NewFilteredResponse_def cv_Add_fails Let_def)

context kyber_suite
begin

sublocale aggregation: key_accumulator "AddInMap S" "has_attributes n" "aggr_at S"
  "\<lambda>f g i. ct_Add S (f i) (g i)" "\<lambda>_. NewCipherText S" for n :: nat
proof (unfold_locales, goal_cases)
  case (5 m k u v)
  let ?w = "\<lparr>fr_GroupByEnc = fr_GroupByEnc u,
    fr_AggregatingAttributes = map2 (ct_Add S) (fr_AggregatingAttributes u) (fr_AggregatingAttributes v)\<rparr>"
  have "AddInMap S k v m = Inr (m(k \<mapsto> ?w))"
    using 5 AddInMap_shorter [of m k u v S] by (simp add: has_attributes_def)
  moreover have "has_attributes n ?w" "aggr_at S ?w = (\<lambda>i. ct_Add S (aggr_at S u i) (aggr_at S v i))"
    using 5 by (auto simp: has_attributes_def aggr_at_def fun_eq_iff)
  ultimately show ?case by blast
qed (simp_all add: AddInMap_new ct_ac)

lemma total_aggr:
  "total (\<lambda>f g i. ct_Add S (f i) (g i)) (\<lambda>_. NewCipherText S) (map (aggr_at S) frs) i =
   csum S (map (\<lambda>fr. aggr_at S fr i) frs)"
  by (induction frs) (simp_all add: total_def)

lemma AddInMap_all:
  assumes "\<forall>fr\<in>snd ` set kfrs. has_attributes n fr"
  obtains m where "fold_res (\<lambda>(k, fr). AddInMap S k fr) kfrs Map.empty = Inr m" "dom m = fst ` set kfrs"
    "\<And>k fr. m k = Some fr \<Longrightarrow> has_attributes n fr"
    "\<And>k fr i. m k = Some fr \<Longrightarrow> aggr_at S fr i = csum S (map (\<lambda>fr. aggr_at S fr i) (of_key k kfrs))"
proof (rule aggregation.add_all [OF assms])
  fix m
  assume m: "fold_res (\<lambda>(k, fr). AddInMap S k fr) kfrs Map.empty = Inr m" "aggregation.valid_map n m"
    "dom m = fst ` set kfrs"
    "\<And>k. aggregation.sum_at m k = total (\<lambda>f g i. ct_Add S (f i) (g i)) (\<lambda>_. NewCipherText S)
       (map (aggr_at S) (of_key k kfrs))"
  show thesis
  proof (rule that [OF m(1,3)])
    show "has_attributes n fr" if "m k = Some fr" for k fr
      using m(2) that by (auto simp: aggregation.valid_map_def)
    show "aggr_at S fr i = csum S (map (\<lambda>fr. aggr_at S fr i) (of_key k kfrs))" if "m k = Some fr" for k fr i
      using fun_cong [OF m(4) [of k], of i] that by (simp add: aggregation.sum_at_def total_aggr)
  qed
qed

lemma AddInMap_ex:
  assumes "\<forall>fr\<in>snd ` set kfrs. has_attributes n fr"
  shows "\<exists>m. fold_res (\<lambda>(k, fr). AddInMap S k fr) kfrs Map.empty = Inr m \<and> dom m = fst ` set kfrs \<and>
    (\<forall>k fr. m k = Some fr \<longrightarrow> has_attributes n fr \<and>
      (\<forall>i. aggr_at S fr i = csum S (map (\<lambda>fr. aggr_at S fr i) (of_key k kfrs))))"
  by (rule AddInMap_all [OF assms]) blast

lemma AddInMap_order:
  assumes "\<forall>fr\<in>snd ` set kfrs. has_attributes n fr" and "mset kfrs = mset kfrs'"
    and "fold_res (\<lambda>(k, fr). AddInMap S k fr) kfrs Map.empty = Inr m"
    and "fold_res (\<lambda>(k, fr). AddInMap S k fr) kfrs' Map.empty = Inr m'"
  shows "map_option fr_AggregatingAttributes (m k) = map_option fr_AggregatingAttributes (m' k)"
proof -
  have dom: "dom m = dom m'" and at: "aggregation.sum_at m k = aggregation.sum_at m' k"
    by (rule aggregation.add_all_order [OF assms])+
  have "\<forall>fr\<in>snd ` set kfrs'. has_attributes n fr" using assms(1,2) by (metis mset_eq_setD)
  then have has: "m k = Some fr \<Longrightarrow> has_attributes n fr" "m' k = Some fr \<Longrightarrow> has_attributes n fr" for fr
    using AddInMap_all assms by (metis sum.inject(2))+
  show ?thesis
  proof (cases "m k")
    case None
    then show ?thesis using dom by (metis domIff option.map_disc_iff)
  next
    case (Some fr)
    then obtain fr' where fr': "m' k = Some fr'" using dom by (metis domD domI)
    with Some at have "aggr_at S fr = aggr_at S fr'" by (simp add: aggregation.sum_at_def)
    moreover have "length (fr_AggregatingAttributes fr) = length (fr_AggregatingAttributes fr')"
      using has Some fr' by (simp add: has_attributes_def)
    ultimately have "fr_AggregatingAttributes fr = fr_AggregatingAttributes fr'"
      by (intro nth_equalityI) (auto simp: aggr_at_def fun_eq_iff split: if_splits)
    then show ?thesis by (simp add: Some fr')
  qed
qed

end

interpretation ed_aggregation: key_accumulator "AddInMap ed25519" "has_attributes n" "aggr_at ed25519"
  "\<lambda>f g i. ct_Add ed25519 (f i) (g i)" "\<lambda>_. NewCipherText ed25519" for n :: nat
  by (rule ed.aggregation.key_accumulator_axioms)

section \<open>Formatting for the aggregation proofs\<close>

definition columns :: "nat \<Rightarrow> 'p FilteredResponse list \<Rightarrow> 'p CipherVector list" where
  "columns n frs = map (\<lambda>i. map (\<lambda>fr. fr_AggregatingAttributes fr ! i) frs) [0..<n]"

lemma length_columns [simp]: "length (columns n frs) = n"
  by (simp add: columns_def)

lemma format_step_Inr:
  "res key = Some container \<Longrightarrow> i < length container \<Longrightarrow>
   format_step key (i, ct) res = Inr (res(key \<mapsto> container[i := container ! i @ [ct]]))"
  by (simp add: format_step_def)

lemma FormatAggregationProofs_append:
  assumes "res key = Some container" and "length aggr \<le> length container"
  shows "fold_res (format_step key) (enumerate 0 aggr) res =
    Inr (res(key \<mapsto> map (\<lambda>i. if i < length aggr then container ! i @ [aggr ! i] else container ! i) [0..<length container]))"
  using assms(2)
proof (induction aggr rule: rev_induct)
  case Nil
  have "map (\<lambda>i. container ! i) [0..<length container] = container" by (rule map_nth)
  with assms(1) show ?case by (simp add: map_upd_triv)
next
  case (snoc ct aggr)
  let ?c = "map (\<lambda>i. if i < length aggr then container ! i @ [aggr ! i] else container ! i) [0..<length container]"
  have "fold_res (format_step key) (enumerate 0 aggr) res = Inr (res(key \<mapsto> ?c))"
    using snoc.prems by (intro snoc.IH) simp
  moreover have "format_step key (length aggr, ct) (res(key \<mapsto> ?c)) =
      Inr ((res(key \<mapsto> ?c))(key \<mapsto> ?c[length aggr := ?c ! length aggr @ [ct]]))"
    using snoc.prems by (intro format_step_Inr) simp_all
  moreover have "?c[length aggr := ?c ! length aggr @ [ct]] =
      map (\<lambda>i. if i < Suc (length aggr) then container ! i @ [(aggr @ [ct]) ! i] else container ! i) [0..<length container]"
    using snoc.prems by (intro nth_equalityI) (auto simp: nth_list_update nth_append less_Suc_eq)
  ultimately show ?case
    by (simp add: fold_res_append enumerate_append_eq del: fun_upd_apply)
qed

lemma FormatAggregationProofs_columns:
  assumes "0 < n" and "\<forall>frd\<in>set frds. has_attributes n (Fr frd)"
  shows "fold_res FormatAggregationProofs frds Map.empty =
    Inr (\<lambda>k. let frs = of_key k (map (\<lambda>frd. (frd_DetTagGroupBy frd, Fr frd)) frds)
             in if frs = [] then None else Some (columns n frs))"
  using assms(2)
proof (induction frds rule: rev_induct)
  case Nil
  then show ?case by simp
next
  case (snoc frd frds)
  let ?of = "\<lambda>k. of_key k (map (\<lambda>frd. (frd_DetTagGroupBy frd, Fr frd)) frds)"
  let ?m = "\<lambda>k. if ?of k = [] then None else Some (columns n (?of k))"
  let ?key = "frd_DetTagGroupBy frd" and ?aggr = "fr_AggregatingAttributes (Fr frd)"
  have n: "length ?aggr = n" using snoc.prems by (simp add: has_attributes_def)
  have IH: "fold_res FormatAggregationProofs frds Map.empty = Inr ?m" using snoc by (simp add: Let_def)
  have col: "columns n (frs @ [Fr frd]) =
      map (\<lambda>i. if i < length ?aggr then columns n frs ! i @ [?aggr ! i] else columns n frs ! i) [0..<n]" for frs
    by (intro nth_equalityI) (simp_all add: columns_def n)
  have step: "FormatAggregationProofs frd ?m = Inr (?m(?key \<mapsto> columns n (?of ?key @ [Fr frd])))"
  proof (cases "?of ?key = []")
    case True
    have "map (\<lambda>ct. [ct]) ?aggr = columns n [Fr frd]"
      by (intro nth_equalityI) (simp_all add: columns_def n)
    with True n assms(1) show ?thesis by (auto simp: FormatAggregationProofs_def Let_def)
  next
    case False
    then have "?m ?key = Some (columns n (?of ?key))" by simp
    then show ?thesis
      using False FormatAggregationProofs_append [of ?m ?key "columns n (?of ?key)" ?aggr]
      by (simp add: FormatAggregationProofs_def Let_def col n)
  qed
  have "?m(?key \<mapsto> columns n (?of ?key @ [Fr frd])) =
    (\<lambda>k. let frs = of_key k (map (\<lambda>frd. (frd_DetTagGroupBy frd, Fr frd)) (frds @ [frd]))
         in if frs = [] then None else Some (columns n frs))"
    by (auto simp: Let_def fun_eq_iff)
  then show ?case by (simp add: fold_res_append IH step)
qed

section \<open>Grouping keys lose all but the last digit\<close>

definition last_digit :: "int64 \<Rightarrow> int64" where
  "last_digit a = of_nat (nat \<bar>sint a\<bar> mod 10)"

lemma last_dec: "last (dec n) = digit (n mod 10)"
  by (simp add: dec.simps [of n])

lemma last_Itoa: "last (Itoa a) = digit (nat \<bar>sint a\<bar> mod 10)"
  by (simp add: Itoa_def last_dec)

lemma ParseInt_digit: "d < 10 \<Longrightarrow> ParseInt [digit d] = Inr (of_nat d)"
  by (simp add: ParseInt_def Let_def)

lemma digit_neq_comma [simp]: "d < 10 \<Longrightarrow> digit d \<noteq> CHR '',''"
  using digit_value_digit [of d] by (auto simp: digit_value_def)

lemma Itoa_no_comma: "CHR '','' \<notin> set (Itoa a)"
proof -
  have "CHR '','' \<notin> set (dec n)" for n
    using set_dec [of "CHR '',''" n] digit_neq_comma by metis
  then show ?thesis by (simp add: Itoa_def)
qed

lemma UnKey_loop_word:
  "CHR '','' \<notin> set w \<Longrightarrow> UnKey_loop s tab (w @ CHR '','' # gk) =
     andThen (ParseInt (if w = [] then s else [last w])) (\<lambda>key. UnKey_loop [] (tab @ [key]) gk)"
  by (induction w arbitrary: s) auto

lemma UnKey_Key: "UnKey (Key ga) = Inr (map last_digit ga)"
proof -
  have "UnKey_loop [] tab (Key ga) = Inr (tab @ map last_digit ga)" for tab
  proof (induction ga arbitrary: tab)
    case Nil
    then show ?case by (simp add: Key_def)
  next
    case (Cons a ga)
    have "UnKey_loop [] tab (Key (a # ga)) =
        andThen (ParseInt [last (Itoa a)]) (\<lambda>key. UnKey_loop [] (tab @ [key]) (Key ga))"
      using UnKey_loop_word [OF Itoa_no_comma, of "[]" tab a "Key ga"] by (simp add: Key_def)
    then show ?case by (simp add: last_Itoa ParseInt_digit Cons.IH last_digit_def)
  qed
  then show ?thesis by (simp add: UnKey_def)
qed

lemma last_digit_id: "last_digit a = a \<longleftrightarrow> 0 \<le> sint a \<and> sint a < 10"
proof -
  have small: "sint (last_digit a) = \<bar>sint a\<bar> mod 10"
  proof -
    have "int (nat \<bar>sint a\<bar> mod 10) = \<bar>sint a\<bar> mod 10" by (simp add: zmod_int)
    then have "last_digit a = word_of_int (\<bar>sint a\<bar> mod 10)"
      unfolding last_digit_def by (metis of_int_of_nat_eq)
    moreover have "0 \<le> \<bar>sint a\<bar> mod 10" "\<bar>sint a\<bar> mod 10 < 10" by simp_all
    ultimately show ?thesis using small_sint [of "\<bar>sint a\<bar> mod 10"] by simp
  qed
  show ?thesis
  proof
    assume "last_digit a = a"
    with small have "\<bar>sint a\<bar> mod 10 = sint a" by simp
    then show "0 \<le> sint a \<and> sint a < 10" by (metis pos_mod_bound pos_mod_sign zero_less_numeral)
  next
    assume "0 \<le> sint a \<and> sint a < 10"
    then have "sint (last_digit a) = sint a" by (simp add: small)
    then show "last_digit a = a" by (rule signed_word_eqI)
  qed
qed

section \<open>Byte formats and encrypted responses\<close>

definition decrypted_section :: "('s, 'p) suite \<Rightarrow> 's \<Rightarrow> (string \<rightharpoonup> 'p CipherText) option \<Rightarrow> (string \<rightharpoonup> 'p)" where
  "decrypted_section S x r = (\<lambda>i. map_option (decryptPoint S x) ((case r of None \<Rightarrow> Map.empty | Some c \<Rightarrow> c) i))"

definition points_of :: "('s, 'p) suite \<Rightarrow> (string \<rightharpoonup> int64) \<Rightarrow> (string \<rightharpoonup> 'p)" where
  "points_of S m = (\<lambda>i. map_option (IntToPoint S) (m i))"

lemma bytes_string_bytes [simp]: "bytes_string (string_bytes s) = s"
proof -
  have "char_of (unat (of_nat (of_char c) :: byte)) = c" for c :: char
    by (simp add: unsigned_of_nat take_bit_nat_eq_self)
  then show ?thesis by (simp add: bytes_string_def string_bytes_def map_idI)
qed

lemma length_string_bytes [simp]: "length (string_bytes s) = length s"
  by (simp add: string_bytes_def)

lemma Split_sep_no_slash: "CHR ''/'' \<notin> set w \<Longrightarrow> Split_sep w = [w]"
  by (induction w) (auto simp: SEPARATOR_def)

lemma Split_sep_word: "CHR ''/'' \<notin> set w \<Longrightarrow> Split_sep (w @ SEPARATOR @ rest) = w # Split_sep rest"
  by (induction w) (auto simp: SEPARATOR_def)

lemma Split_sep_Join:
  "ws \<noteq> [] \<Longrightarrow> \<forall>w\<in>set ws. CHR ''/'' \<notin> set w \<Longrightarrow> Split_sep (Join SEPARATOR ws) = ws"
  by (induction SEPARATOR ws rule: Join.induct) (simp_all add: Split_sep_no_slash Split_sep_word)

context kyber_suite
begin

lemma fr_FromBytes_ToBytes:
  "andThen (fr_ToBytes S fr) (\<lambda>(b, pgaebLength, aabLength). fr_FromBytes S b aabLength pgaebLength) = Inr fr"
proof (rule cv_bytes_ex [of "fr_AggregatingAttributes fr"], rule cv_bytes_ex [of "fr_GroupByEnc fr"])
qed (auto simp: fr_ToBytes_def fr_FromBytes_def Let_def)

lemma frd_FromBytes_ToBytes:
  "andThen (frd_ToBytes S frd) (\<lambda>(b, gacbLength, aabLength, dtbgbLength).
     frd_FromBytes S b gacbLength aabLength dtbgbLength) = Inr frd"
proof (rule cv_bytes_ex [of "fr_AggregatingAttributes (Fr frd)"], rule cv_bytes_ex [of "fr_GroupByEnc (Fr frd)"])
  fix a g
  assume a: "cv_ToBytes S (fr_AggregatingAttributes (Fr frd)) = Inr (a, length (fr_AggregatingAttributes (Fr frd)))"
      "length a = length (fr_AggregatingAttributes (Fr frd)) * (2 * PointLen S)"
      "cv_FromBytes S a (length (fr_AggregatingAttributes (Fr frd))) = Inr (fr_AggregatingAttributes (Fr frd))"
    and g: "cv_ToBytes S (fr_GroupByEnc (Fr frd)) = Inr (g, length (fr_GroupByEnc (Fr frd)))"
      "length g = length (fr_GroupByEnc (Fr frd)) * (2 * PointLen S)"
      "cv_FromBytes S g (length (fr_GroupByEnc (Fr frd))) = Inr (fr_GroupByEnc (Fr frd))"
  have "slice (a @ g @ t) (length a) (length g + length a) = Inr g" for t :: "byte list"
    by (simp add: add.commute)
  moreover have "slice (a @ g @ string_bytes t) (length g + length a) (length g + length a + length t) = Inr (string_bytes t)" for t
    using slice_suffix [of "length g + length a" "a @ g" _ "string_bytes t"] by (simp add: add_ac)
  ultimately show ?thesis
    using a g by (simp add: frd_ToBytes_def fr_ToBytes_def frd_FromBytes_def Let_def)
qed

lemma pr_ToBytes_ex:
  obtains g a w where
    "pr_ToBytes S pr = Inr (g @ a @ w, length (pr_GroupByEnc pr), length (pr_AggregatingAttributes pr), length (pr_WhereEnc pr))"
    "length g = length (pr_GroupByEnc pr) * CipherTextByteSize S"
    "length a = length (pr_AggregatingAttributes pr) * CipherTextByteSize S"
    "length w = length (pr_WhereEnc pr) * CipherTextByteSize S"
    "cv_FromBytes S g (length (pr_GroupByEnc pr)) = Inr (pr_GroupByEnc pr)"
    "cv_FromBytes S a (length (pr_AggregatingAttributes pr)) = Inr (pr_AggregatingAttributes pr)"
    "cv_FromBytes S w (length (pr_WhereEnc pr)) = Inr (pr_WhereEnc pr)"
proof (rule cv_bytes_ex [of "pr_GroupByEnc pr"], rule cv_bytes_ex [of "pr_AggregatingAttributes pr"],
    rule cv_bytes_ex [of "pr_WhereEnc pr"])
qed (auto intro: that simp: pr_ToBytes_def CipherTextByteSize_def)

lemma slices3:
  "n1 = length g \<Longrightarrow> slice (g @ rest) 0 n1 = Inr g"
  "n1 = length g \<Longrightarrow> n2 = length g + length a \<Longrightarrow> slice (g @ a @ rest) n1 n2 = Inr a"
  "n1 = length g + length a \<Longrightarrow> n2 = length g + length a + length w \<Longrightarrow> slice (g @ a @ w @ rest) n1 n2 = Inr w"
  by (simp_all add: slice_def)

lemma pr_FromBytes_ToBytes:
  "andThen (pr_ToBytes S pr) (\<lambda>(b, gacbLength, aabLength, pgaebLength).
     pr_FromBytes S b gacbLength aabLength pgaebLength) = Inr pr"
proof (rule pr_ToBytes_ex [of pr])
  fix g a w
  assume e: "pr_ToBytes S pr = Inr (g @ a @ w, length (pr_GroupByEnc pr), length (pr_AggregatingAttributes pr), length (pr_WhereEnc pr))"
    and l: "length g = length (pr_GroupByEnc pr) * CipherTextByteSize S"
      "length a = length (pr_AggregatingAttributes pr) * CipherTextByteSize S"
      "length w = length (pr_WhereEnc pr) * CipherTextByteSize S"
    and d: "cv_FromBytes S g (length (pr_GroupByEnc pr)) = Inr (pr_GroupByEnc pr)"
      "cv_FromBytes S a (length (pr_AggregatingAttributes pr)) = Inr (pr_AggregatingAttributes pr)"
      "cv_FromBytes S w (length (pr_WhereEnc pr)) = Inr (pr_WhereEnc pr)"
  show ?thesis
    using slices3(3) [of _ g a _ w "[]"]
    by (simp add: e pr_FromBytes_def Let_def l [symmetric] slices3(1,2) d)
qed

lemma prd_ToBytes_panics:
  assumes "prd_DetTagGroupBy prd \<noteq> []"
  shows "andThen (prd_ToBytes S prd) (\<lambda>(b, g, a, w, t, u). prd_FromBytes S b g a w t u) = Inl Panic"
proof (rule pr_ToBytes_ex [of "PR prd"])
  fix g a w
  assume e: "pr_ToBytes S (PR prd) = Inr (g @ a @ w, length (pr_GroupByEnc (PR prd)),
      length (pr_AggregatingAttributes (PR prd)), length (pr_WhereEnc (PR prd)))"
    and l: "length g = length (pr_GroupByEnc (PR prd)) * CipherTextByteSize S"
      "length a = length (pr_AggregatingAttributes (PR prd)) * CipherTextByteSize S"
      "length w = length (pr_WhereEnc (PR prd)) * CipherTextByteSize S"
  show ?thesis
    using assms by (simp add: prd_ToBytes_def e prd_FromBytes_def Let_def l [symmetric] slice_def)
qed

lemma prd_FromBytes_ToBytes:
  assumes "prd_DetTagGroupBy prd = []" and "prd_DetTagWhere prd \<noteq> []"
    and "\<forall>t\<in>set (prd_DetTagWhere prd). CHR ''/'' \<notin> set t"
  shows "andThen (prd_ToBytes S prd) (\<lambda>(b, g, a, w, t, u). prd_FromBytes S b g a w t u) = Inr prd"
proof (rule pr_ToBytes_ex [of "PR prd"])
  fix g a w
  assume e: "pr_ToBytes S (PR prd) = Inr (g @ a @ w, length (pr_GroupByEnc (PR prd)),
      length (pr_AggregatingAttributes (PR prd)), length (pr_WhereEnc (PR prd)))"
    and l: "length g = length (pr_GroupByEnc (PR prd)) * CipherTextByteSize S"
      "length a = length (pr_AggregatingAttributes (PR prd)) * CipherTextByteSize S"
      "length w = length (pr_WhereEnc (PR prd)) * CipherTextByteSize S"
    and d: "cv_FromBytes S g (length (pr_GroupByEnc (PR prd))) = Inr (pr_GroupByEnc (PR prd))"
      "cv_FromBytes S a (length (pr_AggregatingAttributes (PR prd))) = Inr (pr_AggregatingAttributes (PR prd))"
      "cv_FromBytes S w (length (pr_WhereEnc (PR prd))) = Inr (pr_WhereEnc (PR prd))"
  let ?u = "string_bytes (Join SEPARATOR (prd_DetTagWhere prd))"
  have "slice (g @ a @ w @ ?u) (length g + length a + length w)
      (length g + length a + length w + length (Join SEPARATOR (prd_DetTagWhere prd))) = Inr ?u"
    by (simp add: slice_def)
  moreover have "string_bytes [] = []" "bytes_string [] = []" by (simp_all add: string_bytes_def bytes_string_def)
  moreover have "slice (g @ a @ w @ ?u) n n = Inr []" if "n = length g + length a + length w" for n
    using that by (simp add: slice_def)
  ultimately show ?thesis
    using assms by (simp add: prd_ToBytes_def e prd_FromBytes_def Let_def l [symmetric] slices3 d Split_sep_Join)
qed

text \<open>A response encrypted by its provider.\<close>

lemma encrypt_bytes_ex:
  "\<exists>b. encrypt_bytes S key picks i v = Inr b \<and> ct_FromBytes S b = Inr (EncryptInt S key v (picks i))"
  using ct_bytes.enc_decode [of "EncryptInt S key v (picks i)"] by (auto simp: encrypt_bytes_def)

lemma decrypt_section:
  assumes "enumerates es m" and "map_loop (encrypt_bytes S key picks) es Map.empty = Inr b" and "enumerates fs b"
  shows "\<exists>r. MapBytesToMapCipherText S fs = Inr r \<and>
    (case r of None \<Rightarrow> Map.empty | Some c \<Rightarrow> c) = (\<lambda>i. map_option (\<lambda>v. EncryptInt S key v (picks i)) (m i))"
proof -
  obtain g where g: "\<And>i v. encrypt_bytes S key picks i v = Inr (g i v)" "\<And>i v. ct_FromBytes S (g i v) = Inr (EncryptInt S key v (picks i))"
    using encrypt_bytes_ex [of key picks] by metis
  have b: "b = (\<lambda>i. map_option (g i) (m i))"
    using map_loop_enumerates [OF assms(1), of "encrypt_bytes S key picks" g] g assms(2) by simp
  define h where "h i = projr \<circ> ct_FromBytes S" for i :: string
  have "ct_FromBytes S w = Inr (h i w)" if "b i = Some w" for i w
    using that g by (auto simp: b h_def)
  from map_loop_enumerates [OF assms(3), of "\<lambda>i v. ct_FromBytes S v", OF this]
  have "map_loop (\<lambda>i v. ct_FromBytes S v) fs Map.empty = Inr (\<lambda>i. map_option (h i) (b i))" by simp
  moreover have "(\<lambda>i. map_option (h i) (b i)) = (\<lambda>i. map_option (\<lambda>v. EncryptInt S key v (picks i)) (m i))"
    by (auto simp: b h_def g fun_eq_iff option.map_comp comp_def)
  moreover have "m = Map.empty" if "fs = []"
    using that assms(3) by (auto simp: b fun_eq_iff)
  ultimately show ?thesis by (cases "fs = []") (auto simp: MapBytesToMapCipherText_def)
qed

lemma encrypt_section_ex:
  assumes "enumerates es m"
  obtains b where "map_loop (encrypt_bytes S key picks) es Map.empty = Inr b" "dom b = dom m"
proof -
  obtain g where "\<And>i v. encrypt_bytes S key picks i v = Inr (g i v)"
    using encrypt_bytes_ex [of key picks] by metis
  then show thesis
    using map_loop_enumerates [OF assms, of "encrypt_bytes S key picks" g]
    by (intro that [of "\<lambda>i. map_option (g i) (m i)"]) (auto simp: dom_def)
qed

lemma decrypt_section_point:
  assumes "enumerates es m" and "map_loop (encrypt_bytes S (Point_Mul S x (Point_Base S)) picks) es Map.empty = Inr b"
    and "enumerates fs b"
  shows "\<exists>r. MapBytesToMapCipherText S fs = Inr r \<and> decrypted_section S x r = (\<lambda>i. map_option (IntToPoint S) (m i))"
  using decrypt_section [OF assms]
  by (auto simp: decrypted_section_def option.map_comp comp_def decrypt_EncryptInt)

lemma provider_response:
  assumes "pk = Point_Mul S x (Point_Base S)"
    and es: "enumerates ge (GroupByEnc ccr)" "enumerates we (WhereEnc ccr)" "enumerates ae (AggregatingAttributesEnc ccr)"
    and ts: "EncryptDpClearResponse S picks ge we ae ccr pk withCount = Inr ts"
    and fs: "enumerates gf (GroupByEnc ts)" "enumerates whf (WhereEnc ts)" "enumerates af (AggregatingAttributesEnc ts)"
  shows "\<exists>r. FromDpResponseToSend S gf whf af ts = Inr r \<and>
    GroupByClear r = GroupByClear ccr \<and> WhereClear r = WhereClear ccr \<and>
    AggregatingAttributesClear r = AggregatingAttributesClear ccr \<and>
    decrypted_section S x (GroupByEnc r) = points_of S (GroupByEnc ccr) \<and>
    decrypted_section S x (WhereEnc r) = points_of S (WhereEnc ccr) \<and>
    decrypted_section S x (AggregatingAttributesEnc r) =
      points_of S (if withCount then (AggregatingAttributesEnc ccr)(''count'' \<mapsto> 1) else AggregatingAttributesEnc ccr)"
proof -
  note pk = assms(1)
  obtain g where g: "map_loop (encrypt_bytes S pk (picks 0)) ge Map.empty = Inr g"
    by (rule encrypt_section_ex [OF es(1)])
  obtain w where w: "map_loop (encrypt_bytes S pk (picks 1)) we Map.empty = Inr w"
    by (rule encrypt_section_ex [OF es(2)])
  obtain a where a: "map_loop (encrypt_bytes S pk (picks 2)) ae Map.empty = Inr a"
    by (rule encrypt_section_ex [OF es(3)])
  obtain c where c: "ct_ToBytes S (EncryptInt S pk 1 (picks 3 ''count'')) = Inr c"
    using ct_bytes.enc_decode by blast
  let ?a = "if withCount then a(''count'' \<mapsto> c) else a"
  have t: "ts = \<lparr>WhereClear = WhereClear ccr, WhereEnc = w, GroupByClear = GroupByClear ccr, GroupByEnc = g,
      AggregatingAttributesClear = AggregatingAttributesClear ccr, AggregatingAttributesEnc = ?a\<rparr>"
    using ts by (auto simp: EncryptDpClearResponse_def g w a c simp del: One_nat_def)
  from decrypt_section_point [OF es(1), of x "picks 0" g gf] g fs(1)
  obtain rg where rg: "MapBytesToMapCipherText S gf = Inr rg" "decrypted_section S x rg = points_of S (GroupByEnc ccr)"
    by (auto simp: pk t points_of_def)
  from decrypt_section_point [OF es(2), of x "picks 1" w whf] w fs(2)
  obtain rw where rw: "MapBytesToMapCipherText S whf = Inr rw" "decrypted_section S x rw = points_of S (WhereEnc ccr)"
    by (auto simp: pk t points_of_def)
  obtain ra where ra: "MapBytesToMapCipherText S af = Inr ra" "decrypted_section S x ra =
      points_of S (if withCount then (AggregatingAttributesEnc ccr)(''count'' \<mapsto> 1) else AggregatingAttributesEnc ccr)"
  proof (cases withCount)
    case False
    with decrypt_section_point [OF es(3), of x "picks 2" a af] a fs(3) that show ?thesis
      by (auto simp: pk t points_of_def)
  next
    case True
    let ?picks = "\<lambda>i. if i = ''count'' then picks 3 ''count'' else picks 2 i"
    let ?m = "(AggregatingAttributesEnc ccr)(''count'' \<mapsto> 1)"
    obtain es' where es': "enumerates es' ?m"
      using enumerates_exists [of ?m] enumerates_dom [OF es(3)] by auto
    obtain h where h: "\<And>i v. encrypt_bytes S pk (picks 2) i v = Inr (h i v)"
      using encrypt_bytes_ex [of pk "picks 2"] by metis
    have "a = (\<lambda>i. map_option (h i) (AggregatingAttributesEnc ccr i))"
      using map_loop_enumerates [OF es(3), of "encrypt_bytes S pk (picks 2)" h] h a by simp
    moreover have "encrypt_bytes S pk ?picks i v = Inr (if i = ''count'' then c else h i v)" if "?m i = Some v" for i v
      using that c h by (auto simp: encrypt_bytes_def split: if_splits)
    from map_loop_enumerates [OF es', of "encrypt_bytes S pk ?picks", OF this]
    have "map_loop (encrypt_bytes S pk ?picks) es' Map.empty =
      Inr (\<lambda>i. map_option (\<lambda>v. if i = ''count'' then c else h i v) (?m i))" by simp
    ultimately have "map_loop (encrypt_bytes S pk ?picks) es' Map.empty = Inr ?a"
      using True by (simp add: fun_eq_iff)
    with decrypt_section_point [OF es', of x ?picks ?a af] fs(3) that True show ?thesis
      by (auto simp: pk t points_of_def)
  qed
  show ?thesis by (simp add: FromDpResponseToSend_def rg rw ra t)
qed

lemma EncryptDpClearResponse_total:
  assumes "enumerates ge (GroupByEnc ccr)" "enumerates we (WhereEnc ccr)" "enumerates ae (AggregatingAttributesEnc ccr)"
  shows "\<exists>ts. EncryptDpClearResponse S picks ge we ae ccr pk withCount = Inr ts"
proof -
  obtain c where c: "ct_ToBytes S (EncryptInt S pk 1 (picks 3 ''count'')) = Inr c"
    using ct_bytes.enc_decode by blast
  show ?thesis
    by (rule encrypt_section_ex [OF assms(1), of pk "picks 0"], rule encrypt_section_ex [OF assms(2), of pk "picks 1"],
        rule encrypt_section_ex [OF assms(3), of pk "picks 2"]) (simp add: EncryptDpClearResponse_def c)
qed

end

section \<open>Properties\<close>

text \<open>
  C17. Aggregation by grouping key is a homomorphic GROUP BY: inserting any responses of n
  attributes with AddInMap into an empty map gives one entry per key that occurs, and the
  attributes of an entry decrypt to the sums of the attributes of the responses with that key.
\<close>

theorem aggregation_by_key:
  assumes "kyber_suite S" and "\<forall>fr\<in>snd ` set kfrs. has_attributes n fr"
  shows "\<exists>m. fold_res (\<lambda>(k, fr). AddInMap S k fr) kfrs Map.empty = Inr m \<and> dom m = fst ` set kfrs \<and>
    (\<forall>k fr. m k = Some fr \<longrightarrow> map (decryptPoint S x) (fr_AggregatingAttributes fr) =
      map (\<lambda>i. psum S (map (\<lambda>fr. decryptPoint S x (fr_AggregatingAttributes fr ! i)) (of_key k kfrs))) [0..<n])"
proof -
  from kyber_suite.AddInMap_ex [OF assms]
  obtain m where m: "fold_res (\<lambda>(k, fr). AddInMap S k fr) kfrs Map.empty = Inr m" "dom m = fst ` set kfrs"
    and all: "\<forall>k fr. m k = Some fr \<longrightarrow> has_attributes n fr \<and>
      (\<forall>i. aggr_at S fr i = csum S (map (\<lambda>fr. aggr_at S fr i) (of_key k kfrs)))"
    by (elim exE conjE)
  have at: "aggr_at S fr i = fr_AggregatingAttributes fr ! i" if "fr \<in> set (of_key k kfrs)" "i < n" for fr k i
    using assms(2) that by (auto simp: aggr_at_def has_attributes_def of_key_def)
  have "decryptPoint S x (fr_AggregatingAttributes fr ! i) =
      psum S (map (\<lambda>fr. decryptPoint S x (fr_AggregatingAttributes fr ! i)) (of_key k kfrs))"
    if "m k = Some fr" "i < n" for k fr i
  proof -
    have "fr_AggregatingAttributes fr ! i = csum S (map (\<lambda>fr. aggr_at S fr i) (of_key k kfrs))"
      using all that by (metis aggr_at_def has_attributes_def)
    also have "map (\<lambda>fr. aggr_at S fr i) (of_key k kfrs) = map (\<lambda>fr. fr_AggregatingAttributes fr ! i) (of_key k kfrs)"
      using at that by simp
    finally show ?thesis using assms(1) by (simp add: kyber_suite.decrypt_csum comp_def)
  qed
  with m all show ?thesis
    by (intro exI [of _ m]) (auto simp: has_attributes_def intro!: nth_equalityI)
qed

theorem aggregation_by_key_witness:
  "\<exists>m. fold_res (\<lambda>(k, fr). AddInMap ed25519 k fr)
      [(''a'', \<lparr>fr_GroupByEnc = [], fr_AggregatingAttributes = [\<lparr>ctK = 0, ctC = 3\<rparr>]\<rparr>)] Map.empty = Inr m \<and>
    dom m = fst ` set [(''a'', \<lparr>fr_GroupByEnc = [], fr_AggregatingAttributes = [\<lparr>ctK = (0 :: ed_l), ctC = 3\<rparr>]\<rparr>)]"
proof -
  let ?kfrs = "[(''a'', \<lparr>fr_GroupByEnc = [], fr_AggregatingAttributes = [\<lparr>ctK = (0 :: ed_l), ctC = 3\<rparr>]\<rparr>)]"
  have "\<forall>fr\<in>snd ` set ?kfrs. has_attributes 1 fr" by (simp add: has_attributes_def)
  from aggregation_by_key [OF ed.kyber_suite_axioms this] show ?thesis by blast
qed

text \<open>
  C18. The order of arrival does not matter: two runs over the same responses in any two orders
  end with the same aggregated ciphertexts under every key.
\<close>

theorem aggregation_order_irrelevant:
  assumes "kyber_suite S" and "\<forall>fr\<in>snd ` set kfrs. has_attributes n fr" and "mset kfrs = mset kfrs'"
    and "fold_res (\<lambda>(k, fr). AddInMap S k fr) kfrs Map.empty = Inr m"
    and "fold_res (\<lambda>(k, fr). AddInMap S k fr) kfrs' Map.empty = Inr m'"
  shows "map_option fr_AggregatingAttributes (m k) = map_option fr_AggregatingAttributes (m' k)"
  using assms by (rule kyber_suite.AddInMap_order)

theorem aggregation_order_irrelevant_witness:
  fixes a b
  defines "a \<equiv> \<lparr>fr_GroupByEnc = [], fr_AggregatingAttributes = [\<lparr>ctK = 0, ctC = (3 :: ed_l)\<rparr>]\<rparr>"
    and "b \<equiv> \<lparr>fr_GroupByEnc = [], fr_AggregatingAttributes = [\<lparr>ctK = 0, ctC = 4\<rparr>]\<rparr>"
  shows "map_option fr_AggregatingAttributes ([''g'' \<mapsto> a, ''h'' \<mapsto> b] ''g'') =
    map_option fr_AggregatingAttributes ([''h'' \<mapsto> b, ''g'' \<mapsto> a] ''g'')"
  by (rule aggregation_order_irrelevant [OF ed.kyber_suite_axioms, of "[(''g'', a), (''h'', b)]" 1 "[(''h'', b), (''g'', a)]"])
    (auto simp: has_attributes_def AddInMap_def a_def b_def)

text \<open>
  Responses of different lengths are not reported: when the response already stored under the
  key is shorter than the added one, the surplus attributes of the added response are replaced
  by null ciphertexts, and when it is longer the insertion panics.
\<close>

theorem aggregation_of_unequal_lengths:
  assumes "m k = Some u"
  shows "(length (fr_AggregatingAttributes u) < length (fr_AggregatingAttributes fr) \<longrightarrow>
      AddInMap S k fr m = Inr (m(k \<mapsto> \<lparr>fr_GroupByEnc = fr_GroupByEnc u,
        fr_AggregatingAttributes = map2 (ct_Add S) (fr_AggregatingAttributes u) (fr_AggregatingAttributes fr) @
          replicate (length (fr_AggregatingAttributes fr) - length (fr_AggregatingAttributes u)) (NewCipherText S)\<rparr>))) \<and>
    (length (fr_AggregatingAttributes fr) < length (fr_AggregatingAttributes u) \<longrightarrow> AddInMap S k fr m = Inl Panic)"
  using assms by (simp add: AddInMap_shorter AddInMap_longer)

theorem aggregation_of_unequal_lengths_witness:
  "AddInMap ed25519 ''k'' \<lparr>fr_GroupByEnc = [], fr_AggregatingAttributes = [\<lparr>ctK = 1, ctC = 2\<rparr>]\<rparr>
     [''k'' \<mapsto> \<lparr>fr_GroupByEnc = [], fr_AggregatingAttributes = []\<rparr>] =
   Inr [''k'' \<mapsto> \<lparr>fr_GroupByEnc = [], fr_AggregatingAttributes = [NewCipherText ed25519]\<rparr>]"
  using aggregation_of_unequal_lengths [of "[''k'' \<mapsto> \<lparr>fr_GroupByEnc = [], fr_AggregatingAttributes = []\<rparr>]" "''k''"
      "\<lparr>fr_GroupByEnc = [], fr_AggregatingAttributes = []\<rparr>"
      "\<lparr>fr_GroupByEnc = [], fr_AggregatingAttributes = [\<lparr>ctK = 1, ctC = 2\<rparr>]\<rparr>" ed25519]
  by simp

text \<open>
  The data for the aggregation proofs is the transposed input: formatting any responses of
  n > 0 attributes gives, under every key that occurs, n vectors, the i-th holding the i-th
  attributes of the responses with that key in their order.
\<close>

theorem aggregation_proof_data:
  assumes "0 < n" and "\<forall>frd\<in>set frds. has_attributes n (Fr frd)"
  shows "fold_res FormatAggregationProofs frds Map.empty =
    Inr (\<lambda>k. let frs = of_key k (map (\<lambda>frd. (frd_DetTagGroupBy frd, Fr frd)) frds)
             in if frs = [] then None else Some (columns n frs))"
  using assms by (rule FormatAggregationProofs_columns)

text \<open>
  C23. A provider's response survives the trip to the server: for every order in which the maps
  are visited, encrypting a clear response succeeds, and the server's conversion of the bytes
  gives a response with the same clear parts whose encrypted parts decrypt to the points of the
  provider's integers, with an attribute count of 1 added when the query asks for it.
\<close>

theorem provider_response_roundtrip:
  assumes "kyber_suite S" and "pk = Point_Mul S x (Point_Base S)"
    and "enumerates ge (GroupByEnc ccr)" "enumerates we (WhereEnc ccr)" "enumerates ae (AggregatingAttributesEnc ccr)"
  shows "\<exists>ts. EncryptDpClearResponse S picks ge we ae ccr pk withCount = Inr ts \<and>
    (\<forall>gf whf af. enumerates gf (GroupByEnc ts) \<and> enumerates whf (WhereEnc ts) \<and> enumerates af (AggregatingAttributesEnc ts) \<longrightarrow>
      (\<exists>r. FromDpResponseToSend S gf whf af ts = Inr r \<and>
        GroupByClear r = GroupByClear ccr \<and> WhereClear r = WhereClear ccr \<and>
        AggregatingAttributesClear r = AggregatingAttributesClear ccr \<and>
        decrypted_section S x (GroupByEnc r) = points_of S (GroupByEnc ccr) \<and>
        decrypted_section S x (WhereEnc r) = points_of S (WhereEnc ccr) \<and>
        decrypted_section S x (AggregatingAttributesEnc r) =
          points_of S (if withCount then (AggregatingAttributesEnc ccr)(''count'' \<mapsto> 1) else AggregatingAttributesEnc ccr)))"
  using kyber_suite.EncryptDpClearResponse_total [OF assms(1,3,4,5), of picks pk withCount]
    kyber_suite.provider_response [OF assms] by blast

theorem provider_response_roundtrip_witness:
  "\<exists>ts. EncryptDpClearResponse ed25519 (\<lambda>_ _. 5) [(''g0'', 4)] [] [(''s1'', 10)]
      \<lparr>WhereClear = Map.empty, WhereEnc = Map.empty, GroupByClear = Map.empty, GroupByEnc = [''g0'' \<mapsto> 4],
       AggregatingAttributesClear = Map.empty, AggregatingAttributesEnc = [''s1'' \<mapsto> 10]\<rparr>
      (Point_Mul ed25519 7 (Point_Base ed25519)) True = Inr ts"
  using provider_response_roundtrip [OF ed.kyber_suite_axioms refl, of "[(''g0'', 4)]"
      "\<lparr>WhereClear = Map.empty, WhereEnc = Map.empty, GroupByClear = Map.empty, GroupByEnc = [''g0'' \<mapsto> 4],
       AggregatingAttributesClear = Map.empty, AggregatingAttributesEnc = [''s1'' \<mapsto> 10]\<rparr>" "[]" "[(''s1'', 10)]"
      "\<lambda>_ _. 5" 7 True]
  by (simp add: enumerates_def) blast

text \<open>
  UnKey undoes Key exactly on grouping attributes that are single digits: it keeps only the
  last character of every number, so 12 becomes 2 and -5 becomes 5.
\<close>

theorem unkey_key:
  "UnKey (Key ga) = Inr ga \<longleftrightarrow> list_all (\<lambda>a. 0 \<le> sint a \<and> sint a < 10) ga"
proof -
  have "map last_digit ga = ga \<longleftrightarrow> list_all (\<lambda>a. last_digit a = a) ga" by (induction ga) auto
  then show ?thesis by (simp add: UnKey_Key last_digit_id)
qed

text \<open>
  The byte formats of filtered responses, of tagged filtered responses and of process
  responses read back what they wrote, including the tag and empty vectors.
\<close>

theorem response_formats_roundtrip:
  assumes "kyber_suite S"
  shows "andThen (fr_ToBytes S fr) (\<lambda>(b, pgaebLength, aabLength). fr_FromBytes S b aabLength pgaebLength) = Inr fr \<and>
    andThen (frd_ToBytes S frd) (\<lambda>(b, g, a, t). frd_FromBytes S b g a t) = Inr frd \<and>
    andThen (pr_ToBytes S pr) (\<lambda>(b, g, a, w). pr_FromBytes S b g a w) = Inr pr"
  using assms by (simp add: kyber_suite.fr_FromBytes_ToBytes kyber_suite.frd_FromBytes_ToBytes kyber_suite.pr_FromBytes_ToBytes)

theorem response_formats_roundtrip_witness:
  "andThen (fr_ToBytes ed25519 \<lparr>fr_GroupByEnc = [], fr_AggregatingAttributes = [\<lparr>ctK = 1, ctC = 2\<rparr>]\<rparr>)
     (\<lambda>(b, pgaebLength, aabLength). fr_FromBytes ed25519 b aabLength pgaebLength) =
   Inr \<lparr>fr_GroupByEnc = [], fr_AggregatingAttributes = [\<lparr>ctK = 1, ctC = 2\<rparr>]\<rparr>"
  using response_formats_roundtrip [OF ed.kyber_suite_axioms] by blast

text \<open>
  A process response with a grouping tag cannot be read back from its own bytes: the last
  slice expression counts the length of the tag twice, so FromBytes panics on every output of
  ToBytes whose tag is not empty. With an empty tag it reads back what was written, if there are
  where-tags and they hold no slash.
\<close>

theorem tagged_process_response_bytes:
  assumes "kyber_suite S"
  shows "(prd_DetTagGroupBy prd \<noteq> [] \<longrightarrow>
      andThen (prd_ToBytes S prd) (\<lambda>(b, g, a, w, t, u). prd_FromBytes S b g a w t u) = Inl Panic) \<and>
    (prd_DetTagGroupBy prd = [] \<and> prd_DetTagWhere prd \<noteq> [] \<and> (\<forall>t\<in>set (prd_DetTagWhere prd). CHR ''/'' \<notin> set t) \<longrightarrow>
      andThen (prd_ToBytes S prd) (\<lambda>(b, g, a, w, t, u). prd_FromBytes S b g a w t u) = Inr prd)"
  using assms by (simp add: kyber_suite.prd_ToBytes_panics kyber_suite.prd_FromBytes_ToBytes)

theorem tagged_process_response_bytes_witness:
  "andThen (prd_ToBytes ed25519 \<lparr>PR = \<lparr>pr_WhereEnc = [], pr_GroupByEnc = [], pr_AggregatingAttributes = []\<rparr>,
       prd_DetTagGroupBy = ''ab'', prd_DetTagWhere = [''1'']\<rparr>) (\<lambda>(b, g, a, w, t, u). prd_FromBytes ed25519 b g a w t u) =
   Inl Panic"
  using tagged_process_response_bytes [OF ed.kyber_suite_axioms, of "\<lparr>PR = \<lparr>pr_WhereEnc = [], pr_GroupByEnc = [], pr_AggregatingAttributes = []\<rparr>,
       prd_DetTagGroupBy = ''ab'', prd_DetTagWhere = [''1'']\<rparr>"] by simp

end
