(* ===== verification/Network.thy ===== *)
theory Network
  imports Prelude
begin

text \<open>
  The communication patterns of the protocols over onet. In the tree protocols a node waits until
  it has one length message and one data message of every child, combines them with its own
  state, and sends the result to its parent. onet hands a node the messages of its children in
  the order in which they arrived, separately for each type of message, so a node of the model
  carries the two orders of arrival and the theorems hold for all of them. In the circuit
  protocols a message passes from each node to the next one of Tree().List(), so a round is a
  fold over the nodes.
\<close>

datatype 'n tree = Node (content: 'n) (length_order: "nat list") (data_order: "nat list") (children: "'n tree list")

fun tree_nodes :: "'n tree \<Rightarrow> 'n list" where
  "tree_nodes (Node n lo da ts) = n # concat (map tree_nodes ts)"

definition arrival :: "nat list \<Rightarrow> 'a list \<Rightarrow> 'a list" where
  "arrival order xs = map ((!) xs) order"

text \<open>
  The state in which a node ends: start is its own part, absorb what it does with the messages of
  its children, send the pair of messages for its parent.
\<close>

fun tree_run :: "('n \<Rightarrow> 's res) \<Rightarrow> ('s \<Rightarrow> 'l list \<Rightarrow> 'd list \<Rightarrow> 's res) \<Rightarrow> ('s \<Rightarrow> ('l \<times> 'd) res) \<Rightarrow> 'n tree \<Rightarrow> 's res" where
  "tree_run start absorb send (Node n lo da ts) =
     andThen (start n) (\<lambda>s.
     andThen (traverse (\<lambda>t. andThen (tree_run start absorb send t) send) ts) (\<lambda>msgs.
     absorb s (arrival lo (map fst msgs)) (arrival da (map snd msgs))))"

text \<open>Every message arrives exactly once.\<close>

fun arrivals_ok :: "(nat list \<Rightarrow> nat list \<Rightarrow> bool) \<Rightarrow> 'n tree \<Rightarrow> bool" where
  "arrivals_ok match (Node n lo da ts) \<longleftrightarrow>
     mset lo = mset [0..<length ts] \<and> mset da = mset [0..<length ts] \<and> match lo da \<and> list_all (arrivals_ok match) ts"

lemma length_arrival: "mset order = mset [0..<n] \<Longrightarrow> length (arrival order xs) = n"
  by (metis arrival_def diff_zero length_map length_upt size_mset)

lemma arrival_map:
  assumes "mset order = mset [0..<length xs]"
  shows "arrival order (map f xs) = map f (arrival order xs)"
proof -
  have "i < length xs" if "i \<in> set order" for i
    using that mset_eq_setD [OF assms] by simp
  then show ?thesis by (simp add: arrival_def)
qed

lemma total_simps [simp]:
  "total merge neutral [] = neutral" "total merge neutral (x # xs) = merge x (total merge neutral xs)"
  by (simp_all add: total_def)

lemma mset_arrival: "mset order = mset [0..<length xs] \<Longrightarrow> mset (arrival order xs) = mset xs"
proof -
  assume a: "mset order = mset [0..<length xs]"
  have "mset (arrival order xs) = image_mset ((!) xs) (mset [0..<length xs])"
    unfolding arrival_def a [symmetric] by simp
  also have "\<dots> = mset (map ((!) xs) [0..<length xs])" by simp
  finally show ?thesis by (simp only: map_nth)
qed

lemma set_arrival: "mset order = mset [0..<length xs] \<Longrightarrow> set (arrival order xs) = set xs"
  by (metis mset_arrival mset_eq_setD)

section \<open>Combining values up a tree\<close>

text \<open>
  The contract of a node: sending never fails, and absorbing the messages of its children, in the
  orders of arrival that match allows, adds their values to its own. The lemma gives the value at
  the top of any tree.
\<close>

locale convergecast =
  fixes absorb :: "'s \<Rightarrow> 'l list \<Rightarrow> 'd list \<Rightarrow> 's res"
    and send :: "'s \<Rightarrow> ('l \<times> 'd) res"
    and valid :: "'s \<Rightarrow> bool"
    and val :: "'s \<Rightarrow> 'm"
    and merge :: "'m \<Rightarrow> 'm \<Rightarrow> 'm"
    and neutral :: 'm
    and match :: "nat list \<Rightarrow> nat list \<Rightarrow> bool"
  assumes send_total: "valid s \<Longrightarrow> \<exists>l d. send s = Inr (l, d)"
    and absorb_sum: "valid s \<Longrightarrow> list_all2 (\<lambda>c m. valid c \<and> send c = Inr m) cs msgs \<Longrightarrow>
      mset lo = mset [0..<length cs] \<Longrightarrow> mset da = mset [0..<length cs] \<Longrightarrow> match lo da \<Longrightarrow>
      \<exists>s'. absorb s (arrival lo (map fst msgs)) (arrival da (map snd msgs)) = Inr s' \<and> valid s' \<and>
        val s' = merge (val s) (total merge neutral (map val cs))"
    and merge_monoid: "merge (merge a b) c = merge a (merge b c)" "merge neutral a = a" "merge a neutral = a"
begin

lemma total_append: "total merge neutral (xs @ ys) = merge (total merge neutral xs) (total merge neutral ys)"
  by (induction xs) (simp_all add: merge_monoid)

lemma total_concat: "total merge neutral (concat xss) = total merge neutral (map (total merge neutral) xss)"
by (induction xss) (simp_all add: total_append)

lemma absorb_children:
  assumes ok: "mset lo = mset [0..<length ts]" "mset da = mset [0..<length ts]" "match lo da" and "valid s"
    and "\<And>t. t \<in> set ts \<Longrightarrow> \<exists>c. run t = Inr c \<and> valid c \<and> val c = total merge neutral (map own (tree_nodes t))"
  shows "\<exists>s'. andThen (traverse (\<lambda>t. andThen (run t) send) ts) (\<lambda>msgs.
      absorb s (arrival lo (map fst msgs)) (arrival da (map snd msgs))) = Inr s' \<and> valid s' \<and>
    val s' = merge (val s) (total merge neutral (map own (concat (map tree_nodes ts))))"
proof -
  have "\<exists>c m. run t = Inr c \<and> valid c \<and> send c = Inr m \<and> val c = total merge neutral (map own (tree_nodes t))"
    if "t \<in> set ts" for t
    using assms(5) [OF that] send_total by (metis surj_pair)
  then obtain c m where cm: "\<And>t. t \<in> set ts \<Longrightarrow> run t = Inr (c t) \<and> valid (c t) \<and> send (c t) = Inr (m t) \<and>
      val (c t) = total merge neutral (map own (tree_nodes t))" by metis
  have msgs: "traverse (\<lambda>t. andThen (run t) send) ts = Inr (map m ts)"
    by (rule traverse_Inr_map) (simp add: cm)
  have l2: "list_all2 (\<lambda>c m. valid c \<and> send c = Inr m) (map c ts) (map m ts)"
    using cm by (auto simp: list.rel_map intro: list.rel_refl_strong)
  obtain s' where s': "absorb s (arrival lo (map fst (map m ts))) (arrival da (map snd (map m ts))) = Inr s'" "valid s'"
      "val s' = merge (val s) (total merge neutral (map val (map c ts)))"
    using absorb_sum [OF assms(4) l2] ok by auto
  have v: "map val (map c ts) = map (\<lambda>t. total merge neutral (map own (tree_nodes t))) ts"
    using cm by simp
  have "val s' = merge (val s) (total merge neutral (map own (concat (map tree_nodes ts))))"
    unfolding s'(3) v by (simp add: map_concat total_concat comp_def)
  with s' show ?thesis by (simp add: msgs)
qed

lemma run_total:
  assumes "arrivals_ok match t" and "\<forall>n\<in>set (tree_nodes t). \<exists>s. start n = Inr s \<and> valid s \<and> val s = own n"
  shows "\<exists>s. tree_run start absorb send t = Inr s \<and> valid s \<and> val s = total merge neutral (map own (tree_nodes t))"
  using assms
proof (induction t)
  case (Node n lo da ts)
  obtain s where s: "start n = Inr s" "valid s" "val s = own n" using Node.prems by auto
  have "\<exists>s'. andThen (traverse (\<lambda>t. andThen (tree_run start absorb send t) send) ts) (\<lambda>msgs.
      absorb s (arrival lo (map fst msgs)) (arrival da (map snd msgs))) = Inr s' \<and> valid s' \<and>
    val s' = merge (val s) (total merge neutral (map own (concat (map tree_nodes ts))))"
  proof (rule absorb_children)
    fix t
    assume t: "t \<in> set ts"
    with Node.prems have "arrivals_ok match t" "\<forall>n\<in>set (tree_nodes t). \<exists>s. start n = Inr s \<and> valid s \<and> val s = own n"
      by (auto simp: list_all_iff)
    then show "\<exists>c. tree_run start absorb send t = Inr c \<and> valid c \<and> val c = total merge neutral (map own (tree_nodes t))"
      by (rule Node.IH [OF t])
  qed (use Node.prems s in auto)
  with s show ?case by auto
qed

text \<open>The root starts in its own way.\<close>

lemma root_total:
  assumes "arrivals_ok match (Node r lo da ts)" and "valid s"
    and "\<forall>n\<in>set (concat (map tree_nodes ts)). \<exists>s. start n = Inr s \<and> valid s \<and> val s = own n"
  shows "\<exists>s'. andThen (traverse (\<lambda>t. andThen (tree_run start absorb send t) send) ts) (\<lambda>msgs.
      absorb s (arrival lo (map fst msgs)) (arrival da (map snd msgs))) = Inr s' \<and> valid s' \<and>
    val s' = merge (val s) (total merge neutral (map own (concat (map tree_nodes ts))))"
proof (rule absorb_children)
  fix t
  assume t: "t \<in> set ts"
  show "\<exists>c. tree_run start absorb send t = Inr c \<and> valid c \<and> val c = total merge neutral (map own (tree_nodes t))"
    by (rule run_total) (use assms(1,3) t in \<open>auto simp: list_all_iff\<close>)
qed (use assms in auto)

end

section \<open>Passing a message around a circuit\<close>

text \<open>
  The contract of one hop, for a value of the message that may depend on the nodes that are still
  to come.
\<close>

locale circuit =
  fixes hop :: "'n \<Rightarrow> 'm \<Rightarrow> 'm res"
    and valid :: "'n list \<Rightarrow> 'm \<Rightarrow> bool"
    and val :: "'n list \<Rightarrow> 'm \<Rightarrow> 'v"
    and act :: "'n \<Rightarrow> 'v \<Rightarrow> 'v"
  assumes hop_ok: "valid (n # ns) m \<Longrightarrow>
    \<exists>m'. hop n m = Inr m' \<and> valid ns m' \<and> val ns m' = act n (val (n # ns) m)"
begin

lemma round_ok:
  "valid ns m \<Longrightarrow> \<exists>m'. fold_res hop ns m = Inr m' \<and> valid [] m' \<and> val [] m' = fold act ns (val ns m)"
proof (induction ns arbitrary: m)
  case Nil
  then show ?case by simp
next
  case (Cons n ns)
  from hop_ok [OF Cons.prems] obtain m1 where m1: "hop n m = Inr m1" "valid ns m1" "val ns m1 = act n (val (n # ns) m)"
    by blast
  from Cons.IH [OF m1(2)] m1 show ?case by simp
qed

end

end
