(* ===== verification/Zkp.thy ===== *)
theory Zkp
  imports Structs
begin

text \<open>
  The part of kyber's proof package that UnLynx calls. A predicate is a conjunction of
  representations P = s1 B1 + ... + sn Bn over named secrets and named points; HashProve turns
  secrets and points into proof bytes, HashVerify checks the bytes against the points. The two
  functions are parameters; the locale states their documented behaviour: completeness, and
  soundness in its ideal form (an accepted proof has secrets that satisfy the predicate). A
  point name without a value denotes the standard base point, as a nil base does in kyber.
  The theory also holds the loop that all list verifications of lib/ share.
\<close>

section \<open>Predicates\<close>

datatype Predicate = Rep string "(string \<times> string) list" | And "Predicate list"

definition pv :: "('s, 'p) suite \<Rightarrow> (string \<rightharpoonup> 'p) \<Rightarrow> string \<Rightarrow> 'p" where
  "pv S pval v = (case pval v of None \<Rightarrow> Point_Base S | Some P \<Rightarrow> P)"

definition represents :: "('s, 'p) suite \<Rightarrow> (string \<rightharpoonup> 's) \<Rightarrow> (string \<rightharpoonup> 'p) \<Rightarrow> string \<Rightarrow> (string \<times> string) list \<Rightarrow> bool" where
  "represents S sval pval P terms \<longleftrightarrow>
     list_all (\<lambda>(s, B). sval s \<noteq> None) terms \<and>
     pv S pval P = psum S (map (\<lambda>(s, B). Point_Mul S (the (sval s)) (pv S pval B)) terms)"

fun holds :: "('s, 'p) suite \<Rightarrow> (string \<rightharpoonup> 's) \<Rightarrow> (string \<rightharpoonup> 'p) \<Rightarrow> Predicate \<Rightarrow> bool" where
  "holds S sval pval (Rep P terms) = represents S sval pval P terms"
| "holds S sval pval (And preds) = list_all (holds S sval pval) preds"

fun secrets :: "Predicate \<Rightarrow> string list" where
  "secrets (Rep P terms) = map fst terms"
| "secrets (And preds) = concat (map secrets preds)"

fun bases :: "Predicate \<Rightarrow> string list" where
  "bases (Rep P terms) = map snd terms"
| "bases (And preds) = concat (map bases preds)"

lemma holds_secrets:
  "(\<And>s. s \<in> set (secrets pred) \<Longrightarrow> sval s = sval' s) \<Longrightarrow> holds S sval pval pred = holds S sval' pval pred"
proof (induction pred)
  case (Rep P terms)
  then have "sval (fst t) = sval' (fst t)" if "t \<in> set terms" for t using that by simp
  then show ?case
    by (simp add: represents_def case_prod_beta list_all_iff del: not_None_eq cong: map_cong)
next
  case (And preds)
  then show ?case by (simp add: list_all_iff) blast
qed

lemma holds_secrets_defined: "holds S sval pval pred \<Longrightarrow> s \<in> set (secrets pred) \<Longrightarrow> sval s \<noteq> None"
  by (induction pred) (auto simp: represents_def list_all_iff)

section \<open>Proof systems\<close>

record ('s, 'p) proofs =
  HashProve :: "string \<Rightarrow> Predicate \<Rightarrow> (string \<rightharpoonup> 's) \<Rightarrow> (string \<rightharpoonup> 'p) \<Rightarrow> byte list res"
  HashVerify :: "string \<Rightarrow> Predicate \<Rightarrow> (string \<rightharpoonup> 'p) \<Rightarrow> byte list \<Rightarrow> unit res"

locale proof_system = kyber_suite S for S :: "('s, 'p) suite" +
  fixes Z :: "('s, 'p) proofs"
  assumes proofs_complete:
      "holds S sval pval' pred \<Longrightarrow> \<forall>B\<in>set (bases pred). pv S pval B = pv S pval' B \<Longrightarrow>
       \<exists>prf. HashProve Z name pred sval pval = Inr prf \<and> HashVerify Z name pred pval' prf = Inr ()"
    and proofs_sound: "HashVerify Z name pred pval prf = Inr () \<Longrightarrow> \<exists>sval. holds S sval pval pred"
    and verify_no_panic: "HashVerify Z name pred pval prf \<noteq> Inl Panic"

text \<open>
  The documented behaviour is consistent: a transparent system whose proofs are the secrets
  themselves has it, over any suite.
\<close>

definition check_transparent :: "('s, 'p) suite \<Rightarrow> Predicate \<Rightarrow> (string \<rightharpoonup> 'p) \<Rightarrow> 's list \<Rightarrow> bool" where
  "check_transparent S pred pval vs = holds S (map_of (zip (secrets pred) vs)) pval pred"

definition transparent :: "('s, 'p) suite \<Rightarrow> ('s, 'p) proofs" where
  "transparent S = \<lparr>
     HashProve = (\<lambda>name pred sval pval.
       andThen (traverse (\<lambda>s. case sval s of None \<Rightarrow> Inl (Err ''missing secret'') | Some v \<Rightarrow> Inr v) (secrets pred))
         (write_elements (Scalar_MarshalBinary S))),
     HashVerify = (\<lambda>name pred pval prf.
       case read_elements (Scalar_UnmarshalBinary S) (ScalarLen S) (length (secrets pred)) prf of
         Inl _ \<Rightarrow> Inl (Err ''invalid proof'')
       | Inr vs \<Rightarrow> if check_transparent S pred pval vs then Inr () else Inl (Err ''invalid proof''))\<rparr>"

context kyber_suite
begin

lemma map_of_zip_values:
  assumes "\<forall>s\<in>set names. sval s \<noteq> None" and "s \<in> set names"
  shows "map_of (zip names (map (the \<circ> sval) names)) s = sval s"
  using assms by (induction names) auto

lemma transparent_proof_system: "proof_system S (transparent S)"
proof (intro proof_system.intro kyber_suite_axioms proof_system_axioms.intro)
  fix sval pval' pred pval name
  assume h: "holds S sval pval' pred"
  note def = holds_secrets_defined [OF h]
  let ?vs = "map (the \<circ> sval) (secrets pred)"
  have tr: "traverse (\<lambda>s. case sval s of None \<Rightarrow> Inl (Err ''missing secret'') | Some v \<Rightarrow> Inr v) (secrets pred) = Inr ?vs"
    using def by (subst traverse_Inr_map [where g = "the \<circ> sval"]) (auto split: option.splits)
  obtain b where b: "write_elements (Scalar_MarshalBinary S) ?vs = Inr b"
    using scalar_bytes.write_ex by blast
  then have "read_elements (Scalar_UnmarshalBinary S) (ScalarLen S) (length (secrets pred)) b = Inr ?vs"
    using scalar_bytes.read_write_exact [OF b] by simp
  moreover have "check_transparent S pred pval' ?vs"
    unfolding check_transparent_def using h def map_of_zip_values [of "secrets pred" sval]
    by (subst holds_secrets [where sval' = sval]) auto
  ultimately show "\<exists>prf. HashProve (transparent S) name pred sval pval = Inr prf \<and>
      HashVerify (transparent S) name pred pval' prf = Inr ()"
    by (simp add: transparent_def tr b)
qed (auto simp: transparent_def check_transparent_def split: sum.splits if_splits)

end

interpretation ed_proofs: proof_system ed25519 "transparent ed25519"
  by (rule ed.transparent_proof_system)

section \<open>Verification of a part of a list of proofs\<close>

text \<open>
  The list verifications take a percentage as a float64 and verify the first
  math.Ceil(percent * float64(len)) proofs. The float product enters the model as a function of
  the length. results has one entry per proof to verify; the loop runs up to its own bound, which
  is the same number in every function but AddRmListProofVerification.
\<close>

type_synonym percentage = "nat \<Rightarrow> rat"

definition verify_upto :: "nat \<Rightarrow> int \<Rightarrow> ('a \<Rightarrow> bool res) \<Rightarrow> 'a list \<Rightarrow> bool res" where
  "verify_upto bound nbrProofsToVerify verify list =
     (if nbrProofsToVerify < 0 then Inl Panic
      else andThen (par_fill VPARALLELIZE bound (\<lambda>i. andThen (index_at list i) verify)
                      (replicate (nat nbrProofsToVerify) False))
             (\<lambda>results. Inr (fold (\<lambda>v finalResult. finalResult \<and> v) results True)))"

definition verify_list :: "percentage \<Rightarrow> ('a \<Rightarrow> bool res) \<Rightarrow> 'a list \<Rightarrow> bool res" where
  "verify_list percent verify list =
     (let nbrProofsToVerify = \<lceil>percent (length list)\<rceil>
      in verify_upto (nat nbrProofsToVerify) nbrProofsToVerify verify list)"

lemma fold_and: "fold (\<lambda>v r. r \<and> v) bs b \<longleftrightarrow> b \<and> list_all (\<lambda>v. v) bs"
  by (induction bs arbitrary: b) auto

lemma verify_upto_all:
  assumes "int n = \<lceil>q\<rceil>" and "n \<le> length list" and "\<And>x. x \<in> set list \<Longrightarrow> verify x = Inr (v x)"
  shows "verify_upto n \<lceil>q\<rceil> verify list = Inr (list_all v (take n list))"
proof -
  have "par_fill VPARALLELIZE n (\<lambda>i. andThen (index_at list i) verify) (replicate n False) =
      Inr (map (\<lambda>i. v (list ! i)) [0..<n] @ drop n (replicate n False))"
    using assms(2,3) by (intro par_fill_Inr) simp_all
  moreover have "map (\<lambda>i. v (list ! i)) [0..<n] = map v (take n list)"
    using assms(2) by (intro nth_equalityI) simp_all
  ultimately show ?thesis
    by (simp add: verify_upto_def fold_and list.pred_map comp_def flip: assms(1))
qed

lemma verify_list_all:
  assumes "0 \<le> percent (length list)" and "percent (length list) \<le> of_nat (length list)"
    and "\<And>x. x \<in> set list \<Longrightarrow> verify x = Inr (v x)"
  shows "verify_list percent verify list = Inr (list_all v (take (nat \<lceil>percent (length list)\<rceil>) list))"
proof -
  have "0 \<le> \<lceil>percent (length list)\<rceil>" using assms(1) by (simp add: zero_le_ceiling less_le_trans [of "-1" 0])
  moreover have "\<lceil>percent (length list)\<rceil> \<le> int (length list)" using assms(2) by (simp add: ceiling_le_iff)
  ultimately show ?thesis
    unfolding verify_list_def Let_def by (intro verify_upto_all assms(3)) simp_all
qed

definition full :: percentage where
  "full n = of_nat n"

lemma verify_list_full:
  assumes "\<And>x. x \<in> set list \<Longrightarrow> verify x = Inr (v x)"
  shows "verify_list full verify list = Inr (list_all v list)"
  using verify_list_all [of full list verify v] assms by (simp add: full_def)

end
