(* ===== verification/KeySwitch.thy ===== *)
theory KeySwitch
  imports Zkp
begin

text \<open>
  lib/key_switch: one server's contribution to switching ciphertexts from the collective key to
  the querier's key, with its zero-knowledge proof, the list functions, and their byte formats.
\<close>

section \<open>The contribution of a server\<close>

definition KeySwitch :: "('s, 'p) suite \<Rightarrow> 's \<Rightarrow> 'p \<Rightarrow> 'p \<Rightarrow> 's \<Rightarrow> 'p CipherText \<times> 'p \<times> 's" where
  "KeySwitch S vi targetPubKey rB secretKey =
     (let rbNeg = Point_Neg S rB;
          rbkNeg = Point_Mul S secretKey rbNeg;
          viNewK = Point_Mul S vi targetPubKey
      in (\<lparr>ctK = Point_Mul S vi (Point_Base S), ctC = Point_Add S rbkNeg viNewK\<rparr>, rbNeg, vi))"

text \<open>The function returns the ciphertexts, their C parts, the negated points and the random scalars.\<close>

definition KeySwitchSequence :: "('s, 'p) suite \<Rightarrow> (nat \<Rightarrow> 's) \<Rightarrow> 'p \<Rightarrow> 'p list \<Rightarrow> 's
    \<Rightarrow> 'p CipherVector \<times> 'p list \<times> 'p list \<times> 's list" where
  "KeySwitchSequence S picks targetPubKey rBs secretKey =
     (let n = length rBs;
          ks = (\<lambda>i. KeySwitch S (picks i) targetPubKey (rBs ! i) secretKey)
      in (par_map VPARALLELIZE n (\<lambda>i. fst (ks i)) (NewCipherVector S n),
          par_map VPARALLELIZE n (\<lambda>i. ctC (fst (ks i))) (replicate n (Point_Null S)),
          par_map VPARALLELIZE n (\<lambda>i. fst (snd (ks i))) (replicate n (Point_Null S)),
          par_map VPARALLELIZE n (\<lambda>i. snd (snd (ks i))) (replicate n (Scalar_Zero S))))"

section \<open>Proofs\<close>

record 'p PublishedKSProof =
  ks_Proof :: "byte list"
  ks_K :: 'p
  ks_ViB :: 'p
  ks_Ks2 :: 'p
  ks_RbNeg :: 'p
  ks_Q :: 'p

type_synonym 'p PublishedKSListProof = "'p PublishedKSProof list"

record PublishedKSProofBytes =
  ksb_Proof :: "byte list"
  KVibKs2RbNegQ :: "byte list"

definition createPredicateKeySwitch :: Predicate where
  "createPredicateKeySwitch =
     (let log1 = Rep ''viB'' [(''vi'', ''B'')];
          log2 = Rep ''K'' [(''k'', ''B'')];
          rep = Rep ''ks2'' [(''k'', ''rBNeg''), (''vi'', ''Q'')]
      in And [And [And [log1, log2], rep]])"

definition KeySwitchProofCreation :: "('s, 'p) proofs \<Rightarrow> 'p \<Rightarrow> 'p \<Rightarrow> 's \<Rightarrow> 'p \<Rightarrow> 'p \<Rightarrow> 'p \<Rightarrow> 's \<Rightarrow> 'p PublishedKSProof res" where
  "KeySwitchProofCreation Z K Q k viB ks2 rBNeg vi =
     (let sval = [''vi'' \<mapsto> vi, ''k'' \<mapsto> k];
          pval = [''K'' \<mapsto> K, ''viB'' \<mapsto> viB, ''ks2'' \<mapsto> ks2, ''rBNeg'' \<mapsto> rBNeg, ''Q'' \<mapsto> Q]
      in case HashProve Z ''proofTest'' createPredicateKeySwitch sval pval of
           Inl (Err e) \<Rightarrow> Inl (Err (''---------prover: '' @ e))
         | Inl Panic \<Rightarrow> Inl Panic
         | Inr proofKS \<Rightarrow>
             Inr \<lparr>ks_Proof = proofKS, ks_K = K, ks_ViB = viB, ks_Ks2 = ks2, ks_RbNeg = rBNeg, ks_Q = Q\<rparr>)"

text \<open>
  In the second loop the goroutine registers wg2.Done with defer only after its last iteration,
  so a goroutine that returns on an error never signals, and wg2.Wait blocks for ever. The result
  None stands for a call that does not return.
\<close>

definition KeySwitchListProofCreation :: "('s, 'p) suite \<Rightarrow> ('s, 'p) proofs \<Rightarrow> 'p \<Rightarrow> 'p \<Rightarrow> 's \<Rightarrow> 'p list \<Rightarrow> 'p list \<Rightarrow> 's list
    \<Rightarrow> 'p PublishedKSListProof res option" where
  "KeySwitchListProofCreation S Z K Q k ks2s rBNegs vis =
     (let n = length vis;
          viBs = par_map VPARALLELIZE n (\<lambda>i. Point_Mul S (vis ! i) (Point_Base S)) (replicate n (Point_Null S))
      in case par_list VPARALLELIZE n (\<lambda>i.
             andThen (index_at ks2s i) (\<lambda>ks2. andThen (index_at rBNegs i) (\<lambda>rBNeg.
             KeySwitchProofCreation Z K Q k (viBs ! i) ks2 rBNeg (vis ! i)))) of
           Inl (Err e) \<Rightarrow> None
         | Inl Panic \<Rightarrow> Some (Inl Panic)
         | Inr List \<Rightarrow> Some (Inr List))"

definition KeySwitchProofVerification :: "('s, 'p) proofs \<Rightarrow> 'p PublishedKSProof \<Rightarrow> bool res" where
  "KeySwitchProofVerification Z pop =
     (let pval = [''K'' \<mapsto> ks_K pop, ''viB'' \<mapsto> ks_ViB pop, ''ks2'' \<mapsto> ks_Ks2 pop, ''rBNeg'' \<mapsto> ks_RbNeg pop, ''Q'' \<mapsto> ks_Q pop]
      in case HashVerify Z ''proofTest'' createPredicateKeySwitch pval (ks_Proof pop) of
           Inl (Err e) \<Rightarrow> Inr False
         | Inl Panic \<Rightarrow> Inl Panic
         | Inr _ \<Rightarrow> Inr True)"

definition KeySwitchListProofVerification :: "('s, 'p) proofs \<Rightarrow> 'p PublishedKSListProof \<Rightarrow> percentage \<Rightarrow> bool res" where
  "KeySwitchListProofVerification Z pkslp percent = verify_list percent (KeySwitchProofVerification Z) pkslp"

section \<open>Bytes\<close>

definition ks_ToBytes :: "('s, 'p) suite \<Rightarrow> 'p PublishedKSProof \<Rightarrow> PublishedKSProofBytes res" where
  "ks_ToBytes S pksp =
     andThen (AbstractPointsToBytes S [ks_K pksp, ks_ViB pksp, ks_Ks2 pksp, ks_RbNeg pksp, ks_Q pksp]) (\<lambda>data.
     Inr \<lparr>ksb_Proof = ks_Proof pksp, KVibKs2RbNegQ = data\<rparr>)"

definition ks_FromBytes :: "('s, 'p) suite \<Rightarrow> PublishedKSProofBytes \<Rightarrow> 'p PublishedKSProof res" where
  "ks_FromBytes S pkspb =
     andThen (FromBytesToAbstractPoints S (KVibKs2RbNegQ pkspb)) (\<lambda>data.
     andThen (index_at data 0) (\<lambda>K. andThen (index_at data 1) (\<lambda>viB. andThen (index_at data 2) (\<lambda>ks2.
     andThen (index_at data 3) (\<lambda>rbNeg. andThen (index_at data 4) (\<lambda>Q.
     Inr \<lparr>ks_Proof = ksb_Proof pkspb, ks_K = K, ks_ViB = viB, ks_Ks2 = ks2, ks_RbNeg = rbNeg, ks_Q = Q\<rparr>))))))"

definition ksl_ToBytes :: "('s, 'p) suite \<Rightarrow> 'p PublishedKSListProof \<Rightarrow> PublishedKSProofBytes list res" where
  "ksl_ToBytes S pkslp = par_list 1 (length pkslp) (\<lambda>i. ks_ToBytes S (pkslp ! i))"

definition ksl_FromBytes :: "('s, 'p) suite \<Rightarrow> PublishedKSProofBytes list \<Rightarrow> 'p PublishedKSListProof res" where
  "ksl_FromBytes S pkslpb = par_list 1 (length pkslpb) (\<lambda>i. ks_FromBytes S (pkslpb ! i))"

section \<open>Facts\<close>

lemma KeySwitchSequence_eq:
  "KeySwitchSequence S picks Q rBs k =
     (map (\<lambda>i. fst (KeySwitch S (picks i) Q (rBs ! i) k)) [0..<length rBs],
      map (\<lambda>i. ctC (fst (KeySwitch S (picks i) Q (rBs ! i) k))) [0..<length rBs],
      map (\<lambda>i. Point_Neg S (rBs ! i)) [0..<length rBs],
      map picks [0..<length rBs])"
  by (simp add: KeySwitchSequence_def Let_def) (simp add: KeySwitch_def Let_def)

lemma KeySwitchSequence_length:
  "length (fst (KeySwitchSequence S picks Q rBs k)) = length rBs"
  by (simp add: KeySwitchSequence_eq)

context kyber_suite
begin

lemma key_switch_predicate:
  "holds S sval pval createPredicateKeySwitch \<longleftrightarrow>
     (\<exists>k vi. sval ''k'' = Some k \<and> sval ''vi'' = Some vi \<and>
        pv S pval ''viB'' = Point_Mul S vi (pv S pval ''B'') \<and>
        pv S pval ''K'' = Point_Mul S k (pv S pval ''B'') \<and>
        pv S pval ''ks2'' = Point_Add S (Point_Mul S k (pv S pval ''rBNeg'')) (Point_Mul S vi (pv S pval ''Q'')))"
  by (auto simp: createPredicateKeySwitch_def represents_def)

text \<open>One contribution removes the server's part of the old key and adds the target key.\<close>

lemma decrypt_KeySwitch:
  "decryptPoint S x (fst (KeySwitch S vi (Point_Mul S x (Point_Base S)) rB k)) = Point_Neg S (Point_Mul S k rB)"
  by (simp add: KeySwitch_def decryptPoint_def Let_def mul_commute [of x] mul_neg) (simp add: algebra_simps)

lemma ks_FromBytes_ToBytes: "andThen (ks_ToBytes S pksp) (ks_FromBytes S) = Inr pksp"
  using points_bytes_roundtrip [of "[ks_K pksp, ks_ViB pksp, ks_Ks2 pksp, ks_RbNeg pksp, ks_Q pksp]"]
  by (auto simp: ks_ToBytes_def ks_FromBytes_def andThen_eq_Inr)

lemma ksl_roundtrip: "andThen (ksl_ToBytes S pkslp) (ksl_FromBytes S) = Inr pkslp"
  unfolding ksl_ToBytes_def ksl_FromBytes_def by (rule par_list_roundtrip) (rule ks_FromBytes_ToBytes)

end

context proof_system
begin

lemma KeySwitchProof_complete:
  assumes "K = Point_Mul S k (Point_Base S)" and "viB = Point_Mul S vi (Point_Base S)"
    and "ks2 = Point_Add S (Point_Mul S k rBNeg) (Point_Mul S vi Q)"
  shows "\<exists>pf. KeySwitchProofCreation Z K Q k viB ks2 rBNeg vi = Inr pf \<and> KeySwitchProofVerification Z pf = Inr True"
proof -
  let ?sval = "[''vi'' \<mapsto> vi, ''k'' \<mapsto> k]"
    and ?pval = "[''K'' \<mapsto> K, ''viB'' \<mapsto> viB, ''ks2'' \<mapsto> ks2, ''rBNeg'' \<mapsto> rBNeg, ''Q'' \<mapsto> Q]"
  have "holds S ?sval ?pval createPredicateKeySwitch"
    unfolding key_switch_predicate using assms by (simp add: pv_def)
  then obtain b where "HashProve Z ''proofTest'' createPredicateKeySwitch ?sval ?pval = Inr b"
    "HashVerify Z ''proofTest'' createPredicateKeySwitch ?pval b = Inr ()"
    using proofs_complete [of ?sval ?pval createPredicateKeySwitch ?pval] by blast
  then show ?thesis by (simp add: KeySwitchProofCreation_def KeySwitchProofVerification_def Let_def)
qed

lemma KeySwitchProofVerification_total: "\<exists>v. KeySwitchProofVerification Z pop = Inr v"
  using verify_no_panic
  by (auto simp: KeySwitchProofVerification_def Let_def split: sum.splits go_error.splits)

lemma KeySwitchProof_sound:
  assumes "KeySwitchProofVerification Z pop = Inr True"
  shows "\<exists>k vi. ks_K pop = Point_Mul S k (Point_Base S) \<and> ks_ViB pop = Point_Mul S vi (Point_Base S) \<and>
    ks_Ks2 pop = Point_Add S (Point_Mul S k (ks_RbNeg pop)) (Point_Mul S vi (ks_Q pop))"
proof -
  let ?pval = "[''K'' \<mapsto> ks_K pop, ''viB'' \<mapsto> ks_ViB pop, ''ks2'' \<mapsto> ks_Ks2 pop, ''rBNeg'' \<mapsto> ks_RbNeg pop, ''Q'' \<mapsto> ks_Q pop]"
  from assms have "HashVerify Z ''proofTest'' createPredicateKeySwitch ?pval (ks_Proof pop) = Inr ()"
    by (auto simp: KeySwitchProofVerification_def Let_def split: sum.splits go_error.splits)
  then obtain sval where "holds S sval ?pval createPredicateKeySwitch" using proofs_sound by blast
  then show ?thesis unfolding key_switch_predicate by (auto simp: pv_def)
qed

lemma honest_key_switch:
  assumes "KeySwitchSequence S picks Q rBs k = (cv, ks2s, rBNegs, vis)"
  shows "\<exists>pl. KeySwitchListProofCreation S Z (Point_Mul S k (Point_Base S)) Q k ks2s rBNegs vis = Some (Inr pl) \<and>
    length pl = length rBs \<and> KeySwitchListProofVerification Z pl full = Inr True"
proof -
  let ?n = "length rBs" and ?K = "Point_Mul S k (Point_Base S)"
  have e: "ks2s = map (\<lambda>i. ctC (fst (KeySwitch S (picks i) Q (rBs ! i) k))) [0..<?n]"
    "rBNegs = map (\<lambda>i. Point_Neg S (rBs ! i)) [0..<?n]" "vis = map picks [0..<?n]"
    using assms by (simp_all add: KeySwitchSequence_eq)
  have "\<exists>pf. KeySwitchProofCreation Z ?K Q k (Point_Mul S (picks i) (Point_Base S))
       (ctC (fst (KeySwitch S (picks i) Q (rBs ! i) k))) (Point_Neg S (rBs ! i)) (picks i) = Inr pf \<and>
     KeySwitchProofVerification Z pf = Inr True" for i
    by (rule KeySwitchProof_complete) (simp_all add: KeySwitch_def Let_def)
  then obtain pf where pf: "\<And>i. KeySwitchProofCreation Z ?K Q k (Point_Mul S (picks i) (Point_Base S))
       (ctC (fst (KeySwitch S (picks i) Q (rBs ! i) k))) (Point_Neg S (rBs ! i)) (picks i) = Inr (pf i)"
    "\<And>i. KeySwitchProofVerification Z (pf i) = Inr True" by metis
  let ?pl = "map pf [0..<?n]"
  have "par_list VPARALLELIZE (length vis) (\<lambda>i. andThen (index_at ks2s i) (\<lambda>ks2. andThen (index_at rBNegs i) (\<lambda>rBNeg.
      KeySwitchProofCreation Z ?K Q k (par_map VPARALLELIZE (length vis) (\<lambda>i. Point_Mul S (vis ! i) (Point_Base S))
        (replicate (length vis) (Point_Null S)) ! i) ks2 rBNeg (vis ! i)))) = Inr (map pf [0..<length vis])"
    by (rule par_list_Inr) (simp_all add: e pf(1))
  then have "KeySwitchListProofCreation S Z ?K Q k ks2s rBNegs vis = Some (Inr ?pl)"
    by (simp add: KeySwitchListProofCreation_def Let_def e(3))
  moreover have "KeySwitchListProofVerification Z ?pl full = Inr True"
  proof -
    have "verify_list full (KeySwitchProofVerification Z) ?pl = Inr (list_all (\<lambda>_. True) ?pl)"
      by (rule verify_list_full) (auto simp: pf(2))
    then show ?thesis by (simp add: KeySwitchListProofVerification_def list_all_iff)
  qed
  ultimately show ?thesis by simp
qed

end

lemma prover_error_blocks:
  assumes "\<And>sval pval. HashProve Z ''proofTest'' createPredicateKeySwitch sval pval = Inl (Err e)"
    and "vis \<noteq> []" and "length ks2s = length vis" and "length rBNegs = length vis"
  shows "KeySwitchListProofCreation S Z K Q k ks2s rBNegs vis = None"
proof -
  define f where "f = (\<lambda>i. andThen (index_at ks2s i) (\<lambda>ks2. andThen (index_at rBNegs i) (\<lambda>rBNeg.
      KeySwitchProofCreation Z K Q k (par_map VPARALLELIZE (length vis) (\<lambda>i. Point_Mul S (vis ! i) (Point_Base S))
        (replicate (length vis) (Point_Null S)) ! i) ks2 rBNeg (vis ! i))))"
  have err: "f i = Inl (Err (''---------prover: '' @ e))" if "i < length vis" for i
    using that assms by (simp add: f_def KeySwitchProofCreation_def Let_def)
  have "\<exists>e'. par_list VPARALLELIZE (length vis) f = Inl e'"
    using assms(2) err by (intro par_list_Inl [of _ 0]) simp_all
  then obtain e' where e': "par_list VPARALLELIZE (length vis) f = Inl e'" ..
  have "e' \<noteq> Panic" by (rule par_list_error [OF _ _ e']) (use err in auto)
  with e' show ?thesis
    unfolding f_def by (cases e') (simp_all add: KeySwitchListProofCreation_def Let_def)
qed

section \<open>Properties\<close>

text \<open>
  The proofs of an honest server are accepted: for every list of ciphertext parts, secret key
  and choice of randomness, the proofs made from the outputs of KeySwitchSequence are created
  without error, one per ciphertext, and the verification of all of them returns true.
\<close>

theorem key_switch_proofs_accepted:
  assumes "proof_system S Z" and "KeySwitchSequence S picks Q rBs k = (cv, ks2s, rBNegs, vis)"
  shows "\<exists>pl. KeySwitchListProofCreation S Z (Point_Mul S k (Point_Base S)) Q k ks2s rBNegs vis = Some (Inr pl) \<and>
    length pl = length rBs \<and> KeySwitchListProofVerification Z pl full = Inr True"
  using assms by (rule proof_system.honest_key_switch)

theorem key_switch_proofs_accepted_witness:
  "\<exists>pl. KeySwitchListProofCreation ed25519 (transparent ed25519) (Point_Mul ed25519 4 (Point_Base ed25519)) 9 4
      [-3 * 4 + 5 * 9] [-3] [5] = Some (Inr pl) \<and>
    length pl = length [3 :: ed_l] \<and> KeySwitchListProofVerification (transparent ed25519) pl full = Inr True"
proof (rule key_switch_proofs_accepted [OF ed_proofs.proof_system_axioms])
  show "KeySwitchSequence ed25519 (\<lambda>_. 5) 9 [3] 4 = ([\<lparr>ctK = 5, ctC = -3 * 4 + 5 * 9\<rparr>], [-3 * 4 + 5 * 9], [-3], [5])"
    by (simp add: KeySwitchSequence_eq KeySwitch_def ed_simps)
qed

text \<open>
  C30. An accepted proof pins the contribution down: if the verification of a proof returns true,
  there is a secret k with K = k B such that, for every x with Q = x B, the published pair
  (viB, ks2) decrypts under x to k times the published point rBNeg.
\<close>

theorem key_switch_proof_sound:
  assumes "proof_system S Z" and "KeySwitchProofVerification Z pop = Inr True"
  shows "\<exists>k. ks_K pop = Point_Mul S k (Point_Base S) \<and>
    (\<forall>x. ks_Q pop = Point_Mul S x (Point_Base S) \<longrightarrow>
      decryptPoint S x \<lparr>ctK = ks_ViB pop, ctC = ks_Ks2 pop\<rparr> = Point_Mul S k (ks_RbNeg pop))"
proof -
  obtain k vi where kv: "ks_K pop = Point_Mul S k (Point_Base S)" "ks_ViB pop = Point_Mul S vi (Point_Base S)"
    "ks_Ks2 pop = Point_Add S (Point_Mul S k (ks_RbNeg pop)) (Point_Mul S vi (ks_Q pop))"
    using proof_system.KeySwitchProof_sound [OF assms] by blast
  have ks: "kyber_suite S" using assms(1) by (rule proof_system.axioms(1))
  show ?thesis
    by (rule exI [of _ k]) (simp add: kv decryptPoint_def Let_def kyber_suite.mul_commute [OF ks, of _ vi] kyber_suite.pt_cancel [OF ks])
qed

theorem key_switch_proof_sound_witness:
  "\<exists>pop. KeySwitchProofCreation (transparent ed25519) 4 9 4 5 33 (-3) 5 = Inr pop \<and>
    (\<exists>k. ks_K pop = Point_Mul ed25519 k (Point_Base ed25519))"
proof -
  have "\<exists>pf. KeySwitchProofCreation (transparent ed25519) 4 9 4 5 33 (-3) 5 = Inr pf \<and>
      KeySwitchProofVerification (transparent ed25519) pf = Inr True"
    by (rule ed_proofs.KeySwitchProof_complete) (simp_all add: ed_simps)
  then show ?thesis using key_switch_proof_sound [OF ed_proofs.proof_system_axioms] by blast
qed

text \<open>
  A prover error deadlocks the server: when HashProve returns an error, the goroutine leaves
  before it has registered its Done, and KeySwitchListProofCreation never returns.
\<close>

theorem key_switch_prover_error_blocks:
  assumes "\<And>sval pval. HashProve Z ''proofTest'' createPredicateKeySwitch sval pval = Inl (Err e)"
    and "vis \<noteq> []" and "length ks2s = length vis" and "length rBNegs = length vis"
  shows "KeySwitchListProofCreation S Z K Q k ks2s rBNegs vis = None"
  using assms by (rule prover_error_blocks)

theorem key_switch_prover_error_blocks_witness:
  "KeySwitchListProofCreation ed25519 \<lparr>HashProve = \<lambda>_ _ _ _. Inl (Err ''no randomness''), HashVerify = \<lambda>_ _ _ _. Inr ()\<rparr>
     4 9 4 [33] [-3] [5] = None"
  by (rule key_switch_prover_error_blocks [where e = "''no randomness''"]) simp_all

text \<open>
  Key switching proofs survive their byte format: a list of proofs converted with ToBytes and
  back with FromBytes is unchanged.
\<close>

theorem key_switch_proof_bytes:
  assumes "kyber_suite S"
  shows "andThen (ksl_ToBytes S pkslp) (ksl_FromBytes S) = Inr pkslp"
  using assms by (rule kyber_suite.ksl_roundtrip)

end
