(* ===== verification/KeySwitching.thy ===== *)
theory KeySwitching
  imports Network KeySwitch
begin

text \<open>
  protocols/key_switching_protocol.go: the root broadcasts the target key and the K parts of the
  ciphertexts, every server computes its contribution with KeySwitchSequence, and the
  contributions are added up the tree.
\<close>

text \<open>The instance of a server; picks is the randomness of its KeySwitchSequence.\<close>

record ('s, 'p) KeySwitchingProtocol =
  ks_Private :: 's
  ks_picks :: "nat \<Rightarrow> 's"
  ks_TargetOfSwitch :: "'p CipherVector option"
  ks_TargetPublicKey :: "'p option"

text \<open>
  Start at the root; it returns its contribution and the broadcast. ProofFunc gets the outputs of
  KeySwitchSequence, its result is dropped.
\<close>

definition KeySwitching_Start :: "('s, 'p) suite \<Rightarrow> ('s, 'p) KeySwitchingProtocol \<Rightarrow> ('p CipherVector \<times> byte list) res" where
  "KeySwitching_Start S p =
     (case ks_TargetOfSwitch p of
        None \<Rightarrow> Inl (Err ''no ciphertext given as key switching target'')
      | Some target \<Rightarrow>
          (case ks_TargetPublicKey p of
             None \<Rightarrow> Inl (Err ''no new public key to be switched on provided'')
           | Some targetPublicKey \<Rightarrow>
               (let initialTab = targetPublicKey # map ctK target;
                    (switchedCiphers, ks2s, rBNegs, vis) =
                      KeySwitchSequence S (ks_picks p) targetPublicKey (drop 1 initialTab) (ks_Private p)
                in andThen (AbstractPointsToBytes S initialTab) (\<lambda>data. Inr (switchedCiphers, data)))))"

definition announcementKSPhase :: "('s, 'p) suite \<Rightarrow> byte list \<Rightarrow> ('p \<times> 'p list) res" where
  "announcementKSPhase S data =
     andThen (FromBytesToAbstractPoints S data) (\<lambda>message.
     andThen (index_at message 0) (\<lambda>targetPublicKey. Inr (targetPublicKey, drop 1 message)))"

text \<open>The first part of Dispatch at a server that is not the root.\<close>

definition KeySwitching_contribution :: "('s, 'p) suite \<Rightarrow> byte list \<Rightarrow> ('s, 'p) KeySwitchingProtocol \<Rightarrow> 'p CipherVector res" where
  "KeySwitching_contribution S data p =
     andThen (announcementKSPhase S data) (\<lambda>(targetPublicKey, rbs).
     let (switchedCiphers, ks2s, rBNegs, vis) = KeySwitchSequence S (ks_picks p) targetPublicKey rbs (ks_Private p)
     in Inr switchedCiphers)"

text \<open>Adding the contribution of the child whose messages came i-th.\<close>

definition add_contribution :: "('s, 'p) suite \<Rightarrow> byte list list \<Rightarrow> byte list list \<Rightarrow> nat \<Rightarrow> 'p CipherVector \<Rightarrow> 'p CipherVector res" where
  "add_contribution S lengths datas i nodeContribution =
     andThen (index_at datas i) (\<lambda>data.
     andThen (UnsafeCastBytesToInts (lengths ! i)) (\<lambda>ints.
     andThen (index_at ints 0) (\<lambda>n.
     andThen (cv_FromBytes S data (unat n)) (\<lambda>cv.
     cv_Add S (NewCipherVector S (length cv)) nodeContribution cv))))"

definition ascendingKSPhase :: "('s, 'p) suite \<Rightarrow> 'p CipherVector \<Rightarrow> byte list list \<Rightarrow> byte list list \<Rightarrow> 'p CipherVector res" where
  "ascendingKSPhase S nodeContribution lengths datas =
     fold_res (add_contribution S lengths datas) [0..<length lengths] nodeContribution"

text \<open>The two messages for the parent.\<close>

definition send_contribution :: "('s, 'p) suite \<Rightarrow> 'p CipherVector \<Rightarrow> (byte list \<times> byte list) res" where
  "send_contribution S nodeContribution =
     andThen (cv_ToBytes S nodeContribution) (\<lambda>(message, n).
     Inr (UnsafeCastIntsToBytes [of_nat (length nodeContribution)], message))"

text \<open>The report of the root.\<close>

definition report_switched :: "('s, 'p) suite \<Rightarrow> 'p CipherVector \<Rightarrow> 'p CipherVector \<Rightarrow> 'p CipherVector res" where
  "report_switched S target nodeContribution =
     par_list 1 (length target) (\<lambda>i. andThen (index_at nodeContribution i) (\<lambda>c.
       Inr \<lparr>ctK = ctK c, ctC = Point_Add S (ctC c) (ctC (target ! i))\<rparr>))"

text \<open>A run of the protocol over a tree of servers, the root of which starts it.\<close>

definition KeySwitching_run :: "('s, 'p) suite \<Rightarrow> ('s, 'p) KeySwitchingProtocol tree \<Rightarrow> 'p CipherVector res" where
  "KeySwitching_run S servers =
     andThen (KeySwitching_Start S (content servers)) (\<lambda>(contribution, data).
     andThen (traverse (\<lambda>t. andThen (tree_run (KeySwitching_contribution S data) (ascendingKSPhase S) (send_contribution S) t)
       (send_contribution S)) (children servers)) (\<lambda>msgs.
     andThen (ascendingKSPhase S contribution (arrival (length_order servers) (map fst msgs)) (arrival (data_order servers) (map snd msgs))) (\<lambda>c.
     report_switched S (case ks_TargetOfSwitch (content servers) of None \<Rightarrow> [] | Some target \<Rightarrow> target) c)))"

section \<open>The contributions add up\<close>

definition vec_at :: "('s, 'p) suite \<Rightarrow> 'p CipherVector \<Rightarrow> nat \<Rightarrow> 'p CipherText" where
  "vec_at S cv i = (if i < length cv then cv ! i else NewCipherText S)"

lemma length_int64_fits:
  assumes "n < 2 ^ 32"
  shows "UnsafeCastBytesToInts (UnsafeCastIntsToBytes [of_nat n]) = Inr [of_nat n :: int64]"
proof -
  have "(ucast (ucast (of_nat n :: int64) :: 32 word) :: int64) = of_nat n"
    using assms by (simp add: word_unat_eq_iff unsigned_ucast_eq unsigned_of_nat take_bit_nat_eq_self)
  then show ?thesis by (simp only: UnsafeCast_truncates list.map)
qed

context kyber_suite
begin

lemma total_vec_at:
  "total (\<lambda>f g i. ct_Add S (f i) (g i)) (\<lambda>_. NewCipherText S) (map (vec_at S) cvs) i = csum S (map (\<lambda>cv. vec_at S cv i) cvs)"
  by (induction cvs) simp_all

lemma add_contribution_Inr:
  assumes "cv_ToBytes S cv = Inr (b, n)" and "i < length datas" and "datas ! i = b" and "n < 2 ^ 32"
    and "lengths ! i = UnsafeCastIntsToBytes [of_nat n]" and "length acc = n"
  shows "add_contribution S lengths datas i acc = Inr (map2 (ct_Add S) acc cv)"
proof -
  have n: "n = length cv" "cv_FromBytes S b n = Inr cv" using cv_FromBytes_ToBytes [OF assms(1)] by simp_all
  have "unat (of_nat n :: int64) = n"
    using assms(4) by (simp add: unsigned_of_nat take_bit_nat_eq_self)
  then show ?thesis
    unfolding add_contribution_def
    using assms n by (simp add: length_int64_fits cv_Add_Inr)
qed

lemma ascending_sum:
  assumes "\<And>i. i < length ds \<Longrightarrow> cv_ToBytes S (cs ! i) = Inr (ds ! i, n)"
    and "\<And>i. i < length ds \<Longrightarrow> ls ! i = UnsafeCastIntsToBytes [of_nat n]"
    and "n < 2 ^ 32" and "length acc = n" and "length ls = length ds" and "length cs = length ds"
  shows "ascendingKSPhase S acc ls ds = Inr (fold (\<lambda>c acc. map2 (ct_Add S) acc c) cs acc)"
proof -
  have len: "length (cs ! i) = n" if "i < length ds" for i
    using cv_FromBytes_ToBytes(2) [OF assms(1) [OF that]] by simp
  have "fold_res (add_contribution S ls ds) [0..<k] acc = Inr (fold (\<lambda>c acc. map2 (ct_Add S) acc c) (take k cs) acc) \<and>
      length (fold (\<lambda>c acc. map2 (ct_Add S) acc c) (take k cs) acc) = n" if "k \<le> length ds" for k
    using that
  proof (induction k)
    case 0
    then show ?case using assms by simp
  next
    case (Suc k)
    then have "take (Suc k) cs = take k cs @ [cs ! k]" using assms(6) by (simp add: take_Suc_conv_app_nth)
    moreover have "add_contribution S ls ds k (fold (\<lambda>c acc. map2 (ct_Add S) acc c) (take k cs) acc) =
        Inr (map2 (ct_Add S) (fold (\<lambda>c acc. map2 (ct_Add S) acc c) (take k cs) acc) (cs ! k))"
      using Suc assms by (intro add_contribution_Inr) auto
    ultimately show ?case using Suc len by (simp add: fold_res_append)
  qed
  from this [of "length ds"] show ?thesis using assms by (simp add: ascendingKSPhase_def)
qed

lemma vec_at_fold:
  assumes "\<forall>c\<in>set cs. length c = n" and "length acc = n"
  shows "length (fold (\<lambda>c acc. map2 (ct_Add S) acc c) cs acc) = n"
    and "vec_at S (fold (\<lambda>c acc. map2 (ct_Add S) acc c) cs acc) i = ct_Add S (vec_at S acc i) (csum S (map (\<lambda>c. vec_at S c i) cs))"
  using assms by (induction cs arbitrary: acc) (auto simp: vec_at_def ct_ac)

sublocale contributions: convergecast "ascendingKSPhase S" "send_contribution S" "\<lambda>c. length c = n \<and> n < 2 ^ 32" "vec_at S"
  "\<lambda>f g i. ct_Add S (f i) (g i)" "\<lambda>_. NewCipherText S" "\<lambda>_ _. True" for n
proof (unfold_locales, goal_cases)
  case (1 s)
  then show ?case by (rule_tac cv_bytes_ex [of s]) (auto simp: send_contribution_def)
next
  case (2 s cs msgs lo da)
  have len: "length msgs = length cs" using 2(2) by (auto dest: list_all2_lengthD)
  have cv: "length (cs ! i) = n" "cv_ToBytes S (cs ! i) = Inr (snd (msgs ! i), n)"
      "fst (msgs ! i) = UnsafeCastIntsToBytes [of_nat n]" if "i < length cs" for i
    using list_all2_nthD [OF 2(2) that] by (cases "msgs ! i"; auto simp: send_contribution_def andThen_eq_Inr cv_ToBytes_eq_Inr)+
  have lo: "i \<in> set lo \<Longrightarrow> i < length cs" and da: "i \<in> set da \<Longrightarrow> i < length cs" for i
    using mset_eq_setD [OF 2(3)] mset_eq_setD [OF 2(4)] by simp_all
  have l: "length lo = length cs" "length da = length cs" using 2(3,4) by (metis length_upt diff_zero size_mset)+
  have run: "ascendingKSPhase S s (arrival lo (map fst msgs)) (arrival da (map snd msgs)) =
      Inr (fold (\<lambda>c acc. map2 (ct_Add S) acc c) (arrival da cs) s)"
    using 2(1) by (intro ascending_sum [where n = n]) (auto simp: arrival_def l cv lo da len)
  have all: "\<forall>c\<in>set (arrival da cs). length c = n" using cv(1) set_arrival [OF 2(4)] by (auto simp: in_set_conv_nth)
  have "csum S (map (\<lambda>c. vec_at S c i) (arrival da cs)) = csum S (map (\<lambda>c. vec_at S c i) cs)" for i
    using mset_arrival [OF 2(4)] by (intro csum_mset) simp
  with run vec_at_fold [OF all] 2(1) show ?case by (auto simp: fun_eq_iff total_vec_at)
qed (simp_all add: ct_ac)

end

interpretation ed_contributions: convergecast "ascendingKSPhase ed25519" "send_contribution ed25519"
  "\<lambda>c. length c = n \<and> n < 2 ^ 32" "vec_at ed25519"
  "\<lambda>f g i. ct_Add ed25519 (f i) (g i)" "\<lambda>_. NewCipherText ed25519" "\<lambda>_ _. True" for n :: nat
  by (rule ed.contributions.convergecast_axioms)

section \<open>A run switches the key\<close>

definition contribution_of :: "('s, 'p) suite \<Rightarrow> 'p \<Rightarrow> 'p CipherVector \<Rightarrow> ('s, 'p) KeySwitchingProtocol \<Rightarrow> 'p CipherVector" where
  "contribution_of S Q target p =
     map (\<lambda>i. fst (KeySwitch S (ks_picks p i) Q (ctK (target ! i)) (ks_Private p))) [0..<length target]"

context kyber_suite
begin

lemma contribution_Inr:
  assumes "AbstractPointsToBytes S (Q # map ctK target) = Inr data"
  shows "KeySwitching_contribution S data p = Inr (contribution_of S Q target p)"
proof -
  have "FromBytesToAbstractPoints S data = Inr (Q # map ctK target)"
    using points_bytes_roundtrip [of "Q # map ctK target"] assms by simp
  then show ?thesis
    by (simp add: KeySwitching_contribution_def announcementKSPhase_def KeySwitchSequence_eq Let_def contribution_of_def cong: map_cong)
qed

lemma report_switched_Inr:
  "length c = length target \<Longrightarrow> report_switched S target c =
    Inr (map (\<lambda>i. \<lparr>ctK = ctK (c ! i), ctC = Point_Add S (ctC (c ! i)) (ctC (target ! i))\<rparr>) [0..<length target])"
  unfolding report_switched_def by (rule par_list_Inr) simp_all

lemma decrypt_contributions:
  assumes "i < length target"
  shows "decryptPoint S x (csum S (map (\<lambda>p. vec_at S (contribution_of S (Point_Mul S x (Point_Base S)) target p) i) ps)) =
    Point_Neg S (Point_Mul S (ssum S (map ks_Private ps)) (ctK (target ! i)))"
  using assms
  by (induction ps) (simp_all add: decrypt_simps vec_at_def contribution_of_def decrypt_KeySwitch mul_scalar_add pt.minus_add_distrib pt_ac)

lemma switched_run:
  assumes "arrivals_ok (\<lambda>_ _. True) servers" and "ks_TargetOfSwitch (content servers) = Some target"
    and "ks_TargetPublicKey (content servers) = Some (Point_Mul S x (Point_Base S))" and "length target < 2 ^ 32"
  shows "\<exists>switched. KeySwitching_run S servers = Inr switched \<and>
    map (decryptPoint S x) switched = map (decryptPoint S (ssum S (map ks_Private (tree_nodes servers)))) target"
proof -
  obtain r lo da ts where T: "servers = Node r lo da ts" by (cases servers)
  let ?Q = "Point_Mul S x (Point_Base S)" and ?n = "length target"
  let ?own = "contribution_of S ?Q target" and ?others = "concat (map tree_nodes ts)"
  obtain data where data: "AbstractPointsToBytes S (?Q # map ctK target) = Inr data"
    using points_bytes_roundtrip [of "?Q # map ctK target"] by (auto simp: andThen_eq_Inr)
  have start: "KeySwitching_Start S r = Inr (?own r, data)"
    using assms(2,3) data by (simp add: T KeySwitching_Start_def KeySwitchSequence_eq Let_def contribution_of_def cong: map_cong)
  have len: "length (?own p) = ?n \<and> ?n < 2 ^ 32" for p using assms(4) by (simp add: contribution_of_def)
  obtain c where c: "andThen (traverse (\<lambda>t. andThen (tree_run (KeySwitching_contribution S data) (ascendingKSPhase S) (send_contribution S) t)
       (send_contribution S)) ts) (\<lambda>msgs. ascendingKSPhase S (?own r) (arrival lo (map fst msgs)) (arrival da (map snd msgs))) = Inr c"
    "length c = ?n" "vec_at S c = (\<lambda>i. ct_Add S (vec_at S (?own r) i)
       (total (\<lambda>f g i. ct_Add S (f i) (g i)) (\<lambda>_. NewCipherText S) (map (\<lambda>p. vec_at S (?own p)) ?others) i))"
    using contributions.root_total [of r lo da ts "?own r" ?n "KeySwitching_contribution S data" "\<lambda>p. vec_at S (?own p)"]
      assms(1) len contribution_Inr [OF data] by (auto simp: T)
  have tot: "total (\<lambda>f g i. ct_Add S (f i) (g i)) (\<lambda>_. NewCipherText S) (map (\<lambda>p. vec_at S (?own p)) ps) i =
      csum S (map (\<lambda>p. vec_at S (?own p) i) ps)" for ps i
    by (induction ps) simp_all
  have at: "c ! i = csum S (map (\<lambda>p. vec_at S (?own p) i) (tree_nodes servers))" if "i < ?n" for i
    using fun_cong [OF c(3), of i] that c(2) by (simp add: vec_at_def [of S c] tot T)
  have dec_eq: "decryptPoint S x \<lparr>ctK = ctK (c ! i), ctC = Point_Add S (ctC (c ! i)) (ctC (target ! i))\<rparr> =
      decryptPoint S (ssum S (map ks_Private (tree_nodes servers))) (target ! i)" if "i < ?n" for i
  proof -
    have "decryptPoint S x \<lparr>ctK = ctK (c ! i), ctC = Point_Add S (ctC (c ! i)) (ctC (target ! i))\<rparr> =
        Point_Add S (decryptPoint S x (c ! i)) (ctC (target ! i))"
      by (simp add: decryptPoint_def Let_def) (simp add: pt.add_diff_eq pt.add.commute)
    also have "\<dots> = decryptPoint S (ssum S (map ks_Private (tree_nodes servers))) (target ! i)"
      unfolding at [OF that] decrypt_contributions [OF that] by (simp add: decryptPoint_def Let_def)
    finally show ?thesis .
  qed
  let ?res = "map (\<lambda>i. \<lparr>ctK = ctK (c ! i), ctC = Point_Add S (ctC (c ! i)) (ctC (target ! i))\<rparr>) [0..<?n]"
  have "KeySwitching_run S servers = Inr ?res"
    using start c(1) report_switched_Inr [OF c(2)] assms(2)
    by (auto simp: KeySwitching_run_def T andThen_eq_Inr)
  moreover have "map (decryptPoint S x) ?res = map (decryptPoint S (ssum S (map ks_Private (tree_nodes servers)))) target"
    using dec_eq by (intro nth_equalityI) simp_all
  ultimately show ?thesis by blast
qed

end

section \<open>Properties\<close>

text \<open>
  C8. Key switching keeps the plaintexts: over every tree of servers, whatever the order in which
  the messages of the children arrive and whatever the randomness, a run that the root starts on
  fewer than 2^32 ciphertexts under the sum of the servers' keys succeeds, and its result
  decrypts under the querier's key x to the same points.
\<close>

theorem key_switching_run:
  assumes "kyber_suite S" and "arrivals_ok (\<lambda>_ _. True) servers" and "ks_TargetOfSwitch (content servers) = Some target"
    and "ks_TargetPublicKey (content servers) = Some (Point_Mul S x (Point_Base S))" and "length target < 2 ^ 32"
  shows "\<exists>switched. KeySwitching_run S servers = Inr switched \<and>
    map (decryptPoint S x) switched = map (decryptPoint S (ssum S (map ks_Private (tree_nodes servers)))) target"
  using assms by (rule kyber_suite.switched_run)

definition example_servers :: "(ed_l, ed_l) KeySwitchingProtocol tree" where
  "example_servers =
     (let p = (\<lambda>k. \<lparr>ks_Private = k, ks_picks = (\<lambda>i. k + of_nat i), ks_TargetOfSwitch = None, ks_TargetPublicKey = None\<rparr>)
      in Node ((p 2)\<lparr>ks_TargetOfSwitch := Some [\<lparr>ctK = 3, ctC = 40\<rparr>], ks_TargetPublicKey := Some 7\<rparr>) [0, 1] [1, 0]
           [Node (p 3) [] [] [], Node (p 4) [] [] []])"

theorem key_switching_run_witness:
  "\<exists>switched. KeySwitching_run ed25519 example_servers = Inr switched \<and>
    map (decryptPoint ed25519 7) switched = map (decryptPoint ed25519 (ssum ed25519 [2, 3, 4])) [\<lparr>ctK = 3, ctC = 40\<rparr>]"
proof -
  have m: "mset [1, 0] = mset [0 ..< 2 :: nat]" "mset [0, 1] = mset [0 ..< 2 :: nat]" by (simp_all add: upt_rec)
  have "\<exists>switched. KeySwitching_run ed25519 example_servers = Inr switched \<and>
    map (decryptPoint ed25519 7) switched =
    map (decryptPoint ed25519 (ssum ed25519 (map ks_Private (tree_nodes example_servers)))) [\<lparr>ctK = 3, ctC = 40\<rparr>]"
    by (rule key_switching_run [OF ed.kyber_suite_axioms]) (use m in \<open>simp_all add: example_servers_def Let_def ed_simps\<close>)
  then show ?thesis by (simp add: example_servers_def Let_def)
qed

end
