(* ===== verification/DetTag.thy ===== *)
theory DetTag
  imports Zkp
begin

text \<open>
  lib/deterministic_tag: a server's step of the distributed deterministic tagging, the tag of a
  ciphervector, and the zero-knowledge proofs of the two kinds of step (creation and addition).
\<close>

section \<open>The tagging step\<close>

definition DeterministicTag :: "('s, 'p) suite \<Rightarrow> 'p CipherText \<Rightarrow> 's \<Rightarrow> 's \<Rightarrow> 'p CipherText" where
  "DeterministicTag S ct private secretContrib =
     (let contrib = Point_Mul S private (ctK ct)
      in \<lparr>ctK = Point_Mul S secretContrib (ctK ct),
          ctC = Point_Mul S secretContrib (Point_Sub S (ctC ct) contrib)\<rparr>)"

definition DeterministicTagSequence :: "('s, 'p) suite \<Rightarrow> 'p CipherVector \<Rightarrow> 's \<Rightarrow> 's \<Rightarrow> 'p CipherVector" where
  "DeterministicTagSequence S cv private secretContrib =
     par_map VPARALLELIZE (length cv) (\<lambda>i. DeterministicTag S (cv ! i) private secretContrib) (NewCipherVector S (length cv))"

section \<open>Creation proofs\<close>

record 'p PublishedDDTCreationProof =
  dc_Proof :: "byte list"
  Ciminus11Si :: 'p
  CTbef :: "'p CipherText"
  CTaft :: "'p CipherText"

text \<open>An entry of the list is None when it still has Go's zero value, whose points are nil.\<close>

record 'p PublishedDDTCreationListProof =
  dc_List :: "'p PublishedDDTCreationProof option list"
  dc_K :: 'p
  dc_SB :: 'p

definition createPredicateDeterministicTagCr :: Predicate where
  "createPredicateDeterministicTagCr =
     (let log1 = Rep ''ci1'' [(''s'', ''ciminus11'')];
          log2 = Rep ''K'' [(''k'', ''B'')];
          log3 = Rep ''SB'' [(''s'', ''B'')];
          rep = Rep ''ci2'' [(''s'', ''ciminus12''), (''k'', ''ciminus11Si'')]
      in And [And [And [And [log1, log2], rep], log3]])"

definition DeterministicTagCrProofCreation :: "('s, 'p) suite \<Rightarrow> ('s, 'p) proofs \<Rightarrow> 'p CipherText \<Rightarrow> 'p CipherText
    \<Rightarrow> 'p \<Rightarrow> 's \<Rightarrow> 's \<Rightarrow> 'p PublishedDDTCreationProof res" where
  "DeterministicTagCrProofCreation S Z ctBef ctAft K k s =
     (let ci1 = ctK ctAft; ciminus11 = ctK ctBef; ci2 = ctC ctAft; ciminus12 = ctC ctBef;
          ciminus11Si = Point_Neg S (Point_Mul S s ciminus11);
          B = Point_Base S;
          sval = [''k'' \<mapsto> k, ''s'' \<mapsto> s];
          pval = [''B'' \<mapsto> B, ''K'' \<mapsto> K, ''ciminus11Si'' \<mapsto> ciminus11Si, ''ciminus12'' \<mapsto> ciminus12,
                  ''ciminus11'' \<mapsto> ciminus11, ''ci2'' \<mapsto> ci2, ''ci1'' \<mapsto> ci1]
      in case HashProve Z ''proofTest'' createPredicateDeterministicTagCr sval pval of
           Inl (Err e) \<Rightarrow> Inl (Err (''---------prover: '' @ e))
         | Inl Panic \<Rightarrow> Inl Panic
         | Inr pf \<Rightarrow> Inr \<lparr>dc_Proof = pf, Ciminus11Si = ciminus11Si, CTbef = ctBef, CTaft = ctAft\<rparr>)"

text \<open>
  The goroutines test the shared variable err, which nobody ever sets, instead of the error they
  just received: a failed creation leaves a zero value in the list and is not reported.
\<close>

definition DeterministicTagCrListProofCreation :: "('s, 'p) suite \<Rightarrow> ('s, 'p) proofs \<Rightarrow> 'p CipherVector \<Rightarrow> 'p CipherVector
    \<Rightarrow> 'p \<Rightarrow> 's \<Rightarrow> 's \<Rightarrow> 'p PublishedDDTCreationListProof res" where
  "DeterministicTagCrListProofCreation S Z vBef vAft K k s =
     andThen (par_list VPARALLELIZE (length vBef) (\<lambda>i.
        andThen (index_at vAft i) (\<lambda>ctAft.
        case DeterministicTagCrProofCreation S Z (vBef ! i) ctAft K k s of
          Inl (Err _) \<Rightarrow> Inr None
        | Inl Panic \<Rightarrow> Inl Panic
        | Inr proofAux \<Rightarrow> Inr (Some proofAux)))) (\<lambda>listProofs.
     Inr \<lparr>dc_List = listProofs, dc_K = K, dc_SB = Point_Mul S s (Point_Base S)\<rparr>)"

definition DeterministicTagCrProofVerification :: "('s, 'p) suite \<Rightarrow> ('s, 'p) proofs \<Rightarrow> 'p PublishedDDTCreationProof option
    \<Rightarrow> 'p \<Rightarrow> 'p \<Rightarrow> bool res" where
  "DeterministicTagCrProofVerification S Z pf K SB =
     (let B = Point_Base S;
          (pval, Proof) =
            (case pf of
               None \<Rightarrow> ([''B'' \<mapsto> B, ''K'' \<mapsto> K, ''SB'' \<mapsto> SB], [])
             | Some p \<Rightarrow>
                 ([''B'' \<mapsto> B, ''K'' \<mapsto> K, ''ciminus11Si'' \<mapsto> Ciminus11Si p, ''ciminus12'' \<mapsto> ctC (CTbef p),
                   ''ciminus11'' \<mapsto> ctK (CTbef p), ''ci2'' \<mapsto> ctC (CTaft p), ''ci1'' \<mapsto> ctK (CTaft p), ''SB'' \<mapsto> SB],
                  dc_Proof p))
      in case HashVerify Z ''proofTest'' createPredicateDeterministicTagCr pval Proof of
           Inl (Err e) \<Rightarrow> Inr False
         | Inl Panic \<Rightarrow> Inl Panic
         | Inr _ \<Rightarrow> Inr True)"

definition DeterministicTagCrListProofVerification :: "('s, 'p) suite \<Rightarrow> ('s, 'p) proofs \<Rightarrow> 'p PublishedDDTCreationListProof
    \<Rightarrow> percentage \<Rightarrow> bool res" where
  "DeterministicTagCrListProofVerification S Z pdclp percent =
     verify_list percent (\<lambda>pf. DeterministicTagCrProofVerification S Z pf (dc_K pdclp) (dc_SB pdclp)) (dc_List pdclp)"

section \<open>The tag of a ciphervector\<close>

definition CipherVectorToDeterministicTag :: "('s, 'p) suite \<Rightarrow> ('s, 'p) proofs \<Rightarrow> 'p CipherVector \<Rightarrow> 's \<Rightarrow> 's \<Rightarrow> 'p \<Rightarrow> bool
    \<Rightarrow> (GroupingKey \<times> 'p PublishedDDTCreationListProof option) res" where
  "CipherVectorToDeterministicTag S Z vBef privKey secContrib K proofs =
     (let vAft = DeterministicTagSequence S vBef privKey secContrib in
      andThen (if proofs
               then andThen (DeterministicTagCrListProofCreation S Z vBef vAft K privKey secContrib) (\<lambda>p. Inr (Some p))
               else Inr None) (\<lambda>pdclp.
      let deterministicGroupAttributes = map (\<lambda>c. DeterministCipherText (ctC c)) vAft
      in Inr (dcv_Key S deterministicGroupAttributes, pdclp)))"

section \<open>Addition proofs\<close>

record 'p PublishedDDTAdditionProof =
  da_C1 :: 'p
  da_C2 :: 'p
  da_R :: 'p
  da_Proof :: "byte list"

definition createPredicateDeterministicTagAddition :: Predicate where
  "createPredicateDeterministicTagAddition = (let log1 = Rep ''c2'' [(''s'', ''B'')] in And [log1])"

definition DeterministicTagAdditionProofCreation :: "('s, 'p) suite \<Rightarrow> ('s, 'p) proofs \<Rightarrow> 'p \<Rightarrow> 's \<Rightarrow> 'p \<Rightarrow> 'p
    \<Rightarrow> 'p PublishedDDTAdditionProof res" where
  "DeterministicTagAdditionProofCreation S Z c1 s c2 r =
     (let sval = [''s'' \<mapsto> s];
          pval = [''B'' \<mapsto> Point_Base S, ''c1'' \<mapsto> c1, ''c2'' \<mapsto> c2, ''r'' \<mapsto> r]
      in case HashProve Z ''proofTest'' createPredicateDeterministicTagAddition sval pval of
           Inl (Err e) \<Rightarrow> Inl (Err (''---------prover: '' @ e))
         | Inl Panic \<Rightarrow> Inl Panic
         | Inr pf \<Rightarrow> Inr \<lparr>da_C1 = c1, da_C2 = c2, da_R = r, da_Proof = pf\<rparr>)"

text \<open>
  Each goroutine receives the elements at the start of its block and uses them for all its
  positions: the proof at position m is made from the elements at m - m mod VPARALLELIZE.
\<close>

definition DeterministicTagAdditionListProofCreation :: "('s, 'p) suite \<Rightarrow> ('s, 'p) proofs \<Rightarrow> 'p list \<Rightarrow> 's list \<Rightarrow> 'p list \<Rightarrow> 'p list
    \<Rightarrow> 'p PublishedDDTAdditionProof list res" where
  "DeterministicTagAdditionListProofCreation S Z c1List sList c2List rList =
     par_list VPARALLELIZE (length c1List) (\<lambda>m.
       let i = m - m mod VPARALLELIZE in
       andThen (index_at c1List i) (\<lambda>c1. andThen (index_at sList i) (\<lambda>s.
       andThen (index_at c2List i) (\<lambda>c2. andThen (index_at rList i) (\<lambda>r.
       DeterministicTagAdditionProofCreation S Z c1 s c2 r)))))"

text \<open>
  reflect.DeepEqual compares the internal representations of the two points, which belong to
  kyber; it is the argument deepEqual.
\<close>

definition DeterministicTagAdditionProofVerification :: "('s, 'p) suite \<Rightarrow> ('s, 'p) proofs \<Rightarrow> ('p \<Rightarrow> 'p \<Rightarrow> bool)
    \<Rightarrow> 'p PublishedDDTAdditionProof \<Rightarrow> bool res" where
  "DeterministicTagAdditionProofVerification S Z deepEqual psap =
     (let pval = [''B'' \<mapsto> Point_Base S, ''c1'' \<mapsto> da_C1 psap, ''c2'' \<mapsto> da_C2 psap, ''r'' \<mapsto> da_R psap]
      in case HashVerify Z ''proofTest'' createPredicateDeterministicTagAddition pval (da_Proof psap) of
           Inl (Err e) \<Rightarrow> Inr False
         | Inl Panic \<Rightarrow> Inl Panic
         | Inr _ \<Rightarrow> let cv = Point_Add S (da_C1 psap) (da_C2 psap) in Inr (deepEqual cv (da_R psap)))"

definition DeterministicTagAdditionListProofVerification :: "('s, 'p) suite \<Rightarrow> ('s, 'p) proofs \<Rightarrow> ('p \<Rightarrow> 'p \<Rightarrow> bool)
    \<Rightarrow> 'p PublishedDDTAdditionProof list \<Rightarrow> percentage \<Rightarrow> bool res" where
  "DeterministicTagAdditionListProofVerification S Z deepEqual pdalp percent =
     verify_list percent (DeterministicTagAdditionProofVerification S Z deepEqual) pdalp"

section \<open>Facts\<close>

lemma DeterministicTagSequence_eq [simp]:
  "DeterministicTagSequence S cv k s = map (\<lambda>ct. DeterministicTag S ct k s) cv"
  by (rule nth_equalityI) (simp_all add: DeterministicTagSequence_def)

text \<open>A ciphertext that still carries the shares of the keys ks around the point M.\<close>

definition masks :: "('s, 'p) suite \<Rightarrow> 's list \<Rightarrow> 'p \<Rightarrow> 'p CipherText \<Rightarrow> bool" where
  "masks S ks M ct \<longleftrightarrow> ctC ct = Point_Add S M (Point_Mul S (ssum S ks) (ctK ct))"

context kyber_suite
begin

lemma masks_Nil: "masks S [] M ct \<longleftrightarrow> ctC ct = M"
  by (simp add: masks_def)

lemma masks_DeterministicTag:
  assumes "masks S (k # ks) M ct"
  shows "masks S ks (Point_Mul S s M) (DeterministicTag S ct k s)"
  using assms by (simp add: masks_def DeterministicTag_def Let_def mul_linear mul_sub mul_neg algebra_simps)
    (simp add: sc_ac)

lemma masks_ring:
  assumes "masks S (map fst servers) M ct"
  shows "ctC (fold (\<lambda>(k, s) ct. DeterministicTag S ct k s) servers ct) = Point_Mul S (sprod S (map snd servers)) M"
  using assms
proof (induction servers arbitrary: M ct)
  case Nil
  then show ?case by (simp add: masks_Nil mul_one)
next
  case (Cons ks servers)
  obtain k s where ks: "ks = (k, s)" by (cases ks)
  with Cons.prems have "masks S (map fst servers) (Point_Mul S s M) (DeterministicTag S ct k s)"
    by (intro masks_DeterministicTag) simp
  from Cons.IH [OF this] show ?case by (simp add: ks mul_mul scalar_mul_commute)
qed

lemma masks_encrypt:
  "masks S ks M (fst (encryptPoint S (Point_Mul S (ssum S ks) (Point_Base S)) M r))"
  by (simp add: masks_def crypto_defs mul_commute pt.add.commute)

lemma tag_cr_predicate:
  "holds S sval pval createPredicateDeterministicTagCr \<longleftrightarrow>
     (\<exists>k s. sval ''k'' = Some k \<and> sval ''s'' = Some s \<and>
        pv S pval ''ci1'' = Point_Mul S s (pv S pval ''ciminus11'') \<and>
        pv S pval ''K'' = Point_Mul S k (pv S pval ''B'') \<and>
        pv S pval ''ci2'' = Point_Add S (Point_Mul S s (pv S pval ''ciminus12'')) (Point_Mul S k (pv S pval ''ciminus11Si'')) \<and>
        pv S pval ''SB'' = Point_Mul S s (pv S pval ''B''))"
  by (auto simp: createPredicateDeterministicTagCr_def represents_def)

end

abbreviation cr_points :: "('s, 'p) suite \<Rightarrow> 'p PublishedDDTCreationProof \<Rightarrow> 'p \<Rightarrow> 'p \<Rightarrow> (string \<rightharpoonup> 'p)" where
  "cr_points S p K SB \<equiv>
     [''B'' \<mapsto> Point_Base S, ''K'' \<mapsto> K, ''ciminus11Si'' \<mapsto> Ciminus11Si p, ''ciminus12'' \<mapsto> ctC (CTbef p),
      ''ciminus11'' \<mapsto> ctK (CTbef p), ''ci2'' \<mapsto> ctC (CTaft p), ''ci1'' \<mapsto> ctK (CTaft p), ''SB'' \<mapsto> SB]"

context proof_system
begin

lemma cr_proof_exists:
  assumes "ctK ctAft = Point_Mul S s (ctK ctBef)"
    and "ctC ctAft = Point_Add S (Point_Mul S s (ctC ctBef)) (Point_Mul S k P)"
    and pval: "pval = [''B'' \<mapsto> Point_Base S, ''K'' \<mapsto> Point_Mul S k (Point_Base S), ''ciminus11Si'' \<mapsto> P,
      ''ciminus12'' \<mapsto> ctC ctBef, ''ciminus11'' \<mapsto> ctK ctBef, ''ci2'' \<mapsto> ctC ctAft, ''ci1'' \<mapsto> ctK ctAft]"
  shows "\<exists>b. HashProve Z ''proofTest'' createPredicateDeterministicTagCr [''k'' \<mapsto> k, ''s'' \<mapsto> s] pval = Inr b \<and>
    DeterministicTagCrProofVerification S Z
      (Some \<lparr>dc_Proof = b, Ciminus11Si = P, CTbef = ctBef, CTaft = ctAft\<rparr>)
      (Point_Mul S k (Point_Base S)) (Point_Mul S s (Point_Base S)) = Inr True"
proof -
  let ?pval' = "pval(''SB'' \<mapsto> Point_Mul S s (Point_Base S))"
  have "holds S [''k'' \<mapsto> k, ''s'' \<mapsto> s] ?pval' createPredicateDeterministicTagCr"
    unfolding tag_cr_predicate using assms(1,2) by (simp add: pval pv_def)
  moreover have "\<forall>B\<in>set (bases createPredicateDeterministicTagCr). pv S pval B = pv S ?pval' B"
    by (simp add: createPredicateDeterministicTagCr_def pv_def)
  ultimately obtain b where
    "HashProve Z ''proofTest'' createPredicateDeterministicTagCr [''k'' \<mapsto> k, ''s'' \<mapsto> s] pval = Inr b"
    "HashVerify Z ''proofTest'' createPredicateDeterministicTagCr ?pval' b = Inr ()"
    using proofs_complete by blast
  then show ?thesis by (intro exI [of _ b]) (simp add: DeterministicTagCrProofVerification_def pval)
qed

lemma honest_tag_proof:
  "\<exists>p. DeterministicTagCrProofCreation S Z ct (DeterministicTag S ct k s) (Point_Mul S k (Point_Base S)) k s = Inr p \<and>
    DeterministicTagCrProofVerification S Z (Some p) (Point_Mul S k (Point_Base S)) (Point_Mul S s (Point_Base S)) = Inr True"
proof -
  let ?P = "Point_Neg S (Point_Mul S s (ctK ct))"
  have "ctC (DeterministicTag S ct k s) = Point_Add S (Point_Mul S s (ctC ct)) (Point_Mul S k ?P)"
    by (simp add: DeterministicTag_def Let_def mul_sub mul_neg mul_commute [of s k])
  moreover have "ctK (DeterministicTag S ct k s) = Point_Mul S s (ctK ct)"
    by (simp add: DeterministicTag_def Let_def)
  ultimately show ?thesis
    using cr_proof_exists [OF _ _ refl, of "DeterministicTag S ct k s" s ct k ?P]
    by (auto simp: DeterministicTagCrProofCreation_def Let_def)
qed

lemma honest_tag_list:
  "\<exists>pl. DeterministicTagCrListProofCreation S Z cv (DeterministicTagSequence S cv k s) (Point_Mul S k (Point_Base S)) k s = Inr pl \<and>
    length (dc_List pl) = length cv \<and> DeterministicTagCrListProofVerification S Z pl full = Inr True"
proof -
  let ?K = "Point_Mul S k (Point_Base S)" and ?SB = "Point_Mul S s (Point_Base S)"
  obtain p where p: "\<And>ct. DeterministicTagCrProofCreation S Z ct (DeterministicTag S ct k s) ?K k s = Inr (p ct)"
    "\<And>ct. DeterministicTagCrProofVerification S Z (Some (p ct)) ?K ?SB = Inr True"
    using honest_tag_proof [of _ k s] by metis
  have "par_list VPARALLELIZE (length cv) (\<lambda>i. andThen (index_at (DeterministicTagSequence S cv k s) i) (\<lambda>ctAft.
      case DeterministicTagCrProofCreation S Z (cv ! i) ctAft ?K k s of
        Inl (Err _) \<Rightarrow> Inr None | Inl Panic \<Rightarrow> Inl Panic | Inr proofAux \<Rightarrow> Inr (Some proofAux))) =
    Inr (map (\<lambda>i. Some (p (cv ! i))) [0..<length cv])"
    by (rule par_list_Inr) (simp_all add: p(1))
  moreover have "DeterministicTagCrListProofVerification S Z
      \<lparr>dc_List = map (\<lambda>i. Some (p (cv ! i))) [0..<length cv], dc_K = ?K, dc_SB = ?SB\<rparr> full = Inr True"
    unfolding DeterministicTagCrListProofVerification_def
    by (subst verify_list_full [where v = "\<lambda>_. True"]) (auto simp: p(2) list_all_iff)
  ultimately show ?thesis by (simp add: DeterministicTagCrListProofCreation_def)
qed

text \<open>The verifier never compares Ciminus11Si with the ciphertexts, so any C part can be proved.\<close>

lemma forged_tag:
  assumes "Scalar_Mul S ki k = Scalar_One S"
  shows "\<exists>p. CTbef p = ctBef \<and> CTaft p = \<lparr>ctK = Point_Mul S s (ctK ctBef), ctC = C\<rparr> \<and>
    DeterministicTagCrProofVerification S Z (Some p) (Point_Mul S k (Point_Base S)) (Point_Mul S s (Point_Base S)) = Inr True"
proof -
  let ?P = "Point_Mul S ki (Point_Sub S C (Point_Mul S s (ctC ctBef)))"
  have "Point_Mul S k ?P = Point_Sub S C (Point_Mul S s (ctC ctBef))"
    using assms by (simp add: mul_mul scalar_mul_commute [of k] mul_one)
  then have "ctC \<lparr>ctK = Point_Mul S s (ctK ctBef), ctC = C\<rparr> = Point_Add S (Point_Mul S s (ctC ctBef)) (Point_Mul S k ?P)"
    by simp
  from cr_proof_exists [OF _ this refl] obtain b where
    "DeterministicTagCrProofVerification S Z
      (Some \<lparr>dc_Proof = b, Ciminus11Si = ?P, CTbef = ctBef, CTaft = \<lparr>ctK = Point_Mul S s (ctK ctBef), ctC = C\<rparr>\<rparr>)
      (Point_Mul S k (Point_Base S)) (Point_Mul S s (Point_Base S)) = Inr True" by auto
  then show ?thesis
    by (intro exI [of _ "\<lparr>dc_Proof = b, Ciminus11Si = ?P, CTbef = ctBef,
      CTaft = \<lparr>ctK = Point_Mul S s (ctK ctBef), ctC = C\<rparr>\<rparr>"]) simp
qed

lemma addition_sound:
  assumes "DeterministicTagAdditionProofVerification S Z deepEqual psap = Inr True"
    and "\<And>P Q. deepEqual P Q \<Longrightarrow> P = Q"
  shows "da_R psap = Point_Add S (da_C1 psap) (da_C2 psap) \<and> (\<exists>s. da_C2 psap = Point_Mul S s (Point_Base S))"
proof -
  let ?pval = "[''B'' \<mapsto> Point_Base S, ''c1'' \<mapsto> da_C1 psap, ''c2'' \<mapsto> da_C2 psap, ''r'' \<mapsto> da_R psap]"
  from assms(1) have v: "HashVerify Z ''proofTest'' createPredicateDeterministicTagAddition ?pval (da_Proof psap) = Inr ()"
    and d: "deepEqual (Point_Add S (da_C1 psap) (da_C2 psap)) (da_R psap)"
    by (auto simp: DeterministicTagAdditionProofVerification_def Let_def split: sum.splits go_error.splits)
  from v obtain sval where "holds S sval ?pval createPredicateDeterministicTagAddition" using proofs_sound by blast
  then show ?thesis
    using assms(2) [OF d] by (auto simp: createPredicateDeterministicTagAddition_def represents_def pv_def)
qed

end

lemma addition_creation_Inr:
  "DeterministicTagAdditionProofCreation S Z c1 s c2 r = Inr p \<Longrightarrow> da_C1 p = c1 \<and> da_C2 p = c2 \<and> da_R p = r"
  by (auto simp: DeterministicTagAdditionProofCreation_def Let_def split: sum.splits go_error.splits)

lemma addition_list_repeats:
  assumes "DeterministicTagAdditionListProofCreation S Z c1s ss c2s rs = Inr pl" and "m < length c1s"
  shows "length pl = length c1s" "da_C1 (pl ! m) = c1s ! (m - m mod VPARALLELIZE)"
    "da_C2 (pl ! m) = c2s ! (m - m mod VPARALLELIZE)" "da_R (pl ! m) = rs ! (m - m mod VPARALLELIZE)"
proof -
  let ?i = "m - m mod VPARALLELIZE"
  have all: "length pl = length c1s" and m: "andThen (index_at c1s ?i) (\<lambda>c1. andThen (index_at ss ?i) (\<lambda>s.
      andThen (index_at c2s ?i) (\<lambda>c2. andThen (index_at rs ?i) (\<lambda>r.
      DeterministicTagAdditionProofCreation S Z c1 s c2 r)))) = Inr (pl ! m)"
    using assms by (auto simp: DeterministicTagAdditionListProofCreation_def par_list_eq_Inr Let_def)
  from m show "length pl = length c1s" "da_C1 (pl ! m) = c1s ! ?i" "da_C2 (pl ! m) = c2s ! ?i" "da_R (pl ! m) = rs ! ?i"
    using all by (auto simp: andThen_eq_Inr index_at_def split: if_splits dest: addition_creation_Inr)
qed

section \<open>Properties\<close>

text \<open>
  C10. The distributed tagging is deterministic: a ciphertext of M under the sum of the servers'
  keys, whatever its randomness, passed once through every server's DeterministicTag, ends with
  the product of the servers' secrets times M as its C part.
\<close>

theorem deterministic_tag_of_ring:
  assumes "kyber_suite S"
  shows "ctC (fold (\<lambda>(k, s) ct. DeterministicTag S ct k s) servers
      (fst (encryptPoint S (Point_Mul S (ssum S (map fst servers)) (Point_Base S)) M r))) =
    Point_Mul S (sprod S (map snd servers)) M"
  using assms by (intro kyber_suite.masks_ring kyber_suite.masks_encrypt)

theorem deterministic_tag_of_ring_witness:
  "ctC (fold (\<lambda>(k, s) ct. DeterministicTag ed25519 ct k s) [(3, 5), (4, 6)]
      (fst (encryptPoint ed25519 (Point_Mul ed25519 (ssum ed25519 (map fst [(3, 5), (4, 6 :: ed_l)])) (Point_Base ed25519)) 2 11))) =
   Point_Mul ed25519 (sprod ed25519 (map snd [(3 :: ed_l, 5), (4, 6)])) 2"
  by (rule deterministic_tag_of_ring [OF ed.kyber_suite_axioms])

text \<open>
  The tagging proofs of an honest server are accepted: for any ciphervector, the proofs that
  DeterministicTagSequence is the step with the private key of K and the secret of SB are created
  without error, one per ciphertext, and all verify.
\<close>

theorem tag_proofs_accepted:
  assumes "proof_system S Z"
  shows "\<exists>pl. DeterministicTagCrListProofCreation S Z cv (DeterministicTagSequence S cv k s) (Point_Mul S k (Point_Base S)) k s = Inr pl \<and>
    length (dc_List pl) = length cv \<and> DeterministicTagCrListProofVerification S Z pl full = Inr True"
  using assms by (rule proof_system.honest_tag_list)

theorem tag_proofs_accepted_witness:
  "\<exists>pl. DeterministicTagCrListProofCreation ed25519 (transparent ed25519) [\<lparr>ctK = 1, ctC = 2\<rparr>]
      (DeterministicTagSequence ed25519 [\<lparr>ctK = 1, ctC = 2\<rparr>] 3 5) (Point_Mul ed25519 3 (Point_Base ed25519)) 3 5 = Inr pl \<and>
    length (dc_List pl) = length [\<lparr>ctK = 1, ctC = 2 :: ed_l\<rparr>] \<and>
    DeterministicTagCrListProofVerification ed25519 (transparent ed25519) pl full = Inr True"
  by (rule tag_proofs_accepted [OF ed_proofs.proof_system_axioms])

text \<open>
  C31. The tagging proof does not bind the tag: the verifier takes the point Ciminus11Si from the
  proof and never compares it with the ciphertexts, so a server that knows an invertible k can
  publish an accepted proof for any point C whatever as the new C part.
\<close>

theorem tag_proof_forgeable:
  assumes "proof_system S Z" and "Scalar_Mul S ki k = Scalar_One S"
  shows "\<exists>p. CTbef p = ctBef \<and> CTaft p = \<lparr>ctK = Point_Mul S s (ctK ctBef), ctC = C\<rparr> \<and>
    DeterministicTagCrProofVerification S Z (Some p) (Point_Mul S k (Point_Base S)) (Point_Mul S s (Point_Base S)) = Inr True"
  using assms by (rule proof_system.forged_tag)

theorem tag_proof_forgeable_witness:
  "\<exists>p. CTbef p = \<lparr>ctK = 1, ctC = 2\<rparr> \<and> CTaft p = \<lparr>ctK = Point_Mul ed25519 5 (ctK \<lparr>ctK = 1, ctC = 2\<rparr>), ctC = 1000\<rparr> \<and>
    DeterministicTagCrProofVerification ed25519 (transparent ed25519) (Some p) (Point_Mul ed25519 1 (Point_Base ed25519))
      (Point_Mul ed25519 5 (Point_Base ed25519)) = Inr True"
  by (rule tag_proof_forgeable [OF ed_proofs.proof_system_axioms, of 1]) (simp add: ed_simps)

text \<open>
  Errors of the prover are swallowed: when HashProve fails, the list creation still returns
  normally, with one zero value per ciphertext in place of the proofs.
\<close>

theorem tag_proof_errors_dropped:
  assumes "\<And>sval pval. HashProve Z ''proofTest'' createPredicateDeterministicTagCr sval pval = Inl (Err e)"
    and "length vBef \<le> length vAft"
  shows "DeterministicTagCrListProofCreation S Z vBef vAft K k s =
    Inr \<lparr>dc_List = replicate (length vBef) None, dc_K = K, dc_SB = Point_Mul S s (Point_Base S)\<rparr>"
proof -
  have "par_list VPARALLELIZE (length vBef) (\<lambda>i. andThen (index_at vAft i) (\<lambda>ctAft.
      case DeterministicTagCrProofCreation S Z (vBef ! i) ctAft K k s of
        Inl (Err _) \<Rightarrow> Inr None | Inl Panic \<Rightarrow> Inl Panic | Inr proofAux \<Rightarrow> Inr (Some proofAux))) =
    Inr (map (\<lambda>_. None) [0..<length vBef])"
    using assms by (intro par_list_Inr) (simp_all add: DeterministicTagCrProofCreation_def Let_def)
  then show ?thesis by (simp add: DeterministicTagCrListProofCreation_def map_replicate_const)
qed

theorem tag_proof_errors_dropped_witness:
  "DeterministicTagCrListProofCreation ed25519 \<lparr>HashProve = \<lambda>_ _ _ _. Inl (Err ''e''), HashVerify = \<lambda>_ _ _ _. Inr ()\<rparr>
     [\<lparr>ctK = 1, ctC = 2\<rparr>] [\<lparr>ctK = 1, ctC = 2\<rparr>] 3 3 5 =
   Inr \<lparr>dc_List = replicate (length [\<lparr>ctK = 1, ctC = 2 :: ed_l\<rparr>]) None, dc_K = 3, dc_SB = Point_Mul ed25519 5 (Point_Base ed25519)\<rparr>"
  by (rule tag_proof_errors_dropped [where e = "''e''"]) simp_all

text \<open>
  A list of addition proofs repeats the first element of every block of 100: the proof at
  position m states c1, c2 and r of position m - m mod 100, so the other elements of a block are
  never proved.
\<close>

theorem addition_proofs_repeat_block_start:
  assumes "DeterministicTagAdditionListProofCreation S Z c1s ss c2s rs = Inr pl" and "m < length c1s"
  shows "da_C1 (pl ! m) = c1s ! (m - m mod 100) \<and> da_C2 (pl ! m) = c2s ! (m - m mod 100) \<and> da_R (pl ! m) = rs ! (m - m mod 100)"
  using addition_list_repeats [OF assms] by (simp add: VPARALLELIZE_def)

theorem addition_proofs_repeat_block_start_witness:
  "da_C1 ([\<lparr>da_C1 = 1, da_C2 = 2, da_R = 3, da_Proof = []\<rparr>, \<lparr>da_C1 = (1 :: ed_l), da_C2 = 2, da_R = 3, da_Proof = []\<rparr>] ! 1) = 1"
proof -
  let ?Z = "\<lparr>HashProve = \<lambda>_ _ _ _. Inr [], HashVerify = \<lambda>_ _ _ _. Inr ()\<rparr>"
  let ?f = "\<lambda>m. let i = m - m mod VPARALLELIZE in
       andThen (index_at [1, 10] i) (\<lambda>c1. andThen (index_at [2, 20] i) (\<lambda>s.
       andThen (index_at [2, 20] i) (\<lambda>c2. andThen (index_at [3, 30] i) (\<lambda>r.
       DeterministicTagAdditionProofCreation ed25519 ?Z c1 s c2 r))))"
  have "par_list VPARALLELIZE 2 ?f = Inr (map (\<lambda>_. \<lparr>da_C1 = 1, da_C2 = 2, da_R = 3, da_Proof = []\<rparr>) [0..<2])"
    by (rule par_list_Inr) (auto simp: VPARALLELIZE_def DeterministicTagAdditionProofCreation_def less_2_cases_iff)
  then have "DeterministicTagAdditionListProofCreation ed25519 ?Z [1, 10] [2, 20] [2, 20] [3, 30] =
      Inr [\<lparr>da_C1 = 1, da_C2 = 2, da_R = 3, da_Proof = []\<rparr>, \<lparr>da_C1 = 1, da_C2 = 2, da_R = 3, da_Proof = []\<rparr>]"
    by (simp add: DeterministicTagAdditionListProofCreation_def upt_rec numeral_2_eq_2)
  from addition_proofs_repeat_block_start [OF this, of 1] show ?thesis by simp
qed

text \<open>
  An accepted addition proof has a true sum: if comparing representations implies equality of
  points, then r = c1 + c2 and c2 is a multiple of the base point.
\<close>

theorem addition_proof_sound:
  assumes "proof_system S Z" and "\<And>P Q. deepEqual P Q \<Longrightarrow> P = Q"
    and "DeterministicTagAdditionProofVerification S Z deepEqual psap = Inr True"
  shows "da_R psap = Point_Add S (da_C1 psap) (da_C2 psap) \<and> (\<exists>s. da_C2 psap = Point_Mul S s (Point_Base S))"
  using proof_system.addition_sound [OF assms(1,3,2)] .

end
