(* ===== verification/Aggregation.thy ===== *)
theory Aggregation
  imports Zkp
begin

text \<open>
  lib/aggregation: an aggregation proof publishes the summands with the sum, and is verified by
  adding them again.
\<close>

record 'p PublishedAggregationProof =
  ag_Data :: "'p CipherVector"
  AggregationResult :: "'p CipherText"

record PublishedAggregationProofBytes =
  agb_Data :: "byte list"
  agb_DataLen :: int64
  agb_AggregationResult :: "byte list"

definition AggregationProofCreation :: "'p CipherVector \<Rightarrow> 'p CipherText \<Rightarrow> 'p PublishedAggregationProof" where
  "AggregationProofCreation data aggregationResult = \<lparr>ag_Data = data, AggregationResult = aggregationResult\<rparr>"

definition AggregationListProofCreation :: "'p CipherVector list \<Rightarrow> 'p CipherText list \<Rightarrow> 'p PublishedAggregationProof list res" where
  "AggregationListProofCreation data aggregationResults =
     par_list VPARALLELIZE (length data) (\<lambda>i.
       andThen (index_at aggregationResults i) (\<lambda>r. Inr (AggregationProofCreation (data ! i) r)))"

definition AggregationProofVerification :: "('s, 'p) suite \<Rightarrow> 'p PublishedAggregationProof \<Rightarrow> bool res" where
  "AggregationProofVerification S pap =
     andThen (Acum S (ag_Data pap)) (\<lambda>expected. Inr (ct_Equal S expected (AggregationResult pap)))"

definition AggregationListProofVerification :: "('s, 'p) suite \<Rightarrow> 'p PublishedAggregationProof list \<Rightarrow> percentage \<Rightarrow> bool res" where
  "AggregationListProofVerification S palp percent = verify_list percent (AggregationProofVerification S) palp"

text \<open>Bytes; the length of the data travels as an int64.\<close>

definition ag_ToBytes :: "('s, 'p) suite \<Rightarrow> 'p PublishedAggregationProof \<Rightarrow> PublishedAggregationProofBytes res" where
  "ag_ToBytes S pap =
     andThen (cv_ToBytes S (ag_Data pap)) (\<lambda>(data, dataLen).
     andThen (ct_ToBytes S (AggregationResult pap)) (\<lambda>r.
     Inr \<lparr>agb_Data = data, agb_DataLen = of_nat dataLen, agb_AggregationResult = r\<rparr>))"

definition ag_FromBytes :: "('s, 'p) suite \<Rightarrow> PublishedAggregationProofBytes \<Rightarrow> 'p PublishedAggregationProof res" where
  "ag_FromBytes S papb =
     andThen (ct_FromBytes S (agb_AggregationResult papb)) (\<lambda>r.
     andThen (if sint (agb_DataLen papb) < 0 then Inl Panic
              else cv_FromBytes S (agb_Data papb) (nat (sint (agb_DataLen papb)))) (\<lambda>data.
     Inr \<lparr>ag_Data = data, AggregationResult = r\<rparr>))"

definition agl_ToBytes :: "('s, 'p) suite \<Rightarrow> 'p PublishedAggregationProof list \<Rightarrow> PublishedAggregationProofBytes list res" where
  "agl_ToBytes S palp = par_list 1 (length palp) (\<lambda>i. ag_ToBytes S (palp ! i))"

definition agl_FromBytes :: "('s, 'p) suite \<Rightarrow> PublishedAggregationProofBytes list \<Rightarrow> 'p PublishedAggregationProof list res" where
  "agl_FromBytes S palpb = par_list 1 (length palpb) (\<lambda>i. ag_FromBytes S (palpb ! i))"

context kyber_suite
begin

lemma Acum_csum: "cs \<noteq> [] \<Longrightarrow> Acum S cs = Inr (csum S cs)"
  by (cases cs) (simp_all add: Acum_Cons fold_ct_Add)

lemma Acum_Nil: "Acum S [] = Inl Panic"
  by (simp add: Acum_def index_at_def)

lemma AggregationProofVerification_iff:
  assumes "ag_Data pap \<noteq> []"
  shows "AggregationProofVerification S pap = Inr (csum S (ag_Data pap) = AggregationResult pap)"
  using assms by (simp add: AggregationProofVerification_def Acum_csum)

lemma ag_FromBytes_ToBytes:
  assumes "length (ag_Data pap) < 2 ^ 62"
  shows "andThen (ag_ToBytes S pap) (ag_FromBytes S) = Inr pap"
proof (rule cv_bytes_ex [of "ag_Data pap"])
  fix b
  assume b: "cv_ToBytes S (ag_Data pap) = Inr (b, length (ag_Data pap))" "cv_FromBytes S b (length (ag_Data pap)) = Inr (ag_Data pap)"
  have "sint (of_nat (length (ag_Data pap)) :: int64) = int (length (ag_Data pap))"
    using small_sint [of "int (length (ag_Data pap))"] assms by simp
  moreover obtain r where "ct_ToBytes S (AggregationResult pap) = Inr r" "ct_FromBytes S r = Inr (AggregationResult pap)"
    using ct_bytes.enc_decode by blast
  ultimately show ?thesis using b by (simp add: ag_ToBytes_def ag_FromBytes_def)
qed

end

lemma aggregation_list_exact:
  assumes "kyber_suite S" and "length results = length data" and "\<forall>cv\<in>set data. cv \<noteq> []"
  shows "andThen (AggregationListProofCreation data results) (\<lambda>pl. AggregationListProofVerification S pl full) =
      Inr (results = map (csum S) data)"
proof -
  let ?pl = "map (\<lambda>i. AggregationProofCreation (data ! i) (results ! i)) [0..<length data]"
  have "AggregationListProofCreation data results = Inr ?pl"
    unfolding AggregationListProofCreation_def by (rule par_list_Inr) (simp_all add: assms(2))
  moreover have "AggregationListProofVerification S ?pl full =
      Inr (list_all (\<lambda>pap. csum S (ag_Data pap) = AggregationResult pap) ?pl)"
    unfolding AggregationListProofVerification_def
    using assms by (intro verify_list_full kyber_suite.AggregationProofVerification_iff)
      (auto simp: AggregationProofCreation_def)
  moreover have "list_all (\<lambda>pap. csum S (ag_Data pap) = AggregationResult pap) ?pl \<longleftrightarrow>
      (\<forall>i<length data. csum S (data ! i) = results ! i)"
    by (auto simp: list_all_length AggregationProofCreation_def)
  moreover have "(\<forall>i<length data. csum S (data ! i) = results ! i) \<longleftrightarrow> results = map (csum S) data"
    using assms(2) by (auto simp: list_eq_iff_nth_eq)
  ultimately show ?thesis by (simp only: andThen_Inr)
qed

section \<open>Properties\<close>

text \<open>
  The aggregation proofs of a table of columns verify exactly when every published result is
  the sum of its column; a proof over no data makes the verification panic.
\<close>

theorem aggregation_proofs_exact:
  assumes "kyber_suite S" and "length results = length data" and "\<forall>cv\<in>set data. cv \<noteq> []"
  shows "andThen (AggregationListProofCreation data results) (\<lambda>pl. AggregationListProofVerification S pl full) =
      Inr (results = map (csum S) data) \<and>
    AggregationProofVerification S (AggregationProofCreation [] r) = Inl Panic"
  using aggregation_list_exact [OF assms]
  by (simp add: AggregationProofVerification_def AggregationProofCreation_def kyber_suite.Acum_Nil [OF assms(1)])

theorem aggregation_proofs_exact_witness:
  "andThen (AggregationListProofCreation [[\<lparr>ctK = 1, ctC = 2\<rparr>, \<lparr>ctK = 3, ctC = 4\<rparr>]] [\<lparr>ctK = 4, ctC = 6\<rparr>])
     (\<lambda>pl. AggregationListProofVerification ed25519 pl full) = Inr True"
  using aggregation_proofs_exact [OF ed.kyber_suite_axioms, of "[\<lparr>ctK = 4, ctC = 6\<rparr>]" "[[\<lparr>ctK = 1, ctC = 2\<rparr>, \<lparr>ctK = 3, ctC = 4\<rparr>]]"]
  by (simp add: ct_Add_def NewCipherText_def ed_simps)

text \<open>Aggregation proofs survive their byte format.\<close>

theorem aggregation_proof_bytes:
  assumes "kyber_suite S" and "\<forall>pap\<in>set palp. length (ag_Data pap) < 2 ^ 62"
  shows "andThen (agl_ToBytes S palp) (agl_FromBytes S) = Inr palp"
proof -
  have "\<forall>pap. \<exists>b. pap \<in> set palp \<longrightarrow> ag_ToBytes S pap = Inr b \<and> ag_FromBytes S b = Inr pap"
    using kyber_suite.ag_FromBytes_ToBytes [OF assms(1)] assms(2) by (auto simp: andThen_eq_Inr)
  then obtain g where g: "\<And>pap. pap \<in> set palp \<Longrightarrow> ag_ToBytes S pap = Inr (g pap) \<and> ag_FromBytes S (g pap) = Inr pap"
    by metis
  have 1: "agl_ToBytes S palp = Inr (map (\<lambda>i. g (palp ! i)) [0..<length palp])"
    unfolding agl_ToBytes_def by (rule par_list_Inr) (simp_all add: g)
  have "agl_FromBytes S (map (\<lambda>i. g (palp ! i)) [0..<length palp]) = Inr (map ((!) palp) [0..<length palp])"
    unfolding agl_FromBytes_def by (subst par_list_Inr [where g = "(!) palp"]) (simp_all add: g)
  with 1 show ?thesis by (simp add: map_nth)
qed

end
