(* ===== verification/AddRm.thy ===== *)
theory AddRm
  imports Zkp
begin

text \<open>
  lib/add_rm and protocols/utils/addrm_server_protocol.go: re-encrypting a ciphervector when a
  server joins or leaves, with the zero-knowledge proofs of the change.
\<close>

section \<open>The change of a ciphervector\<close>

text \<open>K stays, and the share k K of the server's key is added to or subtracted from C.\<close>

definition changeEncryptionKeyCipherTexts :: "('s, 'p) suite \<Rightarrow> 'p CipherText \<Rightarrow> 's \<Rightarrow> bool \<Rightarrow> 'p CipherText" where
  "changeEncryptionKeyCipherTexts S cipherText serverAddRmKey toAdd =
     \<lparr>ctK = ctK cipherText,
      ctC = (if toAdd then Point_Add S (ctC cipherText) (Point_Mul S serverAddRmKey (ctK cipherText))
             else Point_Sub S (ctC cipherText) (Point_Mul S serverAddRmKey (ctK cipherText)))\<rparr>"

definition changeEncryption :: "('s, 'p) suite \<Rightarrow> 'p CipherVector \<Rightarrow> 's \<Rightarrow> bool \<Rightarrow> 'p CipherVector" where
  "changeEncryption S cipherTexts serverAddRmKey toAdd =
     par_map VPARALLELIZE (length cipherTexts)
       (\<lambda>i. changeEncryptionKeyCipherTexts S (cipherTexts ! i) serverAddRmKey toAdd)
       (replicate (length cipherTexts) (NewCipherText S))"

section \<open>Proofs\<close>

record 'p PublishedAddRmProof =
  ar_Proof :: "byte list"
  CtBef :: "'p CipherText"
  CtAft :: "'p CipherText"
  ar_RB :: 'p

record 'p PublishedAddRmListProof =
  ar_List :: "'p PublishedAddRmProof list"
  Krm :: 'p
  ToAdd :: bool

definition createPredicateAddRm :: Predicate where
  "createPredicateAddRm =
     (let log1 = Rep ''Krm'' [(''k'', ''B'')]; rep = Rep ''c2'' [(''k'', ''rB'')] in And [And [log1, rep]])"

definition AddRmProofCreation :: "('s, 'p) suite \<Rightarrow> ('s, 'p) proofs \<Rightarrow> 'p CipherText \<Rightarrow> 'p CipherText \<Rightarrow> 'p \<Rightarrow> 's \<Rightarrow> bool
    \<Rightarrow> 'p PublishedAddRmProof res" where
  "AddRmProofCreation S Z cBef cAft K k toAdd =
     (let c2 = (if toAdd then Point_Sub S (ctC cAft) (ctC cBef) else Point_Sub S (ctC cBef) (ctC cAft));
          rB = ctK cBef;
          sval = [''k'' \<mapsto> k];
          pval = [''B'' \<mapsto> Point_Base S, ''Krm'' \<mapsto> K, ''c2'' \<mapsto> c2, ''rB'' \<mapsto> rB]
      in case HashProve Z ''proofTest'' createPredicateAddRm sval pval of
           Inl (Err e) \<Rightarrow> Inl (Err (''---------prover: '' @ e))
         | Inl Panic \<Rightarrow> Inl Panic
         | Inr proofTmp \<Rightarrow> Inr \<lparr>ar_Proof = proofTmp, CtBef = cBef, CtAft = cAft, ar_RB = rB\<rparr>)"

definition AddRmListProofCreation :: "('s, 'p) suite \<Rightarrow> ('s, 'p) proofs \<Rightarrow> 'p CipherVector \<Rightarrow> 'p CipherVector \<Rightarrow> 'p \<Rightarrow> 's \<Rightarrow> bool
    \<Rightarrow> 'p PublishedAddRmListProof res" where
  "AddRmListProofCreation S Z vBef vAft K k toAdd =
     andThen (par_list VPARALLELIZE (length vBef) (\<lambda>i.
        andThen (index_at vAft i) (\<lambda>cAft. AddRmProofCreation S Z (vBef ! i) cAft K k toAdd))) (\<lambda>List.
     Inr \<lparr>ar_List = List, Krm = K, ToAdd = toAdd\<rparr>)"

definition AddRmProofVerification :: "('s, 'p) suite \<Rightarrow> ('s, 'p) proofs \<Rightarrow> 'p PublishedAddRmProof \<Rightarrow> 'p \<Rightarrow> bool \<Rightarrow> bool res" where
  "AddRmProofVerification S Z cp K toAdd =
     (let c2 = (if toAdd then Point_Sub S (ctC (CtAft cp)) (ctC (CtBef cp))
                else Point_Sub S (ctC (CtBef cp)) (ctC (CtAft cp)));
          pval = [''B'' \<mapsto> Point_Base S, ''Krm'' \<mapsto> K, ''c2'' \<mapsto> c2, ''rB'' \<mapsto> ctK (CtBef cp)]
      in case HashVerify Z ''proofTest'' createPredicateAddRm pval (ar_Proof cp) of
           Inl (Err e) \<Rightarrow> Inr False
         | Inl Panic \<Rightarrow> Inl Panic
         | Inr _ \<Rightarrow> Inr True)"

text \<open>Here the loop runs over the whole list, while results has only as many entries as asked for.\<close>

definition AddRmListProofVerification :: "('s, 'p) suite \<Rightarrow> ('s, 'p) proofs \<Rightarrow> 'p PublishedAddRmListProof \<Rightarrow> percentage \<Rightarrow> bool res" where
  "AddRmListProofVerification S Z parp percent =
     (let nbrProofsToVerify = \<lceil>percent (length (ar_List parp))\<rceil>
      in verify_upto (length (ar_List parp)) nbrProofsToVerify
           (\<lambda>cp. AddRmProofVerification S Z cp (Krm parp) (ToAdd parp)) (ar_List parp))"

section \<open>The protocol\<close>

text \<open>
  Start runs at the root and passes the result to Dispatch through a channel; Dispatch hands it
  on to the feedback channel. The result of the verification is not looked at.
\<close>

record ('s, 'p) AddRmServerProtocol =
  TargetOfTransformation :: "'p CipherVector"
  KeyToRm :: 's
  ar_Proofs :: bool
  Add :: bool

definition AddRm_Start :: "('s, 'p) suite \<Rightarrow> ('s, 'p) proofs \<Rightarrow> ('s, 'p) AddRmServerProtocol \<Rightarrow> 'p CipherVector res" where
  "AddRm_Start S Z p =
     (let result = changeEncryption S (TargetOfTransformation p) (KeyToRm p) (Add p) in
      andThen (if ar_Proofs p
               then (let ktopub = Point_Mul S (KeyToRm p) (Point_Base S)
                     in AddRmListProofCreation S Z (TargetOfTransformation p) result ktopub (KeyToRm p) (Add p))
               else Inr \<lparr>ar_List = [], Krm = Point_Null S, ToAdd = False\<rparr>) (\<lambda>proofs.
      if ar_Proofs p \<and> length (ar_List proofs) = 0
      then Inl (Err ''something went wrong during the creation of the add/rm proofs'')
      else andThen (AddRmListProofVerification S Z proofs full) (\<lambda>_. Inr result)))"

lemma changeEncryption_eq [simp]:
  "changeEncryption S cv k toAdd = map (\<lambda>ct. changeEncryptionKeyCipherTexts S ct k toAdd) cv"
  by (rule nth_equalityI) (simp_all add: changeEncryption_def)

context kyber_suite
begin

lemma decrypt_added:
  "decryptPoint S (Scalar_Add S x k) (changeEncryptionKeyCipherTexts S ct k True) = decryptPoint S x ct"
  by (simp add: changeEncryptionKeyCipherTexts_def decryptPoint_def Let_def mul_linear algebra_simps)

lemma decrypt_removed:
  "decryptPoint S (Scalar_Sub S x k) (changeEncryptionKeyCipherTexts S ct k False) = decryptPoint S x ct"
  by (simp add: changeEncryptionKeyCipherTexts_def decryptPoint_def Let_def mul_scalar_sub) (simp add: algebra_simps)

lemma add_rm_predicate:
  "holds S sval pval createPredicateAddRm \<longleftrightarrow>
     (\<exists>k. sval ''k'' = Some k \<and> pv S pval ''Krm'' = Point_Mul S k (pv S pval ''B'') \<and>
        pv S pval ''c2'' = Point_Mul S k (pv S pval ''rB''))"
  by (auto simp: createPredicateAddRm_def represents_def)

end

context proof_system
begin

lemma AddRmProofVerification_total: "\<exists>v. AddRmProofVerification S Z cp K toAdd = Inr v"
proof -
  have "HashVerify Z ''proofTest'' createPredicateAddRm pval b \<noteq> Inl Panic" for pval b
    by (rule verify_no_panic)
  then show ?thesis
    by (auto simp: AddRmProofVerification_def Let_def split: sum.splits go_error.splits)
qed

lemma honest_add_rm_proof:
  "\<exists>p. AddRmProofCreation S Z ct (changeEncryptionKeyCipherTexts S ct k toAdd) (Point_Mul S k (Point_Base S)) k toAdd = Inr p \<and>
    AddRmProofVerification S Z p (Point_Mul S k (Point_Base S)) toAdd = Inr True"
proof -
  let ?aft = "changeEncryptionKeyCipherTexts S ct k toAdd"
  let ?c2 = "if toAdd then Point_Sub S (ctC ?aft) (ctC ct) else Point_Sub S (ctC ct) (ctC ?aft)"
  let ?pval = "[''B'' \<mapsto> Point_Base S, ''Krm'' \<mapsto> Point_Mul S k (Point_Base S), ''c2'' \<mapsto> ?c2, ''rB'' \<mapsto> ctK ct]"
  have "?c2 = Point_Mul S k (ctK ct)"
    by (simp add: changeEncryptionKeyCipherTexts_def) (simp add: algebra_simps)
  then have "holds S [''k'' \<mapsto> k] ?pval createPredicateAddRm"
    unfolding add_rm_predicate by (simp add: pv_def)
  then obtain b where "HashProve Z ''proofTest'' createPredicateAddRm [''k'' \<mapsto> k] ?pval = Inr b"
    "HashVerify Z ''proofTest'' createPredicateAddRm ?pval b = Inr ()"
    using proofs_complete [of "[''k'' \<mapsto> k]" ?pval createPredicateAddRm ?pval] by blast
  then show ?thesis
    by (cases toAdd) (simp_all add: AddRmProofCreation_def AddRmProofVerification_def Let_def)
qed

lemma add_rm_sound:
  assumes "AddRmProofVerification S Z cp K toAdd = Inr True"
  shows "\<exists>k. K = Point_Mul S k (Point_Base S) \<and>
    ctC (CtAft cp) = ctC (changeEncryptionKeyCipherTexts S (CtBef cp) k toAdd)"
proof -
  let ?c2 = "if toAdd then Point_Sub S (ctC (CtAft cp)) (ctC (CtBef cp)) else Point_Sub S (ctC (CtBef cp)) (ctC (CtAft cp))"
  let ?pval = "[''B'' \<mapsto> Point_Base S, ''Krm'' \<mapsto> K, ''c2'' \<mapsto> ?c2, ''rB'' \<mapsto> ctK (CtBef cp)]"
  from assms have "HashVerify Z ''proofTest'' createPredicateAddRm ?pval (ar_Proof cp) = Inr ()"
    by (auto simp: AddRmProofVerification_def Let_def split: sum.splits go_error.splits if_splits)
  then obtain sval where "holds S sval ?pval createPredicateAddRm" using proofs_sound by blast
  then obtain k where "K = Point_Mul S k (Point_Base S)" "?c2 = Point_Mul S k (ctK (CtBef cp))"
    unfolding add_rm_predicate by (auto simp: pv_def)
  then show ?thesis
    by (intro exI [of _ k]) (auto simp: changeEncryptionKeyCipherTexts_def algebra_simps split: if_splits)
qed

lemma honest_add_rm:
  assumes "TargetOfTransformation p \<noteq> []"
  shows "AddRm_Start S Z p = Inr (changeEncryption S (TargetOfTransformation p) (KeyToRm p) (Add p))"
proof -
  let ?cv = "TargetOfTransformation p" and ?k = "KeyToRm p" and ?K = "Point_Mul S (KeyToRm p) (Point_Base S)"
  obtain pf where pf: "\<And>ct. AddRmProofCreation S Z ct (changeEncryptionKeyCipherTexts S ct ?k (Add p)) ?K ?k (Add p) = Inr (pf ct)"
    "\<And>ct. AddRmProofVerification S Z (pf ct) ?K (Add p) = Inr True"
    using honest_add_rm_proof [of _ ?k "Add p"] by metis
  let ?pl = "\<lparr>ar_List = map (\<lambda>i. pf (?cv ! i)) [0..<length ?cv], Krm = ?K, ToAdd = Add p\<rparr>"
  have c: "AddRmListProofCreation S Z ?cv (changeEncryption S ?cv ?k (Add p)) ?K ?k (Add p) = Inr ?pl"
  proof -
    have "par_list VPARALLELIZE (length ?cv) (\<lambda>i. andThen (index_at (changeEncryption S ?cv ?k (Add p)) i) (\<lambda>cAft.
        AddRmProofCreation S Z (?cv ! i) cAft ?K ?k (Add p))) = Inr (map (\<lambda>i. pf (?cv ! i)) [0..<length ?cv])"
      by (rule par_list_Inr) (simp_all add: pf(1))
    then show ?thesis by (simp add: AddRmListProofCreation_def)
  qed
  have v: "\<exists>b. AddRmListProofVerification S Z pl full = Inr b" for pl
  proof -
    have "\<forall>cp. \<exists>b. AddRmProofVerification S Z cp (Krm pl) (ToAdd pl) = Inr b"
      using AddRmProofVerification_total by blast
    then obtain g where "\<And>cp. AddRmProofVerification S Z cp (Krm pl) (ToAdd pl) = Inr (g cp)" by metis
    then show ?thesis
      using verify_upto_all [of "length (ar_List pl)" "full (length (ar_List pl))" "ar_List pl" _ g]
      by (simp add: AddRmListProofVerification_def Let_def full_def)
  qed
  show ?thesis
  proof (cases "ar_Proofs p")
    case True
    obtain b where "AddRmListProofVerification S Z ?pl full = Inr b" using v by blast
    then show ?thesis using True assms c by (simp add: AddRm_Start_def Let_def del: changeEncryption_eq)
  next
    case False
    obtain b where "AddRmListProofVerification S Z \<lparr>ar_List = [], Krm = Point_Null S, ToAdd = False\<rparr> full = Inr b"
      using v by blast
    then show ?thesis using False by (simp add: AddRm_Start_def Let_def del: changeEncryption_eq)
  qed
qed

end

lemma AddRm_partial_panics:
  assumes "0 \<le> \<lceil>percent (length (ar_List parp))\<rceil>" and "\<lceil>percent (length (ar_List parp))\<rceil> < int (length (ar_List parp))"
    and "\<And>cp. \<exists>b. AddRmProofVerification S Z cp (Krm parp) (ToAdd parp) = Inr b"
  shows "AddRmListProofVerification S Z parp percent = Inl Panic"
proof -
  let ?n = "nat \<lceil>percent (length (ar_List parp))\<rceil>"
  let ?f = "\<lambda>i. andThen (index_at (ar_List parp) i) (\<lambda>cp. AddRmProofVerification S Z cp (Krm parp) (ToAdd parp))"
  have "\<exists>b. ?f i = Inr b" if "i < length (ar_List parp)" for i using that assms(3) by simp
  then obtain g where g: "\<And>i. i < length (ar_List parp) \<Longrightarrow> ?f i = Inr (g i)" by metis
  have "par_fill VPARALLELIZE (length (ar_List parp)) ?f (replicate ?n False) = Inl Panic"
  proof (rule par_fill_overflow)
    show "length (replicate ?n False) < length (ar_List parp)"
      using assms(1,2) by (metis length_replicate nat_less_iff)
  qed (simp, rule g)
  then show ?thesis using assms(1) by (simp add: AddRmListProofVerification_def verify_upto_def Let_def)
qed

section \<open>Properties\<close>

text \<open>
  C19. Adding a server and removing it keep the plaintexts: with or without proofs, Start on a
  non-empty vector returns a vector of the same length that decrypts, under the collective secret
  plus (or minus) the server's key, to the plaintexts of the input under the old secret.
\<close>

theorem add_rm_keeps_plaintexts:
  assumes "proof_system S Z" and "TargetOfTransformation p \<noteq> []"
  shows "\<exists>result. AddRm_Start S Z p = Inr result \<and> length result = length (TargetOfTransformation p) \<and>
    map (decryptPoint S (if Add p then Scalar_Add S x (KeyToRm p) else Scalar_Sub S x (KeyToRm p))) result =
      map (decryptPoint S x) (TargetOfTransformation p)"
proof -
  have ks: "kyber_suite S" using assms(1) by (rule proof_system.axioms(1))
  show ?thesis
    by (cases "Add p")
      (simp_all add: proof_system.honest_add_rm [OF assms] kyber_suite.decrypt_added [OF ks] kyber_suite.decrypt_removed [OF ks] comp_def)
qed

theorem add_rm_keeps_plaintexts_witness:
  "\<exists>result. AddRm_Start ed25519 (transparent ed25519)
      \<lparr>TargetOfTransformation = [\<lparr>ctK = 2, ctC = 10\<rparr>], KeyToRm = 3, ar_Proofs = True, Add = False\<rparr> = Inr result \<and> length result = 1"
  using add_rm_keeps_plaintexts [OF ed_proofs.proof_system_axioms,
      of "\<lparr>TargetOfTransformation = [\<lparr>ctK = 2, ctC = 10\<rparr>], KeyToRm = 3, ar_Proofs = True, Add = False\<rparr>" 0] by auto

text \<open>
  An accepted proof shows that the C part changed by the share of the published key, in the
  stated direction. It says nothing of the K part: the verification has the same result for every
  value of K after the change.
\<close>

theorem add_rm_proof_sound:
  assumes "proof_system S Z" and "AddRmProofVerification S Z cp K toAdd = Inr True"
  shows "(\<exists>k. K = Point_Mul S k (Point_Base S) \<and> ctC (CtAft cp) = ctC (changeEncryptionKeyCipherTexts S (CtBef cp) k toAdd)) \<and>
    AddRmProofVerification S Z (cp\<lparr>CtAft := \<lparr>ctK = anyK, ctC = ctC (CtAft cp)\<rparr>\<rparr>) K toAdd = Inr True"
  using proof_system.add_rm_sound [OF assms] assms(2) by (simp add: AddRmProofVerification_def Let_def cong: if_cong)

theorem add_rm_proof_sound_witness:
  "\<exists>cp. AddRmProofCreation ed25519 (transparent ed25519) \<lparr>ctK = 2, ctC = 10\<rparr>
      (changeEncryptionKeyCipherTexts ed25519 \<lparr>ctK = 2, ctC = 10\<rparr> 3 True) (Point_Mul ed25519 3 (Point_Base ed25519)) 3 True = Inr cp \<and>
    AddRmProofVerification ed25519 (transparent ed25519) (cp\<lparr>CtAft := \<lparr>ctK = 77, ctC = ctC (CtAft cp)\<rparr>\<rparr>)
      (Point_Mul ed25519 3 (Point_Base ed25519)) True = Inr True"
  using ed_proofs.honest_add_rm_proof [of "\<lparr>ctK = 2, ctC = 10\<rparr>" 3 True]
    add_rm_proof_sound [OF ed_proofs.proof_system_axioms] by blast

text \<open>
  Verifying only a part of a list panics: when fewer proofs are asked for than the list
  holds, the loop still visits all of them and writes beyond the slice of results.
\<close>

theorem add_rm_partial_verification_panics:
  assumes "proof_system S Z" and "0 \<le> percent (length (ar_List parp))"
    and "\<lceil>percent (length (ar_List parp))\<rceil> < int (length (ar_List parp))"
  shows "AddRmListProofVerification S Z parp percent = Inl Panic"
proof (rule AddRm_partial_panics)
  show "0 \<le> \<lceil>percent (length (ar_List parp))\<rceil>" using assms(2) by (simp add: less_le_trans [of "-1" 0])
  show "\<lceil>percent (length (ar_List parp))\<rceil> < int (length (ar_List parp))" by (rule assms(3))
  show "\<exists>b. AddRmProofVerification S Z cp (Krm parp) (ToAdd parp) = Inr b" for cp
    using assms(1) by (rule proof_system.AddRmProofVerification_total)
qed

theorem add_rm_partial_verification_panics_witness:
  "AddRmListProofVerification ed25519 (transparent ed25519)
     \<lparr>ar_List = [\<lparr>ar_Proof = [], CtBef = \<lparr>ctK = 0, ctC = 0\<rparr>, CtAft = \<lparr>ctK = 0, ctC = 0\<rparr>, ar_RB = 0\<rparr>,
                \<lparr>ar_Proof = [], CtBef = \<lparr>ctK = 0, ctC = 0\<rparr>, CtAft = \<lparr>ctK = 0, ctC = 0\<rparr>, ar_RB = 0\<rparr>],
      Krm = 1, ToAdd = True\<rparr> (\<lambda>n. of_nat n / 2) = Inl Panic"
  by (rule add_rm_partial_verification_panics [OF ed_proofs.proof_system_axioms]) simp_all

end
