(* ===== verification/Shuffle.thy ===== *)
theory Shuffle
  imports Zkp
begin

text \<open>
  lib/shuffle: the verifiable shuffle of a list of ciphervectors. Rows are permuted and every
  ciphertext is re-randomised, with fresh or precomputed blinding; the proof compresses every
  row to one ciphertext with public coefficients and runs kyber's pair shuffle on the result.
  The pair shuffle is a parameter, with its documented behaviour as a locale.
\<close>

section \<open>Precomputed blinding\<close>

record ('s, 'p) CipherVectorScalar =
  CipherV :: "'p CipherVector"
  cvs_S :: "'s list"

record CipherVectorScalarBytes =
  cvsb_CipherV :: "byte list list list"
  cvsb_S :: "byte list list"

definition EncodeCipherVectorScalar :: "('s, 'p) suite \<Rightarrow> ('s, 'p) CipherVectorScalar list \<Rightarrow> CipherVectorScalarBytes list res" where
  "EncodeCipherVectorScalar S cV =
     traverse (\<lambda>v.
       andThen (traverse (Scalar_MarshalBinary S) (cvs_S v)) (\<lambda>ss.
       andThen (traverse (\<lambda>el. andThen (Point_MarshalBinary S (ctC el)) (\<lambda>c.
                            andThen (Point_MarshalBinary S (ctK el)) (\<lambda>k. Inr [k, c]))) (CipherV v)) (\<lambda>cs.
       Inr \<lparr>cvsb_CipherV = cs, cvsb_S = ss\<rparr>))) cV"

definition DecodeCipherVectorScalar :: "('s, 'p) suite \<Rightarrow> CipherVectorScalarBytes list \<Rightarrow> ('s, 'p) CipherVectorScalar list res" where
  "DecodeCipherVectorScalar S eCV =
     traverse (\<lambda>v.
       andThen (traverse (Scalar_UnmarshalBinary S) (cvsb_S v)) (\<lambda>ss.
       andThen (traverse (\<lambda>el. andThen (andThen (index_at el 0) (Point_UnmarshalBinary S)) (\<lambda>k.
                            andThen (andThen (index_at el 1) (Point_UnmarshalBinary S)) (\<lambda>c.
                            Inr \<lparr>ctK = k, ctC = c\<rparr>))) (cvsb_CipherV v)) (\<lambda>cs.
       Inr \<lparr>CipherV = cs, cvs_S = ss\<rparr>))) eCV"

text \<open>picks i w is the scalar that line i draws for its position w, in whatever order the lines run.\<close>

definition CreatePrecomputedRandomize :: "('s, 'p) suite \<Rightarrow> 'p \<Rightarrow> 'p \<Rightarrow> (nat \<Rightarrow> nat \<Rightarrow> 's) \<Rightarrow> nat \<Rightarrow> nat
    \<Rightarrow> ('s, 'p) CipherVectorScalar list" where
  "CreatePrecomputedRandomize S g h picks lineSize nbrLines =
     map (\<lambda>i. \<lparr>CipherV = map (\<lambda>w. \<lparr>ctK = Point_Mul S (picks i w) g, ctC = Point_Mul S (picks i w) h\<rparr>) [0..<lineSize],
               cvs_S = map (picks i) [0..<lineSize]\<rparr>) [0..<nbrLines]"

section \<open>Shuffling\<close>

text \<open>The blinding ciphertext cipher is None when its C is nil, that is, when nothing is precomputed.\<close>

definition rerandomize :: "('s, 'p) suite \<Rightarrow> 'p CipherVector \<Rightarrow> 's \<Rightarrow> 's \<Rightarrow> 'p CipherText option \<Rightarrow> 'p \<Rightarrow> 'p \<Rightarrow> nat \<Rightarrow> 'p CipherText res" where
  "rerandomize S cv a b cipher g h j =
     (let (point1, point2) =
        (case cipher of
           None \<Rightarrow> (Point_Mul S a g, Point_Mul S b h)
         | Some c \<Rightarrow> (ctK c, ctC c))
      in andThen (index_at cv j) (\<lambda>c. Inr \<lparr>ctK = Point_Add S (ctK c) point1, ctC = Point_Add S (ctC c) point2\<rparr>))"

definition shuffle_row :: "('s, 'p) suite \<Rightarrow> nat list \<Rightarrow> nat \<Rightarrow> 'p CipherVector list \<Rightarrow> nat \<Rightarrow> 's list list
    \<Rightarrow> 'p CipherVector list \<Rightarrow> 'p \<Rightarrow> 'p \<Rightarrow> 'p CipherVector res" where
  "shuffle_row S perm i inputList NQ beta precomputedPoints g h =
     andThen (index_at perm i) (\<lambda>index.
     andThen (index_at precomputedPoints 0) (\<lambda>points0.
     andThen (index_at inputList index) (\<lambda>input.
     par_list 1 NQ (\<lambda>j.
       if points0 = []
       then andThen (index_at beta index) (\<lambda>row. andThen (index_at row j) (\<lambda>b. rerandomize S input b b None g h j))
       else andThen (index_at precomputedPoints index) (\<lambda>row. andThen (index_at row j) (\<lambda>ct.
              rerandomize S input (Scalar_Zero S) (Scalar_Zero S) (Some ct) g h j))))))"

text \<open>
  The random choices: blind i j is the fresh scalar of row i and column j, pickline i the random
  integer that selects a precomputed line for row i, draw those of the permutation.
\<close>

definition choose_blinding :: "(nat \<Rightarrow> nat \<Rightarrow> 's) \<Rightarrow> (nat \<Rightarrow> nat) \<Rightarrow> nat \<Rightarrow> ('s, 'p) CipherVectorScalar list option \<Rightarrow> nat
    \<Rightarrow> ('s list \<times> 'p CipherVector) res" where
  "choose_blinding blind pickline NQ precomputed i =
     (case precomputed of
        None \<Rightarrow> Inr (RandomScalarSlice (blind i) NQ, [])
      | Some lines \<Rightarrow>
          (if lines = [] then Inl Panic
           else let line = lines ! (pickline i mod length lines) in
             andThen (slice (cvs_S line) 0 NQ) (\<lambda>s. andThen (slice (CipherV line) 0 NQ) (\<lambda>c. Inr (s, c)))))"

definition ShuffleSequence :: "('s, 'p) suite \<Rightarrow> (nat \<Rightarrow> nat \<Rightarrow> 's) \<Rightarrow> (nat \<Rightarrow> nat) \<Rightarrow> (nat \<Rightarrow> nat) \<Rightarrow> 'p CipherVector list \<Rightarrow> 'p \<Rightarrow> 'p
    \<Rightarrow> ('s, 'p) CipherVectorScalar list option \<Rightarrow> ('p CipherVector list \<times> nat list \<times> 's list list) res" where
  "ShuffleSequence S blind pickline draw inputList g h precomputed =
     andThen (index_at inputList 0) (\<lambda>first.
     let NQ = length first; k = length inputList in
     andThen (traverse (choose_blinding blind pickline NQ precomputed) [0..<k]) (\<lambda>blinding.
     let beta = map fst blinding; precomputedPoints = map snd blinding; perm = RandomPermutation draw k in
     andThen (par_list 1 k (\<lambda>i. shuffle_row S perm i inputList NQ beta precomputedPoints g h)) (\<lambda>outputList.
     Inr (outputList, perm, beta))))"

section \<open>Compression\<close>

definition computeE :: "('s, 'p) suite \<Rightarrow> nat \<Rightarrow> 'p CipherVector \<Rightarrow> byte list \<Rightarrow> 's res" where
  "computeE S index cv seed =
     andThen (index_at cv index) (\<lambda>c.
     andThen (Point_MarshalBinary S (ctC c)) (\<lambda>dataC.
     andThen (Point_MarshalBinary S (ctK c)) (\<lambda>dataK. Inr (XOF_Pick S seed [dataC, dataK]))))"

definition CipherVectorComputeE :: "('s, 'p) suite \<Rightarrow> 'p \<Rightarrow> 'p CipherVector \<Rightarrow> 's list res" where
  "CipherVectorComputeE S h cv =
     andThen (Point_MarshalBinary S h) (\<lambda>seed. par_list VPARALLELIZE (length cv) (\<lambda>i. computeE S i cv seed))"

definition compressCipherVector :: "('s, 'p) suite \<Rightarrow> 'p CipherVector \<Rightarrow> 's list \<Rightarrow> 'p CipherText res" where
  "compressCipherVector S ciphervector e =
     (let k = length ciphervector in
      if length e \<noteq> k then Inl (Err ''e is not the right size'')
      else Inr (fold (\<lambda>i ciphertext. ct_Add S ciphertext (MulCipherTextbyScalar S (ciphervector ! i) (e ! i)))
             [0..<k] (NewCipherText S)))"

definition compressListCipherVector :: "('s, 'p) suite \<Rightarrow> 'p CipherVector list \<Rightarrow> 's list \<Rightarrow> ('p list \<times> 'p list) res" where
  "compressListCipherVector S processResponses e =
     andThen (par_list 1 (length processResponses) (\<lambda>i. compressCipherVector S (processResponses ! i) e)) (\<lambda>cts.
     Inr (map ctK cts, map ctC cts))"

text \<open>One goroutine compresses the input row, the other the output row; the errors are joined.\<close>

definition compressCipherVectorMultiple :: "('s, 'p) suite \<Rightarrow> 'p CipherVector list \<Rightarrow> 'p CipherVector list \<Rightarrow> nat \<Rightarrow> 's list
    \<Rightarrow> ('p CipherText \<times> 'p CipherText) res" where
  "compressCipherVectorMultiple S inputList outputList i e =
     andThen (andThen (index_at inputList i) (\<lambda>row. compressCipherVector S row e)) (\<lambda>hat.
     andThen (andThen (index_at outputList i) (\<lambda>row. compressCipherVector S row e)) (\<lambda>bar.
     Inr (hat, bar)))"

definition compressBeta :: "('s, 'p) suite \<Rightarrow> 's list list \<Rightarrow> 's list \<Rightarrow> 's list res" where
  "compressBeta S beta e =
     andThen (index_at beta 0) (\<lambda>beta0.
     let NQ = length beta0 in
     par_list 1 (length beta) (\<lambda>i.
       fold_res (\<lambda>j acc. andThen (index_at (beta ! i) j) (\<lambda>b. andThen (index_at e j) (\<lambda>ej.
         Inr (Scalar_Add S acc (Scalar_Mul S b ej))))) [0..<NQ] (Scalar_Zero S)))"

section \<open>Pair shuffle proofs\<close>

text \<open>
  Shuffle_Prove stands for PairShuffle.Init and Prove run by HashProve; g is None for the nil
  point the source passes, which kyber reads as the base point. Shuffle_Verify stands for
  shuffleKyber.Verifier run by HashVerify. Init panics for fewer than two elements, and the prover
  and the verifier panic when the vectors have different lengths, so the laws only say what is
  proved for vectors of more than one element, and what an accepted proof means.
\<close>

record ('s, 'p) pair_shuffle =
  Shuffle_Prove :: "nat list \<Rightarrow> 'p option \<Rightarrow> 'p \<Rightarrow> 's list \<Rightarrow> 'p list \<Rightarrow> 'p list \<Rightarrow> byte list res"
  Shuffle_Verify :: "'p \<Rightarrow> 'p \<Rightarrow> 'p list \<Rightarrow> 'p list \<Rightarrow> 'p list \<Rightarrow> 'p list \<Rightarrow> byte list \<Rightarrow> unit res"

definition shuffle_relation :: "('s, 'p) suite \<Rightarrow> nat list \<Rightarrow> 's list \<Rightarrow> 'p \<Rightarrow> 'p \<Rightarrow> 'p list \<Rightarrow> 'p list \<Rightarrow> 'p list \<Rightarrow> 'p list \<Rightarrow> bool" where
  "shuffle_relation S perm beta g h X Y Xbar Ybar \<longleftrightarrow>
     length X = length perm \<and> length Y = length perm \<and> length Xbar = length perm \<and> length Ybar = length perm \<and>
     length beta = length perm \<and> distinct perm \<and> set perm = {..<length perm} \<and>
     (\<forall>i<length perm. Xbar ! i = Point_Add S (X ! (perm ! i)) (Point_Mul S (beta ! (perm ! i)) g) \<and>
                    Ybar ! i = Point_Add S (Y ! (perm ! i)) (Point_Mul S (beta ! (perm ! i)) h))"

locale shuffle_system = kyber_suite S for S :: "('s, 'p) suite" +
  fixes W :: "('s, 'p) pair_shuffle"
  assumes shuffle_complete:
      "1 < length perm \<Longrightarrow> shuffle_relation S perm beta (Point_Base S) h X Y Xbar Ybar \<Longrightarrow>
       \<exists>b. Shuffle_Prove W perm None h beta X Y = Inr b \<and> Shuffle_Verify W (Point_Base S) h X Y Xbar Ybar b = Inr ()"
    and shuffle_sound:
      "Shuffle_Verify W g h X Y Xbar Ybar b = Inr () \<Longrightarrow> \<exists>perm beta. shuffle_relation S perm beta g h X Y Xbar Ybar"

record 'p PublishedShufflingProof =
  OriginalList :: "'p CipherVector list"
  ShuffledList :: "'p CipherVector list"
  sh_G :: 'p
  sh_H :: 'p
  HashProof :: "byte list"

record PublishedShufflingProofBytes =
  OriginalListBytes :: "byte list"
  OriginalListLength :: "byte list"
  ShuffledListBytes :: "byte list"
  ShuffledListLength :: "byte list"
  shb_G :: "byte list"
  shb_H :: "byte list"
  shb_HashProof :: "byte list"

definition ShuffleProofCreation :: "('s, 'p) suite \<Rightarrow> ('s, 'p) pair_shuffle \<Rightarrow> 'p CipherVector list \<Rightarrow> 'p CipherVector list
    \<Rightarrow> 'p \<Rightarrow> 'p \<Rightarrow> 's list list \<Rightarrow> nat list \<Rightarrow> 'p PublishedShufflingProof res" where
  "ShuffleProofCreation S W originalList shuffledList g h beta perm =
     andThen (index_at originalList 0) (\<lambda>first.
     andThen (CipherVectorComputeE S h first) (\<lambda>e.
     andThen (par_list 1 (length originalList) (\<lambda>i. compressCipherVectorMultiple S originalList shuffledList i e)) (\<lambda>hats.
     andThen (compressBeta S beta e) (\<lambda>betaCompressed.
     let Xhat = map (\<lambda>(hat, bar). ctK hat) hats; Yhat = map (\<lambda>(hat, bar). ctC hat) hats in
     if length Xhat \<noteq> length Yhat then Inl (Err ''X,Y vectors have inconsistent lengths'')
     else case Shuffle_Prove W perm None h betaCompressed Xhat Yhat of
         Inl (Err e) \<Rightarrow> Inl (Err (''shuffle proof failed: '' @ e))
       | Inl Panic \<Rightarrow> Inl Panic
       | Inr pf \<Rightarrow> Inr \<lparr>OriginalList = originalList, ShuffledList = shuffledList, sh_G = g, sh_H = h, HashProof = pf\<rparr>))))"

definition ShuffleListProofCreation :: "('s, 'p) suite \<Rightarrow> ('s, 'p) pair_shuffle \<Rightarrow> 'p CipherVector list list \<Rightarrow> 'p CipherVector list list
    \<Rightarrow> 'p list \<Rightarrow> 'p list \<Rightarrow> 's list list list \<Rightarrow> nat list list \<Rightarrow> 'p PublishedShufflingProof list res" where
  "ShuffleListProofCreation S W originalList shuffledList gList hList betaList piList =
     par_list VPARALLELIZE (length originalList) (\<lambda>i.
       andThen (index_at shuffledList i) (\<lambda>sh. andThen (index_at gList i) (\<lambda>g. andThen (index_at hList i) (\<lambda>h.
       andThen (index_at betaList i) (\<lambda>beta. andThen (index_at piList i) (\<lambda>perm.
       ShuffleProofCreation S W (originalList ! i) sh g h beta perm))))))"

text \<open>Errors of the computation make the verification false, panics end the process.\<close>

definition false_on_error :: "bool res \<Rightarrow> bool res" where
  "false_on_error r = (case r of Inl (Err _) \<Rightarrow> Inr False | _ \<Rightarrow> r)"

definition ShuffleProofVerification :: "('s, 'p) suite \<Rightarrow> ('s, 'p) pair_shuffle \<Rightarrow> 'p PublishedShufflingProof \<Rightarrow> 'p \<Rightarrow> bool res" where
  "ShuffleProofVerification S W psp seed = false_on_error (
     andThen (index_at (OriginalList psp) 0) (\<lambda>first.
     andThen (CipherVectorComputeE S seed first) (\<lambda>e.
     andThen (compressListCipherVector S (OriginalList psp) e) (\<lambda>(x, y).
     andThen (compressListCipherVector S (ShuffledList psp) e) (\<lambda>(xbar, ybar).
     andThen (Shuffle_Verify W (sh_G psp) (sh_H psp) x y xbar ybar (HashProof psp)) (\<lambda>_. Inr True))))))"

definition ShuffleListProofVerification :: "('s, 'p) suite \<Rightarrow> ('s, 'p) pair_shuffle \<Rightarrow> 'p PublishedShufflingProof list \<Rightarrow> 'p \<Rightarrow> percentage \<Rightarrow> bool res" where
  "ShuffleListProofVerification S W pslp seed percent = verify_list percent (\<lambda>psp. ShuffleProofVerification S W psp seed) pslp"

section \<open>Bytes\<close>

definition sh_ToBytes :: "('s, 'p) suite \<Rightarrow> 'p PublishedShufflingProof \<Rightarrow> PublishedShufflingProofBytes res" where
  "sh_ToBytes S psp =
     andThen (ArrayCipherVectorToBytes S (OriginalList psp)) (\<lambda>(ol, oll).
     andThen (ArrayCipherVectorToBytes S (ShuffledList psp)) (\<lambda>(sl, sll).
     andThen (AbstractPointsToBytes S [sh_G psp]) (\<lambda>dataG.
     andThen (AbstractPointsToBytes S [sh_H psp]) (\<lambda>dataH.
     Inr \<lparr>OriginalListBytes = ol, OriginalListLength = oll, ShuffledListBytes = sl, ShuffledListLength = sll,
          shb_G = dataG, shb_H = dataH, shb_HashProof = HashProof psp\<rparr>))))"

definition sh_FromBytes :: "('s, 'p) suite \<Rightarrow> PublishedShufflingProofBytes \<Rightarrow> 'p PublishedShufflingProof res" where
  "sh_FromBytes S pspb =
     andThen (FromBytesToArrayCipherVector S (OriginalListBytes pspb) (OriginalListLength pspb)) (\<lambda>ol.
     andThen (FromBytesToArrayCipherVector S (ShuffledListBytes pspb) (ShuffledListLength pspb)) (\<lambda>sl.
     andThen (FromBytesToAbstractPoints S (shb_G pspb)) (\<lambda>g. andThen (index_at g 0) (\<lambda>G.
     andThen (FromBytesToAbstractPoints S (shb_H pspb)) (\<lambda>h. andThen (index_at h 0) (\<lambda>H.
     Inr \<lparr>OriginalList = ol, ShuffledList = sl, sh_G = G, sh_H = H, HashProof = shb_HashProof pspb\<rparr>))))))"

section \<open>What a shuffle does\<close>

definition reblind :: "('s, 'p) suite \<Rightarrow> 'p \<Rightarrow> 'p \<Rightarrow> 's \<Rightarrow> 'p CipherText \<Rightarrow> 'p CipherText" where
  "reblind S g h b c = \<lparr>ctK = Point_Add S (ctK c) (Point_Mul S b g), ctC = Point_Add S (ctC c) (Point_Mul S b h)\<rparr>"

definition blinding_line :: "('s, 'p) suite \<Rightarrow> 'p \<Rightarrow> 'p \<Rightarrow> nat \<Rightarrow> ('s, 'p) CipherVectorScalar \<Rightarrow> bool" where
  "blinding_line S g h n line \<longleftrightarrow>
     n \<le> length (cvs_S line) \<and> CipherV line = map (\<lambda>b. \<lparr>ctK = Point_Mul S b g, ctC = Point_Mul S b h\<rparr>) (cvs_S line)"

definition blinding_ok :: "('s, 'p) suite \<Rightarrow> 'p \<Rightarrow> 'p \<Rightarrow> nat \<Rightarrow> ('s, 'p) CipherVectorScalar list option \<Rightarrow> bool" where
  "blinding_ok S g h n precomputed \<longleftrightarrow>
     (case precomputed of None \<Rightarrow> True | Some lines \<Rightarrow> lines \<noteq> [] \<and> (\<forall>line\<in>set lines. blinding_line S g h n line))"

lemma CreatePrecomputedRandomize_ok:
  "0 < nbrLines \<Longrightarrow> n \<le> lineSize \<Longrightarrow> blinding_ok S g h n (Some (CreatePrecomputedRandomize S g h picks lineSize nbrLines))"
  by (auto simp: blinding_ok_def blinding_line_def CreatePrecomputedRandomize_def)

definition shuffled :: "('s, 'p) suite \<Rightarrow> 'p \<Rightarrow> 'p \<Rightarrow> nat list \<Rightarrow> 's list list \<Rightarrow> 'p CipherVector list \<Rightarrow> 'p CipherVector list" where
  "shuffled S g h perm beta inputList = map (\<lambda>index. map2 (reblind S g h) (beta ! index) (inputList ! index)) perm"

lemma choose_blinding_ok:
  assumes "blinding_ok S g h NQ precomputed"
  shows "\<exists>bs. length bs = NQ \<and> choose_blinding blind pickline NQ precomputed i =
    Inr (bs, case precomputed of None \<Rightarrow> [] | Some _ \<Rightarrow> map (\<lambda>b. \<lparr>ctK = Point_Mul S b g, ctC = Point_Mul S b h\<rparr>) bs)"
proof (cases precomputed)
  case None
  then show ?thesis by (simp add: choose_blinding_def RandomScalarSlice_def)
next
  case (Some lines)
  let ?line = "lines ! (pickline i mod length lines)"
  have "?line \<in> set lines" "lines \<noteq> []" using assms Some by (auto simp: blinding_ok_def)
  then have "blinding_line S g h NQ ?line" using assms Some by (auto simp: blinding_ok_def)
  then show ?thesis
    using Some \<open>lines \<noteq> []\<close>
    by (intro exI [of _ "take NQ (cvs_S ?line)"]) (simp add: choose_blinding_def blinding_line_def slice_def take_map Let_def)
qed

text \<open>The precomputed values may have been made for a key h' other than h.\<close>

lemma shuffle_row_Inr:
  assumes "i < length perm" and "perm ! i < length inputList" and "length beta = length inputList"
    and "length (inputList ! (perm ! i)) = NQ" and "\<And>j. j < length beta \<Longrightarrow> length (beta ! j) = NQ"
    and points: "points = (case precomputed of None \<Rightarrow> map (\<lambda>_. []) beta
      | Some (_ :: ('s, 'p) CipherVectorScalar list) \<Rightarrow> map (map (\<lambda>b. \<lparr>ctK = Point_Mul S b g, ctC = Point_Mul S b h'\<rparr>)) beta)"
    and key: "precomputed = None \<Longrightarrow> h = h'"
  shows "shuffle_row S perm i inputList NQ beta points g h =
    Inr (map2 (reblind S g h') (beta ! (perm ! i)) (inputList ! (perm ! i)))"
proof -
  let ?in = "inputList ! (perm ! i)" and ?b = "beta ! (perm ! i)"
  have len: "length ?b = NQ" "0 < length beta" "length points = length beta"
    using assms by (auto simp: points split: option.splits)
  have p0: "points ! 0 = [] \<longleftrightarrow> precomputed = None \<or> NQ = 0"
    using len assms(5) [of 0] by (auto simp: points split: option.splits)
  have "par_list 1 NQ (\<lambda>j.
       if points ! 0 = []
       then andThen (index_at beta (perm ! i)) (\<lambda>row. andThen (index_at row j) (\<lambda>b. rerandomize S ?in b b None g h j))
       else andThen (index_at points (perm ! i)) (\<lambda>row. andThen (index_at row j) (\<lambda>ct.
              rerandomize S ?in (Scalar_Zero S) (Scalar_Zero S) (Some ct) g h j))) =
    Inr (map (\<lambda>j. reblind S g h' (?b ! j) (?in ! j)) [0..<NQ])"
  proof (rule par_list_Inr)
    fix j assume j: "j < NQ"
    show "(if points ! 0 = []
       then andThen (index_at beta (perm ! i)) (\<lambda>row. andThen (index_at row j) (\<lambda>b. rerandomize S ?in b b None g h j))
       else andThen (index_at points (perm ! i)) (\<lambda>row. andThen (index_at row j) (\<lambda>ct.
              rerandomize S ?in (Scalar_Zero S) (Scalar_Zero S) (Some ct) g h j))) =
      Inr (reblind S g h' (?b ! j) (?in ! j))"
    proof (cases precomputed)
      case None
      then show ?thesis using j p0 key assms(2-4) len by (simp add: rerandomize_def reblind_def)
    next
      case (Some lines)
      then have "points ! (perm ! i) ! j = \<lparr>ctK = Point_Mul S (?b ! j) g, ctC = Point_Mul S (?b ! j) h'\<rparr>"
        "length (points ! (perm ! i)) = NQ"
        using j len assms(2,3) by (simp_all add: points)
      then show ?thesis using j p0 Some assms(2-4) len by (simp add: rerandomize_def reblind_def)
    qed
  qed simp
  moreover have "map (\<lambda>j. reblind S g h' (?b ! j) (?in ! j)) [0..<NQ] = map2 (reblind S g h') ?b ?in"
    using len assms(4) by (intro nth_equalityI) simp_all
  moreover have "index_at perm i = Inr (perm ! i)" "index_at inputList (perm ! i) = Inr ?in" "index_at points 0 = Inr (points ! 0)"
    using assms(1,2) len by simp_all
  ultimately show ?thesis by (simp add: shuffle_row_def)
qed

lemma ShuffleSequence_blinded:
  assumes "inputList \<noteq> []" and "\<forall>row\<in>set inputList. length row = NQ" and "blinding_ok S g h' NQ precomputed" and "precomputed = None \<Longrightarrow> h = h'"
  shows "\<exists>beta. ShuffleSequence S blind pickline draw inputList g h precomputed =
      Inr (shuffled S g h' (RandomPermutation draw (length inputList)) beta inputList, RandomPermutation draw (length inputList), beta) \<and>
    length beta = length inputList \<and> (\<forall>row\<in>set beta. length row = NQ)"
proof -
  let ?k = "length inputList" and ?perm = "RandomPermutation draw (length inputList)"
  let ?pts = "\<lambda>bs. case precomputed of None \<Rightarrow> [] | Some _ \<Rightarrow> map (\<lambda>b. \<lparr>ctK = Point_Mul S b g, ctC = Point_Mul S b h'\<rparr>) bs"
  have "\<forall>i. \<exists>bs. length bs = NQ \<and> choose_blinding blind pickline NQ precomputed i = Inr (bs, ?pts bs)"
    by (intro allI choose_blinding_ok assms(3))
  from choice [OF this] obtain bs where
    all: "\<forall>i. length (bs i) = NQ \<and> choose_blinding blind pickline NQ precomputed i = Inr (bs i, ?pts (bs i))"
    by (elim exE)
  then have bs: "\<And>i. length (bs i) = NQ" "\<And>i. choose_blinding blind pickline NQ precomputed i = Inr (bs i, ?pts (bs i))"
    by blast+
  let ?beta = "map bs [0..<?k]"
  have tr: "traverse (choose_blinding blind pickline NQ precomputed) [0..<?k] = Inr (map (\<lambda>i. (bs i, ?pts (bs i))) [0..<?k])"
    by (rule traverse_Inr_map) (rule bs(2))
  have row: "shuffle_row S ?perm i inputList NQ ?beta (map (?pts \<circ> bs) [0..<?k]) g h =
      Inr (map2 (reblind S g h') (?beta ! (?perm ! i)) (inputList ! (?perm ! i)))" if "i < ?k" for i
  proof (rule shuffle_row_Inr [where precomputed = precomputed])
    have "?perm ! i \<in> set ?perm" using that by (simp add: RandomPermutation_perm(1))
    then show p: "?perm ! i < length inputList" by (simp add: RandomPermutation_perm(3))
    show "length (inputList ! (?perm ! i)) = NQ" using assms(2) p by simp
  qed (auto simp: that RandomPermutation_perm(1) bs(1) assms(4) split: option.splits)
  have "par_list 1 ?k (\<lambda>i. shuffle_row S ?perm i inputList NQ ?beta (map (?pts \<circ> bs) [0..<?k]) g h) =
      Inr (map (\<lambda>i. map2 (reblind S g h') (?beta ! (?perm ! i)) (inputList ! (?perm ! i))) [0..<?k])"
    by (rule par_list_Inr) (simp, rule row)
  also have "map (\<lambda>i. map2 (reblind S g h') (?beta ! (?perm ! i)) (inputList ! (?perm ! i))) [0..<?k] =
      shuffled S g h' ?perm ?beta inputList"
    unfolding shuffled_def by (rule nth_equalityI) (simp_all add: RandomPermutation_perm(1))
  finally have out: "par_list 1 ?k (\<lambda>i. shuffle_row S ?perm i inputList NQ ?beta (map (?pts \<circ> bs) [0..<?k]) g h) =
      Inr (shuffled S g h' ?perm ?beta inputList)" .
  have "length (inputList ! 0) = NQ" using assms(1,2) by simp
  with assms(1) tr out have "ShuffleSequence S blind pickline draw inputList g h precomputed =
      Inr (shuffled S g h' ?perm ?beta inputList, ?perm, ?beta)"
    by (simp add: ShuffleSequence_def Let_def comp_def)
  then show ?thesis using bs(1) by (intro exI [of _ ?beta]) auto
qed

lemma ShuffleSequence_Inr:
  assumes "inputList \<noteq> []" and "\<forall>row\<in>set inputList. length row = NQ" and "blinding_ok S g h NQ precomputed"
  shows "\<exists>beta. ShuffleSequence S blind pickline draw inputList g h precomputed =
      Inr (shuffled S g h (RandomPermutation draw (length inputList)) beta inputList, RandomPermutation draw (length inputList), beta) \<and>
    length beta = length inputList \<and> (\<forall>row\<in>set beta. length row = NQ)"
  using assms by (intro ShuffleSequence_blinded) auto

text \<open>The compression of a row with coefficients e, and of a row of blinding scalars.\<close>

definition compressed :: "('s, 'p) suite \<Rightarrow> 's list \<Rightarrow> 'p CipherVector \<Rightarrow> 'p CipherText" where
  "compressed S e row = csum S (map2 (\<lambda>c a. MulCipherTextbyScalar S c a) row e)"

definition dot :: "('s, 'p) suite \<Rightarrow> 's list \<Rightarrow> 's list \<Rightarrow> 's" where
  "dot S bs e = ssum S (map2 (Scalar_Mul S) bs e)"

section \<open>Plaintexts are permuted\<close>

lemma mset_map_perm:
  "distinct perm \<Longrightarrow> set perm = {..<length xs} \<Longrightarrow> mset (map ((!) xs) perm) = mset xs"
proof -
  assume h: "distinct perm" "set perm = {..<length xs}"
  have "mset perm = mset [0..<length xs]"
    using h by (simp add: set_eq_iff_mset_eq_distinct [symmetric] atLeast0LessThan del: mset_upt)
  then have "mset (map ((!) xs) perm) = mset (map ((!) xs) [0..<length xs])" by (metis mset_map)
  then show ?thesis by (simp add: map_nth)
qed

context kyber_suite
begin

lemma decrypt_reblind:
  "decryptPoint S x (reblind S (Point_Base S) (Point_Mul S x (Point_Base S)) b c) = decryptPoint S x c"
  by (simp add: reblind_def decryptPoint_def Let_def mul_linear mul_commute [of x b] algebra_simps)
    (simp add: sc_ac)

lemma decrypt_shuffled_row:
  "length bs = length row \<Longrightarrow> map (decryptPoint S x) (map2 (reblind S (Point_Base S) (Point_Mul S x (Point_Base S))) bs row) =
    map (decryptPoint S x) row"
  by (intro nth_equalityI) (simp_all add: decrypt_reblind)

lemma decrypt_shuffled:
  assumes "distinct perm" and "set perm = {..<length inputList}" and "length beta = length inputList"
    and "\<forall>i<length inputList. length (beta ! i) = length (inputList ! i)"
  shows "map (map (decryptPoint S x)) (shuffled S (Point_Base S) (Point_Mul S x (Point_Base S)) perm beta inputList) =
    map (\<lambda>index. map (decryptPoint S x) (inputList ! index)) perm"
  using assms decrypt_shuffled_row by (force simp: shuffled_def)

section \<open>Compression is linear\<close>

lemma compressCipherVector_Inr: "length e = length row \<Longrightarrow> compressCipherVector S row e = Inr (compressed S e row)"
proof -
  assume l: "length e = length row"
  have "fold (\<lambda>i c. ct_Add S c (MulCipherTextbyScalar S (row ! i) (e ! i))) [0..<length row] (NewCipherText S) =
      fold (\<lambda>d c. ct_Add S c d) (map (\<lambda>i. MulCipherTextbyScalar S (row ! i) (e ! i)) [0..<length row]) (NewCipherText S)"
    by (simp add: fold_map comp_def)
  also have "map (\<lambda>i. MulCipherTextbyScalar S (row ! i) (e ! i)) [0..<length row] = map2 (\<lambda>c a. MulCipherTextbyScalar S c a) row e"
    using l by (intro nth_equalityI) simp_all
  finally show ?thesis using l by (simp add: compressCipherVector_def Let_def fold_ct_Add compressed_def)
qed

lemma compressed_reblind:
  "length bs = length row \<Longrightarrow> length row = length e \<Longrightarrow>
   compressed S e (map2 (reblind S g h) bs row) = reblind S g h (dot S bs e) (compressed S e row)"
proof (induction bs row e rule: list_induct3)
  case Nil
  then show ?case by (simp add: compressed_def dot_def reblind_def NewCipherText_def)
next
  case (Cons b bs c row a e)
  then have "compressed S e (map2 (reblind S g h) bs row) = reblind S g h (dot S bs e) (compressed S e row)" by simp
  then show ?case
    by (simp add: compressed_def dot_def reblind_def ct_Add_def MulCipherTextbyScalar_def mul_linear)
      (simp add: pt_ac sc_ac)
qed

lemma compressBeta_Inr:
  assumes "beta \<noteq> []" and "\<forall>row\<in>set beta. length row = length e"
  shows "compressBeta S beta e = Inr (map (\<lambda>row. dot S row e) beta)"
proof -
  have loop: "fold_res (\<lambda>j acc. andThen (index_at bs j) (\<lambda>b. andThen (index_at e j) (\<lambda>ej.
         Inr (Scalar_Add S acc (Scalar_Mul S b ej))))) [0..<n] (Scalar_Zero S) =
      Inr (ssum S (map (\<lambda>j. Scalar_Mul S (bs ! j) (e ! j)) [0..<n]))" if "length bs = length e" "n \<le> length e" for bs n
    using that(2)
  proof (induction n)
    case (Suc n)
    then show ?case using that(1) by (simp add: fold_res_append)
  qed simp
  have dot: "ssum S (map (\<lambda>j. Scalar_Mul S (bs ! j) (e ! j)) [0..<length e]) = dot S bs e" if "length bs = length e" for bs
    unfolding dot_def using that by (intro arg_cong [where f = "ssum S"] nth_equalityI) simp_all
  have "length (beta ! 0) = length e" using assms by simp
  moreover have "par_list 1 (length beta) (\<lambda>i. fold_res (\<lambda>j acc. andThen (index_at (beta ! i) j) (\<lambda>b. andThen (index_at e j) (\<lambda>ej.
         Inr (Scalar_Add S acc (Scalar_Mul S b ej))))) [0..<length e] (Scalar_Zero S)) =
      Inr (map (\<lambda>i. dot S (beta ! i) e) [0..<length beta])"
    using assms(2) by (intro par_list_Inr) (simp_all add: loop dot)
  moreover have "map (\<lambda>i. dot S (beta ! i) e) [0..<length beta] = map (\<lambda>row. dot S row e) beta"
    by (intro nth_equalityI) simp_all
  ultimately show ?thesis using assms(1) by (simp add: compressBeta_def Let_def)
qed

lemma CipherVectorComputeE_ex: "\<exists>e. CipherVectorComputeE S h cv = Inr e \<and> length e = length cv"
proof -
  obtain b where b: "Point_MarshalBinary S h = Inr b" by (rule marshal_ex)
  have "\<exists>f. computeE S i cv b = Inr f" if "i < length cv" for i
  proof -
    obtain dC where "Point_MarshalBinary S (ctC (cv ! i)) = Inr dC" by (rule marshal_ex)
    moreover obtain dK where "Point_MarshalBinary S (ctK (cv ! i)) = Inr dK" by (rule marshal_ex)
    ultimately show ?thesis using that by (simp add: computeE_def)
  qed
  then obtain f where "\<And>i. i < length cv \<Longrightarrow> computeE S i cv b = Inr (f i)" by metis
  then have "par_list VPARALLELIZE (length cv) (\<lambda>i. computeE S i cv b) = Inr (map f [0..<length cv])"
    by (intro par_list_Inr) simp_all
  then show ?thesis by (simp add: CipherVectorComputeE_def b)
qed

lemma compressListCipherVector_Inr:
  assumes "\<forall>row\<in>set rows. length row = length e"
  shows "compressListCipherVector S rows e = Inr (map (ctK \<circ> compressed S e) rows, map (ctC \<circ> compressed S e) rows)"
proof -
  have "par_list 1 (length rows) (\<lambda>i. compressCipherVector S (rows ! i) e) = Inr (map (\<lambda>i. compressed S e (rows ! i)) [0..<length rows])"
    using assms by (intro par_list_Inr) (simp_all add: compressCipherVector_Inr)
  moreover have "map (\<lambda>i. compressed S e (rows ! i)) [0..<length rows] = map (compressed S e) rows"
    by (intro nth_equalityI) simp_all
  ultimately show ?thesis by (simp add: compressListCipherVector_def)
qed

lemma shuffled_relation:
  assumes "distinct perm" and "set perm = {..<length inputList}" and "length beta = length inputList"
    and rows: "\<forall>row\<in>set inputList. length row = length e" "\<forall>row\<in>set beta. length row = length e"
  shows "shuffle_relation S perm (map (\<lambda>row. dot S row e) beta) g h
    (map (ctK \<circ> compressed S e) inputList) (map (ctC \<circ> compressed S e) inputList)
    (map (ctK \<circ> compressed S e) (shuffled S g h perm beta inputList)) (map (ctC \<circ> compressed S e) (shuffled S g h perm beta inputList))"
proof -
  have len: "length perm = length inputList" using assms(1,2) by (metis card_lessThan distinct_card)
  have "perm ! i < length inputList" if "i < length perm" for i using assms(2) that nth_mem by blast
  moreover from this have "compressed S e (map2 (reblind S g h) (beta ! (perm ! i)) (inputList ! (perm ! i))) =
      reblind S g h (dot S (beta ! (perm ! i)) e) (compressed S e (inputList ! (perm ! i)))" if "i < length perm" for i
    using rows assms(3) that by (intro compressed_reblind) simp_all
  ultimately show ?thesis
    using assms(1-3) len by (simp add: shuffle_relation_def shuffled_def reblind_def)
qed

end

section \<open>Proofs of honest shuffles\<close>

text \<open>
  The documented behaviour is consistent: an ideal system that accepts exactly the true statements
  on vectors of one length above 1, and panics on all others, has it.
\<close>

definition ideal_shuffle :: "('s, 'p) suite \<Rightarrow> ('s, 'p) pair_shuffle" where
  "ideal_shuffle S = \<lparr>
     Shuffle_Prove = (\<lambda>perm g h beta X Y.
       if length X \<le> 1 \<or> length perm \<noteq> length X \<or> length beta \<noteq> length X \<or> length Y \<noteq> length X then Inl Panic else Inr []),
     Shuffle_Verify = (\<lambda>g h X Y Xbar Ybar b.
       if length X \<le> 1 \<or> length Y \<noteq> length X \<or> length Xbar \<noteq> length X \<or> length Ybar \<noteq> length X then Inl Panic
       else if \<exists>perm beta. shuffle_relation S perm beta g h X Y Xbar Ybar then Inr () else Inl (Err ''invalid PairShuffleProof''))\<rparr>"

context kyber_suite
begin

lemma ideal_shuffle_system: "shuffle_system S (ideal_shuffle S)"
  by (intro shuffle_system.intro kyber_suite_axioms shuffle_system_axioms.intro)
    (auto simp: ideal_shuffle_def shuffle_relation_def split: if_splits)

end

interpretation ed_shuffle: shuffle_system ed25519 "ideal_shuffle ed25519"
  by (rule ed.ideal_shuffle_system)

context shuffle_system
begin

lemma honest_shuffle_proof:
  assumes "1 < length inputList" and rows: "\<forall>row\<in>set inputList. length row = NQ"
    and perm: "distinct perm" "set perm = {..<length inputList}"
    and beta: "length beta = length inputList" "\<forall>row\<in>set beta. length row = NQ"
  shows "\<exists>psp. ShuffleProofCreation S W inputList (shuffled S (Point_Base S) h perm beta inputList) (Point_Base S) h beta perm = Inr psp \<and>
    ShuffleProofVerification S W psp h = Inr True"
proof -
  let ?out = "shuffled S (Point_Base S) h perm beta inputList"
  have "0 < length inputList" using assms(1) by linarith
  then have first: "inputList ! 0 \<in> set inputList" "index_at inputList 0 = Inr (inputList ! 0)" by simp_all
  obtain e where e: "CipherVectorComputeE S h (inputList ! 0) = Inr e" "length e = NQ"
    using CipherVectorComputeE_ex [of h "inputList ! 0"] rows first by auto
  have lenp: "length perm = length inputList" using perm by (metis card_lessThan distinct_card)
  have out_rows: "\<forall>row\<in>set ?out. length row = length e"
    using rows beta perm e(2) by (auto simp: shuffled_def)
  have in_rows: "\<forall>row\<in>set inputList. length row = length e" using rows e(2) by simp
  have bet: "compressBeta S beta e = Inr (map (\<lambda>row. dot S row e) beta)"
    using assms(1) beta e(2) by (intro compressBeta_Inr) auto
  have lout: "length ?out = length inputList" by (simp add: shuffled_def lenp)
  have hats: "par_list 1 (length inputList) (\<lambda>i. compressCipherVectorMultiple S inputList ?out i e) =
      Inr (map (\<lambda>i. (compressed S e (inputList ! i), compressed S e (?out ! i))) [0..<length inputList])"
    using in_rows out_rows lout
    by (intro par_list_Inr) (simp_all add: compressCipherVectorMultiple_def compressCipherVector_Inr)
  have X: "map (\<lambda>(hat, bar). ctK hat) (map (\<lambda>i. (compressed S e (inputList ! i), compressed S e (?out ! i))) [0..<length inputList]) =
      map (ctK \<circ> compressed S e) inputList"
    "map (\<lambda>(hat, bar). ctC hat) (map (\<lambda>i. (compressed S e (inputList ! i), compressed S e (?out ! i))) [0..<length inputList]) =
      map (ctC \<circ> compressed S e) inputList"
    by (intro nth_equalityI; simp)+
  have rel: "shuffle_relation S perm (map (\<lambda>row. dot S row e) beta) (Point_Base S) h
      (map (ctK \<circ> compressed S e) inputList) (map (ctC \<circ> compressed S e) inputList)
      (map (ctK \<circ> compressed S e) ?out) (map (ctC \<circ> compressed S e) ?out)"
    using perm beta in_rows e(2) by (intro shuffled_relation) simp_all
  have "1 < length perm" using assms(1) lenp by simp
  from shuffle_complete [OF this rel] obtain b where b: "Shuffle_Prove W perm None h (map (\<lambda>row. dot S row e) beta)
      (map (ctK \<circ> compressed S e) inputList) (map (ctC \<circ> compressed S e) inputList) = Inr b"
    "Shuffle_Verify W (Point_Base S) h (map (ctK \<circ> compressed S e) inputList) (map (ctC \<circ> compressed S e) inputList)
      (map (ctK \<circ> compressed S e) ?out) (map (ctC \<circ> compressed S e) ?out) b = Inr ()"
    by (elim exE conjE)
  let ?psp = "\<lparr>OriginalList = inputList, ShuffledList = ?out, sh_G = Point_Base S, sh_H = h, HashProof = b\<rparr>"
  have "ShuffleProofCreation S W inputList ?out (Point_Base S) h beta perm = Inr ?psp"
    unfolding ShuffleProofCreation_def first(2) andThen_Inr e(1) hats bet Let_def X by (simp add: b(1))
  moreover have "ShuffleProofVerification S W ?psp h = Inr True"
    using in_rows out_rows
    by (simp add: ShuffleProofVerification_def first(2) e(1) compressListCipherVector_Inr b(2) false_on_error_def)
  ultimately show ?thesis by blast
qed

lemma shuffle_verified:
  assumes "ShuffleProofVerification S W psp seed = Inr True"
    and rows: "\<forall>row\<in>set (OriginalList psp). length row = NQ" "\<forall>row\<in>set (ShuffledList psp). length row = NQ"
    and keys: "sh_G psp = Point_Base S" "sh_H psp = Point_Mul S x (Point_Base S)"
  shows "\<exists>e. CipherVectorComputeE S seed (OriginalList psp ! 0) = Inr e \<and>
    mset (map (decryptPoint S x \<circ> compressed S e) (ShuffledList psp)) = mset (map (decryptPoint S x \<circ> compressed S e) (OriginalList psp))"
proof -
  have ne: "OriginalList psp \<noteq> []"
    using assms(1) by (auto simp: ShuffleProofVerification_def index_at_def false_on_error_def)
  obtain e where e: "CipherVectorComputeE S seed (OriginalList psp ! 0) = Inr e" "length e = NQ"
    using CipherVectorComputeE_ex [of seed "OriginalList psp ! 0"] rows(1) ne by auto
  let ?O = "map (compressed S e) (OriginalList psp)" and ?T = "map (compressed S e) (ShuffledList psp)"
  have "Shuffle_Verify W (sh_G psp) (sh_H psp) (map ctK ?O) (map ctC ?O) (map ctK ?T) (map ctC ?T) (HashProof psp) = Inr ()"
    using assms(1) rows ne e
    by (auto simp: ShuffleProofVerification_def false_on_error_def compressListCipherVector_Inr
        split: sum.splits go_error.splits simp: andThen_eq_Inr andThen_def)
  then obtain perm beta where r: "shuffle_relation S perm beta (sh_G psp) (sh_H psp) (map ctK ?O) (map ctC ?O) (map ctK ?T) (map ctC ?T)"
    using shuffle_sound by blast
  then have len: "length ?O = length perm" "length ?T = length perm" and p: "distinct perm" "set perm = {..<length perm}"
    by (auto simp: shuffle_relation_def)
  have T: "?T ! i = reblind S (sh_G psp) (sh_H psp) (beta ! (perm ! i)) (?O ! (perm ! i))" if "i < length perm" for i
  proof -
    have "perm ! i < length ?O" using that p len by (metis lessThan_iff nth_mem)
    moreover have "map ctK ?T ! i = Point_Add S (map ctK ?O ! (perm ! i)) (Point_Mul S (beta ! (perm ! i)) (sh_G psp))"
      "map ctC ?T ! i = Point_Add S (map ctC ?O ! (perm ! i)) (Point_Mul S (beta ! (perm ! i)) (sh_H psp))"
      using r that unfolding shuffle_relation_def by blast+
    ultimately show ?thesis
      using that len by (intro CipherText.equality) (simp_all add: reblind_def)
  qed
  have "map (decryptPoint S x) ?T = map ((!) (map (decryptPoint S x) ?O)) perm"
  proof (intro nth_equalityI)
    fix i assume "i < length (map (decryptPoint S x) ?T)"
    then have i: "i < length perm" using len by simp
    then have "perm ! i < length ?O" using p len by (metis lessThan_iff nth_mem)
    then show "map (decryptPoint S x) ?T ! i = map ((!) (map (decryptPoint S x) ?O)) perm ! i"
      using T i len by (simp add: keys decrypt_reblind del: map_map)
  qed (use len in simp)
  then have "mset (map (decryptPoint S x) ?T) = mset (map (decryptPoint S x) ?O)"
    using mset_map_perm [of perm "map (decryptPoint S x) ?O"] p len by simp
  with e(1) show ?thesis by (auto simp: comp_def)
qed

end

section \<open>Byte formats\<close>

context kyber_suite
begin

lemma sh_FromBytes_ToBytes:
  assumes "\<forall>cv\<in>set (OriginalList psp). length cv < 2 ^ 32" and "\<forall>cv\<in>set (ShuffledList psp). length cv < 2 ^ 32"
  shows "andThen (sh_ToBytes S psp) (sh_FromBytes S) = Inr psp"
proof -
  obtain ol oll where o: "ArrayCipherVectorToBytes S (OriginalList psp) = Inr (ol, oll)"
    "FromBytesToArrayCipherVector S ol oll = Inr (OriginalList psp)"
    using array_bytes_roundtrip [OF assms(1)] by (auto simp: andThen_eq_Inr)
  obtain sl sll where s: "ArrayCipherVectorToBytes S (ShuffledList psp) = Inr (sl, sll)"
    "FromBytesToArrayCipherVector S sl sll = Inr (ShuffledList psp)"
    using array_bytes_roundtrip [OF assms(2)] by (auto simp: andThen_eq_Inr)
  obtain g where g: "AbstractPointsToBytes S [sh_G psp] = Inr g" "FromBytesToAbstractPoints S g = Inr [sh_G psp]"
    using points_bytes_roundtrip [of "[sh_G psp]"] by (auto simp: andThen_eq_Inr)
  obtain h where h: "AbstractPointsToBytes S [sh_H psp] = Inr h" "FromBytesToAbstractPoints S h = Inr [sh_H psp]"
    using points_bytes_roundtrip [of "[sh_H psp]"] by (auto simp: andThen_eq_Inr)
  show ?thesis by (simp add: sh_ToBytes_def sh_FromBytes_def o s g h)
qed

lemma DecodeCipherVectorScalar_Encode: "andThen (EncodeCipherVectorScalar S cV) (DecodeCipherVectorScalar S) = Inr cV"
proof -
  obtain f where f: "\<And>a. Scalar_MarshalBinary S a = Inr (f a)" "\<And>a. Scalar_UnmarshalBinary S (f a) = Inr a"
    using scalar_marshal by metis
  obtain m where m: "\<And>P. Point_MarshalBinary S P = Inr (m P)" "\<And>P. Point_UnmarshalBinary S (m P) = Inr P"
    using point_marshal by metis
  have "EncodeCipherVectorScalar S cV =
      Inr (map (\<lambda>v. \<lparr>cvsb_CipherV = map (\<lambda>el. [m (ctK el), m (ctC el)]) (CipherV v), cvsb_S = map f (cvs_S v)\<rparr>) cV)"
    unfolding EncodeCipherVectorScalar_def
    by (rule traverse_Inr_map) (simp add: f m traverse_Inr_map [where g = f] traverse_Inr_map [where g = "\<lambda>el. [m (ctK el), m (ctC el)]"])
  moreover have decoded: "traverse (Scalar_UnmarshalBinary S) (map f ss) = Inr ss"
    "traverse (\<lambda>el. andThen (andThen (index_at el 0) (Point_UnmarshalBinary S)) (\<lambda>k.
        andThen (andThen (index_at el 1) (Point_UnmarshalBinary S)) (\<lambda>c. Inr \<lparr>ctK = k, ctC = c\<rparr>)))
      (map (\<lambda>el. [m (ctK el), m (ctC el)]) cs) = Inr cs" for ss cs
    by (induction ss) (simp_all add: f m, induction cs, simp_all add: m)
  have "DecodeCipherVectorScalar S
      (map (\<lambda>v. \<lparr>cvsb_CipherV = map (\<lambda>el. [m (ctK el), m (ctC el)]) (CipherV v), cvsb_S = map f (cvs_S v)\<rparr>) cV) = Inr cV"
    unfolding DecodeCipherVectorScalar_def by (induction cV) (simp_all add: decoded del: One_nat_def)
  ultimately show ?thesis by simp
qed

end

context kyber_suite
begin

lemma shuffle_rows:
  assumes "inputList \<noteq> []" and "\<forall>row\<in>set inputList. length row = NQ"
    and "h = Point_Mul S x (Point_Base S)" and "blinding_ok S (Point_Base S) h NQ precomputed"
  shows "\<exists>outputList perm beta. ShuffleSequence S blind pickline draw inputList (Point_Base S) h precomputed = Inr (outputList, perm, beta) \<and>
    length outputList = length inputList \<and> (\<forall>row\<in>set outputList. length row = NQ) \<and>
    mset (map (map (decryptPoint S x)) outputList) = mset (map (map (decryptPoint S x)) inputList)"
proof -
  let ?perm = "RandomPermutation draw (length inputList)"
  from ShuffleSequence_Inr [OF assms(1,2,4), of blind pickline draw]
  obtain beta where b: "ShuffleSequence S blind pickline draw inputList (Point_Base S) h precomputed =
      Inr (shuffled S (Point_Base S) h ?perm beta inputList, ?perm, beta)"
    "length beta = length inputList" "\<forall>row\<in>set beta. length row = NQ" by (elim exE conjE)
  have "map (map (decryptPoint S x)) (shuffled S (Point_Base S) h ?perm beta inputList) =
      map (\<lambda>index. map (decryptPoint S x) (inputList ! index)) ?perm"
    unfolding assms(3) using b(2,3) assms(2)
    by (intro decrypt_shuffled RandomPermutation_perm) simp_all
  also have "\<dots> = map ((!) (map (map (decryptPoint S x)) inputList)) ?perm"
    using RandomPermutation_perm(3) [of draw "length inputList"] by (intro map_cong) auto
  finally have "mset (map (map (decryptPoint S x)) (shuffled S (Point_Base S) h ?perm beta inputList)) =
      mset (map (map (decryptPoint S x)) inputList)"
    using mset_map_perm [of ?perm "map (map (decryptPoint S x)) inputList"] by (simp add: RandomPermutation_perm)
  moreover have "length (shuffled S (Point_Base S) h ?perm beta inputList) = length inputList"
    by (simp add: shuffled_def RandomPermutation_perm(1))
  moreover have "\<forall>row\<in>set (shuffled S (Point_Base S) h ?perm beta inputList). length row = NQ"
    using b(2,3) assms(2) RandomPermutation_perm(3) [of draw "length inputList"] by (auto simp: shuffled_def)
  ultimately show ?thesis using b(1) by (intro exI conjI)
qed

end

section \<open>Properties\<close>

text \<open>
  C9. A shuffle permutes the plaintext rows: for rows of equal length and blinding that is fresh
  or precomputed for the same keys, ShuffleSequence succeeds and the decrypted output rows are a
  permutation of the decrypted input rows, whatever the random choices.
\<close>

theorem shuffle_permutes_plaintexts:
  assumes "kyber_suite S" and "inputList \<noteq> []" and "\<forall>row\<in>set inputList. length row = NQ"
    and "h = Point_Mul S x (Point_Base S)" and "blinding_ok S (Point_Base S) h NQ precomputed"
  shows "\<exists>outputList perm beta. ShuffleSequence S blind pickline draw inputList (Point_Base S) h precomputed = Inr (outputList, perm, beta) \<and>
    length outputList = length inputList \<and>
    mset (map (map (decryptPoint S x)) outputList) = mset (map (map (decryptPoint S x)) inputList)"
  by (rule exE [OF kyber_suite.shuffle_rows [OF assms, of blind pickline draw]], elim exE conjE) (intro exI conjI)

theorem shuffle_permutes_plaintexts_witness:
  "\<exists>outputList perm beta. ShuffleSequence ed25519 (\<lambda>i j. of_nat (i + j)) (\<lambda>_. 0) (\<lambda>i. i) [[\<lparr>ctK = 1, ctC = 2\<rparr>], [\<lparr>ctK = 3, ctC = 4\<rparr>]]
      (Point_Base ed25519) (Point_Mul ed25519 7 (Point_Base ed25519)) None = Inr (outputList, perm, beta) \<and> length outputList = 2"
  using shuffle_permutes_plaintexts [OF ed.kyber_suite_axioms, of "[[\<lparr>ctK = 1, ctC = 2\<rparr>], [\<lparr>ctK = 3, ctC = 4\<rparr>]]" 1 _ 7 None
      "\<lambda>i j. of_nat (i + j)" "\<lambda>_. 0" "\<lambda>i. i"]
  by (simp add: blinding_ok_def numeral_2_eq_2) blast

text \<open>
  The proof of an honest shuffle of at least two rows is accepted: created from the outputs of
  ShuffleSequence with base point and key h, it verifies with the seed h.
\<close>

theorem shuffle_proof_accepted:
  assumes "shuffle_system S W" and "1 < length inputList" and "\<forall>row\<in>set inputList. length row = NQ"
    and "blinding_ok S (Point_Base S) h NQ precomputed"
    and "ShuffleSequence S blind pickline draw inputList (Point_Base S) h precomputed = Inr (outputList, perm, beta)"
  shows "\<exists>psp. ShuffleProofCreation S W inputList outputList (Point_Base S) h beta perm = Inr psp \<and>
    ShuffleProofVerification S W psp h = Inr True"
proof -
  have "inputList \<noteq> []" using assms(2) by auto
  from ShuffleSequence_Inr [OF this assms(3,4), of blind pickline draw] assms(5)
  have o: "outputList = shuffled S (Point_Base S) h perm beta inputList" "perm = RandomPermutation draw (length inputList)"
    "length beta = length inputList" "\<forall>row\<in>set beta. length row = NQ" by auto
  show ?thesis
    unfolding o(1) using assms(2,3) o(2-4)
    by (intro shuffle_system.honest_shuffle_proof [OF assms(1), where NQ = NQ]) (simp_all add: RandomPermutation_perm)
qed

theorem shuffle_proof_accepted_witness:
  "\<exists>outputList perm beta psp. ShuffleProofCreation ed25519 (ideal_shuffle ed25519) [[\<lparr>ctK = 1, ctC = 2\<rparr>], [\<lparr>ctK = 3, ctC = 4\<rparr>]] outputList
      (Point_Base ed25519) 7 beta perm = Inr psp \<and> ShuffleProofVerification ed25519 (ideal_shuffle ed25519) psp 7 = Inr True"
proof -
  let ?in = "[[\<lparr>ctK = 1, ctC = 2\<rparr>], [\<lparr>ctK = 3, ctC = 4 :: ed_l\<rparr>]]"
  have rows: "\<forall>row\<in>set ?in. length row = 1" by simp
  have "blinding_ok ed25519 (Point_Base ed25519) 7 1 None" by (simp add: blinding_ok_def)
  from ShuffleSequence_Inr [OF _ rows this] obtain beta where
    "ShuffleSequence ed25519 (\<lambda>i j. of_nat (i + j)) (\<lambda>_. 0) (\<lambda>i. i) ?in (Point_Base ed25519) 7 None =
      Inr (shuffled ed25519 (Point_Base ed25519) 7 (RandomPermutation (\<lambda>i. i) (length ?in)) beta ?in,
        RandomPermutation (\<lambda>i. i) (length ?in), beta)" by blast
  from shuffle_proof_accepted [OF ed_shuffle.shuffle_system_axioms _ rows _ this] show ?thesis
    by (simp add: blinding_ok_def) blast
qed

text \<open>
  C29. An accepted proof binds the compressed rows: for a proof over rows of one length with G the
  base point and H = x B, the rows' combinations with the coefficients e computed from the seed
  decrypt to the same multiset before and after the shuffle.
\<close>

theorem shuffle_proof_sound:
  assumes "shuffle_system S W" and "ShuffleProofVerification S W psp seed = Inr True"
    and "\<forall>row\<in>set (OriginalList psp). length row = NQ" and "\<forall>row\<in>set (ShuffledList psp). length row = NQ"
    and "sh_G psp = Point_Base S" and "sh_H psp = Point_Mul S x (Point_Base S)"
  shows "\<exists>e. CipherVectorComputeE S seed (OriginalList psp ! 0) = Inr e \<and>
    mset (map (decryptPoint S x \<circ> compressed S e) (ShuffledList psp)) = mset (map (decryptPoint S x \<circ> compressed S e) (OriginalList psp))"
  using assms by (rule shuffle_system.shuffle_verified)

text \<open>An honest shuffle of two rows of two ciphertexts, with its proof.\<close>

theorem shuffle_proof_sound_witness:
  fixes P
  defines "P \<equiv> \<lparr>OriginalList = [[\<lparr>ctK = 1, ctC = 2\<rparr>, \<lparr>ctK = 3, ctC = 4\<rparr>], [\<lparr>ctK = 5, ctC = 6\<rparr>, \<lparr>ctK = 7, ctC = 8\<rparr>]],
    ShuffledList = [[\<lparr>ctK = 8, ctC = 27\<rparr>, \<lparr>ctK = 11, ctC = 36\<rparr>], [\<lparr>ctK = 2, ctC = 9\<rparr>, \<lparr>ctK = 5, ctC = 18\<rparr>]],
    sh_G = Point_Base ed25519, sh_H = Point_Mul ed25519 7 (Point_Base ed25519), HashProof = []\<rparr>"
  shows "ShuffleProofVerification ed25519 (ideal_shuffle ed25519) P 7 = Inr True \<and>
    (\<exists>e. CipherVectorComputeE ed25519 7 (OriginalList P ! 0) = Inr e \<and>
      mset (map (decryptPoint ed25519 7 \<circ> compressed ed25519 e) (ShuffledList P)) =
      mset (map (decryptPoint ed25519 7 \<circ> compressed ed25519 e) (OriginalList P)))"
proof -
  let ?in = "[[\<lparr>ctK = 1, ctC = 2\<rparr>, \<lparr>ctK = 3, ctC = 4\<rparr>], [\<lparr>ctK = 5, ctC = 6\<rparr>, \<lparr>ctK = 7, ctC = 8 :: ed_l\<rparr>]]"
    and ?perm = "[1, 0 :: nat]" and ?beta = "[[1, 2], [3, 4 :: ed_l]]"
  have out: "shuffled ed25519 (Point_Base ed25519) 7 ?perm ?beta ?in = ShuffledList P"
    by (simp add: P_def shuffled_def reblind_def ed_simps)
  have "\<exists>psp. ShuffleProofCreation ed25519 (ideal_shuffle ed25519) ?in (shuffled ed25519 (Point_Base ed25519) 7 ?perm ?beta ?in)
      (Point_Base ed25519) 7 ?beta ?perm = Inr psp \<and> ShuffleProofVerification ed25519 (ideal_shuffle ed25519) psp 7 = Inr True"
    by (rule ed_shuffle.honest_shuffle_proof [where NQ = 2]) auto
  then obtain psp where psp: "ShuffleProofCreation ed25519 (ideal_shuffle ed25519) ?in (ShuffledList P) (Point_Base ed25519) 7 ?beta ?perm = Inr psp"
    "ShuffleProofVerification ed25519 (ideal_shuffle ed25519) psp 7 = Inr True" unfolding out by (elim exE conjE)
  have "psp = \<lparr>OriginalList = ?in, ShuffledList = ShuffledList P, sh_G = Point_Base ed25519, sh_H = 7, HashProof = []\<rparr>"
    using psp(1) unfolding ShuffleProofCreation_def
    by (auto simp: andThen_eq_Inr Let_def ideal_shuffle_def split: if_splits sum.splits go_error.splits)
  moreover have "\<dots> = P" by (simp add: P_def ed_simps)
  ultimately have acc: "ShuffleProofVerification ed25519 (ideal_shuffle ed25519) P 7 = Inr True" using psp(2) by simp
  from shuffle_proof_sound [OF ed_shuffle.shuffle_system_axioms acc, where NQ = 2 and x = 7] show ?thesis
    using acc by (simp add: P_def)
qed

text \<open>
  Shuffle proofs and files of precomputed blinding survive their byte formats, for vectors of
  fewer than 2^32 elements.
\<close>

theorem shuffle_formats_roundtrip:
  assumes "kyber_suite S"
    and "\<forall>cv\<in>set (OriginalList psp). length cv < 2 ^ 32" and "\<forall>cv\<in>set (ShuffledList psp). length cv < 2 ^ 32"
  shows "andThen (sh_ToBytes S psp) (sh_FromBytes S) = Inr psp \<and>
    andThen (EncodeCipherVectorScalar S cV) (DecodeCipherVectorScalar S) = Inr cV"
  using assms by (simp add: kyber_suite.sh_FromBytes_ToBytes kyber_suite.DecodeCipherVectorScalar_Encode)

end
