(* ===== verification/CollectiveAggregation.thy ===== *)
theory CollectiveAggregation
  imports Network Structs Aggregation
begin

text \<open>
  protocols/collective_aggregation_protocol.go: every server holds a map of filtered responses by
  grouping key; the maps are merged up the tree, and with proofs every node publishes a proof of
  aggregation for the merge it made.
\<close>

definition EMPTYKEY :: GroupingKey where
  "EMPTYKEY = ''''"

text \<open>
  The instance of a server. Aggregate is the collective key p.Roster().Aggregate; the last three
  fields are what the language and the random source leave open: the randomness of the padding
  (by child, key and position), the order in which the range loops visit a map, and the goroutine
  of ToBytes that writes the lengths last.
\<close>

record ('s, 'p) CollectiveAggregationProtocol =
  ca_GroupedData :: "(GroupingKey \<rightharpoonup> 'p FilteredResponse) option"
  ca_SimpleData :: "'p CipherText list option"
  ca_Proofs :: bool
  ca_Aggregate :: 'p
  ca_picks :: "nat \<Rightarrow> GroupingKey \<Rightarrow> nat \<Rightarrow> 's"
  ca_visit :: "(GroupingKey \<rightharpoonup> 'p FilteredResponse) \<Rightarrow> (GroupingKey \<times> 'p FilteredResponse) list"
  ca_last :: nat

definition checkData :: "('s, 'p) CollectiveAggregationProtocol \<Rightarrow> ('s, 'p) CollectiveAggregationProtocol res" where
  "checkData p =
     (case (ca_GroupedData p, ca_SimpleData p) of
        (None, None) \<Rightarrow> Inl (Err ''no data reference is provided'')
      | (Some _, Some _) \<Rightarrow> Inl (Err ''two data references are given in the struct'')
      | (Some _, None) \<Rightarrow> Inr p
      | (None, Some simple) \<Rightarrow>
          (let result = (if 0 < length simple
                         then [EMPTYKEY \<mapsto> \<lparr>fr_GroupByEnc = [], fr_AggregatingAttributes = simple\<rparr>]
                         else Map.empty)
           in Inr (p\<lparr>ca_GroupedData := Some result, ca_SimpleData := None\<rparr>)))"

text \<open>Messages: the elements must have one size, that of the lengths sent along.\<close>

definition cadm_ToBytes :: "('s, 'p) suite \<Rightarrow> nat \<Rightarrow> 'p FilteredResponseDet list \<Rightarrow> (byte list \<times> nat \<times> nat \<times> nat) res" where
  "cadm_ToBytes S final childData =
     andThen (par_list 1 (length childData) (\<lambda>i. frd_ToBytes S (childData ! i))) (\<lambda>bb.
     Inr (concat (map fst bb), if bb = [] then (0, 0, 0) else snd (bb ! (final mod length bb))))"

definition cadm_FromBytes :: "('s, 'p) suite \<Rightarrow> byte list \<Rightarrow> nat \<Rightarrow> nat \<Rightarrow> nat \<Rightarrow> 'p FilteredResponseDet list res" where
  "cadm_FromBytes S data gacbLength aabLength dtbLength =
     (let cipherTextSize = CipherTextByteSize S;
          elementLength = gacbLength * cipherTextSize + aabLength * cipherTextSize + dtbLength
      in if elementLength \<noteq> 0 \<and> 0 < length data
         then par_list 1 (length data div elementLength) (\<lambda>i.
           andThen (slice data (i * elementLength) (i * elementLength + elementLength)) (\<lambda>v.
           frd_FromBytes S v gacbLength aabLength dtbLength))
         else Inr [])"

text \<open>
  Merging one response of a child: the shorter vector of attributes is padded with encryptions of
  zero under the collective key.
\<close>

definition merge_response :: "('s, 'p) suite \<Rightarrow> 'p \<Rightarrow> (GroupingKey \<Rightarrow> nat \<Rightarrow> 's) \<Rightarrow> GroupingKey \<Rightarrow> 'p FilteredResponse
    \<Rightarrow> (GroupingKey \<rightharpoonup> 'p FilteredResponse) \<Rightarrow> (GroupingKey \<rightharpoonup> 'p FilteredResponse) res" where
  "merge_response S aggregate picks key aggr groupedData =
     (case groupedData key of
        None \<Rightarrow> Inr (groupedData(key \<mapsto> aggr))
      | Some localAggr \<Rightarrow>
          (let la = fr_AggregatingAttributes localAggr; aa = fr_AggregatingAttributes aggr;
               encZeros = map (\<lambda>e. EncryptInt S aggregate 0 (picks key e)) [0..<nat \<bar>int (length la) - int (length aa)\<bar>];
               (la', aa') = (if length la \<noteq> length aa
                             then (if length aa < length la then (la, aa @ encZeros) else (la @ encZeros, aa))
                             else (la, aa))
           in andThen (cv_Add S (NewCipherVector S (length la')) la' aa') (\<lambda>cv.
              Inr (groupedData(key \<mapsto> localAggr\<lparr>fr_AggregatingAttributes := cv\<rparr>)))))"

text \<open>The state of a node: its instance, its map and the columns collected for the proofs.\<close>

type_synonym ('s, 'p) ca_state =
  "('s, 'p) CollectiveAggregationProtocol \<times> (GroupingKey \<rightharpoonup> 'p FilteredResponse) \<times> (GroupingKey \<rightharpoonup> 'p CipherVector list)"

definition absorb_response :: "('s, 'p) suite \<Rightarrow> nat \<Rightarrow> 'p FilteredResponseDet \<Rightarrow> ('s, 'p) ca_state \<Rightarrow> ('s, 'p) ca_state res" where
  "absorb_response S child aggr st =
     (let (p, groupedData, cvMap) = st in
      andThen (if ca_Proofs p then FormatAggregationProofs aggr cvMap else Inr cvMap) (\<lambda>cvMap'.
      andThen (merge_response S (ca_Aggregate p) (ca_picks p child) (frd_DetTagGroupBy aggr) (Fr aggr) groupedData) (\<lambda>groupedData'.
      Inr (p, groupedData', cvMap'))))"

definition absorb_child :: "('s, 'p) suite \<Rightarrow> (nat \<times> nat \<times> nat) list \<Rightarrow> byte list list \<Rightarrow> nat \<Rightarrow> ('s, 'p) ca_state \<Rightarrow> ('s, 'p) ca_state res" where
  "absorb_child S lengths datas i st =
     andThen (index_at datas i) (\<lambda>data.
     let (gacbLength, aabLength, dtbLength) = lengths ! i in
     andThen (cadm_FromBytes S data gacbLength aabLength dtbLength) (\<lambda>childData.
     fold_res (absorb_response S i) childData st))"

definition ascendingAggregationPhase :: "('s, 'p) suite \<Rightarrow> ('s, 'p) ca_state \<Rightarrow> (nat \<times> nat \<times> nat) list \<Rightarrow> byte list list \<Rightarrow> ('s, 'p) ca_state res" where
  "ascendingAggregationPhase S st lengths datas = fold_res (absorb_child S lengths datas) [0..<length lengths] st"

text \<open>The messages for the parent; the node first reads its own message back.\<close>

definition send_aggregated :: "('s, 'p) suite \<Rightarrow> ('s, 'p) ca_state \<Rightarrow> ((nat \<times> nat \<times> nat) \<times> byte list) res" where
  "send_aggregated S st =
     (let (p, groupedData, cvMap) = st;
          detAggrResponses = map (\<lambda>(i, v). \<lparr>frd_DetTagGroupBy = i, Fr = v\<rparr>) (ca_visit p groupedData)
      in andThen (cadm_ToBytes S (ca_last p) detAggrResponses) (\<lambda>(data, gacbLength, aabLength, dtbLength).
         andThen (cadm_FromBytes S data gacbLength aabLength dtbLength) (\<lambda>_.
         Inr ((gacbLength, aabLength, dtbLength), data))))"

text \<open>The start of Dispatch: the data is checked and, with proofs, the local columns are formatted.\<close>

definition CollectiveAggregation_local :: "('s, 'p) CollectiveAggregationProtocol \<Rightarrow> ('s, 'p) ca_state res" where
  "CollectiveAggregation_local p =
     andThen (checkData p) (\<lambda>p'.
     let groupedData = (case ca_GroupedData p' of None \<Rightarrow> Map.empty | Some m \<Rightarrow> m) in
     andThen (if ca_Proofs p'
              then fold_res (\<lambda>(k, v). FormatAggregationProofs \<lparr>frd_DetTagGroupBy = k, Fr = v\<rparr>) (ca_visit p' groupedData) Map.empty
              else Inr Map.empty) (\<lambda>cvMap.
     Inr (p', groupedData, cvMap)))"

text \<open>The data that the proof function of a node receives, for an order of the entries of cvMap.\<close>

definition proof_data :: "('s, 'p) ca_state \<Rightarrow> (GroupingKey \<times> 'p CipherVector list) list \<Rightarrow> 'p CipherVector list \<times> 'p CipherVector" where
  "proof_data st entries =
     (let (p, aggregatedData, cvMap) = st in
      (concat (map snd entries),
       concat (map (\<lambda>(k, v). case aggregatedData k of None \<Rightarrow> [] | Some fr \<Rightarrow> fr_AggregatingAttributes fr) entries)))"

text \<open>The state in which the node at the top of a tree ends; at the root its map is the result.\<close>

definition CollectiveAggregation_node :: "('s, 'p) suite \<Rightarrow> ('s, 'p) CollectiveAggregationProtocol tree \<Rightarrow> ('s, 'p) ca_state res" where
  "CollectiveAggregation_node S = tree_run CollectiveAggregation_local (ascendingAggregationPhase S) (send_aggregated S)"

definition CollectiveAggregation_run :: "('s, 'p) suite \<Rightarrow> ('s, 'p) CollectiveAggregationProtocol tree \<Rightarrow> (GroupingKey \<rightharpoonup> 'p FilteredResponse) res" where
  "CollectiveAggregation_run S servers =
     andThen (CollectiveAggregation_node S servers) (\<lambda>(p, groupedData, cvMap). Inr groupedData)"

section \<open>Messages of equal-sized responses\<close>

definition shaped :: "nat \<Rightarrow> nat \<Rightarrow> nat \<Rightarrow> (GroupingKey \<Rightarrow> 'p CipherVector \<Rightarrow> bool) \<Rightarrow> GroupingKey \<Rightarrow> 'p FilteredResponse \<Rightarrow> bool" where
  \<comment> \<open>the lengths of the parts, and a relation of the key with the group\<close>
  "shaped g a d G k fr \<longleftrightarrow> length (fr_GroupByEnc fr) = g \<and> length (fr_AggregatingAttributes fr) = a \<and> length k = d \<and> G k (fr_GroupByEnc fr)"

context kyber_suite
begin

lemma frd_bytes_ex:
  obtains b where "frd_ToBytes S frd = Inr (b, length (fr_GroupByEnc (Fr frd)), length (fr_AggregatingAttributes (Fr frd)), length (frd_DetTagGroupBy frd))"
    "length b = length (fr_GroupByEnc (Fr frd)) * CipherTextByteSize S + length (fr_AggregatingAttributes (Fr frd)) * CipherTextByteSize S +
       length (frd_DetTagGroupBy frd)"
    "frd_FromBytes S b (length (fr_GroupByEnc (Fr frd))) (length (fr_AggregatingAttributes (Fr frd))) (length (frd_DetTagGroupBy frd)) = Inr frd"
proof -
  obtain x where x: "cv_ToBytes S (fr_AggregatingAttributes (Fr frd)) = Inr (x, length (fr_AggregatingAttributes (Fr frd)))"
    "length x = length (fr_AggregatingAttributes (Fr frd)) * (2 * PointLen S)" by (rule cv_bytes_ex)
  obtain y where y: "cv_ToBytes S (fr_GroupByEnc (Fr frd)) = Inr (y, length (fr_GroupByEnc (Fr frd)))"
    "length y = length (fr_GroupByEnc (Fr frd)) * (2 * PointLen S)" by (rule cv_bytes_ex)
  let ?b = "x @ y @ string_bytes (frd_DetTagGroupBy frd)"
  have b: "frd_ToBytes S frd = Inr (?b, length (fr_GroupByEnc (Fr frd)), length (fr_AggregatingAttributes (Fr frd)), length (frd_DetTagGroupBy frd))"
    using x y by (simp add: frd_ToBytes_def fr_ToBytes_def Let_def)
  show thesis
    by (rule that [OF b]) (use x y frd_FromBytes_ToBytes [of frd] b in \<open>simp_all add: CipherTextByteSize_def\<close>)
qed

lemma cadm_roundtrip:
  assumes "\<forall>frd\<in>set frds. shaped g a d G (frd_DetTagGroupBy frd) (Fr frd)" and "0 < a"
  obtains b where "cadm_ToBytes S final frds = Inr (b, if frds = [] then (0, 0, 0) else (g, a, d))"
    "frds \<noteq> [] \<longrightarrow> cadm_FromBytes S b g a d = Inr frds" "frds = [] \<longrightarrow> b = []"
proof -
  let ?c = "CipherTextByteSize S" and ?n = "length frds"
  let ?el = "g * ?c + a * ?c + d"
  have "\<forall>frd. \<exists>b. frd \<in> set frds \<longrightarrow> frd_ToBytes S frd = Inr (b, g, a, d) \<and> length b = ?el \<and> frd_FromBytes S b g a d = Inr frd"
    using frd_bytes_ex assms(1) unfolding shaped_def by metis
  then obtain f where f: "\<And>frd. frd \<in> set frds \<Longrightarrow> frd_ToBytes S frd = Inr (f frd, g, a, d) \<and> length (f frd) = ?el \<and> frd_FromBytes S (f frd) g a d = Inr frd"
    by metis
  have el: "0 < ?el" using assms(2) point_len_pos by (simp add: CipherTextByteSize_def)
  have 1: "par_list 1 ?n (\<lambda>i. frd_ToBytes S (frds ! i)) = Inr (map (\<lambda>i. (f (frds ! i), g, a, d)) [0..<?n])"
    by (rule par_list_Inr) (simp_all add: f)
  have 2: "map (\<lambda>i. (f (frds ! i), g, a, d)) [0..<?n] = map (\<lambda>frd. (f frd, g, a, d)) frds"
    by (intro nth_equalityI) simp_all
  have b: "cadm_ToBytes S final frds = Inr (concat (map f frds), if frds = [] then (0, 0, 0) else (g, a, d))"
    unfolding cadm_ToBytes_def 1 2 by (simp add: comp_def)
  have len: "length (concat (map f frds)) = ?n * ?el"
    using f by (simp add: length_concat comp_def sum_list_triv cong: map_cong)
  have "cadm_FromBytes S (concat (map f frds)) g a d = Inr frds" if "frds \<noteq> []"
  proof -
    have "par_list 1 ?n (\<lambda>i. andThen (slice (concat (map f frds)) (i * ?el) (i * ?el + ?el)) (\<lambda>v. frd_FromBytes S v g a d)) =
        Inr (map (\<lambda>i. frds ! i) [0..<?n])"
      using f by (intro par_list_Inr) (simp_all add: slice_concat)
    moreover have "length (concat (map f frds)) div ?el = ?n" using el by (simp only: len) simp
    moreover have "0 < length (concat (map f frds))" using el that by (simp only: len) simp
    ultimately show ?thesis using el by (simp add: cadm_FromBytes_def Let_def map_nth)
  qed
  with b show thesis by (intro that [of "concat (map f frds)"]) auto
qed

end

section \<open>Merging adds the attributes of each key\<close>

definition sum_of :: "('s, 'p) suite \<Rightarrow> (GroupingKey \<rightharpoonup> 'p FilteredResponse) \<Rightarrow> GroupingKey \<Rightarrow> nat \<Rightarrow> 'p CipherText" where
  "sum_of S m k i = (case m k of None \<Rightarrow> NewCipherText S | Some fr \<Rightarrow> aggr_at S fr i)"

text \<open>The columns for the proofs always sum up to the attributes.\<close>

definition proved :: "('s, 'p) suite \<Rightarrow> (GroupingKey \<rightharpoonup> 'p FilteredResponse) \<Rightarrow> (GroupingKey \<rightharpoonup> 'p CipherVector list) \<Rightarrow> bool" where
  "proved S m cv \<longleftrightarrow> dom cv = dom m \<and>
     (\<forall>k fr cols. m k = Some fr \<longrightarrow> cv k = Some cols \<longrightarrow> fr_AggregatingAttributes fr = map (csum S) cols \<and> [] \<notin> set cols)"

definition visits :: "nat \<Rightarrow> ('s, 'p) CollectiveAggregationProtocol \<Rightarrow> bool" where
  \<comment> \<open>The range loops of the server visit every finite map with keys of d characters.\<close>
  "visits d p \<longleftrightarrow> (\<forall>m. finite (dom m) \<longrightarrow> (\<forall>k\<in>dom m. length k = d) \<longrightarrow> enumerates (ca_visit p m) m)"

lemma visits_enumerates:
  assumes "visits d p" and "finite (dom m)" and "\<forall>k fr. m k = Some fr \<longrightarrow> shaped g a d G k fr"
  shows "enumerates (ca_visit p m) m"
proof -
  have "\<forall>k\<in>dom m. length k = d" using assms(3) by (auto simp: shaped_def)
  then show ?thesis using assms(1,2) by (simp add: visits_def)
qed

fun ca_valid :: "('s, 'p) suite \<Rightarrow> nat \<Rightarrow> nat \<Rightarrow> nat \<Rightarrow> (GroupingKey \<Rightarrow> 'p CipherVector \<Rightarrow> bool) \<Rightarrow> bool \<Rightarrow> ('s, 'p) ca_state \<Rightarrow> bool" where
  "ca_valid S g a d G nonempty (p, m, cv) \<longleftrightarrow>
     0 < a \<and> finite (dom m) \<and> visits d p \<and> (\<forall>k fr. m k = Some fr \<longrightarrow> shaped g a d G k fr) \<and>
     (nonempty \<longrightarrow> m \<noteq> Map.empty) \<and> (ca_Proofs p \<longrightarrow> proved S m cv)"

fun ca_sums :: "('s, 'p) suite \<Rightarrow> ('s, 'p) ca_state \<Rightarrow> GroupingKey set \<times> (GroupingKey \<Rightarrow> nat \<Rightarrow> 'p CipherText)" where
  "ca_sums S (p, m, cv) = (dom m, sum_of S m)"

lemma merge_response_same_length:
  assumes "\<And>u. m k = Some u \<Longrightarrow> length (fr_AggregatingAttributes u) = length (fr_AggregatingAttributes fr)"
  shows "merge_response S aggregate picks k fr m =
    Inr (m(k \<mapsto> case m k of None \<Rightarrow> fr
                | Some u \<Rightarrow> u\<lparr>fr_AggregatingAttributes := map2 (ct_Add S) (fr_AggregatingAttributes u) (fr_AggregatingAttributes fr)\<rparr>))"
  using assms by (cases "m k") (simp_all add: merge_response_def Let_def cv_Add_Inr)

text \<open>Formatting one response keeps the columns in step with the merged attributes.\<close>

context kyber_suite
begin

lemma format_proved:
  assumes "proved S m cv" and "shaped g a d G (frd_DetTagGroupBy frd) (Fr frd)" and "0 < a"
    and "\<forall>k fr. m k = Some fr \<longrightarrow> shaped g a d G k fr" and "merge_response S aggregate picks (frd_DetTagGroupBy frd) (Fr frd) m = Inr m'"
  shows "\<exists>cv'. FormatAggregationProofs frd cv = Inr cv' \<and> proved S m' cv'"
proof -
  let ?k = "frd_DetTagGroupBy frd" and ?fr = "Fr frd"
  let ?aggr = "fr_AggregatingAttributes ?fr"
  have len: "length ?aggr = a" "length (fr_AggregatingAttributes u) = a" if "m ?k = Some u" for u
    using assms(2,4) that by (simp_all add: shaped_def)
  show ?thesis
  proof (cases "m ?k")
    case None
    then have cv: "cv ?k = None" using assms(1) by (auto simp: proved_def)
    have "?aggr \<noteq> []" using assms(2,3) by (auto simp: shaped_def)
    then have "FormatAggregationProofs frd cv = Inr (cv(?k \<mapsto> map (\<lambda>ct. [ct]) ?aggr))"
      using cv by (simp add: FormatAggregationProofs_def Let_def)
    moreover have "m' = m(?k \<mapsto> ?fr)" using assms(5) None by (simp add: merge_response_def)
    ultimately show ?thesis
      using assms(1) by (auto simp: proved_def comp_def ct_ac)
  next
    case (Some u)
    then obtain cols where cols: "cv ?k = Some cols" "fr_AggregatingAttributes u = map (csum S) cols" "[] \<notin> set cols"
      using assms(1) unfolding proved_def by (metis domD domI)
    have n: "length cols = a" using cols(2) len(2) [OF Some] by simp
    let ?cols = "map (\<lambda>i. cols ! i @ [?aggr ! i]) [0..<a]"
    have "map (\<lambda>i. if i < length ?aggr then cols ! i @ [?aggr ! i] else cols ! i) [0..<length cols] = ?cols"
      using len(1) [OF Some] n by simp
    then have f: "FormatAggregationProofs frd cv = Inr (cv(?k \<mapsto> ?cols))"
      using FormatAggregationProofs_append [of cv ?k cols ?aggr] len(1) [OF Some] n cols(1)
      unfolding FormatAggregationProofs_def Let_def by (simp only: option.case order_refl)
    have m': "m' = m(?k \<mapsto> u\<lparr>fr_AggregatingAttributes := map2 (ct_Add S) (fr_AggregatingAttributes u) ?aggr\<rparr>)"
      using merge_response_same_length [of m ?k ?fr S aggregate picks] len Some assms(5) by simp
    have "map2 (ct_Add S) (fr_AggregatingAttributes u) ?aggr = map (csum S) ?cols"
      using len [OF Some] n by (intro nth_equalityI) (simp_all add: cols(2) ct_ac)
    then have "proved S m' (cv(?k \<mapsto> ?cols))"
      using assms(1) by (auto simp: proved_def m')
    with f show ?thesis by blast
  qed
qed

lemma absorb_response_ok:
  assumes "ca_valid S g a d G ne (p, m, cv)" and "shaped g a d G (frd_DetTagGroupBy frd) (Fr frd)"
  shows "\<exists>m' cv'. absorb_response S child frd (p, m, cv) = Inr (p, m', cv') \<and> ca_valid S g a d G ne (p, m', cv') \<and>
    dom m' = insert (frd_DetTagGroupBy frd) (dom m) \<and>
    (\<forall>k i. sum_of S m' k i = (if k = frd_DetTagGroupBy frd then ct_Add S (sum_of S m k i) (aggr_at S (Fr frd) i) else sum_of S m k i))"
proof -
  let ?k = "frd_DetTagGroupBy frd" and ?fr = "Fr frd"
  define w where "w = (case m ?k of None \<Rightarrow> ?fr
    | Some u \<Rightarrow> u\<lparr>fr_AggregatingAttributes := map2 (ct_Add S) (fr_AggregatingAttributes u) (fr_AggregatingAttributes ?fr)\<rparr>)"
  have sh: "shaped g a d G k u" if "m k = Some u" for k u using assms(1) that by simp
  have m': "merge_response S (ca_Aggregate p) (ca_picks p child) ?k ?fr m = Inr (m(?k \<mapsto> w))"
    unfolding w_def using sh assms(2) by (intro merge_response_same_length) (simp add: shaped_def)
  have w: "shaped g a d G ?k w" "aggr_at S w i = ct_Add S (sum_of S m ?k i) (aggr_at S ?fr i)" for i
    using assms(2) sh [of ?k] by (auto simp: w_def shaped_def sum_of_def aggr_at_def split: option.split)
  obtain cv' where cv': "(if ca_Proofs p then FormatAggregationProofs frd cv else Inr cv) = Inr cv'"
      "ca_Proofs p \<longrightarrow> proved S (m(?k \<mapsto> w)) cv'"
    using format_proved [OF _ assms(2) _ _ m', of cv] assms(1) by (cases "ca_Proofs p") auto
  have "absorb_response S child frd (p, m, cv) = Inr (p, m(?k \<mapsto> w), cv')"
    using cv'(1) m' by (simp add: absorb_response_def)
  moreover have "ca_valid S g a d G ne (p, m(?k \<mapsto> w), cv')" using assms(1) cv'(2) w(1) by auto
  moreover have "sum_of S (m(?k \<mapsto> w)) k i = (if k = ?k then ct_Add S (sum_of S m k i) (aggr_at S ?fr i) else sum_of S m k i)" for k i
    by (simp add: sum_of_def [of S "m(?k \<mapsto> w)"] w(2)) (simp add: sum_of_def)
  moreover have "dom (m(?k \<mapsto> w)) = insert ?k (dom m)" by simp
  ultimately show ?thesis by blast
qed

lemma absorb_responses_ok:
  assumes "ca_valid S g a d G ne (p, m, cv)" and "\<forall>frd\<in>set frds. shaped g a d G (frd_DetTagGroupBy frd) (Fr frd)"
  shows "\<exists>m' cv'. fold_res (absorb_response S child) frds (p, m, cv) = Inr (p, m', cv') \<and> ca_valid S g a d G ne (p, m', cv') \<and>
    dom m' = dom m \<union> frd_DetTagGroupBy ` set frds \<and>
    (\<forall>k i. sum_of S m' k i = ct_Add S (sum_of S m k i)
      (csum S (map (\<lambda>frd. aggr_at S (Fr frd) i) (filter (\<lambda>frd. frd_DetTagGroupBy frd = k) frds))))"
  using assms
proof (induction frds arbitrary: m cv)
  case Nil
  then show ?case by auto
next
  case (Cons frd frds)
  obtain m1 cv1 where 1: "absorb_response S child frd (p, m, cv) = Inr (p, m1, cv1)" "ca_valid S g a d G ne (p, m1, cv1)"
    "dom m1 = insert (frd_DetTagGroupBy frd) (dom m)"
    "\<And>k i. sum_of S m1 k i = (if k = frd_DetTagGroupBy frd then ct_Add S (sum_of S m k i) (aggr_at S (Fr frd) i) else sum_of S m k i)"
    using absorb_response_ok [OF Cons.prems(1), of frd child] Cons.prems(2) by auto
  obtain m2 cv2 where 2: "fold_res (absorb_response S child) frds (p, m1, cv1) = Inr (p, m2, cv2)" "ca_valid S g a d G ne (p, m2, cv2)"
    "dom m2 = dom m1 \<union> frd_DetTagGroupBy ` set frds"
    "\<And>k i. sum_of S m2 k i = ct_Add S (sum_of S m1 k i)
      (csum S (map (\<lambda>frd. aggr_at S (Fr frd) i) (filter (\<lambda>frd. frd_DetTagGroupBy frd = k) frds)))"
    using Cons.IH [OF 1(2)] Cons.prems(2) by auto
  show ?case
    by (intro exI [of _ m2] exI [of _ cv2] conjI) (use 2 in \<open>auto simp: 1 ct_ac simp del: ca_valid.simps\<close>)
qed

end
section \<open>The tree adds up the maps of all servers\<close>

text \<open>
  The map with which a server starts. A server is ready when checkData accepts it and all its
  responses have g grouping and a aggregating ciphertexts and keys of d characters.
\<close>

definition local_map :: "('s, 'p) CollectiveAggregationProtocol \<Rightarrow> GroupingKey \<rightharpoonup> 'p FilteredResponse" where
  "local_map p =
     (case checkData p of
        Inl _ \<Rightarrow> Map.empty
      | Inr p' \<Rightarrow> (case ca_GroupedData p' of None \<Rightarrow> Map.empty | Some m \<Rightarrow> m))"

definition ready :: "nat \<Rightarrow> nat \<Rightarrow> nat \<Rightarrow> (GroupingKey \<Rightarrow> 'p CipherVector \<Rightarrow> bool) \<Rightarrow> bool \<Rightarrow> ('s, 'p) CollectiveAggregationProtocol \<Rightarrow> bool" where
  "ready g a d G nonempty p \<longleftrightarrow>
     (\<exists>p' m. checkData p = Inr p' \<and> ca_GroupedData p' = Some m \<and> finite (dom m) \<and> visits d p' \<and> 0 < a \<and>
       (\<forall>k fr. m k = Some fr \<longrightarrow> shaped g a d G k fr) \<and> (nonempty \<longrightarrow> m \<noteq> Map.empty))"

text \<open>The responses that the servers of a tree hold under a key.\<close>

definition held :: "GroupingKey \<Rightarrow> ('s, 'p) CollectiveAggregationProtocol tree \<Rightarrow> 'p FilteredResponse list" where
  "held k servers = List.map_filter (\<lambda>p. local_map p k) (tree_nodes servers)"

definition sums_merge :: "('s, 'p) suite \<Rightarrow> GroupingKey set \<times> (GroupingKey \<Rightarrow> nat \<Rightarrow> 'p CipherText) \<Rightarrow>
    GroupingKey set \<times> (GroupingKey \<Rightarrow> nat \<Rightarrow> 'p CipherText) \<Rightarrow> GroupingKey set \<times> (GroupingKey \<Rightarrow> nat \<Rightarrow> 'p CipherText)" where
  "sums_merge S x y = (fst x \<union> fst y, \<lambda>k i. ct_Add S (snd x k i) (snd y k i))"

definition no_sums :: "('s, 'p) suite \<Rightarrow> GroupingKey set \<times> (GroupingKey \<Rightarrow> nat \<Rightarrow> 'p CipherText)" where
  "no_sums S = ({}, \<lambda>k i. NewCipherText S)"

abbreviation responses_of :: "('s, 'p) CollectiveAggregationProtocol \<Rightarrow> (GroupingKey \<rightharpoonup> 'p FilteredResponse) \<Rightarrow> 'p FilteredResponseDet list" where
  "responses_of p m \<equiv> map (\<lambda>(i, v). \<lparr>frd_DetTagGroupBy = i, Fr = v\<rparr>) (ca_visit p m)"

lemma total_sums:
  "total (sums_merge S) (no_sums S) (map f xs) = (\<Union>x\<in>set xs. fst (f x), \<lambda>k i. csum S (map (\<lambda>x. snd (f x) k i) xs))"
  by (induction xs) (simp_all add: sums_merge_def no_sums_def)

context kyber_suite
begin

lemma visit_sums:
  assumes "enumerates es m"
  shows "csum S (map (\<lambda>frd. aggr_at S (Fr frd) i) (filter (\<lambda>frd. frd_DetTagGroupBy frd = k)
      (map (\<lambda>(i, v). \<lparr>frd_DetTagGroupBy = i, Fr = v\<rparr>) es))) = sum_of S m k i"
proof -
  have "distinct (map fst es) \<Longrightarrow> csum S (map (\<lambda>frd. aggr_at S (Fr frd) i) (filter (\<lambda>frd. frd_DetTagGroupBy frd = k)
      (map (\<lambda>(i, v). \<lparr>frd_DetTagGroupBy = i, Fr = v\<rparr>) es))) = sum_of S (map_of es) k i"
  proof (induction es)
    case Nil
    then show ?case by (simp add: sum_of_def)
  next
    case (Cons e es)
    obtain k' v where e: "e = (k', v)" by (cases e)
    have "map_of es k' = None" using Cons.prems e by (auto simp: map_of_eq_None_iff)
    with Cons show ?case by (auto simp: e sum_of_def)
  qed
  with assms show ?thesis by (simp add: enumerates_def)
qed

lemma responses_shaped:
  assumes "ca_valid S g a d G ne (p, m, cv)"
  shows "\<forall>frd\<in>set (responses_of p m). shaped g a d G (frd_DetTagGroupBy frd) (Fr frd)"
    and "frd_DetTagGroupBy ` set (responses_of p m) = dom m" and "responses_of p m = [] \<longleftrightarrow> m = Map.empty"
proof -
  have e: "enumerates (ca_visit p m) m" using assms by (auto intro: visits_enumerates)
  show "\<forall>frd\<in>set (responses_of p m). shaped g a d G (frd_DetTagGroupBy frd) (Fr frd)"
    using enumerates_set [OF e] assms by auto
  show "frd_DetTagGroupBy ` set (responses_of p m) = dom m"
    using enumerates_dom [OF e] by (force simp: image_iff)
  show "responses_of p m = [] \<longleftrightarrow> m = Map.empty"
    using e enumerates_dom [OF e] by (auto simp: enumerates_def)
qed

lemma send_aggregated_ok:
  assumes "ca_valid S g a d G ne (p, m, cv)"
  obtains b where "send_aggregated S (p, m, cv) = Inr (if m = Map.empty then (0, 0, 0) else (g, a, d), b)"
    "m \<noteq> Map.empty \<longrightarrow> cadm_FromBytes S b g a d = Inr (responses_of p m)" "m = Map.empty \<longrightarrow> b = []"
proof -
  have a: "0 < a" using assms by simp
  obtain b where b: "cadm_ToBytes S (ca_last p) (responses_of p m) = Inr (b, if responses_of p m = [] then (0, 0, 0) else (g, a, d))"
    "responses_of p m \<noteq> [] \<longrightarrow> cadm_FromBytes S b g a d = Inr (responses_of p m)" "responses_of p m = [] \<longrightarrow> b = []"
    by (rule cadm_roundtrip [OF responses_shaped(1) [OF assms] a])
  note b = b [unfolded responses_shaped(3) [OF assms]]
  show thesis
    by (rule that [of b]) (use b in \<open>cases "m = Map.empty"; simp add: send_aggregated_def Let_def cadm_FromBytes_def\<close>)+
qed

lemma absorb_child_ok:
  assumes "ca_valid S g a d G ne (p, m, cv)" and "ca_valid S g a d G ne (pc, mc, cvc)"
    and "send_aggregated S (pc, mc, cvc) = Inr (l, b)" and "i < length datas" and "datas ! i = b"
    and "lengths ! i = l"
  shows "\<exists>m' cv'. absorb_child S lengths datas i (p, m, cv) = Inr (p, m', cv') \<and> ca_valid S g a d G ne (p, m', cv') \<and>
    ca_sums S (p, m', cv') = sums_merge S (ca_sums S (p, m, cv)) (ca_sums S (pc, mc, cvc))"
proof -
  have dec: "cadm_FromBytes S b (fst l) (fst (snd l)) (snd (snd l)) = Inr (responses_of pc mc)"
  proof (rule send_aggregated_ok [OF assms(2)])
    fix b'
    assume s: "send_aggregated S (pc, mc, cvc) = Inr (if mc = Map.empty then (0, 0, 0) else (g, a, d), b')"
      "mc \<noteq> Map.empty \<longrightarrow> cadm_FromBytes S b' g a d = Inr (responses_of pc mc)" "mc = Map.empty \<longrightarrow> b' = []"
    with assms(3) have "l = (if mc = Map.empty then (0, 0, 0) else (g, a, d))" "b = b'" by simp_all
    moreover have "responses_of pc mc = []" if "mc = Map.empty" using responses_shaped(3) [OF assms(2)] that by blast
    ultimately show ?thesis using s by (cases "mc = Map.empty") (simp_all add: cadm_FromBytes_def)
  qed
  obtain m' cv' where 1: "fold_res (absorb_response S i) (responses_of pc mc) (p, m, cv) = Inr (p, m', cv')"
    "ca_valid S g a d G ne (p, m', cv')" "dom m' = dom m \<union> frd_DetTagGroupBy ` set (responses_of pc mc)"
    "\<And>k j. sum_of S m' k j = ct_Add S (sum_of S m k j)
      (csum S (map (\<lambda>frd. aggr_at S (Fr frd) j) (filter (\<lambda>frd. frd_DetTagGroupBy frd = k) (responses_of pc mc))))"
    using absorb_responses_ok [OF assms(1) responses_shaped(1) [OF assms(2)], of i] by (auto simp del: ca_valid.simps)
  have "enumerates (ca_visit pc mc) mc" using assms(2) by (auto intro: visits_enumerates)
  then have "ca_sums S (p, m', cv') = sums_merge S (ca_sums S (p, m, cv)) (ca_sums S (pc, mc, cvc))"
    using 1(3,4) responses_shaped(2) [OF assms(2)] by (simp add: sums_merge_def visit_sums fun_eq_iff)
  moreover have "absorb_child S lengths datas i (p, m, cv) = Inr (p, m', cv')"
    using 1(1) dec assms(4,5,6) by (cases l) (simp add: absorb_child_def)
  ultimately show ?thesis using 1(2) by blast
qed

lemma absorb_children_ok:
  assumes "ca_valid S g a d G ne (p, m, cv)" and "length lengths = length cs" and "length datas = length cs"
    and "\<And>i. i < length cs \<Longrightarrow> ca_valid S g a d G ne (cs ! i) \<and> send_aggregated S (cs ! i) = Inr (lengths ! i, datas ! i)"
  shows "\<exists>m' cv'. ascendingAggregationPhase S (p, m, cv) lengths datas = Inr (p, m', cv') \<and> ca_valid S g a d G ne (p, m', cv') \<and>
    ca_sums S (p, m', cv') = sums_merge S (ca_sums S (p, m, cv)) (total (sums_merge S) (no_sums S) (map (ca_sums S) cs))"
proof -
  have app: "sums_merge S x (total (sums_merge S) (no_sums S) (xs @ [y])) =
      sums_merge S (sums_merge S x (total (sums_merge S) (no_sums S) xs)) y" for x y xs
    by (induction xs arbitrary: x) (auto simp: sums_merge_def no_sums_def ct_ac)
  have "\<exists>m' cv'. fold_res (absorb_child S lengths datas) [0..<k] (p, m, cv) = Inr (p, m', cv') \<and> ca_valid S g a d G ne (p, m', cv') \<and>
    ca_sums S (p, m', cv') = sums_merge S (ca_sums S (p, m, cv)) (total (sums_merge S) (no_sums S) (map (ca_sums S) (take k cs)))"
    if "k \<le> length cs" for k
    using that
  proof (induction k)
    case 0
    then show ?case using assms(1) by (auto simp: sums_merge_def no_sums_def)
  next
    case (Suc k)
    then obtain m1 cv1 where 1: "fold_res (absorb_child S lengths datas) [0..<k] (p, m, cv) = Inr (p, m1, cv1)" "ca_valid S g a d G ne (p, m1, cv1)"
      "ca_sums S (p, m1, cv1) = sums_merge S (ca_sums S (p, m, cv)) (total (sums_merge S) (no_sums S) (map (ca_sums S) (take k cs)))"
      by (auto simp del: ca_valid.simps ca_sums.simps)
    obtain pc mc cvc where c: "cs ! k = (pc, mc, cvc)" by (cases "cs ! k")
    have k: "ca_valid S g a d G ne (pc, mc, cvc)" "send_aggregated S (pc, mc, cvc) = Inr (lengths ! k, datas ! k)"
      using assms(4) [of k] Suc.prems c by (simp_all del: ca_valid.simps)
    obtain m2 cv2 where 2: "absorb_child S lengths datas k (p, m1, cv1) = Inr (p, m2, cv2)" "ca_valid S g a d G ne (p, m2, cv2)"
      "ca_sums S (p, m2, cv2) = sums_merge S (ca_sums S (p, m1, cv1)) (ca_sums S (cs ! k))"
      using absorb_child_ok [OF 1(2) k(1) k(2), of k datas lengths] Suc.prems assms(3) unfolding c by auto
    have t: "map (ca_sums S) (take (Suc k) cs) = map (ca_sums S) (take k cs) @ [ca_sums S (cs ! k)]"
      using Suc.prems by (simp add: take_Suc_conv_app_nth)
    show ?case
      by (intro exI [of _ m2] exI [of _ cv2] conjI)
        (use 1(1) 2 in \<open>simp_all add: fold_res_append t app 1(3) del: ca_valid.simps ca_sums.simps\<close>)
  qed
  from this [of "length cs"] assms(2) show ?thesis by (simp add: ascendingAggregationPhase_def)
qed

sublocale aggregated: convergecast "ascendingAggregationPhase S" "send_aggregated S" "ca_valid S g a d G ne" "ca_sums S"
  "sums_merge S" "no_sums S" "\<lambda>lo da. ne \<or> lo = da" for g a d G ne
proof (unfold_locales, goal_cases)
  case (1 s)
  obtain p m cv where "s = (p, m, cv)" by (cases s)
  with 1 send_aggregated_ok [of g a d G ne p m cv] show ?case by metis
next
  case (2 s cs msgs lo da)
  obtain p m cv where s: "s = (p, m, cv)" by (cases s)
  have len: "length msgs = length cs" using 2(2) by (auto dest: list_all2_lengthD)
  have c: "ca_valid S g a d G ne (cs ! i)" "send_aggregated S (cs ! i) = Inr (msgs ! i)" if "i < length cs" for i
    using list_all2_nthD [OF 2(2) that] by blast+
  have lo: "i \<in> set lo \<Longrightarrow> i < length cs" and da: "i \<in> set da \<Longrightarrow> i < length cs" for i
    using mset_eq_setD [OF 2(3)] mset_eq_setD [OF 2(4)] by simp_all
  have l: "length lo = length cs" "length da = length cs" using 2(3,4) by (metis length_upt diff_zero size_mset)+
  have same: "fst (msgs ! i) = fst (msgs ! j)" if ne and "i < length cs" and "j < length cs" for i j
  proof -
    have "fst (msgs ! i) = (g, a, d)" if "i < length cs" for i
    proof -
      obtain pc mc cvc where ci: "cs ! i = (pc, mc, cvc)" by (cases "cs ! i")
      with c(1) [OF that] \<open>ne\<close> have "mc \<noteq> Map.empty" by simp
      then show ?thesis
        using c [OF that] unfolding ci by (cases "msgs ! i", rule_tac send_aggregated_ok [of g a d G ne pc mc cvc]) auto
    qed
    with that show ?thesis by simp
  qed
  let ?cs = "arrival da cs"
  have "ca_valid S g a d G ne (?cs ! i) \<and> send_aggregated S (?cs ! i) = Inr (arrival lo (map fst msgs) ! i, arrival da (map snd msgs) ! i)"
    if "i < length ?cs" for i
  proof -
    have i: "i < length cs" "da ! i < length cs" "lo ! i < length cs"
      using that da [of "da ! i"] lo [of "lo ! i"] l by (simp_all add: arrival_def)
    have "fst (msgs ! (lo ! i)) = fst (msgs ! (da ! i))" using 2(5) same i by metis
    with i c l len show ?thesis by (simp add: arrival_def)
  qed
  moreover have "length (arrival lo (map fst msgs)) = length ?cs" "length (arrival da (map snd msgs)) = length ?cs"
    by (simp_all add: arrival_def l)
  ultimately obtain m' cv' where r: "ascendingAggregationPhase S (p, m, cv) (arrival lo (map fst msgs)) (arrival da (map snd msgs)) = Inr (p, m', cv')"
    "ca_valid S g a d G ne (p, m', cv')"
    "ca_sums S (p, m', cv') = sums_merge S (ca_sums S (p, m, cv)) (total (sums_merge S) (no_sums S) (map (ca_sums S) ?cs))"
    using absorb_children_ok [of g a d G ne p m cv "arrival lo (map fst msgs)" ?cs "arrival da (map snd msgs)"] 2(1) s by metis
  have "total (sums_merge S) (no_sums S) (map (ca_sums S) ?cs) = total (sums_merge S) (no_sums S) (map (ca_sums S) cs)"
  proof -
    have "csum S (map (\<lambda>x. snd (ca_sums S x) k i) ?cs) = csum S (map (\<lambda>x. snd (ca_sums S x) k i) cs)" for k i
      using mset_arrival [OF 2(4)] by (intro csum_mset) simp
    then show ?thesis by (simp add: total_sums set_arrival [OF 2(4)])
  qed
  with r show ?case unfolding s by (metis (no_types))
qed (auto simp: sums_merge_def no_sums_def ct_ac)

lemma local_ok:
  assumes "checkData p = Inr p'" and "ca_GroupedData p' = Some m" and "finite (dom m)" and "visits d p'" and "0 < a"
    and "\<forall>k fr. m k = Some fr \<longrightarrow> shaped g a d G k fr" and "ne \<longrightarrow> m \<noteq> Map.empty"
  shows "\<exists>cv. CollectiveAggregation_local p = Inr (p', m, cv) \<and> ca_valid S g a d G ne (p', m, cv)"
proof -
  have e: "enumerates (ca_visit p' m) m" using assms(3,4,6) by (intro visits_enumerates)
  have fmt: "\<exists>cv. fold_res (\<lambda>(k, v). FormatAggregationProofs \<lparr>frd_DetTagGroupBy = k, Fr = v\<rparr>) es Map.empty = Inr cv \<and> proved S (map_of es) cv"
    if "distinct (map fst es)" and "\<forall>(k, fr)\<in>set es. shaped g a d G k fr" for es
    using that
  proof (induction es rule: rev_induct)
    case Nil
    then show ?case by (simp add: proved_def)
  next
    case (snoc e es)
    obtain k v where e: "e = (k, v)" by (cases e)
    obtain cv where cv: "fold_res (\<lambda>(k, v). FormatAggregationProofs \<lparr>frd_DetTagGroupBy = k, Fr = v\<rparr>) es Map.empty = Inr cv"
      "proved S (map_of es) cv" using snoc by auto
    have k: "map_of es k = None" using snoc.prems e by (force simp: map_of_eq_None_iff)
    let ?picks = "\<lambda>k i. Scalar_Zero S"
    have "merge_response S (Point_Null S) ?picks (frd_DetTagGroupBy \<lparr>frd_DetTagGroupBy = k, Fr = v\<rparr>) (Fr \<lparr>frd_DetTagGroupBy = k, Fr = v\<rparr>) (map_of es) =
        Inr ((map_of es)(k \<mapsto> v))" using k by (simp add: merge_response_def)
    moreover have "\<forall>k fr. map_of es k = Some fr \<longrightarrow> shaped g a d G k fr" using snoc.prems(2) by (auto dest!: map_of_SomeD)
    ultimately obtain cv' where "FormatAggregationProofs \<lparr>frd_DetTagGroupBy = k, Fr = v\<rparr> cv = Inr cv'" "proved S ((map_of es)(k \<mapsto> v)) cv'"
      using format_proved [OF cv(2), of g a d G "\<lparr>frd_DetTagGroupBy = k, Fr = v\<rparr>" "Point_Null S" ?picks] snoc.prems(2) assms(5) e
      by auto
    moreover have upd: "map_of (es @ [e]) = (map_of es)(k \<mapsto> v)"
      using k by (auto simp: e map_add_def fun_eq_iff split: option.split)
    moreover have "fold_res (\<lambda>(k, v). FormatAggregationProofs \<lparr>frd_DetTagGroupBy = k, Fr = v\<rparr>) (es @ [e]) Map.empty = Inr cv'"
      using cv(1) calculation(1) by (simp add: fold_res_append e)
    ultimately show ?case by metis
  qed
  have "\<forall>(k, fr)\<in>set (ca_visit p' m). shaped g a d G k fr" using enumerates_set [OF e] assms(6) by auto
  then obtain cv where "(if ca_Proofs p' then fold_res (\<lambda>(k, v). FormatAggregationProofs \<lparr>frd_DetTagGroupBy = k, Fr = v\<rparr>) (ca_visit p' m) Map.empty
      else Inr Map.empty) = Inr cv" "ca_Proofs p' \<longrightarrow> proved S m cv"
    using fmt [of "ca_visit p' m"] e by (cases "ca_Proofs p'") (auto simp: enumerates_def)
  with assms show ?thesis by (intro exI [of _ cv]) (simp add: CollectiveAggregation_local_def)
qed

lemma collective_aggregation:
  assumes "arrivals_ok (\<lambda>lo da. ne \<or> lo = da) servers" and "\<forall>p\<in>set (tree_nodes servers). ready g a d G ne p"
  shows "\<exists>st. CollectiveAggregation_node S servers = Inr st \<and> ca_valid S g a d G ne st \<and>
    ca_sums S st = total (sums_merge S) (no_sums S) (map (\<lambda>p. (dom (local_map p), sum_of S (local_map p))) (tree_nodes servers))"
  unfolding CollectiveAggregation_node_def
proof (rule aggregated.run_total [OF assms(1)], rule ballI)
  fix p
  assume "p \<in> set (tree_nodes servers)"
  then obtain p' m where p: "checkData p = Inr p'" "ca_GroupedData p' = Some m" "finite (dom m)" "visits d p'" "0 < a"
      "\<forall>k fr. m k = Some fr \<longrightarrow> shaped g a d G k fr" "ne \<longrightarrow> m \<noteq> Map.empty"
    using assms(2) unfolding ready_def by metis
  then have "local_map p = m" by (simp add: local_map_def)
  with local_ok [OF p] show "\<exists>s. CollectiveAggregation_local p = Inr s \<and> ca_valid S g a d G ne s \<and>
      ca_sums S s = (dom (local_map p), sum_of S (local_map p))" by (metis ca_sums.simps)
qed

lemma sum_held: "csum S (map (\<lambda>p. sum_of S (local_map p) k i) ps) =
    csum S (map (\<lambda>fr. aggr_at S fr i) (List.map_filter (\<lambda>p. local_map p k) ps))"
  by (induction ps) (auto simp: map_filter_simps sum_of_def split: option.split)

lemma collective_aggregation_result:
  assumes "arrivals_ok (\<lambda>lo da. ne \<or> lo = da) servers" and "\<forall>p\<in>set (tree_nodes servers). ready g a d G ne p"
  shows "\<exists>m. CollectiveAggregation_run S servers = Inr m \<and> dom m = (\<Union>p\<in>set (tree_nodes servers). dom (local_map p)) \<and>
    (\<forall>k fr. m k = Some fr \<longrightarrow> length (fr_GroupByEnc fr) = g \<and> G k (fr_GroupByEnc fr) \<and> length (fr_AggregatingAttributes fr) = a \<and>
      (\<forall>i<a. decryptPoint S x (fr_AggregatingAttributes fr ! i) =
        psum S (map (\<lambda>fr. decryptPoint S x (fr_AggregatingAttributes fr ! i)) (held k servers))))"
proof -
  obtain st where st: "CollectiveAggregation_node S servers = Inr st" "ca_valid S g a d G ne st"
    "ca_sums S st = total (sums_merge S) (no_sums S) (map (\<lambda>p. (dom (local_map p), sum_of S (local_map p))) (tree_nodes servers))"
    using collective_aggregation [OF assms] by blast
  obtain p m cv where s: "st = (p, m, cv)" by (cases st)
  have sums: "dom m = (\<Union>p\<in>set (tree_nodes servers). dom (local_map p))"
    "\<And>k i. sum_of S m k i = csum S (map (\<lambda>p. sum_of S (local_map p) k i) (tree_nodes servers))"
    using st(3) by (simp_all add: s total_sums)
  have len: "length (fr_AggregatingAttributes fr) = a" and grp: "length (fr_GroupByEnc fr) = g \<and> G k (fr_GroupByEnc fr)" if "m k = Some fr" for k fr
    using st(2) that by (auto simp: s shaped_def)
  have held: "\<forall>fr\<in>set (held k servers). length (fr_AggregatingAttributes fr) = a" for k
  proof
    fix fr
    assume "fr \<in> set (held k servers)"
    then obtain p where "p \<in> set (tree_nodes servers)" "local_map p k = Some fr"
      by (auto simp: held_def map_filter_def)
    then show "length (fr_AggregatingAttributes fr) = a"
      using assms(2) by (fastforce simp: ready_def local_map_def shaped_def)
  qed
  have at: "fr_AggregatingAttributes fr ! i = csum S (map (\<lambda>fr. fr_AggregatingAttributes fr ! i) (held k servers))"
    if "m k = Some fr" and "i < a" for k fr i
  proof -
    have "fr_AggregatingAttributes fr ! i = csum S (map (\<lambda>fr. aggr_at S fr i) (held k servers))"
      using sums(2) [of k i] that len [OF that(1)] unfolding sum_held held_def [symmetric]
      by (simp add: sum_of_def aggr_at_def [of S fr])
    also have "map (\<lambda>fr. aggr_at S fr i) (held k servers) = map (\<lambda>fr. fr_AggregatingAttributes fr ! i) (held k servers)"
      using held that(2) by (simp add: aggr_at_def)
    finally show ?thesis .
  qed
  show ?thesis
    by (rule exI [of _ m]) (use st(1) s sums(1) len grp at in \<open>simp add: CollectiveAggregation_run_def decrypt_csum comp_def\<close>)
qed

lemma node_proofs:
  assumes "ca_valid S g a d G ne (p, m, cv)" and "ca_Proofs p" and "enumerates es cv"
    and "proof_data (p, m, cv) es = (data, dataRes)"
  shows "length dataRes = length data" and "dataRes = map (csum S) data" and "\<forall>col\<in>set data. col \<noteq> []"
proof -
  have pr: "proved S m cv" using assms(1,2) by simp
  have e: "\<exists>fr. m k = Some fr \<and> fr_AggregatingAttributes fr = map (csum S) cols \<and> [] \<notin> set cols" if "(k, cols) \<in> set es" for k cols
    using pr enumerates_set [OF assms(3)] that unfolding proved_def by (metis domD domI)
  have "concat (map (\<lambda>(k, v). case m k of None \<Rightarrow> [] | Some fr \<Rightarrow> fr_AggregatingAttributes fr) es) = map (csum S) (concat (map snd es))"
    using e
  proof (induction es)
    case Nil
    then show ?case by simp
  next
    case (Cons e es)
    obtain k cols where kc: "e = (k, cols)" by (cases e)
    with Cons.prems obtain fr where "m k = Some fr" "fr_AggregatingAttributes fr = map (csum S) cols" by (metis list.set_intros(1))
    with Cons kc show ?case by simp
  qed
  with assms(4) show "dataRes = map (csum S) data" by (auto simp: proof_data_def)
  then show "length dataRes = length data" by simp
  show "\<forall>col\<in>set data. col \<noteq> []" using e assms(4) by (auto simp: proof_data_def) metis
qed

lemma node_proofs_verify:
  assumes "arrivals_ok (\<lambda>lo da. ne \<or> lo = da) servers" and "\<forall>p\<in>set (tree_nodes servers). ready g a d G ne p"
    and "CollectiveAggregation_node S servers = Inr (p, m, cv)" and "ca_Proofs p" and "enumerates entries cv"
  shows "(case proof_data (p, m, cv) entries of (data, dataRes) \<Rightarrow>
    andThen (AggregationListProofCreation data dataRes) (\<lambda>pl. AggregationListProofVerification S pl full)) = Inr True"
proof -
  obtain data dataRes where d: "proof_data (p, m, cv) entries = (data, dataRes)" by (metis surj_pair)
  have "ca_valid S g a d G ne (p, m, cv)" using collective_aggregation [OF assms(1,2)] assms(3) by auto
  from node_proofs [OF this assms(4,5) d] show ?thesis
    by (simp add: d aggregation_list_exact [OF kyber_suite_axioms])
qed

end

section \<open>Padded merging\<close>

text \<open>
  The attributes of a response, decrypted and counted; responses of any lengths can be merged
  with respect to these values.
\<close>

definition opened :: "('s, 'p) suite \<Rightarrow> 's \<Rightarrow> 'p FilteredResponse \<Rightarrow> (nat \<Rightarrow> 'p) \<times> nat" where
  "opened S x fr =
     (\<lambda>i. if i < length (fr_AggregatingAttributes fr) then decryptPoint S x (fr_AggregatingAttributes fr ! i) else Point_Null S,
      length (fr_AggregatingAttributes fr))"

definition open_merge :: "('s, 'p) suite \<Rightarrow> (nat \<Rightarrow> 'p) \<times> nat \<Rightarrow> (nat \<Rightarrow> 'p) \<times> nat \<Rightarrow> (nat \<Rightarrow> 'p) \<times> nat" where
  "open_merge S u v = (\<lambda>i. Point_Add S (fst u i) (fst v i), max (snd u) (snd v))"

lemma snd_opened [simp]: "snd (opened S x fr) = length (fr_AggregatingAttributes fr)"
  by (simp add: opened_def)

lemma total_open: "total (open_merge S) (\<lambda>i. Point_Null S, 0) (map f xs) =
    (\<lambda>i. psum S (map (\<lambda>x. fst (f x) i) xs), foldr max (map (\<lambda>x. snd (f x)) xs) 0)"
  by (induction xs) (simp_all add: open_merge_def)

context kyber_suite
begin

lemma merge_opened:
  assumes "m k = Some u"
  shows "\<exists>w. merge_response S (Point_Mul S x (Point_Base S)) picks k fr m = Inr (m(k \<mapsto> w)) \<and>
    opened S x w = open_merge S (opened S x u) (opened S x fr)"
proof -
  let ?la = "fr_AggregatingAttributes u" and ?aa = "fr_AggregatingAttributes fr"
  let ?pad = "\<lambda>n. map (\<lambda>e. EncryptInt S (Point_Mul S x (Point_Base S)) 0 (picks k e)) [0..<n]"
  let ?l = "?la @ ?pad (length ?aa - length ?la)" and ?a = "?aa @ ?pad (length ?la - length ?aa)"
  let ?w = "u\<lparr>fr_AggregatingAttributes := map2 (ct_Add S) ?l ?a\<rparr>"
  have len: "length ?l = length ?a" by simp
  have "merge_response S (Point_Mul S x (Point_Base S)) picks k fr m = Inr (m(k \<mapsto> ?w))"
  proof (cases "length ?la" "length ?aa" rule: linorder_cases)
    case less
    then have "nat \<bar>int (length ?la) - int (length ?aa)\<bar> = length ?aa - length ?la" by simp
    with less show ?thesis using assms by (simp add: merge_response_def Let_def cv_Add_Inr)
  next
    case equal
    then show ?thesis using assms by (simp add: merge_response_def Let_def cv_Add_Inr)
  next
    case greater
    then have "nat \<bar>int (length ?la) - int (length ?aa)\<bar> = length ?la - length ?aa" by simp
    with greater show ?thesis using assms by (simp add: merge_response_def Let_def cv_Add_Inr)
  qed
  moreover have "opened S x ?w = open_merge S (opened S x u) (opened S x fr)"
    by (auto simp: opened_def open_merge_def fun_eq_iff nth_append decrypt_simps IntToPoint_def max_def)
  ultimately show ?thesis by blast
qed

sublocale padded: key_accumulator "merge_response S (Point_Mul S x (Point_Base S)) picks" "\<lambda>_. True" "opened S x"
  "open_merge S" "(\<lambda>i. Point_Null S, 0)" for x picks
proof (unfold_locales, goal_cases)
  case (5 m k u v)
  then show ?case using merge_opened by metis
qed (auto simp: merge_response_def open_merge_def pt_ac fun_eq_iff)

lemma padded_merges:
  "\<exists>m. fold_res (\<lambda>(k, fr). merge_response S (Point_Mul S x (Point_Base S)) picks k fr) kfrs Map.empty = Inr m \<and>
    dom m = fst ` set kfrs \<and> (\<forall>k fr. m k = Some fr \<longrightarrow>
      opened S x fr = (\<lambda>i. psum S (map (\<lambda>fr. fst (opened S x fr) i) (of_key k kfrs)),
        foldr max (map (\<lambda>fr. length (fr_AggregatingAttributes fr)) (of_key k kfrs)) 0))"
proof (rule padded.add_all [of kfrs x picks])
  fix m
  assume m: "fold_res (\<lambda>(k, v). merge_response S (Point_Mul S x (Point_Base S)) picks k v) kfrs Map.empty = Inr m"
    "dom m = fst ` set kfrs"
    "\<And>k. padded.sum_at x m k = total (open_merge S) (\<lambda>i. Point_Null S, 0) (map (opened S x) (of_key k kfrs))"
  have "opened S x fr = (\<lambda>i. psum S (map (\<lambda>fr. fst (opened S x fr) i) (of_key k kfrs)),
        foldr max (map (\<lambda>fr. length (fr_AggregatingAttributes fr)) (of_key k kfrs)) 0)" if "m k = Some fr" for k fr
    using m(3) [of k] that by (simp add: padded.sum_at_def total_open)
  with m(1,2) show ?thesis by blast
qed simp

end

interpretation ed_padded: key_accumulator "merge_response ed25519 (Point_Mul ed25519 x (Point_Base ed25519)) picks" "\<lambda>_. True"
  "opened ed25519 x" "open_merge ed25519" "(\<lambda>i. Point_Null ed25519, 0)" for x picks
  by (rule ed.padded.key_accumulator_axioms)

interpretation ed_aggregated: convergecast "ascendingAggregationPhase ed25519" "send_aggregated ed25519" "ca_valid ed25519 g a d G ne"
  "ca_sums ed25519" "sums_merge ed25519" "no_sums ed25519" "\<lambda>lo da. ne \<or> lo = da" for g a d G ne
  by (rule ed.aggregated.convergecast_axioms)

section \<open>Properties\<close>

text \<open>
  C11. Collective aggregation sums over all servers: when every server holds responses of one shape
  and the messages of each node's children arrive in any orders (the same for lengths and data,
  or else no map is empty), a run over any tree of servers succeeds; the root's result has the
  keys of all servers, each of its attributes decrypts to the sum of the decrypted attributes that
  the servers hold under the key, and the group of a response keeps every relation G to its key
  that holds at all servers.
\<close>

theorem collective_aggregation_run:
  assumes "kyber_suite S" and "arrivals_ok (\<lambda>lo da. nonempty \<or> lo = da) servers"
    and "\<forall>p\<in>set (tree_nodes servers). ready g a d G nonempty p"
  shows "\<exists>m. CollectiveAggregation_run S servers = Inr m \<and> dom m = (\<Union>p\<in>set (tree_nodes servers). dom (local_map p)) \<and>
    (\<forall>k fr. m k = Some fr \<longrightarrow> length (fr_GroupByEnc fr) = g \<and> G k (fr_GroupByEnc fr) \<and> length (fr_AggregatingAttributes fr) = a \<and>
      (\<forall>i<a. decryptPoint S x (fr_AggregatingAttributes fr ! i) =
        psum S (map (\<lambda>fr. decryptPoint S x (fr_AggregatingAttributes fr ! i)) (held k servers))))"
  using assms by (rule kyber_suite.collective_aggregation_result)

definition example_instance :: "bool \<Rightarrow> ed_l list \<Rightarrow> (ed_l, ed_l) CollectiveAggregationProtocol" where
  "example_instance pr vs =
     \<lparr>ca_GroupedData = None, ca_SimpleData = Some (map (\<lambda>v. \<lparr>ctK = 0, ctC = v\<rparr>) vs), ca_Proofs = pr, ca_Aggregate = 5,
      ca_picks = (\<lambda>c k i. of_nat i), ca_visit = (\<lambda>m. case m EMPTYKEY of None \<Rightarrow> [] | Some fr \<Rightarrow> [(EMPTYKEY, fr)]), ca_last = 0\<rparr>"

definition example_tree :: "bool \<Rightarrow> (ed_l, ed_l) CollectiveAggregationProtocol tree" where
  "example_tree pr = Node (example_instance pr [1, 2]) [0, 1] [1, 0] [Node (example_instance pr [10, 20]) [] [] [], Node (example_instance pr [100, 200]) [] [] []]"

definition example_map :: "ed_l list \<Rightarrow> GroupingKey \<rightharpoonup> ed_l FilteredResponse" where
  "example_map vs = [EMPTYKEY \<mapsto> \<lparr>fr_GroupByEnc = [], fr_AggregatingAttributes = map (\<lambda>v. \<lparr>ctK = 0, ctC = v\<rparr>) vs\<rparr>]"

definition example_checked :: "bool \<Rightarrow> ed_l list \<Rightarrow> (ed_l, ed_l) CollectiveAggregationProtocol" where
  "example_checked pr vs = (example_instance pr vs)\<lparr>ca_GroupedData := Some (example_map vs), ca_SimpleData := None\<rparr>"

lemma example_check: "vs \<noteq> [] \<Longrightarrow> checkData (example_instance pr vs) = Inr (example_checked pr vs)"
  by (simp add: checkData_def example_checked_def example_map_def) (simp add: example_instance_def)

lemma example_visits: "visits 0 (example_checked pr vs)"
  unfolding visits_def
proof (intro allI impI)
  fix m :: "GroupingKey \<rightharpoonup> ed_l FilteredResponse"
  assume "\<forall>k\<in>dom m. length k = 0"
  then have none: "m k = None" if "k \<noteq> EMPTYKEY" for k
    using that by (auto simp: EMPTYKEY_def)
  have "m = Map.empty \<or> (\<exists>fr. m = [EMPTYKEY \<mapsto> fr])"
  proof (cases "m EMPTYKEY")
    case None
    then have "m k = None" for k using none by (cases "k = EMPTYKEY") simp_all
    then show ?thesis by auto
  next
    case (Some fr)
    then have "m k = [EMPTYKEY \<mapsto> fr] k" for k using none by simp
    then show ?thesis by blast
  qed
  then show "enumerates (ca_visit (example_checked pr vs) m) m"
    by (auto simp: example_checked_def example_instance_def enumerates_def)
qed

lemma example_ready: "ready 0 2 0 (\<lambda>_ _. True) True (example_instance pr [u, v])"
  unfolding ready_def
  by (intro exI [of _ "example_checked pr [u, v]"] exI [of _ "example_map [u, v]"])
    (auto simp: example_check example_visits, auto simp: example_checked_def example_map_def shaped_def EMPTYKEY_def split: if_splits)

lemma example_tree_ok:
  "arrivals_ok (\<lambda>lo da. True \<or> lo = da) (example_tree pr)" "\<forall>p\<in>set (tree_nodes (example_tree pr)). ready 0 2 0 (\<lambda>_ _. True) True p"
  using example_ready [of pr] by (simp_all add: example_tree_def upt_rec)

theorem collective_aggregation_run_witness:
  "\<exists>m fr. CollectiveAggregation_run ed25519 (example_tree False) = Inr m \<and> m EMPTYKEY = Some fr \<and>
    map (decryptPoint ed25519 7) (fr_AggregatingAttributes fr) = [111, 222]"
proof -
  obtain m where r: "CollectiveAggregation_run ed25519 (example_tree False) = Inr m \<and>
    dom m = (\<Union>p\<in>set (tree_nodes (example_tree False)). dom (local_map p)) \<and>
    (\<forall>k fr. m k = Some fr \<longrightarrow> length (fr_GroupByEnc fr) = 0 \<and> True \<and> length (fr_AggregatingAttributes fr) = 2 \<and>
      (\<forall>i<2. decryptPoint ed25519 7 (fr_AggregatingAttributes fr ! i) =
        psum ed25519 (map (\<lambda>fr. decryptPoint ed25519 7 (fr_AggregatingAttributes fr ! i)) (held k (example_tree False)))))"
    by (rule exE [OF collective_aggregation_run [OF ed.kyber_suite_axioms example_tree_ok]])
  note m = r [THEN conjunct1] r [THEN conjunct2, THEN conjunct1] r [THEN conjunct2, THEN conjunct2, rule_format]
  have l: "local_map (example_instance False [u, v]) =
      [EMPTYKEY \<mapsto> \<lparr>fr_GroupByEnc = [], fr_AggregatingAttributes = [\<lparr>ctK = 0, ctC = u\<rparr>, \<lparr>ctK = 0, ctC = v\<rparr>]\<rparr>]" for u v
    by (simp add: local_map_def checkData_def example_instance_def)
  have "EMPTYKEY \<in> dom m" unfolding m(2) by (simp add: example_tree_def l)
  then obtain fr where fr: "m EMPTYKEY = Some fr" by blast
  have "map (decryptPoint ed25519 7) (fr_AggregatingAttributes fr) = [111, 222]"
    proof (rule nth_equalityI)
    have len: "length (fr_AggregatingAttributes fr) = 2" using m(3) [OF fr] by blast
    then show "length (map (decryptPoint ed25519 7) (fr_AggregatingAttributes fr)) = length [111, 222 :: ed_l]" by simp
    fix i
    assume "i < length (map (decryptPoint ed25519 7) (fr_AggregatingAttributes fr))"
    then have i: "i < 2" by (simp add: len)
    have h: "map (\<lambda>fr. fr_AggregatingAttributes fr) (held EMPTYKEY (example_tree False)) =
        map (map (\<lambda>v. \<lparr>ctK = 0, ctC = v\<rparr>)) [[1, 2], [10, 20], [100, 200]]"
      by (simp add: held_def example_tree_def l map_filter_simps)
    have "map (decryptPoint ed25519 7) (fr_AggregatingAttributes fr) ! i =
        psum ed25519 (map (\<lambda>as. decryptPoint ed25519 7 (as ! i)) (map (\<lambda>fr. fr_AggregatingAttributes fr) (held EMPTYKEY (example_tree False))))"
      using m(3) [OF fr] i len by (simp add: comp_def)
    also have "\<dots> = [111, 222] ! i"
      using i unfolding h less_2_cases_iff by (elim disjE) (simp_all add: decryptPoint_def ed_simps)
    finally show "map (decryptPoint ed25519 7) (fr_AggregatingAttributes fr) ! i = [111, 222] ! i" .
  qed
  with m(1) fr show ?thesis by (intro exI conjI)
qed

text \<open>
  C32. The aggregation proofs of every node verify: for every node, as the top of its own tree, the
  columns and results that it hands to the proof function, in any order of the keys, give proofs
  of which the verification returns true.
\<close>

theorem collective_aggregation_proofs:
  assumes "kyber_suite S" and "arrivals_ok (\<lambda>lo da. nonempty \<or> lo = da) servers"
    and "\<forall>p\<in>set (tree_nodes servers). ready g a d G nonempty p"
    and "CollectiveAggregation_node S servers = Inr (p, m, cv)" and "ca_Proofs p" and "enumerates entries cv"
  shows "(case proof_data (p, m, cv) entries of (data, dataRes) \<Rightarrow>
    andThen (AggregationListProofCreation data dataRes) (\<lambda>pl. AggregationListProofVerification S pl full)) = Inr True"
  using assms by (rule kyber_suite.node_proofs_verify)

theorem collective_aggregation_proofs_witness:
  "\<exists>cv entries. CollectiveAggregation_node ed25519 (Node (example_instance True [1, 2]) [] [] []) =
      Inr (example_checked True [1, 2], example_map [1, 2], cv) \<and> enumerates entries cv \<and>
    (case proof_data (example_checked True [1, 2], example_map [1, 2], cv) entries of (data, dataRes) \<Rightarrow>
      andThen (AggregationListProofCreation data dataRes) (\<lambda>pl. AggregationListProofVerification ed25519 pl full)) = Inr True"
proof -
  let ?t = "Node (example_instance True [1, 2]) [] [] []"
  let ?es = "[(EMPTYKEY, [[\<lparr>ctK = 0, ctC = 1 :: ed_l\<rparr>], [\<lparr>ctK = 0, ctC = 2\<rparr>]])]"
  have "ca_visit (example_checked True [1, 2]) (example_map [1, 2]) = [(EMPTYKEY, \<lparr>fr_GroupByEnc = [], fr_AggregatingAttributes = [\<lparr>ctK = 0, ctC = 1\<rparr>, \<lparr>ctK = 0, ctC = 2\<rparr>]\<rparr>)]"
    "ca_GroupedData (example_checked True [1, 2]) = Some (example_map [1, 2])" "ca_Proofs (example_checked True [1, 2])"
    by (simp_all add: example_checked_def example_instance_def example_map_def)
  then have node: "CollectiveAggregation_node ed25519 ?t = Inr (example_checked True [1, 2], example_map [1, 2], map_of ?es)"
    by (simp add: CollectiveAggregation_node_def CollectiveAggregation_local_def example_check FormatAggregationProofs_def
        ascendingAggregationPhase_def arrival_def)
  have es: "enumerates ?es (map_of ?es)" by (simp add: enumerates_def)
  have ok: "arrivals_ok (\<lambda>lo da. True \<or> lo = da) ?t" "\<forall>p\<in>set (tree_nodes ?t). ready 0 2 0 (\<lambda>_ _. True) True p"
    by (simp_all add: example_ready)
  have "ca_Proofs (example_checked True [1, 2])" by (simp add: example_checked_def example_instance_def)
  from collective_aggregation_proofs [OF ed.kyber_suite_axioms ok node this es] node es show ?thesis by (intro exI conjI)
qed

text \<open>
  Merging pads with encryptions of zero: merging any responses, of any numbers of attributes,
  into an empty map succeeds; under every key the merged response has as many attributes as the
  longest one, and they decrypt to the sums of the attributes, missing ones counted as zero.
\<close>

theorem padded_merge_decrypts:
  assumes "kyber_suite S"
  shows "\<exists>m. fold_res (\<lambda>(k, fr). merge_response S (Point_Mul S x (Point_Base S)) picks k fr) kfrs Map.empty = Inr m \<and>
    dom m = fst ` set kfrs \<and> (\<forall>k fr. m k = Some fr \<longrightarrow>
      opened S x fr = (\<lambda>i. psum S (map (\<lambda>fr. fst (opened S x fr) i) (of_key k kfrs)),
        foldr max (map (\<lambda>fr. length (fr_AggregatingAttributes fr)) (of_key k kfrs)) 0))"
  using assms by (rule kyber_suite.padded_merges)

theorem padded_merge_decrypts_witness:
  "\<exists>m fr. fold_res (\<lambda>(k, fr). merge_response ed25519 (Point_Mul ed25519 7 (Point_Base ed25519)) (\<lambda>k i. 3) k fr)
     [(''g'', \<lparr>fr_GroupByEnc = [], fr_AggregatingAttributes = [\<lparr>ctK = 0, ctC = 5\<rparr>]\<rparr>),
      (''g'', \<lparr>fr_GroupByEnc = [], fr_AggregatingAttributes = [\<lparr>ctK = 0, ctC = 6\<rparr>, \<lparr>ctK = 0, ctC = 9\<rparr>]\<rparr>)] Map.empty = Inr m \<and>
     m ''g'' = Some fr \<and> length (fr_AggregatingAttributes fr) = 2"
proof -
  let ?kfrs = "[(''g'', \<lparr>fr_GroupByEnc = [], fr_AggregatingAttributes = [\<lparr>ctK = 0, ctC = 5 :: ed_l\<rparr>]\<rparr>),
      (''g'', \<lparr>fr_GroupByEnc = [], fr_AggregatingAttributes = [\<lparr>ctK = 0, ctC = 6\<rparr>, \<lparr>ctK = 0, ctC = 9\<rparr>]\<rparr>)]"
  obtain m where r: "fold_res (\<lambda>(k, fr). merge_response ed25519 (Point_Mul ed25519 7 (Point_Base ed25519)) (\<lambda>k i. 3) k fr) ?kfrs Map.empty = Inr m \<and>
    dom m = fst ` set ?kfrs \<and> (\<forall>k fr. m k = Some fr \<longrightarrow>
      opened ed25519 7 fr = (\<lambda>i. psum ed25519 (map (\<lambda>fr. fst (opened ed25519 7 fr) i) (of_key k ?kfrs)),
        foldr max (map (\<lambda>fr. length (fr_AggregatingAttributes fr)) (of_key k ?kfrs)) 0))"
    by (rule exE [OF padded_merge_decrypts [OF ed.kyber_suite_axioms, of 7 "\<lambda>k i. 3" ?kfrs]])
  note m = r [THEN conjunct1] r [THEN conjunct2, THEN conjunct1] r [THEN conjunct2, THEN conjunct2, rule_format]
  have "''g'' \<in> dom m" unfolding m(2) by simp
  then obtain fr where fr: "m ''g'' = Some fr" by blast
  have "snd (opened ed25519 7 fr) = 2" unfolding m(3) [OF fr] by simp
  then have len: "length (fr_AggregatingAttributes fr) = 2" by simp
  show ?thesis by (rule exI [of _ m], rule exI [of _ fr], intro conjI) (rule m(1), rule fr, rule len)
qed

text \<open>
  C33. Crossed messages lose data without an error: if one child has no data and its length message
  arrives first while the data message of the other child arrives first, the parent keeps its
  state unchanged, whatever the other child sent.
\<close>

theorem crossed_messages_lose_data:
  assumes "ca_visit p1 Map.empty = []" and "send_aggregated S (p1, Map.empty, cv1) = Inr msg1"
    and "send_aggregated S (p2, m2, cv2) = Inr msg2"
  shows "ascendingAggregationPhase S st (arrival [0, 1] (map fst [msg1, msg2])) (arrival [1, 0] (map snd [msg1, msg2])) = Inr st"
proof -
  have none: "par_list 1 0 f = Inr []" for f :: "nat \<Rightarrow> (byte list \<times> nat \<times> nat \<times> nat) res"
    using par_list_Inr [of 1 0 f "\<lambda>_. undefined"] by simp
  have "msg1 = ((0, 0, 0), [])"
    using assms(1,2) none by (simp add: send_aggregated_def cadm_ToBytes_def cadm_FromBytes_def)
  moreover have "[0 ..< length [x, y]] = [0, 1]" for x y :: "nat \<times> nat \<times> nat" by (simp add: upt_rec)
  moreover obtain g a d b where "msg2 = ((g, a, d), b)" by (metis surj_pair)
  ultimately show ?thesis
    by (simp only: ascendingAggregationPhase_def arrival_def list.map) (simp add: absorb_child_def cadm_FromBytes_def)
qed

theorem crossed_messages_lose_data_witness:
  "\<exists>msg1 msg2. send_aggregated ed25519 (example_checked False [1], Map.empty, Map.empty) = Inr msg1 \<and>
    send_aggregated ed25519 (example_checked False [3, 4], example_map [3, 4], Map.empty) = Inr msg2 \<and>
    ascendingAggregationPhase ed25519 (example_checked False [5], example_map [5, 6], Map.empty)
      (arrival [0, 1] (map fst [msg1, msg2])) (arrival [1, 0] (map snd [msg1, msg2])) =
    Inr (example_checked False [5], example_map [5, 6], Map.empty)"
proof -
  have v1: "ca_visit (example_checked False [1]) Map.empty = []"
    by (simp add: example_checked_def example_instance_def)
  have "ca_valid ed25519 0 2 0 (\<lambda>_ _. True) False (example_checked False [1], Map.empty, Map.empty)"
    "ca_valid ed25519 0 2 0 (\<lambda>_ _. True) False (example_checked False [3, 4], example_map [3, 4], Map.empty)"
    using example_visits by (simp_all add: example_map_def shaped_def EMPTYKEY_def) (simp_all add: example_checked_def example_instance_def)
  from this [THEN ed.aggregated.send_total] obtain msg1 msg2
    where "send_aggregated ed25519 (example_checked False [1], Map.empty, Map.empty) = Inr msg1"
      "send_aggregated ed25519 (example_checked False [3, 4], example_map [3, 4], Map.empty) = Inr msg2" by auto
  with crossed_messages_lose_data [OF v1 this] show ?thesis by (intro exI conjI)
qed

end
