(* ===== verification/Tagging.thy ===== *)
theory Tagging
  imports Network DetTag
begin

text \<open>
  protocols/deterministic_tagging_protocol.go: the ciphertexts pass twice around the circuit of
  the servers. In the first round every server adds its survey secret times the base point, in
  the second one it takes its share of the key away and multiplies with its survey secret.
\<close>

text \<open>The instance of a server; a nil pointer is None.\<close>

record ('s, 'p) DeterministicTaggingProtocol =
  tg_Private :: 's
  tg_Public :: 'p
  tg_TargetOfSwitch :: "'p CipherVector option"
  tg_SurveySecretKey :: "'s option"
  tg_Proofs :: bool

section \<open>Messages\<close>

definition dtm_ToBytes :: "('s, 'p) suite \<Rightarrow> 'p CipherVector \<Rightarrow> byte list res" where
  "dtm_ToBytes S cv =
     andThen (par_list VPARALLELIZE (length cv) (\<lambda>i. ct_ToBytes S (cv ! i))) (\<lambda>bb. Inr (concat bb))"

text \<open>The loop also starts a turn for an incomplete last element, and its slice expression panics.\<close>

definition dtm_FromBytes :: "('s, 'p) suite \<Rightarrow> byte list \<Rightarrow> 'p CipherVector res" where
  "dtm_FromBytes S data =
     (let elementSize = CipherTextByteSize S in
      par_list VPARALLELIZE ((length data + elementSize - 1) div elementSize) (\<lambda>i.
        andThen (slice data (i * elementSize) (i * elementSize + elementSize)) (ct_FromBytes S)))"

section \<open>Steps\<close>

definition DeterministicTagging_Start :: "('s, 'p) suite \<Rightarrow> ('s, 'p) DeterministicTaggingProtocol \<Rightarrow> byte list res" where
  "DeterministicTagging_Start S p =
     (case tg_TargetOfSwitch p of
        None \<Rightarrow> Inl (Err ''no data on which to do a deterministic tagging'')
      | Some detTarget \<Rightarrow>
          (case tg_SurveySecretKey p of
             None \<Rightarrow> Inl (Err ''no survey secret key given'')
           | Some _ \<Rightarrow> dtm_ToBytes S detTarget))"

text \<open>
  The list of proofs is made with the secret and the private key in each other's place:
  DeterministicTagCrListProofCreation expects the private key before the secret.
\<close>

definition TaggingDet_proofs :: "('s, 'p) suite \<Rightarrow> ('s, 'p) proofs \<Rightarrow> 'p CipherVector \<Rightarrow> 's \<Rightarrow> 's \<Rightarrow> 'p \<Rightarrow> 'p PublishedDDTCreationListProof res" where
  "TaggingDet_proofs S Z cv privKey secretContrib pubKey =
     (let switchedVect = DeterministicTagSequence S cv privKey secretContrib in
      DeterministicTagCrListProofCreation S Z cv switchedVect pubKey secretContrib privKey)"

definition TaggingDet :: "('s, 'p) suite \<Rightarrow> ('s, 'p) proofs \<Rightarrow> 'p CipherVector \<Rightarrow> 's \<Rightarrow> 's \<Rightarrow> 'p \<Rightarrow> bool \<Rightarrow> 'p CipherVector res" where
  "TaggingDet S Z cv privKey secretContrib pubKey proofs =
     (let switchedVect = DeterministicTagSequence S cv privKey secretContrib in
      if proofs
      then andThen (TaggingDet_proofs S Z cv privKey secretContrib pubKey) (\<lambda>_. Inr switchedVect)
      else Inr switchedVect)"

definition tag_of_vector :: "('s, 'p) suite \<Rightarrow> ('s, 'p) proofs \<Rightarrow> 'p CipherVector \<Rightarrow> 's \<Rightarrow> 's \<Rightarrow> 'p \<Rightarrow> bool \<Rightarrow> GroupingKey res" where
  "tag_of_vector S Z cipherVect privKey secContrib pubKey proofs =
     andThen (TaggingDet S Z cipherVect privKey secContrib pubKey proofs) (\<lambda>cv.
     Inr (dcv_Key S (map (\<lambda>c. DeterministCipherText (ctC c)) cv)))"

definition add_secret :: "('s, 'p) suite \<Rightarrow> ('s, 'p) proofs \<Rightarrow> 's \<Rightarrow> bool \<Rightarrow> 'p CipherText \<Rightarrow> 'p CipherText res" where
  "add_secret S Z secret proofs c =
     (let toAdd = Point_Mul S secret (Point_Base S); r = Point_Add S (ctC c) toAdd in
      andThen (if proofs
               then andThen (DeterministicTagAdditionProofCreation S Z (ctC c) secret toAdd r) (\<lambda>_. Inr ())
               else Inr ()) (\<lambda>_.
      Inr (c\<lparr>ctC := r\<rparr>)))"

text \<open>Dispatch, first round.\<close>

definition first_round :: "('s, 'p) suite \<Rightarrow> ('s, 'p) proofs \<Rightarrow> ('s, 'p) DeterministicTaggingProtocol \<Rightarrow> byte list \<Rightarrow> byte list res" where
  "first_round S Z p data =
     andThen (dtm_FromBytes S data) (\<lambda>cv.
     case tg_SurveySecretKey p of
       None \<Rightarrow> Inl Panic
     | Some secret \<Rightarrow>
         andThen (par_list VPARALLELIZE (length cv) (\<lambda>i. add_secret S Z secret (tg_Proofs p) (cv ! i))) (dtm_ToBytes S))"

text \<open>Dispatch, second round: every goroutine tags a block of the vector.\<close>

definition tag_blocks :: "('s, 'p) suite \<Rightarrow> ('s, 'p) proofs \<Rightarrow> ('s, 'p) DeterministicTaggingProtocol \<Rightarrow> byte list \<Rightarrow> 'p CipherVector res" where
  "tag_blocks S Z p data =
     andThen (dtm_FromBytes S data) (\<lambda>cv.
     case tg_SurveySecretKey p of
       None \<Rightarrow> Inl Panic
     | Some secret \<Rightarrow>
         (let blocks = chunks VPARALLELIZE (length cv) 0 in
          andThen (par_list 1 (length blocks) (\<lambda>b.
            TaggingDet S Z (map ((!) cv) (blocks ! b)) (tg_Private p) secret (tg_Public p) (tg_Proofs p))) (\<lambda>tagged.
          Inr (concat tagged))))"

definition second_round :: "('s, 'p) suite \<Rightarrow> ('s, 'p) proofs \<Rightarrow> ('s, 'p) DeterministicTaggingProtocol \<Rightarrow> byte list \<Rightarrow> byte list res" where
  "second_round S Z p data = andThen (tag_blocks S Z p data) (dtm_ToBytes S)"

text \<open>The root's end of the second round; an entry that is not written keeps its nil point.\<close>

definition report_tags :: "('s, 'p) suite \<Rightarrow> ('s, 'p) proofs \<Rightarrow> ('s, 'p) DeterministicTaggingProtocol \<Rightarrow> byte list
    \<Rightarrow> 'p DeterministCipherText option list res" where
  "report_tags S Z p data =
     andThen (tag_blocks S Z p data) (\<lambda>detCreatedData.
     fold_res (\<lambda>i taggedData. store_at taggedData i (Some (DeterministCipherText (ctC (detCreatedData ! i)))))
       [0..<length detCreatedData]
       (replicate (length (case tg_TargetOfSwitch p of None \<Rightarrow> [] | Some t \<Rightarrow> t)) None))"

text \<open>
  A run over the circuit Tree().List(), whose first node is the root: the root sends to the node
  after it and is the last one in both rounds.
\<close>

definition DeterministicTagging_run :: "('s, 'p) suite \<Rightarrow> ('s, 'p) proofs \<Rightarrow> ('s, 'p) DeterministicTaggingProtocol
    \<Rightarrow> ('s, 'p) DeterministicTaggingProtocol list \<Rightarrow> 'p DeterministCipherText option list res" where
  "DeterministicTagging_run S Z start others =
     andThen (DeterministicTagging_Start S start) (\<lambda>data.
     andThen (fold_res (first_round S Z) (others @ [start]) data) (\<lambda>data.
     andThen (fold_res (second_round S Z) others data) (report_tags S Z start)))"

section \<open>Facts\<close>

context kyber_suite
begin

lemma dtm_roundtrip:
  obtains b where "dtm_ToBytes S cv = Inr b" "dtm_FromBytes S b = Inr cv"
proof -
  let ?w = "CipherTextByteSize S"
  have "\<exists>f. \<forall>c. ct_ToBytes S c = Inr (f c) \<and> length (f c) = ?w \<and> ct_FromBytes S (f c) = Inr c"
    using ct_bytes.enc_decode unfolding CipherTextByteSize_def by metis
  then obtain f where f: "\<And>c. ct_ToBytes S c = Inr (f c)" "\<And>c. length (f c) = ?w" "\<And>c. ct_FromBytes S (f c) = Inr c" by blast
  have w: "0 < ?w" using point_len_pos by (simp add: CipherTextByteSize_def)
  have "par_list VPARALLELIZE (length cv) (\<lambda>i. ct_ToBytes S (cv ! i)) = Inr (map (\<lambda>i. f (cv ! i)) [0..<length cv])"
    by (rule par_list_Inr) (simp_all add: f)
  moreover have "map (\<lambda>i. f (cv ! i)) [0..<length cv] = map f cv" by (intro nth_equalityI) simp_all
  ultimately have to: "dtm_ToBytes S cv = Inr (concat (map f cv))" by (simp add: dtm_ToBytes_def)
  have len: "length (concat (map f cv)) = length cv * ?w" by (induction cv) (simp_all add: f(2))
  have "(length (concat (map f cv)) + ?w - 1) div ?w = length cv"
    using w unfolding len by (metis Suc_pred' add_diff_assoc diff_Suc_less div_less div_mult_self3 less_numeral_extra(3)
        One_nat_def Suc_leI add_0_right add.commute)
  moreover have "par_list VPARALLELIZE (length cv) (\<lambda>i. andThen (slice (concat (map f cv)) (i * ?w) (i * ?w + ?w)) (ct_FromBytes S)) =
      Inr (map (\<lambda>i. cv ! i) [0..<length cv])"
    by (rule par_list_Inr) (simp_all add: f slice_concat)
  ultimately have "dtm_FromBytes S (concat (map f cv)) = Inr cv"
    by (simp add: dtm_FromBytes_def Let_def map_nth)
  with to show thesis by (rule that)
qed

end
definition secret_of :: "('s, 'p) suite \<Rightarrow> ('s, 'p) DeterministicTaggingProtocol \<Rightarrow> 's" where
  "secret_of S p = (case tg_SurveySecretKey p of None \<Rightarrow> Scalar_Zero S | Some secret \<Rightarrow> secret)"

definition decoded :: "('s, 'p) suite \<Rightarrow> byte list \<Rightarrow> 'p CipherVector" where
  "decoded S data = (case dtm_FromBytes S data of Inl _ \<Rightarrow> [] | Inr cv \<Rightarrow> cv)"

text \<open>kyber's prover reports its failures as errors.\<close>

definition prover_returns :: "('s, 'p) proofs \<Rightarrow> bool" where
  "prover_returns Z \<longleftrightarrow> (\<forall>pred sval pval. HashProve Z ''proofTest'' pred sval pval \<noteq> Inl Panic)"

definition tagger :: "('s, 'p) proofs \<Rightarrow> ('s, 'p) DeterministicTaggingProtocol \<Rightarrow> bool" where
  "tagger Z p \<longleftrightarrow> tg_SurveySecretKey p \<noteq> None \<and> (tg_Proofs p \<longrightarrow> prover_returns Z)"

lemma TaggingDet_Inr:
  assumes "proofs \<longrightarrow> prover_returns Z"
  shows "TaggingDet S Z cv k s K proofs = Inr (map (\<lambda>ct. DeterministicTag S ct k s) cv)"
proof (cases proofs)
  case True
  define f where "f i = (case DeterministicTagCrProofCreation S Z (cv ! i) (DeterministicTag S (cv ! i) k s) K s k of
          Inl _ \<Rightarrow> None | Inr proofAux \<Rightarrow> Some proofAux)" for i
  have "DeterministicTagCrProofCreation S Z c c' K s k \<noteq> Inl Panic" for c c'
    using assms True by (auto simp: prover_returns_def DeterministicTagCrProofCreation_def Let_def split: sum.split go_error.split)
  then have "par_list VPARALLELIZE (length cv) (\<lambda>i. andThen (index_at (map (\<lambda>ct. DeterministicTag S ct k s) cv) i) (\<lambda>ctAft.
        case DeterministicTagCrProofCreation S Z (cv ! i) ctAft K s k of
          Inl (Err _) \<Rightarrow> Inr None | Inl Panic \<Rightarrow> Inl Panic | Inr proofAux \<Rightarrow> Inr (Some proofAux))) = Inr (map f [0..<length cv])"
    by (intro par_list_Inr) (auto simp: f_def split: sum.split go_error.split)
  then show ?thesis using True by (simp add: TaggingDet_def TaggingDet_proofs_def DeterministicTagCrListProofCreation_def)
qed (simp add: TaggingDet_def)

lemma tag_blocks_Inr:
  assumes "dtm_FromBytes S data = Inr cv" and "tagger Z p"
  shows "tag_blocks S Z p data = Inr (map (\<lambda>ct. DeterministicTag S ct (tg_Private p) (secret_of S p)) cv)"
proof -
  let ?bs = "chunks VPARALLELIZE (length cv) 0" and ?t = "\<lambda>ct. DeterministicTag S ct (tg_Private p) (secret_of S p)"
  obtain secret where s: "tg_SurveySecretKey p = Some secret" using assms(2) by (auto simp: tagger_def)
  have "par_list 1 (length ?bs) (\<lambda>b. TaggingDet S Z (map ((!) cv) (?bs ! b)) (tg_Private p) secret (tg_Public p) (tg_Proofs p)) =
      Inr (map (\<lambda>b. map ?t (map ((!) cv) (?bs ! b))) [0..<length ?bs])"
    using assms(2) by (intro par_list_Inr) (simp_all add: TaggingDet_Inr tagger_def secret_of_def s)
  moreover have "map (\<lambda>b. map ?t (map ((!) cv) (?bs ! b))) [0..<length ?bs] = map (map (\<lambda>i. ?t (cv ! i))) ?bs"
    by (intro nth_equalityI) simp_all
  moreover have "concat (map (map (\<lambda>i. ?t (cv ! i))) ?bs) = map ?t cv"
    by (simp add: map_concat [symmetric] concat_chunks) (intro nth_equalityI, simp_all)
  ultimately show ?thesis using assms(1) s by (simp add: tag_blocks_def Let_def)
qed

context proof_system
begin

lemma add_secret_Inr:
  assumes "proofs \<longrightarrow> prover_returns Z"
  shows "add_secret S Z secret proofs c = Inr (c\<lparr>ctC := Point_Add S (ctC c) (Point_Mul S secret (Point_Base S))\<rparr>)"
proof -
  let ?toAdd = "Point_Mul S secret (Point_Base S)"
  let ?pval = "[''B'' \<mapsto> Point_Base S, ''c1'' \<mapsto> ctC c, ''c2'' \<mapsto> ?toAdd, ''r'' \<mapsto> Point_Add S (ctC c) ?toAdd]"
  have "holds S [''s'' \<mapsto> secret] ?pval createPredicateDeterministicTagAddition"
    by (simp add: createPredicateDeterministicTagAddition_def represents_def pv_def)
  then obtain b where "HashProve Z ''proofTest'' createPredicateDeterministicTagAddition [''s'' \<mapsto> secret] ?pval = Inr b"
    using proofs_complete by blast
  then show ?thesis by (simp add: add_secret_def DeterministicTagAdditionProofCreation_def Let_def)
qed

sublocale first: circuit "first_round S Z" "\<lambda>ns m. (\<forall>p\<in>set ns. tagger Z p) \<and> (\<exists>cv. dtm_FromBytes S m = Inr cv)"
  "\<lambda>ns m. map (decryptPoint S x) (decoded S m)"
  "\<lambda>p. map (\<lambda>P. Point_Add S P (Point_Mul S (secret_of S p) (Point_Base S)))" for x
proof (unfold_locales, goal_cases)
  case (1 p ns m)
  then obtain cv where cv: "dtm_FromBytes S m = Inr cv" by blast
  obtain secret where s: "tg_SurveySecretKey p = Some secret" and pr: "tg_Proofs p \<longrightarrow> prover_returns Z"
    using 1 by (auto simp: tagger_def)
  let ?f = "\<lambda>c. c\<lparr>ctC := Point_Add S (ctC c) (Point_Mul S secret (Point_Base S))\<rparr>"
  have "par_list VPARALLELIZE (length cv) (\<lambda>i. add_secret S Z secret (tg_Proofs p) (cv ! i)) = Inr (map (\<lambda>i. ?f (cv ! i)) [0..<length cv])"
    by (rule par_list_Inr) (simp_all add: add_secret_Inr pr)
  moreover have "map (\<lambda>i. ?f (cv ! i)) [0..<length cv] = map ?f cv" by (intro nth_equalityI) simp_all
  moreover obtain b where b: "dtm_ToBytes S (map ?f cv) = Inr b" "dtm_FromBytes S b = Inr (map ?f cv)" by (rule dtm_roundtrip)
  ultimately have "first_round S Z p m = Inr b" by (simp add: first_round_def cv s)
  moreover have "map (decryptPoint S x) (decoded S b) =
      map (\<lambda>P. Point_Add S P (Point_Mul S (secret_of S p) (Point_Base S))) (map (decryptPoint S x) (decoded S m))"
    by (simp add: decoded_def b(2) cv secret_of_def s) (simp add: decryptPoint_def Let_def pt.add_diff_eq pt.add.commute)
  ultimately show ?case using 1 b(2) by auto
qed

sublocale second: circuit "second_round S Z" "\<lambda>ns m. (\<forall>p\<in>set ns. tagger Z p) \<and> (\<exists>cv. dtm_FromBytes S m = Inr cv)"
  "\<lambda>ns m. map (decryptPoint S (Scalar_Add S (ssum S (map tg_Private ns)) k)) (decoded S m)"
  "\<lambda>p. map (Point_Mul S (secret_of S p))" for k
proof (unfold_locales, goal_cases)
  case (1 p ns m)
  then obtain cv where cv: "dtm_FromBytes S m = Inr cv" by blast
  let ?t = "\<lambda>ct. DeterministicTag S ct (tg_Private p) (secret_of S p)"
  obtain b where b: "dtm_ToBytes S (map ?t cv) = Inr b" "dtm_FromBytes S b = Inr (map ?t cv)" by (rule dtm_roundtrip)
  have r: "second_round S Z p m = Inr b"
    using tag_blocks_Inr [OF cv, of Z p] 1 b by (simp add: second_round_def)
  have "decryptPoint S x (?t ct) = Point_Mul S (secret_of S p) (decryptPoint S (Scalar_Add S (tg_Private p) x) ct)" for x ct
    by (simp add: DeterministicTag_def decryptPoint_def Let_def mul_sub mul_scalar_add mul_commute [of x] mul_point_add)
      (simp add: pt.diff_diff_add)
  then have "map (decryptPoint S (Scalar_Add S (ssum S (map tg_Private ns)) k)) (decoded S b) = map (Point_Mul S (secret_of S p))
      (map (decryptPoint S (Scalar_Add S (ssum S (map tg_Private (p # ns))) k)) (decoded S m))"
    by (simp add: decoded_def b(2) cv sc.add.assoc)
  with r 1 b(2) show ?case by auto
qed

lemma fold_add_secrets:
  "fold (\<lambda>p. map (\<lambda>P. Point_Add S P (Point_Mul S (secret_of S p) (Point_Base S)))) ps vs =
    map (\<lambda>P. Point_Add S P (Point_Mul S (ssum S (map (secret_of S) ps)) (Point_Base S))) vs"
  by (induction ps arbitrary: vs) (simp_all add: mul_scalar_add pt.add.assoc)

lemma fold_mul_secrets:
  "fold (\<lambda>p. map (Point_Mul S (secret_of S p))) ps vs = map (Point_Mul S (sprod S (map (secret_of S) ps))) vs"
proof (induction ps arbitrary: vs)
  case Nil
  have "map (Point_Mul S (Scalar_One S)) vs = vs" by (rule map_idI) (simp add: mul_one)
  then show ?case by simp
next
  case (Cons p ps)
  then show ?case by (simp add: mul_mul scalar_mul_commute)
qed

lemma tagging_run:
  assumes "tg_TargetOfSwitch start = Some target" and "\<forall>p\<in>set (others @ [start]). tagger Z p"
  shows "DeterministicTagging_run S Z start others = Inr (map (\<lambda>ct. Some (DeterministCipherText
    (Point_Mul S (sprod S (map (secret_of S) (others @ [start])))
      (Point_Add S (decryptPoint S (ssum S (map tg_Private (others @ [start]))) ct)
        (Point_Mul S (ssum S (map (secret_of S) (others @ [start]))) (Point_Base S)))))) target)"
proof -
  let ?all = "others @ [start]" and ?k = "ssum S (map tg_Private (others @ [start]))"
  obtain b where b: "dtm_ToBytes S target = Inr b" "dtm_FromBytes S b = Inr target" by (rule dtm_roundtrip)
  have st: "DeterministicTagging_Start S start = Inr b"
    using assms b(1) by (auto simp: DeterministicTagging_Start_def tagger_def split: option.split)
  obtain b1 where b1: "fold_res (first_round S Z) ?all b = Inr b1" "\<exists>cv. dtm_FromBytes S b1 = Inr cv"
    "map (decryptPoint S ?k) (decoded S b1) =
      map (\<lambda>P. Point_Add S P (Point_Mul S (ssum S (map (secret_of S) ?all)) (Point_Base S))) (map (decryptPoint S ?k) target)"
    using first.round_ok [of ?all b ?k] assms(2) b(2) unfolding fold_add_secrets by (auto simp: decoded_def)
  obtain b2 where b2: "fold_res (second_round S Z) others b1 = Inr b2" "\<exists>cv. dtm_FromBytes S b2 = Inr cv"
    "map (decryptPoint S (tg_Private start)) (decoded S b2) =
      map (Point_Mul S (sprod S (map (secret_of S) others))) (map (decryptPoint S ?k) (decoded S b1))"
    using second.round_ok [of others b1 "tg_Private start"] assms(2) b1(2) unfolding fold_mul_secrets
    by (auto simp: scalar_add_commute [of "Scalar_Zero S"] scalar_add_zero sc.add.assoc)
  obtain cv where cv: "dtm_FromBytes S b2 = Inr cv" using b2(2) by blast
  let ?t = "\<lambda>ct. DeterministicTag S ct (tg_Private start) (secret_of S start)"
  have tb: "tag_blocks S Z start b2 = Inr (map ?t cv)" using tag_blocks_Inr [OF cv] assms(2) by simp
  have c: "map (\<lambda>ct. ctC (?t ct)) cv = map (\<lambda>ct. Point_Mul S (sprod S (map (secret_of S) ?all))
      (Point_Add S (decryptPoint S ?k ct) (Point_Mul S (ssum S (map (secret_of S) ?all)) (Point_Base S)))) target"
  proof -
    have "map (\<lambda>ct. ctC (?t ct)) cv = map (Point_Mul S (secret_of S start)) (map (decryptPoint S (tg_Private start)) (decoded S b2))"
      by (simp add: decoded_def cv DeterministicTag_def decryptPoint_def Let_def)
    moreover have "sprod S (map (secret_of S) ?all) = Scalar_Mul S (secret_of S start) (sprod S (map (secret_of S) others))"
      by (simp add: sprod_append scalar_mul_commute [of _ "Scalar_One S"] scalar_mul_one)
        (simp add: scalar_mul_commute)
    ultimately show ?thesis
      unfolding b2(3) b1(3) by (simp add: mul_mul)
  qed
  have len: "length cv = length target" using arg_cong [OF c, of length] by simp
  have "fold_res (\<lambda>i taggedData. store_at taggedData i (Some (DeterministCipherText (ctC (map ?t cv ! i))))) [0..<length (map ?t cv)]
      (replicate (length target) None) = Inr (map (\<lambda>i. Some (DeterministCipherText (ctC (map ?t cv ! i)))) [0..<length (map ?t cv)])"
    using len by (subst store_loop) simp_all
  moreover have "map (\<lambda>i. Some (DeterministCipherText (ctC (map ?t cv ! i)))) [0..<length (map ?t cv)] =
      map (\<lambda>P. Some (DeterministCipherText P)) (map (\<lambda>ct. ctC (?t ct)) cv)"
    by (intro nth_equalityI) simp_all
  ultimately have "report_tags S Z start b2 = Inr (map (\<lambda>P. Some (DeterministCipherText P)) (map (\<lambda>ct. ctC (?t ct)) cv))"
    using assms(1) by (simp only: report_tags_def tb andThen_Inr option.case)
  then show ?thesis
    unfolding c by (simp add: DeterministicTagging_run_def st b1(1) b2(1) comp_def)
qed

lemma tags_separate:
  assumes "Scalar_Mul S ia a = Scalar_One S"
  shows "Point_Mul S a (Point_Add S P T) = Point_Mul S a (Point_Add S Q T) \<longleftrightarrow> P = Q"
proof
  assume "Point_Mul S a (Point_Add S P T) = Point_Mul S a (Point_Add S Q T)"
  then have "Point_Mul S ia (Point_Mul S a (Point_Add S P T)) = Point_Mul S ia (Point_Mul S a (Point_Add S Q T))" by simp
  then show "P = Q" using assms by (simp only: mul_mul mul_one pt.add_right_cancel)
qed simp

text \<open>The proofs that TaggingDet creates state a relation that does not hold.\<close>

lemma swapped_proof:
  assumes "\<And>a b. Point_Mul S a (Point_Base S) = Point_Mul S b (Point_Base S) \<Longrightarrow> a = b"
    and "Point_Mul S secret (ctK ct) \<noteq> Point_Mul S priv (ctK ct)"
    and "DeterministicTagCrProofCreation S Z ct (DeterministicTag S ct priv secret) K secret priv = Inr p"
  shows "DeterministicTagCrProofVerification S Z (Some p) K (Point_Mul S priv (Point_Base S)) \<noteq> Inr True"
proof
  assume v: "DeterministicTagCrProofVerification S Z (Some p) K (Point_Mul S priv (Point_Base S)) = Inr True"
  have p: "CTbef p = ct" "CTaft p = DeterministicTag S ct priv secret"
    using assms(3) by (auto simp: DeterministicTagCrProofCreation_def Let_def split: sum.splits go_error.splits)
  from v have "HashVerify Z ''proofTest'' createPredicateDeterministicTagCr (cr_points S p K (Point_Mul S priv (Point_Base S))) (dc_Proof p) = Inr ()"
    by (auto simp: DeterministicTagCrProofVerification_def Let_def split: sum.splits go_error.splits)
  then obtain sval where "holds S sval (cr_points S p K (Point_Mul S priv (Point_Base S))) createPredicateDeterministicTagCr"
    using proofs_sound by blast
  then obtain s where s: "Point_Mul S secret (ctK ct) = Point_Mul S s (ctK ct)" "Point_Mul S priv (Point_Base S) = Point_Mul S s (Point_Base S)"
    unfolding tag_cr_predicate by (auto simp: pv_def p DeterministicTag_def Let_def)
  show False using assms(1) [OF s(2)] s(1) assms(2) by simp
qed

lemma swapped_list:
  assumes "\<And>a b. Point_Mul S a (Point_Base S) = Point_Mul S b (Point_Base S) \<Longrightarrow> a = b"
    and "cv \<noteq> []" and "\<forall>ct\<in>set cv. Point_Mul S secret (ctK ct) \<noteq> Point_Mul S priv (ctK ct)"
    and "DeterministicTagCrListProofCreation S Z cv (DeterministicTagSequence S cv priv secret) K secret priv = Inr pl"
    and "None \<notin> set (dc_List pl)"
  shows "DeterministicTagCrListProofVerification S Z pl full = Inr False"
proof -
  have n: "length (dc_List pl) = length cv" and K: "dc_K pl = K" "dc_SB pl = Point_Mul S priv (Point_Base S)"
    and e: "\<And>i. i < length cv \<Longrightarrow> (case DeterministicTagCrProofCreation S Z (cv ! i) (DeterministicTag S (cv ! i) priv secret) K secret priv of
          Inl (Err _) \<Rightarrow> Inr None | Inl Panic \<Rightarrow> Inl Panic | Inr proofAux \<Rightarrow> Inr (Some proofAux)) = Inr (dc_List pl ! i)"
    using assms(4) by (auto simp: DeterministicTagCrListProofCreation_def andThen_eq_Inr par_list_eq_Inr)
  let ?ver = "\<lambda>pf. DeterministicTagCrProofVerification S Z pf (dc_K pl) (dc_SB pl)"
  have f: "?ver pf = Inr False" if pf: "pf \<in> set (dc_List pl)" for pf
  proof -
    have "\<exists>i<length cv. pf = dc_List pl ! i" using pf n by (auto simp: in_set_conv_nth)
    then obtain i where i: "i < length cv" "pf = dc_List pl ! i" by blast
    obtain p where p: "pf = Some p" using assms(5) pf by (cases pf) auto
    then have "DeterministicTagCrProofCreation S Z (cv ! i) (DeterministicTag S (cv ! i) priv secret) K secret priv = Inr p"
      using e [OF i(1)] i(2) by (auto split: sum.splits go_error.splits)
    then have "?ver pf \<noteq> Inr True"
      using swapped_proof [OF assms(1), where ct = "cv ! i" and secret = secret and priv = priv and K = K and p = p] assms(3) i(1)
      unfolding p K by simp
    moreover have "\<exists>v. ?ver pf = Inr v"
      unfolding p using verify_no_panic by (auto simp: DeterministicTagCrProofVerification_def Let_def split: sum.split go_error.split)
    ultimately show ?thesis by auto
  qed
  have "verify_list full ?ver (dc_List pl) = Inr (list_all (\<lambda>_. False) (dc_List pl))"
    by (rule verify_list_full) (simp add: f)
  then show ?thesis using n assms(2) by (cases "dc_List pl") (auto simp: DeterministicTagCrListProofVerification_def)
qed

end

text \<open>The proofs of the protocol, for the secret and the private key as TaggingDet passes them.\<close>

context proof_system
begin

lemma tagging_proofs_report:
  assumes "\<And>a b. Point_Mul S a (Point_Base S) = Point_Mul S b (Point_Base S) \<Longrightarrow> a = b"
    and "cv \<noteq> []" and "\<forall>ct\<in>set cv. Point_Mul S secret (ctK ct) \<noteq> Point_Mul S priv (ctK ct)"
    and "TaggingDet_proofs S Z cv priv secret K = Inr pl" and "None \<notin> set (dc_List pl)"
  shows "length (dc_List pl) = length cv \<and> DeterministicTagCrListProofVerification S Z pl full = Inr False"
proof -
  have c: "DeterministicTagCrListProofCreation S Z cv (DeterministicTagSequence S cv priv secret) K secret priv = Inr pl"
    using assms(4) by (simp only: TaggingDet_proofs_def Let_def)
  then have "length (dc_List pl) = length cv"
    by (auto simp: DeterministicTagCrListProofCreation_def andThen_eq_Inr par_list_eq_Inr)
  with swapped_list [OF assms(1-3) c assms(5)] show ?thesis by simp
qed

end

interpretation ed_first: circuit "first_round ed25519 (transparent ed25519)"
  "\<lambda>ns m. (\<forall>p\<in>set ns. tagger (transparent ed25519) p) \<and> (\<exists>cv. dtm_FromBytes ed25519 m = Inr cv)"
  "\<lambda>ns m. map (decryptPoint ed25519 x) (decoded ed25519 m)"
  "\<lambda>p. map (\<lambda>P. Point_Add ed25519 P (Point_Mul ed25519 (secret_of ed25519 p) (Point_Base ed25519)))" for x
  by (rule ed_proofs.first.circuit_axioms)

interpretation ed_second: circuit "second_round ed25519 (transparent ed25519)"
  "\<lambda>ns m. (\<forall>p\<in>set ns. tagger (transparent ed25519) p) \<and> (\<exists>cv. dtm_FromBytes ed25519 m = Inr cv)"
  "\<lambda>ns m. map (decryptPoint ed25519 (Scalar_Add ed25519 (ssum ed25519 (map tg_Private ns)) k)) (decoded ed25519 m)"
  "\<lambda>p. map (Point_Mul ed25519 (secret_of ed25519 p))" for k
  by (rule ed_proofs.second.circuit_axioms)

lemma transparent_returns: "prover_returns (transparent ed25519)"
proof -
  have t: "traverse f xs \<noteq> Inl Panic" if "\<And>x. f x \<noteq> Inl Panic" for f :: "string \<Rightarrow> ed_l res" and xs
    using that by (induction xs) (auto simp: andThen_eq_Inl)
  have "andThen (traverse (\<lambda>s. case sval s of None \<Rightarrow> Inl (Err ''missing secret'') | Some v \<Rightarrow> Inr v) (secrets pred))
      (write_elements (Scalar_MarshalBinary ed25519)) \<noteq> Inl Panic" for sval and pred
    using ed.scalar_bytes.write_total t [of "\<lambda>s. case sval s of None \<Rightarrow> Inl (Err ''missing secret'') | Some v \<Rightarrow> Inr v"]
    by (auto simp: andThen_eq_Inl split: option.split)
  then show ?thesis by (simp add: prover_returns_def transparent_def)
qed

text \<open>The transparent prover makes every proof, that of a false statement too.\<close>

lemma transparent_TaggingDet_proofs:
  "\<exists>pl. TaggingDet_proofs ed25519 (transparent ed25519) cv priv secret K = Inr pl \<and> None \<notin> set (dc_List pl)"
proof -
  obtain b where b: "write_elements (Scalar_MarshalBinary ed25519) (map (\<lambda>s. if s = ''k'' then secret else priv) (secrets createPredicateDeterministicTagCr)) = Inr b"
    by (rule ed.scalar_bytes.write_ex)
  have "HashProve (transparent ed25519) ''proofTest'' createPredicateDeterministicTagCr [''k'' \<mapsto> secret, ''s'' \<mapsto> priv] pval = Inr b" for pval
    using b by (simp add: transparent_def createPredicateDeterministicTagCr_def)
  then have "\<exists>p. DeterministicTagCrProofCreation ed25519 (transparent ed25519) c c' K secret priv = Inr p" for c c'
    by (simp add: DeterministicTagCrProofCreation_def Let_def)
  then obtain p where p: "\<And>c c'. DeterministicTagCrProofCreation ed25519 (transparent ed25519) c c' K secret priv = Inr (p c c')" by metis
  let ?f = "\<lambda>i. Some (p (cv ! i) (DeterministicTag ed25519 (cv ! i) priv secret))"
  have "par_list VPARALLELIZE (length cv) (\<lambda>i. andThen (index_at (DeterministicTagSequence ed25519 cv priv secret) i) (\<lambda>ctAft.
        case DeterministicTagCrProofCreation ed25519 (transparent ed25519) (cv ! i) ctAft K secret priv of
          Inl (Err _) \<Rightarrow> Inr None | Inl Panic \<Rightarrow> Inl Panic | Inr proofAux \<Rightarrow> Inr (Some proofAux))) = Inr (map ?f [0..<length cv])"
    by (rule par_list_Inr) (simp_all add: p)
  then show ?thesis by (auto simp: TaggingDet_proofs_def DeterministicTagCrListProofCreation_def Let_def)
qed

section \<open>Properties\<close>

text \<open>
  C12. The tagging protocol computes deterministic tags: a run around any circuit of servers that
  have their secrets ends at the root with one tag per ciphertext, the product of the servers'
  secrets times the plaintext shifted by the sum of the secrets; if the product is invertible,
  two ciphertexts get the same tag exactly when they have the same plaintext.
\<close>

theorem tagging_protocol_tags:
  assumes "proof_system S Z" and "tg_TargetOfSwitch start = Some target" and "\<forall>p\<in>set (others @ [start]). tagger Z p"
  defines "secret \<equiv> sprod S (map (secret_of S) (others @ [start]))"
    and "shift \<equiv> Point_Mul S (ssum S (map (secret_of S) (others @ [start]))) (Point_Base S)"
    and "plain \<equiv> decryptPoint S (ssum S (map tg_Private (others @ [start])))"
  shows "DeterministicTagging_run S Z start others =
      Inr (map (\<lambda>ct. Some (DeterministCipherText (Point_Mul S secret (Point_Add S (plain ct) shift)))) target) \<and>
    (\<forall>ia c d. Scalar_Mul S ia secret = Scalar_One S \<longrightarrow>
      (Point_Mul S secret (Point_Add S (plain c) shift) = Point_Mul S secret (Point_Add S (plain d) shift) \<longleftrightarrow> plain c = plain d))"
  using proof_system.tagging_run [OF assms(1-3)] proof_system.tags_separate [OF assms(1)]
  unfolding secret_def shift_def plain_def by blast

theorem tagging_protocol_tags_witness:
  "DeterministicTagging_run ed25519 (transparent ed25519)
     \<lparr>tg_Private = 2, tg_Public = 2, tg_TargetOfSwitch = Some [\<lparr>ctK = 4, ctC = 30\<rparr>, \<lparr>ctK = 1, ctC = 15\<rparr>], tg_SurveySecretKey = Some 7, tg_Proofs = True\<rparr>
     [\<lparr>tg_Private = 3, tg_Public = 3, tg_TargetOfSwitch = None, tg_SurveySecretKey = Some 6, tg_Proofs = False\<rparr>] =
   Inr [Some (DeterministCipherText (42 * 23)), Some (DeterministCipherText (42 * 23))]"
proof -
  let ?start = "\<lparr>tg_Private = 2, tg_Public = 2, tg_TargetOfSwitch = Some [\<lparr>ctK = 4, ctC = 30\<rparr>, \<lparr>ctK = 1, ctC = 15\<rparr>], tg_SurveySecretKey = Some 7, tg_Proofs = True\<rparr>
    :: (ed_l, ed_l) DeterministicTaggingProtocol"
  let ?others = "[\<lparr>tg_Private = 3, tg_Public = 3, tg_TargetOfSwitch = None, tg_SurveySecretKey = Some 6, tg_Proofs = False\<rparr>]
    :: (ed_l, ed_l) DeterministicTaggingProtocol list"
  have "tg_TargetOfSwitch ?start = Some [\<lparr>ctK = 4, ctC = 30\<rparr>, \<lparr>ctK = 1, ctC = 15\<rparr>]"
    "\<forall>p\<in>set (?others @ [?start]). tagger (transparent ed25519) p"
    by (simp_all add: tagger_def transparent_returns)
  from tagging_protocol_tags [OF ed_proofs.proof_system_axioms this] show ?thesis
    by (simp add: secret_of_def decryptPoint_def ed_simps)
qed

text \<open>
  C34. The proofs made during the tagging protocol do not verify. TaggingDet passes the secret and
  the private key in each other's place, so the list of proofs that it makes in an honest step, with the
  points that it publishes, is rejected, whenever the two scalars act differently on the
  ciphertexts; the list that the library makes of the same step with the arguments in their places
  is accepted.
\<close>

theorem tagging_protocol_proofs_rejected:
  assumes "proof_system S Z" and "\<And>a b. Point_Mul S a (Point_Base S) = Point_Mul S b (Point_Base S) \<Longrightarrow> a = b"
    and "cv \<noteq> []" and "\<forall>ct\<in>set cv. Point_Mul S secret (ctK ct) \<noteq> Point_Mul S priv (ctK ct)"
    and "TaggingDet_proofs S Z cv priv secret (Point_Mul S priv (Point_Base S)) = Inr pl"
    and "None \<notin> set (dc_List pl)"
  shows "TaggingDet S Z cv priv secret (Point_Mul S priv (Point_Base S)) True = Inr (DeterministicTagSequence S cv priv secret) \<and>
    length (dc_List pl) = length cv \<and> DeterministicTagCrListProofVerification S Z pl full = Inr False \<and>
    (\<exists>pl'. DeterministicTagCrListProofCreation S Z cv (DeterministicTagSequence S cv priv secret) (Point_Mul S priv (Point_Base S)) priv secret = Inr pl' \<and>
      DeterministicTagCrListProofVerification S Z pl' full = Inr True)"
  using proof_system.tagging_proofs_report [OF assms] proof_system.honest_tag_list [OF assms(1), of cv priv secret] assms(5)
  unfolding TaggingDet_def by simp blast

theorem tagging_protocol_proofs_rejected_witness:
  "\<exists>pl. TaggingDet_proofs ed25519 (transparent ed25519) [\<lparr>ctK = 1, ctC = 9\<rparr>] 3 2 3 = Inr pl \<and>
    TaggingDet ed25519 (transparent ed25519) [\<lparr>ctK = 1, ctC = 9\<rparr>] 3 2 3 True = Inr [\<lparr>ctK = 2, ctC = 12\<rparr>] \<and>
    length (dc_List pl) = 1 \<and> DeterministicTagCrListProofVerification ed25519 (transparent ed25519) pl full = Inr False"
proof -
  let ?cv = "[\<lparr>ctK = 1, ctC = 9 :: ed_l\<rparr>]"
  have seq: "DeterministicTagSequence ed25519 ?cv 3 2 = [\<lparr>ctK = 2, ctC = 12\<rparr>]"
    by (simp add: DeterministicTag_def ed_simps)
  have K: "Point_Mul ed25519 3 (Point_Base ed25519) = 3" by (simp add: ed_simps)
  from transparent_TaggingDet_proofs obtain pl where
    pl: "TaggingDet_proofs ed25519 (transparent ed25519) ?cv 3 2 (Point_Mul ed25519 3 (Point_Base ed25519)) = Inr pl" "None \<notin> set (dc_List pl)"
    by blast
  have "TaggingDet ed25519 (transparent ed25519) ?cv 3 2 (Point_Mul ed25519 3 (Point_Base ed25519)) True = Inr (DeterministicTagSequence ed25519 ?cv 3 2) \<and>
      length (dc_List pl) = length ?cv \<and> DeterministicTagCrListProofVerification ed25519 (transparent ed25519) pl full = Inr False"
    using tagging_protocol_proofs_rejected [OF ed_proofs.proof_system_axioms _ _ _ pl] by (simp add: ed_simps)
  with pl(1) show ?thesis unfolding seq K by auto
qed

end
