(* ===== verification/Shuffling.thy ===== *)
theory Shuffling
  imports Network Shuffle
begin

text \<open>
  protocols/shuffling_protocol.go: the rows pass once around the circuit of the servers, each of
  which shuffles and rerandomizes them; the root shuffles in Start and gets the rows back.
\<close>

text \<open>
  The instance of a server: Aggregate is the collective key of the roster, CollectiveKey the one
  that tests may set; the last three fields are the random choices of its ShuffleSequence. The
  result of ProofFunc is dropped.
\<close>

record ('s, 'p) ShufflingProtocol =
  sp_ShuffleTarget :: "'p CipherVector list option"
  sp_Precomputed :: "('s, 'p) CipherVectorScalar list option"
  sp_Aggregate :: 'p
  sp_CollectiveKey :: "'p option"
  sp_blind :: "nat \<Rightarrow> nat \<Rightarrow> 's"
  sp_pickline :: "nat \<Rightarrow> nat"
  sp_draw :: "nat \<Rightarrow> nat"

definition shuffling_key :: "('s, 'p) ShufflingProtocol \<Rightarrow> 'p" where
  "shuffling_key p = (case sp_CollectiveKey p of None \<Rightarrow> sp_Aggregate p | Some key \<Rightarrow> key)"

definition shuffle_at :: "('s, 'p) suite \<Rightarrow> ('s, 'p) ShufflingProtocol \<Rightarrow> 'p CipherVector list \<Rightarrow> 'p CipherVector list res" where
  "shuffle_at S p shuffleTarget =
     andThen (ShuffleSequence S (sp_blind p) (sp_pickline p) (sp_draw p) shuffleTarget (Point_Base S) (shuffling_key p) (sp_Precomputed p))
       (\<lambda>(shuffledData, perm, beta). Inr shuffledData)"

text \<open>Messages: ArrayCipherVectorToBytes and FromBytesToArrayCipherVector.\<close>

definition Shuffling_Start :: "('s, 'p) suite \<Rightarrow> ('s, 'p) ShufflingProtocol \<Rightarrow> (byte list \<times> byte list) res" where
  "Shuffling_Start S p =
     (case sp_ShuffleTarget p of
        None \<Rightarrow> Inl (Err ''no map given as shuffling target'')
      | Some shuffleTarget \<Rightarrow> andThen (shuffle_at S p shuffleTarget) (ArrayCipherVectorToBytes S))"

text \<open>Dispatch at a server that is not the root, and at the root.\<close>

definition Shuffling_Dispatch :: "('s, 'p) suite \<Rightarrow> ('s, 'p) ShufflingProtocol \<Rightarrow> byte list \<times> byte list \<Rightarrow> (byte list \<times> byte list) res" where
  "Shuffling_Dispatch S p msg =
     andThen (FromBytesToArrayCipherVector S (fst msg) (snd msg)) (\<lambda>shuffleTarget.
     andThen (shuffle_at S p shuffleTarget) (ArrayCipherVectorToBytes S))"

definition Shuffling_report :: "('s, 'p) suite \<Rightarrow> byte list \<times> byte list \<Rightarrow> 'p CipherVector list res" where
  "Shuffling_report S msg = FromBytesToArrayCipherVector S (fst msg) (snd msg)"

definition Shuffling_run :: "('s, 'p) suite \<Rightarrow> ('s, 'p) ShufflingProtocol \<Rightarrow> ('s, 'p) ShufflingProtocol list \<Rightarrow> 'p CipherVector list res" where
  "Shuffling_run S start others =
     andThen (Shuffling_Start S start) (\<lambda>msg.
     andThen (fold_res (Shuffling_Dispatch S) others msg) (Shuffling_report S))"

section \<open>The circuit permutes the plaintext rows\<close>

definition rows_of :: "('s, 'p) suite \<Rightarrow> byte list \<times> byte list \<Rightarrow> 'p CipherVector list" where
  "rows_of S msg = (case FromBytesToArrayCipherVector S (fst msg) (snd msg) of Inl _ \<Rightarrow> [] | Inr rows \<Rightarrow> rows)"

text \<open>A server uses the key of x, and precomputed values for that key and n columns, if any.\<close>

definition shuffler :: "('s, 'p) suite \<Rightarrow> 's \<Rightarrow> nat \<Rightarrow> ('s, 'p) ShufflingProtocol \<Rightarrow> bool" where
  "shuffler S x n p \<longleftrightarrow> shuffling_key p = Point_Mul S x (Point_Base S) \<and>
     blinding_ok S (Point_Base S) (Point_Mul S x (Point_Base S)) n (sp_Precomputed p)"

definition carries_rows :: "('s, 'p) suite \<Rightarrow> nat \<Rightarrow> nat \<Rightarrow> byte list \<times> byte list \<Rightarrow> bool" where
  "carries_rows S k n msg \<longleftrightarrow> (\<exists>rows. FromBytesToArrayCipherVector S (fst msg) (snd msg) = Inr rows \<and>
     length rows = k \<and> (\<forall>row\<in>set rows. length row = n))"

context kyber_suite
begin

lemma rows_message:
  assumes "\<forall>row\<in>set rows. length row = n" and "n < 2 ^ 32"
  obtains msg where "ArrayCipherVectorToBytes S rows = Inr msg" "FromBytesToArrayCipherVector S (fst msg) (snd msg) = Inr rows"
  using array_bytes_roundtrip [of rows] assms by (auto simp: andThen_eq_Inr)

lemma shuffle_at_ok:
  assumes "shuffler S x n p" and "rows \<noteq> []" and "\<forall>row\<in>set rows. length row = n"
  obtains rows' where "shuffle_at S p rows = Inr rows'" "length rows' = length rows" "\<forall>row\<in>set rows'. length row = n"
    "mset (map (map (decryptPoint S x)) rows') = mset (map (map (decryptPoint S x)) rows)"
proof -
  have k: "shuffling_key p = Point_Mul S x (Point_Base S)"
    and b: "blinding_ok S (Point_Base S) (shuffling_key p) n (sp_Precomputed p)"
    using assms(1) by (simp_all add: shuffler_def)
  from shuffle_rows [OF assms(2,3) k b, of "sp_blind p" "sp_pickline p" "sp_draw p"]
  obtain rows' perm beta where o: "ShuffleSequence S (sp_blind p) (sp_pickline p) (sp_draw p) rows (Point_Base S) (shuffling_key p) (sp_Precomputed p) =
      Inr (rows', perm, beta)" "length rows' = length rows" "\<forall>row\<in>set rows'. length row = n"
    "mset (map (map (decryptPoint S x)) rows') = mset (map (map (decryptPoint S x)) rows)" by (elim exE conjE)
  show thesis by (rule that [of rows']) (use o in \<open>simp_all add: shuffle_at_def\<close>)
qed

sublocale shuffling: circuit "Shuffling_Dispatch S"
  "\<lambda>ns msg. (\<forall>p\<in>set ns. shuffler S x n p) \<and> n < 2 ^ 32 \<and> 0 < k \<and> carries_rows S k n msg"
  "\<lambda>ns msg. mset (map (map (decryptPoint S x)) (rows_of S msg))" "\<lambda>p rows. rows" for x n k
proof (unfold_locales, goal_cases)
  case (1 p ns msg)
  then obtain rows where r: "FromBytesToArrayCipherVector S (fst msg) (snd msg) = Inr rows" "length rows = k" "\<forall>row\<in>set rows. length row = n"
    by (auto simp: carries_rows_def)
  have ne: "rows \<noteq> []" and sh: "shuffler S x n p" using 1 r(2) by auto
  obtain rows' where s: "shuffle_at S p rows = Inr rows'" "length rows' = length rows" "\<forall>row\<in>set rows'. length row = n"
    "mset (map (map (decryptPoint S x)) rows') = mset (map (map (decryptPoint S x)) rows)"
    by (rule shuffle_at_ok [OF sh ne r(3)])
  obtain msg' where m: "ArrayCipherVectorToBytes S rows' = Inr msg'" "FromBytesToArrayCipherVector S (fst msg') (snd msg') = Inr rows'"
    using rows_message [OF s(3)] 1 by blast
  have "Shuffling_Dispatch S p msg = Inr msg'" using r(1) s(1) m(1) by (simp add: Shuffling_Dispatch_def)
  moreover have "rows_of S msg = rows" "rows_of S msg' = rows'" using r(1) m(2) by (simp_all add: rows_of_def)
  ultimately show ?case using 1 m(2) s r(2) by (auto simp: carries_rows_def)
qed

lemma shuffling_run:
  assumes "sp_ShuffleTarget start = Some target" and "\<forall>p\<in>set (start # others). shuffler S x n p"
    and "target \<noteq> []" and "\<forall>row\<in>set target. length row = n" and "n < 2 ^ 32"
  shows "\<exists>rows. Shuffling_run S start others = Inr rows \<and> length rows = length target \<and> (\<forall>row\<in>set rows. length row = n) \<and>
    mset (map (map (decryptPoint S x)) rows) = mset (map (map (decryptPoint S x)) target)"
proof -
  have "shuffler S x n start" using assms(2) by simp
  then obtain rows0 where s: "shuffle_at S start target = Inr rows0" "length rows0 = length target" "\<forall>row\<in>set rows0. length row = n"
    "mset (map (map (decryptPoint S x)) rows0) = mset (map (map (decryptPoint S x)) target)"
    using shuffle_at_ok assms(3,4) by metis
  obtain msg where m: "ArrayCipherVectorToBytes S rows0 = Inr msg" "FromBytesToArrayCipherVector S (fst msg) (snd msg) = Inr rows0"
    by (rule rows_message [OF s(3) assms(5)])
  have "carries_rows S (length target) n msg" using m(2) s by (auto simp: carries_rows_def)
  then obtain msg' where f: "fold_res (Shuffling_Dispatch S) others msg = Inr msg'" "carries_rows S (length target) n msg'"
    "mset (map (map (decryptPoint S x)) (rows_of S msg')) = mset (map (map (decryptPoint S x)) (rows_of S msg))"
    using shuffling.round_ok [of others x n "length target" msg] assms by (auto simp: fold_id [unfolded id_def])
  then obtain rows where r: "FromBytesToArrayCipherVector S (fst msg') (snd msg') = Inr rows" "length rows = length target" "\<forall>row\<in>set rows. length row = n"
    by (auto simp: carries_rows_def)
  have "rows_of S msg' = rows" "rows_of S msg = rows0" using r(1) m(2) by (simp_all add: rows_of_def)
  with f(3) s(4) have "mset (map (map (decryptPoint S x)) rows) = mset (map (map (decryptPoint S x)) target)" by simp
  moreover have "Shuffling_run S start others = Inr rows"
    using assms(1) s(1) m(1) f(1) r(1) by (simp add: Shuffling_run_def Shuffling_Start_def Shuffling_report_def)
  ultimately show ?thesis using r(2,3) by blast
qed

end

interpretation ed_shuffling: circuit "Shuffling_Dispatch ed25519"
  "\<lambda>ns msg. (\<forall>p\<in>set ns. shuffler ed25519 x n p) \<and> n < 2 ^ 32 \<and> 0 < k \<and> carries_rows ed25519 k n msg"
  "\<lambda>ns msg. mset (map (map (decryptPoint ed25519 x)) (rows_of ed25519 msg))" "\<lambda>p rows. rows" for x n k
  by (rule ed.shuffling.circuit_axioms)

section \<open>Properties\<close>

text \<open>
  C13. The shuffling protocol permutes the plaintext rows: around any circuit of servers that use
  the key of x, with fresh or precomputed blinding and any random choices, a run on a non-empty
  list of rows of n ciphertexts succeeds, and the rows at the root decrypt under x to a
  permutation of the plaintext rows of the target.
\<close>

theorem shuffling_protocol_run:
  assumes "kyber_suite S" and "sp_ShuffleTarget start = Some target" and "\<forall>p\<in>set (start # others). shuffler S x n p"
    and "target \<noteq> []" and "\<forall>row\<in>set target. length row = n" and "n < 2 ^ 32"
  shows "\<exists>rows. Shuffling_run S start others = Inr rows \<and> length rows = length target \<and> (\<forall>row\<in>set rows. length row = n) \<and>
    mset (map (map (decryptPoint S x)) rows) = mset (map (map (decryptPoint S x)) target)"
  using assms by (rule kyber_suite.shuffling_run)

theorem shuffling_protocol_run_witness:
  "\<exists>rows. Shuffling_run ed25519
      \<lparr>sp_ShuffleTarget = Some [[\<lparr>ctK = 0, ctC = 5\<rparr>], [\<lparr>ctK = 0, ctC = 6\<rparr>]], sp_Precomputed = None, sp_Aggregate = 9, sp_CollectiveKey = Some 7,
       sp_blind = (\<lambda>i j. of_nat (i + j)), sp_pickline = (\<lambda>i. i), sp_draw = (\<lambda>i. i)\<rparr>
      [\<lparr>sp_ShuffleTarget = None, sp_Precomputed = Some [\<lparr>CipherV = [\<lparr>ctK = 2, ctC = 14\<rparr>], cvs_S = [2]\<rparr>], sp_Aggregate = 7, sp_CollectiveKey = None,
       sp_blind = (\<lambda>i j. 0), sp_pickline = (\<lambda>i. 3), sp_draw = (\<lambda>i. 1)\<rparr>] = Inr rows \<and>
    mset (map (map (decryptPoint ed25519 7)) rows) = {#[5], [6]#}"
proof -
  have "mset (map (map (decryptPoint ed25519 7)) [[\<lparr>ctK = 0, ctC = 5\<rparr>], [\<lparr>ctK = 0, ctC = 6\<rparr>]]) = {#[5], [6]#}"
    by (simp add: decryptPoint_def ed_simps)
  with shuffling_protocol_run [OF ed.kyber_suite_axioms, where x = 7 and n = 1 and target = "[[\<lparr>ctK = 0, ctC = 5\<rparr>], [\<lparr>ctK = 0, ctC = 6\<rparr>]]"
      and start = "\<lparr>sp_ShuffleTarget = Some [[\<lparr>ctK = 0, ctC = 5\<rparr>], [\<lparr>ctK = 0, ctC = 6\<rparr>]], sp_Precomputed = None, sp_Aggregate = 9, sp_CollectiveKey = Some 7,
       sp_blind = (\<lambda>i j. of_nat (i + j)), sp_pickline = (\<lambda>i. i), sp_draw = (\<lambda>i. i)\<rparr>"
      and others = "[\<lparr>sp_ShuffleTarget = None, sp_Precomputed = Some [\<lparr>CipherV = [\<lparr>ctK = 2, ctC = 14\<rparr>], cvs_S = [2]\<rparr>], sp_Aggregate = 7, sp_CollectiveKey = None,
       sp_blind = (\<lambda>i j. 0), sp_pickline = (\<lambda>i. 3), sp_draw = (\<lambda>i. 1)\<rparr>]"]
  show ?thesis
    by (auto simp: shuffler_def shuffling_key_def blinding_ok_def blinding_line_def ed_simps)
qed

end
