(* ===== verification/ShufflingDDT.thy ===== *)
theory ShufflingDDT
  imports Shuffling Tagging
begin

text \<open>
  protocols/shuffling+ddt_protocol.go: shuffling and deterministic tagging in one round. Every
  server shuffles the rows under the key that is still in the ciphertexts, adds its survey secret,
  makes its tagging step, and passes the rows on with the key less its own.
\<close>

record ('s, 'p) ShufflingPlusDDTProtocol =
  sd_TargetData :: "'p CipherVector list option"
  sd_SurveySecretKey :: "'s option"
  sd_Precomputed :: "('s, 'p) CipherVectorScalar list option"
  sd_Proofs :: bool
  sd_Private :: 's
  sd_Public :: 'p
  sd_Aggregate :: 'p
  sd_blind :: "nat \<Rightarrow> nat \<Rightarrow> 's"
  sd_pickline :: "nat \<Rightarrow> nat"
  sd_draw :: "nat \<Rightarrow> nat"

text \<open>A message: the bytes of the rows, those of their lengths, and those of the shuffling key.\<close>

type_synonym spddt_message = "(byte list \<times> byte list) \<times> byte list"

definition spddt_ToBytes :: "('s, 'p) suite \<Rightarrow> 'p CipherVector list \<Rightarrow> 'p \<Rightarrow> spddt_message res" where
  "spddt_ToBytes S rows shuffKey =
     andThen (ArrayCipherVectorToBytes S rows) (\<lambda>data.
     andThen (AbstractPointsToBytes S [shuffKey]) (\<lambda>key. Inr (data, key)))"

definition spddt_FromBytes :: "('s, 'p) suite \<Rightarrow> spddt_message \<Rightarrow> ('p CipherVector list \<times> 'p) res" where
  "spddt_FromBytes S msg =
     andThen (FromBytesToArrayCipherVector S (fst (fst msg)) (snd (fst msg))) (\<lambda>rows.
     andThen (FromBytesToAbstractPoints S (snd msg)) (\<lambda>dataP.
     andThen (index_at dataP 0) (\<lambda>shuffKey. Inr (rows, shuffKey))))"

definition ShufflingPlusDDT_Start :: "('s, 'p) suite \<Rightarrow> ('s, 'p) ShufflingPlusDDTProtocol \<Rightarrow> spddt_message res" where
  "ShufflingPlusDDT_Start S p =
     (case sd_TargetData p of
        None \<Rightarrow> Inl (Err ''no data is given'')
      | Some shuffleTarget \<Rightarrow> spddt_ToBytes S shuffleTarget (sd_Aggregate p))"

text \<open>Step 1: shuffling, with its proof.\<close>

definition spddt_shuffle :: "('s, 'p) suite \<Rightarrow> ('s, 'p) pair_shuffle \<Rightarrow> ('s, 'p) ShufflingPlusDDTProtocol \<Rightarrow> 'p CipherVector list \<Rightarrow> 'p
    \<Rightarrow> 'p CipherVector list res" where
  "spddt_shuffle S W p rows shuffKey =
     andThen (ShuffleSequence S (sd_blind p) (sd_pickline p) (sd_draw p) rows (Point_Base S) shuffKey (sd_Precomputed p)) (\<lambda>(shuffledData, perm, beta).
     andThen (if sd_Proofs p
              then andThen (ShuffleProofCreation S W rows shuffledData (Point_Base S) shuffKey beta perm) (\<lambda>_. Inr ())
              else Inr ()) (\<lambda>_.
     Inr shuffledData))"

text \<open>
  Step 3 in one goroutine: an error of the proof ends the goroutine, which leaves its other rows
  as they are, and nobody looks at the error.
\<close>

fun tag_rows :: "('s, 'p) suite \<Rightarrow> ('s, 'p) proofs \<Rightarrow> ('s, 'p) ShufflingPlusDDTProtocol \<Rightarrow> 's \<Rightarrow> 'p CipherVector list \<Rightarrow> 'p CipherVector list res" where
  "tag_rows S Z p secret [] = Inr []"
| "tag_rows S Z p secret (vBef # rows) =
     (let vAft = DeterministicTagSequence S vBef (sd_Private p) secret in
      case (if sd_Proofs p
            then andThen (DeterministicTagCrListProofCreation S Z vBef vAft (sd_Public p) secret (sd_Private p)) (\<lambda>_. Inr ())
            else Inr ()) of
        Inl Panic \<Rightarrow> Inl Panic
      | Inl (Err _) \<Rightarrow> Inr (vBef # rows)
      | Inr _ \<Rightarrow> andThen (tag_rows S Z p secret rows) (\<lambda>rows'. Inr (vAft # rows')))"

text \<open>Dispatch up to the point where the root and the other servers differ.\<close>

definition spddt_steps :: "('s, 'p) suite \<Rightarrow> ('s, 'p) proofs \<Rightarrow> ('s, 'p) pair_shuffle \<Rightarrow> ('s, 'p) ShufflingPlusDDTProtocol \<Rightarrow> spddt_message
    \<Rightarrow> ('p CipherVector list \<times> 'p) res" where
  "spddt_steps S Z W p msg =
     andThen (spddt_FromBytes S msg) (\<lambda>(rows, shuffKey).
     andThen (spddt_shuffle S W p rows shuffKey) (\<lambda>shuffledData.
     case sd_SurveySecretKey p of
       None \<Rightarrow> Inl Panic
     | Some secret \<Rightarrow>
         andThen (par_list VPARALLELIZE (length shuffledData) (\<lambda>i. traverse (add_secret S Z secret (sd_Proofs p)) (shuffledData ! i))) (\<lambda>added.
         let blocks = chunks VPARALLELIZE (length added) 0 in
         andThen (par_list 1 (length blocks) (\<lambda>b. tag_rows S Z p secret (map ((!) added) (blocks ! b)))) (\<lambda>tagged.
         Inr (concat tagged, shuffKey)))))"

definition ShufflingPlusDDT_Dispatch :: "('s, 'p) suite \<Rightarrow> ('s, 'p) proofs \<Rightarrow> ('s, 'p) pair_shuffle \<Rightarrow> ('s, 'p) ShufflingPlusDDTProtocol \<Rightarrow> spddt_message
    \<Rightarrow> spddt_message res" where
  "ShufflingPlusDDT_Dispatch S Z W p msg =
     andThen (spddt_steps S Z W p msg) (\<lambda>(rows, shuffKey). spddt_ToBytes S rows (Point_Sub S shuffKey (sd_Public p)))"

definition ShufflingPlusDDT_report :: "('s, 'p) suite \<Rightarrow> ('s, 'p) proofs \<Rightarrow> ('s, 'p) pair_shuffle \<Rightarrow> ('s, 'p) ShufflingPlusDDTProtocol \<Rightarrow> spddt_message
    \<Rightarrow> 'p DeterministCipherVector list res" where
  "ShufflingPlusDDT_report S Z W p msg =
     andThen (spddt_steps S Z W p msg) (\<lambda>(rows, shuffKey).
     fold_res (\<lambda>i taggedData. store_at taggedData i (map (\<lambda>el. DeterministCipherText (ctC el)) (rows ! i)))
       [0..<length rows]
       (replicate (length (case sd_TargetData p of None \<Rightarrow> [] | Some t \<Rightarrow> t)) []))"

definition ShufflingPlusDDT_run :: "('s, 'p) suite \<Rightarrow> ('s, 'p) proofs \<Rightarrow> ('s, 'p) pair_shuffle \<Rightarrow> ('s, 'p) ShufflingPlusDDTProtocol
    \<Rightarrow> ('s, 'p) ShufflingPlusDDTProtocol list \<Rightarrow> 'p DeterministCipherVector list res" where
  "ShufflingPlusDDT_run S Z W start others =
     andThen (ShufflingPlusDDT_Start S start) (\<lambda>msg.
     andThen (fold_res (ShufflingPlusDDT_Dispatch S Z W) others msg) (ShufflingPlusDDT_report S Z W start))"

section \<open>Every server applies its own bijection to the plaintexts\<close>

definition sd_secret :: "('s, 'p) suite \<Rightarrow> ('s, 'p) ShufflingPlusDDTProtocol \<Rightarrow> 's" where
  "sd_secret S p = (case sd_SurveySecretKey p of None \<Rightarrow> Scalar_Zero S | Some secret \<Rightarrow> secret)"

definition tag_map :: "('s, 'p) suite \<Rightarrow> ('s, 'p) ShufflingPlusDDTProtocol \<Rightarrow> 'p \<Rightarrow> 'p" where
  "tag_map S p P = Point_Mul S (sd_secret S p) (Point_Add S P (Point_Mul S (sd_secret S p) (Point_Base S)))"

text \<open>
  The servers from a point of the circuit on: each has its secret, its public key, and precomputed
  values, if any, for the key that is left when the rows reach it.
\<close>

fun spddt_servers :: "('s, 'p) suite \<Rightarrow> ('s, 'p) proofs \<Rightarrow> ('s, 'p) pair_shuffle \<Rightarrow> nat \<Rightarrow> nat \<Rightarrow> ('s, 'p) ShufflingPlusDDTProtocol list \<Rightarrow> bool" where
  "spddt_servers S Z W k n [] \<longleftrightarrow> True"
| "spddt_servers S Z W k n (p # ps) \<longleftrightarrow>
     sd_Public p = Point_Mul S (sd_Private p) (Point_Base S) \<and> sd_SurveySecretKey p \<noteq> None \<and>
     blinding_ok S (Point_Base S) (Point_Mul S (ssum S (map sd_Private (p # ps))) (Point_Base S)) n (sd_Precomputed p) \<and>
     (sd_Proofs p \<longrightarrow> prover_returns Z \<and> shuffle_system S W \<and> 1 < k) \<and> spddt_servers S Z W k n ps"

definition message_rows :: "('s, 'p) suite \<Rightarrow> spddt_message \<Rightarrow> 'p CipherVector list" where
  "message_rows S msg = (case spddt_FromBytes S msg of Inl _ \<Rightarrow> [] | Inr (rows, key) \<Rightarrow> rows)"

definition carries :: "('s, 'p) suite \<Rightarrow> nat \<Rightarrow> nat \<Rightarrow> 'p \<Rightarrow> spddt_message \<Rightarrow> bool" where
  "carries S k n key msg \<longleftrightarrow> (\<exists>rows. spddt_FromBytes S msg = Inr (rows, key) \<and> length rows = k \<and> (\<forall>row\<in>set rows. length row = n))"

lemma tag_rows_Inr:
  assumes "sd_Proofs p \<longrightarrow> prover_returns Z"
  shows "tag_rows S Z p secret rows = Inr (map (map (\<lambda>ct. DeterministicTag S ct (sd_Private p) secret)) rows)"
proof (induction rows)
  case (Cons row rows)
  have "TaggingDet S Z row (sd_Private p) secret (sd_Public p) (sd_Proofs p) = Inr (map (\<lambda>ct. DeterministicTag S ct (sd_Private p) secret) row)"
    using assms by (rule TaggingDet_Inr)
  then have "sd_Proofs p \<Longrightarrow> \<exists>pl. DeterministicTagCrListProofCreation S Z row (DeterministicTagSequence S row (sd_Private p) secret)
      (sd_Public p) secret (sd_Private p) = Inr pl" by (auto simp: TaggingDet_def TaggingDet_proofs_def Let_def andThen_eq_Inr)
  with Cons show ?case by (auto simp: Let_def)
qed simp

context kyber_suite
begin

lemma spddt_roundtrip:
  assumes "\<forall>row\<in>set rows. length row = n" and "n < 2 ^ 32"
  obtains msg where "spddt_ToBytes S rows key = Inr msg" "spddt_FromBytes S msg = Inr (rows, key)"
proof -
  obtain d where d: "ArrayCipherVectorToBytes S rows = Inr d" "FromBytesToArrayCipherVector S (fst d) (snd d) = Inr rows"
    by (rule rows_message [OF assms])
  obtain b where b: "AbstractPointsToBytes S [key] = Inr b" "FromBytesToAbstractPoints S b = Inr [key]"
    using points_bytes_roundtrip [of "[key]"] by (auto simp: andThen_eq_Inr)
  show thesis by (rule that [of "(d, b)"]) (simp_all add: spddt_ToBytes_def spddt_FromBytes_def d b)
qed

lemma spddt_shuffle_ok:
  assumes "rows \<noteq> []" and "\<forall>row\<in>set rows. length row = n" and key: "key = Point_Mul S x (Point_Base S)"
    and "blinding_ok S (Point_Base S) key n (sd_Precomputed p)" and "sd_Proofs p \<longrightarrow> shuffle_system S W \<and> 1 < length rows"
  obtains rows' where "spddt_shuffle S W p rows key = Inr rows'" "length rows' = length rows" "\<forall>row\<in>set rows'. length row = n"
    "mset (map (map (decryptPoint S x)) rows') = mset (map (map (decryptPoint S x)) rows)"
proof -
  let ?perm = "RandomPermutation (sd_draw p) (length rows)"
  let ?seq = "ShuffleSequence S (sd_blind p) (sd_pickline p) (sd_draw p) rows (Point_Base S) key (sd_Precomputed p)"
  from ShuffleSequence_Inr [OF assms(1,2,4), of "sd_blind p" "sd_pickline p" "sd_draw p"]
  obtain beta where b: "?seq = Inr (shuffled S (Point_Base S) key ?perm beta rows, ?perm, beta)"
    "length beta = length rows" "\<forall>row\<in>set beta. length row = n" by (elim exE conjE)
  from shuffle_rows [OF assms(1-4), of "sd_blind p" "sd_pickline p" "sd_draw p"]
  have o: "length (shuffled S (Point_Base S) key ?perm beta rows) = length rows" "\<forall>row\<in>set (shuffled S (Point_Base S) key ?perm beta rows). length row = n"
    "mset (map (map (decryptPoint S x)) (shuffled S (Point_Base S) key ?perm beta rows)) = mset (map (map (decryptPoint S x)) rows)"
    unfolding b(1) by auto
  have "\<exists>psp. ShuffleProofCreation S W rows (shuffled S (Point_Base S) key ?perm beta rows) (Point_Base S) key beta ?perm = Inr psp" if "sd_Proofs p"
    using shuffle_system.honest_shuffle_proof [of S W rows n ?perm beta key] assms(2,5) that b(2,3) RandomPermutation_perm [of "sd_draw p" "length rows"]
    by blast
  then have "spddt_shuffle S W p rows key = Inr (shuffled S (Point_Base S) key ?perm beta rows)"
    unfolding spddt_shuffle_def b(1) by auto
  from this o show thesis by (rule that)
qed

end
lemma concat_blocks: "concat (map (map f) (map (map ((!) xs)) (chunks VPARALLELIZE (length xs) 0))) = map f xs"
proof -
  have "concat (map (map ((!) xs)) (chunks VPARALLELIZE (length xs) 0)) = xs"
    by (simp add: map_concat [symmetric] concat_chunks map_nth)
  then show ?thesis by (metis map_concat)
qed

context proof_system
begin

lemma decrypt_tagged: "decryptPoint S x (DeterministicTag S (c\<lparr>ctC := Point_Add S (ctC c) (Point_Mul S s (Point_Base S))\<rparr>) k s) =
    Point_Mul S s (Point_Add S (decryptPoint S (Scalar_Add S k x) c) (Point_Mul S s (Point_Base S)))"
  by (simp add: DeterministicTag_def decryptPoint_def Let_def mul_sub mul_scalar_add mul_commute [of x] mul_point_add)
    (simp add: pt.diff_diff_add pt.add_diff_eq pt.add.commute)

lemma spddt_steps_ok:
  assumes "carries S m n key msg" and "spddt_servers S Z W m n (p # ps)" and "0 < m"
    and key: "key = Point_Mul S (ssum S (map sd_Private (p # ps))) (Point_Base S)"
  obtains rows where "spddt_steps S Z W p msg = Inr (rows, key)" "length rows = m" "\<forall>row\<in>set rows. length row = n"
    "mset (map (map (decryptPoint S (ssum S (map sd_Private ps)))) rows) =
      mset (map (map (tag_map S p)) (map (map (decryptPoint S (ssum S (map sd_Private (p # ps))))) (message_rows S msg)))"
proof -
  let ?x = "ssum S (map sd_Private (p # ps))" and ?y = "ssum S (map sd_Private ps)"
  obtain rows0 where r0: "spddt_FromBytes S msg = Inr (rows0, key)" "length rows0 = m" "\<forall>row\<in>set rows0. length row = n"
    using assms(1) by (auto simp: carries_def)
  obtain secret where s: "sd_SurveySecretKey p = Some secret" using assms(2) by auto
  have sec: "sd_secret S p = secret" by (simp add: sd_secret_def s)
  have pr: "sd_Proofs p \<longrightarrow> prover_returns Z" "sd_Proofs p \<longrightarrow> shuffle_system S W \<and> 1 < length rows0"
    and b: "blinding_ok S (Point_Base S) key n (sd_Precomputed p)" using assms(2) r0(2) key by auto
  obtain rows1 where r1: "spddt_shuffle S W p rows0 key = Inr rows1" "length rows1 = length rows0" "\<forall>row\<in>set rows1. length row = n"
    "mset (map (map (decryptPoint S ?x)) rows1) = mset (map (map (decryptPoint S ?x)) rows0)"
    by (rule spddt_shuffle_ok [OF _ r0(3) key b pr(2)]) (use r0(2) assms(3) in auto)
  let ?add = "\<lambda>c. c\<lparr>ctC := Point_Add S (ctC c) (Point_Mul S secret (Point_Base S))\<rparr>"
  let ?tag = "\<lambda>ct. DeterministicTag S ct (sd_Private p) secret"
  let ?added = "map (map ?add) rows1" and ?rows = "map (map ?tag) (map (map ?add) rows1)"
  have add: "par_list VPARALLELIZE (length rows1) (\<lambda>i. traverse (add_secret S Z secret (sd_Proofs p)) (rows1 ! i)) = Inr ?added"
  proof -
    have "par_list VPARALLELIZE (length rows1) (\<lambda>i. traverse (add_secret S Z secret (sd_Proofs p)) (rows1 ! i)) =
        Inr (map (\<lambda>i. map ?add (rows1 ! i)) [0..<length rows1])"
      by (rule par_list_Inr) (simp_all add: add_secret_Inr [OF pr(1)])
    moreover have "map (\<lambda>i. map ?add (rows1 ! i)) [0..<length rows1] = ?added" by (intro nth_equalityI) simp_all
    ultimately show ?thesis by simp
  qed
  let ?bs = "chunks VPARALLELIZE (length ?added) 0"
  have "par_list 1 (length ?bs) (\<lambda>b. tag_rows S Z p secret (map ((!) ?added) (?bs ! b))) =
      Inr (map (\<lambda>b. map (map ?tag) (map ((!) ?added) (?bs ! b))) [0..<length ?bs])"
    by (rule par_list_Inr) (simp_all add: tag_rows_Inr [OF pr(1)])
  moreover have "map (\<lambda>b. map (map ?tag) (map ((!) ?added) (?bs ! b))) [0..<length ?bs] = map (map (map ?tag)) (map (map ((!) ?added)) ?bs)"
    by (intro nth_equalityI) simp_all
  ultimately have tag: "andThen (par_list 1 (length ?bs) (\<lambda>b. tag_rows S Z p secret (map ((!) ?added) (?bs ! b)))) (\<lambda>tagged. Inr (concat tagged, key)) =
      Inr (?rows, key)"
    using concat_blocks [of "map ?tag" ?added] by simp
  have steps: "spddt_steps S Z W p msg = Inr (?rows, key)"
    by (simp only: spddt_steps_def r0(1) andThen_Inr prod.case r1(1) s option.case add Let_def tag)
  have "mset (map (map (decryptPoint S ?y)) ?rows) = mset (map (map (tag_map S p)) (map (map (decryptPoint S ?x)) rows1))"
    by (simp add: tag_map_def sec decrypt_tagged comp_def)
  also have "\<dots> = image_mset (map (tag_map S p)) (mset (map (map (decryptPoint S ?x)) rows1))" by (simp only: mset_map)
  also have "\<dots> = image_mset (map (tag_map S p)) (mset (map (map (decryptPoint S ?x)) rows0))" unfolding r1(4) ..
  also have "\<dots> = mset (map (map (tag_map S p)) (map (map (decryptPoint S ?x)) (message_rows S msg)))"
    by (simp only: message_rows_def r0(1) sum.case prod.case mset_map)
  finally show thesis using r1(2,3) r0(2) by (intro that [OF steps]) simp_all
qed

sublocale spddt: circuit "ShufflingPlusDDT_Dispatch S Z W"
  "\<lambda>ns msg. spddt_servers S Z W m n (ns @ [start]) \<and> n < 2 ^ 32 \<and> 0 < m \<and>
     carries S m n (Point_Mul S (ssum S (map sd_Private (ns @ [start]))) (Point_Base S)) msg"
  "\<lambda>ns msg. mset (map (map (decryptPoint S (ssum S (map sd_Private (ns @ [start]))))) (message_rows S msg))"
  "\<lambda>p. image_mset (map (tag_map S p))" for W m n start
proof (unfold_locales, goal_cases)
  case (1 p ns msg)
  let ?ps = "ns @ [start]"
  let ?key = "Point_Mul S (ssum S (map sd_Private (p # ?ps))) (Point_Base S)"
  have sv: "spddt_servers S Z W m n (p # ?ps)" and c: "carries S m n ?key msg" and "0 < m" "n < 2 ^ 32" using 1 by auto
  obtain rows where r: "spddt_steps S Z W p msg = Inr (rows, ?key)" "length rows = m" "\<forall>row\<in>set rows. length row = n"
    "mset (map (map (decryptPoint S (ssum S (map sd_Private ?ps)))) rows) =
      mset (map (map (tag_map S p)) (map (map (decryptPoint S (ssum S (map sd_Private (p # ?ps))))) (message_rows S msg)))"
    by (rule spddt_steps_ok [OF c sv \<open>0 < m\<close> refl])
  have key: "Point_Sub S ?key (sd_Public p) = Point_Mul S (ssum S (map sd_Private ?ps)) (Point_Base S)"
    using sv by (simp add: mul_scalar_add)
  obtain msg' where m: "spddt_ToBytes S rows (Point_Sub S ?key (sd_Public p)) = Inr msg'"
    "spddt_FromBytes S msg' = Inr (rows, Point_Sub S ?key (sd_Public p))"
    by (rule spddt_roundtrip [OF r(3) \<open>n < 2 ^ 32\<close>])
  have "ShufflingPlusDDT_Dispatch S Z W p msg = Inr msg'" by (simp only: ShufflingPlusDDT_Dispatch_def r(1) andThen_Inr prod.case m(1))
  moreover have "message_rows S msg' = rows" by (simp add: message_rows_def m(2))
  moreover have "carries S m n (Point_Mul S (ssum S (map sd_Private ?ps)) (Point_Base S)) msg'"
    unfolding carries_def using m(2) [unfolded key] r(2,3) by (intro exI [of _ rows] conjI)
  ultimately show ?case using sv \<open>0 < m\<close> \<open>n < 2 ^ 32\<close> r(4) by (intro exI [of _ msg']) (simp_all only: append_Cons mset_map spddt_servers.simps simp_thms)
qed

lemma spddt_run:
  assumes "sd_TargetData start = Some target" and "target \<noteq> []" and "\<forall>row\<in>set target. length row = n" and "n < 2 ^ 32"
    and sv: "spddt_servers S Z W (length target) n (others @ [start])"
    and agg: "sd_Aggregate start = Point_Mul S (ssum S (map sd_Private (others @ [start]))) (Point_Base S)"
  shows "\<exists>tags. ShufflingPlusDDT_run S Z W start others = Inr tags \<and>
    mset (map (map (\<lambda>t. case t of DeterministCipherText P \<Rightarrow> P)) tags) =
    fold (\<lambda>p. image_mset (map (tag_map S p))) (others @ [start])
      (mset (map (map (decryptPoint S (ssum S (map sd_Private (others @ [start]))))) target))"
proof -
  let ?m = "length target"
  let ?key = "\<lambda>ps. Point_Mul S (ssum S (map sd_Private (ps @ [start]))) (Point_Base S)"
  let ?val = "\<lambda>ps msg. mset (map (map (decryptPoint S (ssum S (map sd_Private (ps @ [start]))))) (message_rows S msg))"
  obtain msg where m: "spddt_ToBytes S target (sd_Aggregate start) = Inr msg" "spddt_FromBytes S msg = Inr (target, sd_Aggregate start)"
    by (rule spddt_roundtrip [OF assms(3,4)])
  have tgt: "message_rows S msg = target" by (simp add: message_rows_def m(2))
  have "carries S ?m n (?key others) msg" unfolding carries_def using m(2) [unfolded agg] assms(3) by blast
  then have v: "spddt_servers S Z W ?m n (others @ [start]) \<and> n < 2 ^ 32 \<and> 0 < ?m \<and> carries S ?m n (?key others) msg"
    using sv assms(2,4) by simp
  from spddt.round_ok [OF v] obtain msg' where f: "fold_res (ShufflingPlusDDT_Dispatch S Z W) others msg = Inr msg'"
    "spddt_servers S Z W ?m n ([] @ [start])" "carries S ?m n (?key []) msg'"
    "?val [] msg' = fold (\<lambda>p. image_mset (map (tag_map S p))) others (?val others msg)"
    by (elim exE conjE)
  obtain rows where r: "spddt_steps S Z W start msg' = Inr (rows, ?key [])" "length rows = ?m" "\<forall>row\<in>set rows. length row = n"
    "mset (map (map (decryptPoint S (ssum S (map sd_Private [])))) rows) =
      mset (map (map (tag_map S start)) (map (map (decryptPoint S (ssum S (map sd_Private [start])))) (message_rows S msg')))"
    by (rule spddt_steps_ok [of ?m n "?key []" msg' W start "[]"]) (use f assms(2) in simp_all)
  let ?tags = "map (\<lambda>i. map (\<lambda>el. DeterministCipherText (ctC el)) (rows ! i)) [0..<?m]"
  have tags: "map (map (\<lambda>t. case t of DeterministCipherText P \<Rightarrow> P)) ?tags = map (map (decryptPoint S (ssum S []))) rows"
    using r(2) by (intro nth_equalityI) (simp_all add: decryptPoint_def Let_def)
  have "ShufflingPlusDDT_report S Z W start msg' = Inr ?tags"
    by (simp add: ShufflingPlusDDT_report_def r(1,2) assms(1) store_loop)
  then have "ShufflingPlusDDT_run S Z W start others = Inr ?tags"
    by (simp only: ShufflingPlusDDT_run_def ShufflingPlusDDT_Start_def assms(1) option.case m(1) andThen_Inr f(1))
  moreover have "mset (map (map (\<lambda>t. case t of DeterministCipherText P \<Rightarrow> P)) ?tags) =
      fold (\<lambda>p. image_mset (map (tag_map S p))) (others @ [start]) (?val others msg)"
  proof -
    have "mset (map (map (decryptPoint S (ssum S []))) rows) = image_mset (map (tag_map S start)) (?val [] msg')"
      using r(4) by (simp only: list.map append_Nil mset_map)
    then show ?thesis unfolding tags by (simp only: f(4) fold_append comp_apply fold_simps)
  qed
  ultimately show ?thesis unfolding tgt by blast
qed

end

interpretation ed_spddt: circuit "ShufflingPlusDDT_Dispatch ed25519 (transparent ed25519) W"
  "\<lambda>ns msg. spddt_servers ed25519 (transparent ed25519) W m n (ns @ [start]) \<and> n < 2 ^ 32 \<and> 0 < m \<and>
     carries ed25519 m n (Point_Mul ed25519 (ssum ed25519 (map sd_Private (ns @ [start]))) (Point_Base ed25519)) msg"
  "\<lambda>ns msg. mset (map (map (decryptPoint ed25519 (ssum ed25519 (map sd_Private (ns @ [start]))))) (message_rows ed25519 msg))"
  "\<lambda>p. image_mset (map (tag_map ed25519 p))" for W m n start
  by (rule ed_proofs.spddt.circuit_axioms)

section \<open>Properties\<close>

text \<open>
  C14. Shuffling and tagging in one round: over any circuit of servers that hold their survey
  secrets, with or without proofs and precomputed values, and for any random choices, the tags
  at the root are, up to the order of the rows, the plaintexts of the rows under the servers'
  maps one after the other; each map adds the server's secret times the base point and multiplies
  by the secret, and does not depend on the row, so equal plaintexts get equal tags.
\<close>

theorem shuffling_ddt_run:
  assumes "proof_system S Z" and "sd_TargetData start = Some target" and "target \<noteq> []"
    and "\<forall>row\<in>set target. length row = n" and "n < 2 ^ 32" and "spddt_servers S Z W (length target) n (others @ [start])"
    and "sd_Aggregate start = Point_Mul S (ssum S (map sd_Private (others @ [start]))) (Point_Base S)"
  shows "\<exists>tags. ShufflingPlusDDT_run S Z W start others = Inr tags \<and>
    mset (map (map (\<lambda>t. case t of DeterministCipherText P \<Rightarrow> P)) tags) =
    fold (\<lambda>p. image_mset (map (tag_map S p))) (others @ [start])
      (mset (map (map (decryptPoint S (ssum S (map sd_Private (others @ [start]))))) target))"
  using assms by (rule proof_system.spddt_run)

theorem shuffling_ddt_run_witness:
  "\<forall>W. \<exists>tags. ShufflingPlusDDT_run ed25519 (transparent ed25519) W
      \<lparr>sd_TargetData = Some [[\<lparr>ctK = 1, ctC = 10\<rparr>], [\<lparr>ctK = 0, ctC = 6\<rparr>]], sd_SurveySecretKey = Some 2, sd_Precomputed = None, sd_Proofs = False,
       sd_Private = 3, sd_Public = 3, sd_Aggregate = 7, sd_blind = (\<lambda>i j. of_nat (i + j)), sd_pickline = (\<lambda>i. i), sd_draw = (\<lambda>i. i)\<rparr>
      [\<lparr>sd_TargetData = None, sd_SurveySecretKey = Some 5, sd_Precomputed = None, sd_Proofs = False,
       sd_Private = 4, sd_Public = 4, sd_Aggregate = 7, sd_blind = (\<lambda>i j. 1), sd_pickline = (\<lambda>i. 0), sd_draw = (\<lambda>i. 1)\<rparr>] = Inr tags \<and>
    mset (map (map (\<lambda>t. case t of DeterministCipherText P \<Rightarrow> P)) tags) = {#[84], [114]#}"
proof
  fix W
  let ?start = "\<lparr>sd_TargetData = Some [[\<lparr>ctK = 1, ctC = 10\<rparr>], [\<lparr>ctK = 0, ctC = 6\<rparr>]], sd_SurveySecretKey = Some 2, sd_Precomputed = None, sd_Proofs = False,
       sd_Private = 3, sd_Public = 3, sd_Aggregate = 7, sd_blind = (\<lambda>i j. of_nat (i + j)), sd_pickline = (\<lambda>i. i), sd_draw = (\<lambda>i. i)\<rparr>
      :: (ed_l, ed_l) ShufflingPlusDDTProtocol"
  let ?others = "[\<lparr>sd_TargetData = None, sd_SurveySecretKey = Some 5, sd_Precomputed = None, sd_Proofs = False,
       sd_Private = 4, sd_Public = 4, sd_Aggregate = 7, sd_blind = (\<lambda>i j. 1), sd_pickline = (\<lambda>i. 0), sd_draw = (\<lambda>i. 1)\<rparr>]
      :: (ed_l, ed_l) ShufflingPlusDDTProtocol list"
  show "\<exists>tags. ShufflingPlusDDT_run ed25519 (transparent ed25519) W ?start ?others = Inr tags \<and>
      mset (map (map (\<lambda>t. case t of DeterministCipherText P \<Rightarrow> P)) tags) = {#[84], [114]#}"
    using shuffling_ddt_run [OF ed_proofs.proof_system_axioms, where n = 1 and start = ?start and others = ?others and W = W
        and target = "[[\<lparr>ctK = 1, ctC = 10\<rparr>], [\<lparr>ctK = 0, ctC = 6\<rparr>]]"]
    by (simp add: ed_simps blinding_ok_def tag_map_def sd_secret_def decryptPoint_def)
qed

end
