(* ===== verification/Store.thy ===== *)
theory Store
  imports Structs Aggregation
begin

text \<open>
  lib/store/store.go: what a server keeps of a survey, and the protocol of
  protocols/utils/local_aggregation_protocol.go, which makes the same local aggregation.
\<close>

type_synonym GroupingKeyTuple = "GroupingKey \<times> GroupingKey"

record 'p Store =
  DpResponses :: "'p ProcessResponse list"
  DeliverableResults :: "'p FilteredResponse list"
  ShuffledProcessResponses :: "'p ProcessResponse list"
  DpResponsesAggr :: "GroupingKeyTuple \<rightharpoonup> 'p ProcessResponse"
  LocAggregatedProcessResponse :: "GroupingKey \<rightharpoonup> 'p FilteredResponse"
  GroupedDeterministicFilteredResponses :: "GroupingKey \<rightharpoonup> 'p FilteredResponse"
  lastID :: "64 word"

definition NewStore :: "'p Store" where
  "NewStore = \<lparr>DpResponses = [], DeliverableResults = [], ShuffledProcessResponses = [], DpResponsesAggr = Map.empty,
     LocAggregatedProcessResponse = Map.empty, GroupedDeterministicFilteredResponses = Map.empty, lastID = 0\<rparr>"

section \<open>Responses of the data providers\<close>

definition clear_value :: "(string \<rightharpoonup> int64) \<Rightarrow> string \<Rightarrow> int64" where
  \<comment> \<open>reading a missing key gives zero\<close>
  "clear_value clear v = (case clear v of None \<Rightarrow> 0 | Some i \<Rightarrow> i)"

definition proccessParameters :: "('s, 'p) suite \<Rightarrow> string list \<Rightarrow> (string \<rightharpoonup> int64) \<Rightarrow> (string \<rightharpoonup> 'p CipherText) option \<Rightarrow> bool
    \<Rightarrow> int64 list \<times> 'p CipherVector" where
  "proccessParameters S data clear encrypted noEnc =
     (if noEnc then (map (clear_value clear) data, [])
      else ([], map (\<lambda>v. case (case encrypted of None \<Rightarrow> None | Some m \<Rightarrow> m v) of
                   Some value \<Rightarrow> value
                 | None \<Rightarrow> IntToCipherText S (clear_value clear v)) data))"

text \<open>Responses in clear groups are summed as they come in.\<close>

definition add_aggregated :: "('s, 'p) suite \<Rightarrow> GroupingKeyTuple \<Rightarrow> 'p ProcessResponse \<Rightarrow> (GroupingKeyTuple \<rightharpoonup> 'p ProcessResponse)
    \<Rightarrow> (GroupingKeyTuple \<rightharpoonup> 'p ProcessResponse) res" where
  "add_aggregated S key newResp dpResponsesAggr =
     (case dpResponsesAggr key of
        Some value \<Rightarrow>
          andThen (cv_Add S (NewCipherVector S (length (pr_AggregatingAttributes value))) (pr_AggregatingAttributes value)
            (pr_AggregatingAttributes newResp)) (\<lambda>cv.
          Inr (dpResponsesAggr(key \<mapsto> value\<lparr>pr_AggregatingAttributes := cv\<rparr>)))
      | None \<Rightarrow> Inr (dpResponsesAggr(key \<mapsto> newResp)))"

text \<open>The proof of addition that proofsB asks for is built and dropped.\<close>

definition InsertDpResponse :: "('s, 'p) suite \<Rightarrow> 'p DpResponse \<Rightarrow> bool \<Rightarrow> string list \<Rightarrow> string list \<Rightarrow> 'p WhereQueryAttribute list
    \<Rightarrow> 'p Store \<Rightarrow> 'p Store res" where
  "InsertDpResponse S cr proofsB groupBy sumNames wh s =
     (let noEnc = (WhereEnc cr = None \<and> GroupByEnc cr = None);
          (clearGrp, groupByEnc) = proccessParameters S groupBy (GroupByClear cr) (GroupByEnc cr) noEnc;
          whereStrings = map wq_Name wh;
          (clearWhr, whereEnc) = proccessParameters S whereStrings (WhereClear cr) (WhereEnc cr) noEnc;
          aggr = snd (proccessParameters S sumNames (AggregatingAttributesClear cr) (AggregatingAttributesEnc cr) False)
      in if \<not> noEnc
         then Inr (s\<lparr>DpResponses := DpResponses s @
           [\<lparr>pr_WhereEnc = whereEnc, pr_GroupByEnc = groupByEnc, pr_AggregatingAttributes = aggr\<rparr>]\<rparr>)
         else andThen (add_aggregated S (Key clearGrp, Key clearWhr)
             \<lparr>pr_WhereEnc = IntArrayToCipherVector S clearWhr, pr_GroupByEnc = IntArrayToCipherVector S clearGrp, pr_AggregatingAttributes = aggr\<rparr>
             (DpResponsesAggr s)) (\<lambda>m.
           Inr (s\<lparr>DpResponsesAggr := m\<rparr>)))"

definition HasNextDpResponse :: "'p Store \<Rightarrow> bool" where
  "HasNextDpResponse s \<longleftrightarrow> 0 < length (DpResponses s)"

text \<open>entries are those of DpResponsesAggr in the order of the range loop; the map is not cleared.\<close>

definition PullDpResponses :: "(GroupingKeyTuple \<times> 'p ProcessResponse) list \<Rightarrow> 'p Store \<Rightarrow> 'p ProcessResponse list \<times> 'p Store" where
  "PullDpResponses entries s = (DpResponses s @ map snd entries, s\<lparr>DpResponses := []\<rparr>)"

definition PushShuffledProcessResponses :: "'p ProcessResponse list \<Rightarrow> 'p Store \<Rightarrow> 'p Store" where
  "PushShuffledProcessResponses new s = s\<lparr>ShuffledProcessResponses := ShuffledProcessResponses s @ new\<rparr>"

definition PullShuffledProcessResponses :: "'p Store \<Rightarrow> 'p ProcessResponse list \<times> 'p Store" where
  "PullShuffledProcessResponses s = (ShuffledProcessResponses s, s\<lparr>ShuffledProcessResponses := []\<rparr>)"

section \<open>Local aggregation\<close>

text \<open>visit is the order of the range loop over the columns for the proofs, which are created and dropped.\<close>

definition local_aggregation :: "('s, 'p) suite \<Rightarrow> ((GroupingKey \<rightharpoonup> 'p CipherVector list) \<Rightarrow> (GroupingKey \<times> 'p CipherVector list) list)
    \<Rightarrow> bool \<Rightarrow> 'p FilteredResponseDet list \<Rightarrow> (GroupingKey \<rightharpoonup> 'p FilteredResponse) \<Rightarrow> (GroupingKey \<rightharpoonup> 'p FilteredResponse) res" where
  "local_aggregation S visit proofsB detFilteredResponses aggregated =
     andThen (fold_res (\<lambda>v (m, cvMap).
         andThen (AddInMap S (frd_DetTagGroupBy v) (Fr v) m) (\<lambda>m'.
         andThen (if proofsB then FormatAggregationProofs v cvMap else Inr cvMap) (\<lambda>cvMap'. Inr (m', cvMap'))))
       detFilteredResponses (aggregated, Map.empty)) (\<lambda>(m, cvMap).
     andThen (if proofsB
              then fold_res (\<lambda>(k, v) u. andThen (AggregationListProofCreation v
                  (case m k of None \<Rightarrow> [] | Some fr \<Rightarrow> fr_AggregatingAttributes fr)) (\<lambda>_. Inr u)) (visit cvMap) ()
              else Inr ()) (\<lambda>_.
     Inr m))"

definition PushDeterministicFilteredResponses :: "('s, 'p) suite \<Rightarrow> ((GroupingKey \<rightharpoonup> 'p CipherVector list) \<Rightarrow> (GroupingKey \<times> 'p CipherVector list) list)
    \<Rightarrow> 'p FilteredResponseDet list \<Rightarrow> bool \<Rightarrow> 'p Store \<Rightarrow> 'p Store res" where
  "PushDeterministicFilteredResponses S visit detFilteredResponses proofsB s =
     andThen (local_aggregation S visit proofsB detFilteredResponses (LocAggregatedProcessResponse s)) (\<lambda>m.
     Inr (s\<lparr>LocAggregatedProcessResponse := m\<rparr>))"

definition LocalAggregation_Start :: "('s, 'p) suite \<Rightarrow> ((GroupingKey \<rightharpoonup> 'p CipherVector list) \<Rightarrow> (GroupingKey \<times> 'p CipherVector list) list)
    \<Rightarrow> bool \<Rightarrow> 'p FilteredResponseDet list \<Rightarrow> (GroupingKey \<rightharpoonup> 'p FilteredResponse) res" where
  "LocalAggregation_Start S visit proofs targetOfAggregation = local_aggregation S visit proofs targetOfAggregation Map.empty"

definition HasNextAggregatedResponse :: "'p Store \<Rightarrow> bool" where
  "HasNextAggregatedResponse s \<longleftrightarrow> 0 < card (dom (LocAggregatedProcessResponse s))"

definition PullLocallyAggregatedResponses :: "'p Store \<Rightarrow> (GroupingKey \<rightharpoonup> 'p FilteredResponse) \<times> 'p Store" where
  "PullLocallyAggregatedResponses s = (LocAggregatedProcessResponse s, s\<lparr>LocAggregatedProcessResponse := Map.empty\<rparr>)"

definition nextID :: "'p Store \<Rightarrow> 64 word \<times> 'p Store" where
  "nextID s = (lastID s + 1, s\<lparr>lastID := lastID s + 1\<rparr>)"

section \<open>Results of the collective aggregation and for the querier\<close>

definition PushCothorityAggregatedFilteredResponses :: "('s, 'p) suite \<Rightarrow> (GroupingKey \<times> 'p FilteredResponse) list \<Rightarrow> 'p Store \<Rightarrow> 'p Store res" where
  "PushCothorityAggregatedFilteredResponses S sNew s =
     andThen (fold_res (\<lambda>(key, value). AddInMap S key value) sNew (GroupedDeterministicFilteredResponses s)) (\<lambda>m.
     Inr (s\<lparr>GroupedDeterministicFilteredResponses := m\<rparr>))"

definition HasNextAggregatedFilteredResponses :: "'p Store \<Rightarrow> bool" where
  "HasNextAggregatedFilteredResponses s \<longleftrightarrow> 0 < card (dom (GroupedDeterministicFilteredResponses s))"

text \<open>
  The loop that adds the noise works on copies of the ciphertexts: Add stores new points in the
  copy, and the results stay as they are.
\<close>

definition add_noise :: "('s, 'p) suite \<Rightarrow> bool \<Rightarrow> 'p CipherText \<Rightarrow> 'p FilteredResponse list \<Rightarrow> 'p FilteredResponse list" where
  "add_noise S diffPri noise results =
     (if diffPri then map (\<lambda>v. let copies = map (\<lambda>aggr. ct_Add S aggr noise) (fr_AggregatingAttributes v) in v) results else results)"

definition PullCothorityAggregatedFilteredResponses :: "('s, 'p) suite \<Rightarrow> bool \<Rightarrow> 'p CipherText \<Rightarrow> (GroupingKey \<times> 'p FilteredResponse) list
    \<Rightarrow> 'p Store \<Rightarrow> 'p FilteredResponse list \<times> 'p Store" where
  "PullCothorityAggregatedFilteredResponses S diffPri noise entries s =
     (add_noise S diffPri noise (map snd entries), s\<lparr>GroupedDeterministicFilteredResponses := Map.empty\<rparr>)"

definition PushQuerierKeyEncryptedResponses :: "'p FilteredResponse list \<Rightarrow> 'p Store \<Rightarrow> 'p Store" where
  "PushQuerierKeyEncryptedResponses keySwitchedResponse s = s\<lparr>DeliverableResults := keySwitchedResponse\<rparr>"

definition PullDeliverableResults :: "('s, 'p) suite \<Rightarrow> bool \<Rightarrow> 'p CipherText \<Rightarrow> 'p Store \<Rightarrow> 'p FilteredResponse list \<times> 'p Store" where
  "PullDeliverableResults S diffPri noise s = (add_noise S diffPri noise (DeliverableResults s), s\<lparr>DeliverableResults := []\<rparr>)"

lemma add_noise_id [simp]: "add_noise S diffPri noise results = results"
  by (simp add: add_noise_def)

section \<open>Inserted responses are summed by their clear groups\<close>

lemma Key_inject [simp]: "Key ga = Key gb \<longleftrightarrow> ga = gb"
proof -
  have "Split (CHR '','') (Key ga) = map Itoa ga @ [[]]" for ga
    by (induction ga) (simp_all add: Key_def Split_word Itoa_no_comma)
  then have "Key ga = Key gb \<Longrightarrow> map Itoa ga = map Itoa gb" by (metis append1_eq_conv)
  moreover have "map Itoa ga = map Itoa gb \<longleftrightarrow> ga = gb" by (rule inj_map_eq_map) (simp add: inj_def)
  ultimately show ?thesis by blast
qed

text \<open>The lengths of the parts of a response, and the part that is aggregated.\<close>

definition layout :: "nat \<Rightarrow> nat \<Rightarrow> nat \<Rightarrow> 'p ProcessResponse \<Rightarrow> bool" where
  "layout g w a pr \<longleftrightarrow> length (pr_GroupByEnc pr) = g \<and> length (pr_WhereEnc pr) = w \<and> length (pr_AggregatingAttributes pr) = a"

definition filtered :: "'p ProcessResponse \<Rightarrow> 'p FilteredResponse" where
  "filtered pr = \<lparr>fr_GroupByEnc = pr_GroupByEnc pr, fr_AggregatingAttributes = pr_AggregatingAttributes pr\<rparr>"

definition in_clear :: "'p DpResponse \<Rightarrow> bool" where
  "in_clear cr \<longleftrightarrow> WhereEnc cr = None \<and> GroupByEnc cr = None"

definition attribute :: "('s, 'p) suite \<Rightarrow> (string \<rightharpoonup> int64) \<Rightarrow> (string \<rightharpoonup> 'p CipherText) option \<Rightarrow> string \<Rightarrow> 'p CipherText" where
  "attribute S clear encrypted v =
     (case (case encrypted of None \<Rightarrow> None | Some m \<Rightarrow> m v) of Some c \<Rightarrow> c | None \<Rightarrow> IntToCipherText S (clear_value clear v))"

definition attributes :: "('s, 'p) suite \<Rightarrow> string list \<Rightarrow> 'p DpResponse \<Rightarrow> 'p CipherVector" where
  "attributes S sumNames cr = map (attribute S (AggregatingAttributesClear cr) (AggregatingAttributesEnc cr)) sumNames"

definition encrypted_response :: "('s, 'p) suite \<Rightarrow> string list \<Rightarrow> string list \<Rightarrow> string list \<Rightarrow> 'p DpResponse \<Rightarrow> 'p ProcessResponse" where
  "encrypted_response S groupBy sumNames whNames cr =
     \<lparr>pr_WhereEnc = map (attribute S (WhereClear cr) (WhereEnc cr)) whNames,
      pr_GroupByEnc = map (attribute S (GroupByClear cr) (GroupByEnc cr)) groupBy, pr_AggregatingAttributes = attributes S sumNames cr\<rparr>"

definition clear_groups :: "string list \<Rightarrow> string list \<Rightarrow> 'p DpResponse \<Rightarrow> int64 list \<times> int64 list" where
  "clear_groups groupBy whNames cr = (map (clear_value (GroupByClear cr)) groupBy, map (clear_value (WhereClear cr)) whNames)"

definition clear_entry :: "('s, 'p) suite \<Rightarrow> string list \<Rightarrow> string list \<Rightarrow> string list \<Rightarrow> 'p DpResponse \<Rightarrow> GroupingKeyTuple \<times> 'p ProcessResponse" where
  "clear_entry S groupBy sumNames whNames cr =
     (let (grp, whr) = clear_groups groupBy whNames cr in
      ((Key grp, Key whr), \<lparr>pr_WhereEnc = IntArrayToCipherVector S whr, pr_GroupByEnc = IntArrayToCipherVector S grp,
         pr_AggregatingAttributes = attributes S sumNames cr\<rparr>))"

lemma proccessParameters_encrypted: "proccessParameters S data clear encrypted False = ([], map (attribute S clear encrypted) data)"
  by (simp add: proccessParameters_def attribute_def)

lemma proccessParameters_clear: "proccessParameters S data clear encrypted True = (map (clear_value clear) data, [])"
  by (simp add: proccessParameters_def)

lemma InsertDpResponse_encrypted:
  "\<not> in_clear cr \<Longrightarrow> InsertDpResponse S cr proofsB groupBy sumNames wh s =
    Inr (s\<lparr>DpResponses := DpResponses s @ [encrypted_response S groupBy sumNames (map wq_Name wh) cr]\<rparr>)"
  unfolding in_clear_def InsertDpResponse_def Let_def
  by (simp only: simp_thms proccessParameters_encrypted prod.case fst_conv snd_conv if_True encrypted_response_def attributes_def)

lemma InsertDpResponse_clear:
  assumes "in_clear cr"
  shows "InsertDpResponse S cr proofsB groupBy sumNames wh s =
    andThen (case clear_entry S groupBy sumNames (map wq_Name wh) cr of (k, v) \<Rightarrow> add_aggregated S k v (DpResponsesAggr s)) (\<lambda>m.
    Inr (s\<lparr>DpResponsesAggr := m\<rparr>))"
  using assms unfolding in_clear_def InsertDpResponse_def Let_def
  by (simp add: proccessParameters_encrypted proccessParameters_clear clear_entry_def clear_groups_def attributes_def)

lemma InsertDpResponse_all:
  "fold_res (\<lambda>cr. InsertDpResponse S cr proofsB groupBy sumNames wh) crs s =
    andThen (fold_res (\<lambda>(k, v). add_aggregated S k v) (map (clear_entry S groupBy sumNames (map wq_Name wh)) (filter in_clear crs)) (DpResponsesAggr s)) (\<lambda>m.
    Inr (s\<lparr>DpResponses := DpResponses s @ map (encrypted_response S groupBy sumNames (map wq_Name wh)) (filter (\<lambda>cr. \<not> in_clear cr) crs),
      DpResponsesAggr := m\<rparr>))"
proof (induction crs arbitrary: s)
  case Nil
  then show ?case by simp
next
  case (Cons cr crs)
  obtain k v where "clear_entry S groupBy sumNames (map wq_Name wh) cr = (k, v)" by (metis surj_pair)
  with Cons show ?case by (cases "in_clear cr") (simp_all add: InsertDpResponse_encrypted InsertDpResponse_clear andThen_assoc)
qed

context kyber_suite
begin

sublocale responses: key_accumulator "add_aggregated S" "\<lambda>pr. has_attributes n (filtered pr)" "\<lambda>pr. aggr_at S (filtered pr)"
  "\<lambda>f g i. ct_Add S (f i) (g i)" "\<lambda>_. NewCipherText S" for n :: nat
proof (unfold_locales, goal_cases)
  case (5 m k u v)
  let ?w = "u\<lparr>pr_AggregatingAttributes := map2 (ct_Add S) (pr_AggregatingAttributes u) (pr_AggregatingAttributes v)\<rparr>"
  have "add_aggregated S k v m = Inr (m(k \<mapsto> ?w))"
    using 5 by (simp add: add_aggregated_def cv_Add_Inr has_attributes_def filtered_def)
  moreover have "has_attributes n (filtered ?w)" "aggr_at S (filtered ?w) = (\<lambda>i. ct_Add S (aggr_at S (filtered u) i) (aggr_at S (filtered v) i))"
    using 5 by (auto simp: has_attributes_def aggr_at_def filtered_def fun_eq_iff)
  ultimately show ?case by blast
qed (simp_all add: add_aggregated_def ct_ac)

lemma inserted:
  "\<exists>s. fold_res (\<lambda>cr. InsertDpResponse S cr proofsB groupBy sumNames wh) crs NewStore = Inr s \<and>
    DpResponses s = map (encrypted_response S groupBy sumNames (map wq_Name wh)) (filter (\<lambda>cr. \<not> in_clear cr) crs) \<and>
    (\<forall>g w. let hits = filter (\<lambda>cr. in_clear cr \<and> clear_groups groupBy (map wq_Name wh) cr = (g, w)) crs in
      DpResponsesAggr s (Key g, Key w) =
        (if hits = [] then None
         else Some \<lparr>pr_WhereEnc = IntArrayToCipherVector S w, pr_GroupByEnc = IntArrayToCipherVector S g,
           pr_AggregatingAttributes = map (\<lambda>i. csum S (map (\<lambda>cr. attributes S sumNames cr ! i) hits)) [0..<length sumNames]\<rparr>))"
proof -
  let ?wn = "map wq_Name wh" and ?n = "length sumNames"
  let ?es = "map (clear_entry S groupBy sumNames ?wn) (filter in_clear crs)"
  have valid: "\<forall>pr\<in>snd ` set ?es. has_attributes ?n (filtered pr)"
    by (auto simp: clear_entry_def clear_groups_def has_attributes_def filtered_def attributes_def Let_def)
  obtain m where m: "fold_res (\<lambda>(k, v). add_aggregated S k v) ?es Map.empty = Inr m" "responses.valid_map ?n m" "dom m = fst ` set ?es"
    "\<And>k. responses.sum_at m k = total (\<lambda>f g i. ct_Add S (f i) (g i)) (\<lambda>_. NewCipherText S) (map (\<lambda>pr. aggr_at S (filtered pr)) (of_key k ?es))"
    by (rule responses.add_all [OF valid]) blast
  let ?P = "\<lambda>m. \<forall>g w pr. m (Key g, Key w) = Some pr \<longrightarrow> pr_WhereEnc pr = IntArrayToCipherVector S w \<and> pr_GroupByEnc pr = IntArrayToCipherVector S g"
  have shape: "?P m"
  proof (rule fold_res_invariant [OF m(1)])
    fix e m m'
    assume e: "e \<in> set ?es" and "?P m" and "(case e of (k, v) \<Rightarrow> add_aggregated S k v) m = Inr m'"
    then show "?P m'"
      by (auto simp: clear_entry_def clear_groups_def add_aggregated_def andThen_eq_Inr split: option.splits if_splits)
  qed simp
  have at: "DpResponsesAggr (NewStore\<lparr>DpResponsesAggr := m\<rparr>) (Key g, Key w) =
        (if hits = [] then None
         else Some \<lparr>pr_WhereEnc = IntArrayToCipherVector S w, pr_GroupByEnc = IntArrayToCipherVector S g,
           pr_AggregatingAttributes = map (\<lambda>i. csum S (map (\<lambda>cr. attributes S sumNames cr ! i) hits)) [0..<?n]\<rparr>)"
    if hits: "hits = filter (\<lambda>cr. in_clear cr \<and> clear_groups groupBy ?wn cr = (g, w)) crs" for g w hits
  proof -
    have key: "fst (clear_entry S groupBy sumNames ?wn cr) = (Key g, Key w) \<longleftrightarrow> clear_groups groupBy ?wn cr = (g, w)" for cr
      by (simp add: clear_entry_def clear_groups_def Let_def)
    have of: "of_key (Key g, Key w) ?es = map (\<lambda>cr. snd (clear_entry S groupBy sumNames ?wn cr)) hits"
      by (simp add: of_key_def filter_map comp_def key hits)
    show ?thesis
    proof (cases "hits = []")
      case True
      then have "of_key (Key g, Key w) ?es = []" using of by simp
      then have "(Key g, Key w) \<notin> dom m" unfolding m(3) of_key_eq_Nil .
      then have "m (Key g, Key w) = None" by blast
      with True show ?thesis by simp
    next
      case False
      then have "of_key (Key g, Key w) ?es \<noteq> []" using of by simp
      then have "(Key g, Key w) \<in> dom m" unfolding m(3) of_key_eq_Nil not_not .
      then obtain pr where pr: "m (Key g, Key w) = Some pr" by blast
      have "has_attributes ?n (filtered pr)" using m(2) pr unfolding responses.valid_map_def by blast
      then have len: "length (pr_AggregatingAttributes pr) = ?n" by (simp add: has_attributes_def filtered_def)
      have tot: "total (\<lambda>f g i. ct_Add S (f i) (g i)) (\<lambda>_. NewCipherText S) (map (\<lambda>pr. aggr_at S (filtered pr)) prs) i =
          csum S (map (\<lambda>pr. aggr_at S (filtered pr) i) prs)" for prs i
        by (induction prs) (simp_all add: total_def)
      have sum: "pr_AggregatingAttributes pr ! i = csum S (map (\<lambda>cr. attributes S sumNames cr ! i) hits)" if i: "i < ?n" for i
      proof -
        have "aggr_at S (filtered pr) i = csum S (map (\<lambda>pr. aggr_at S (filtered pr) i) (of_key (Key g, Key w) ?es))"
          using fun_cong [OF m(4), of "(Key g, Key w)" i] by (simp only: responses.sum_at_def pr option.case tot)
        moreover have "aggr_at S (filtered (snd (clear_entry S groupBy sumNames ?wn cr))) i = attributes S sumNames cr ! i" for cr
          using i by (simp add: aggr_at_def filtered_def clear_entry_def clear_groups_def attributes_def Let_def)
        ultimately show ?thesis using i len by (simp add: of comp_def aggr_at_def filtered_def)
      qed
      have "pr_AggregatingAttributes pr = map (\<lambda>i. csum S (map (\<lambda>cr. attributes S sumNames cr ! i) hits)) [0..<?n]"
        using len sum by (intro nth_equalityI) simp_all
      with shape pr False show ?thesis by simp
    qed
  qed
  have "fold_res (\<lambda>cr. InsertDpResponse S cr proofsB groupBy sumNames wh) crs NewStore =
      Inr (NewStore\<lparr>DpResponses := map (encrypted_response S groupBy sumNames ?wn) (filter (\<lambda>cr. \<not> in_clear cr) crs), DpResponsesAggr := m\<rparr>)"
    by (simp add: InsertDpResponse_all NewStore_def m(1))
  with at show ?thesis by (auto simp: Let_def)
qed

end

section \<open>Local aggregation adds by key\<close>

definition visits_entries :: "(('k \<rightharpoonup> 'v) \<Rightarrow> ('k \<times> 'v) list) \<Rightarrow> bool" where
  "visits_entries visit \<longleftrightarrow> (\<forall>m k v. (k, v) \<in> set (visit m) \<longrightarrow> m k = Some v)"

abbreviation keyed :: "'p FilteredResponseDet list \<Rightarrow> (GroupingKey \<times> 'p FilteredResponse) list" where
  "keyed frds \<equiv> map (\<lambda>frd. (frd_DetTagGroupBy frd, Fr frd)) frds"

context kyber_suite
begin

lemma local_aggregation_Inr:
  assumes attr: "\<forall>frd\<in>set frds. has_attributes n (Fr frd)" and m: "aggregation.valid_map n m" and "0 < n"
    and v: "proofsB \<longrightarrow> visits_entries visit"
  shows "local_aggregation S visit proofsB frds m = fold_res (\<lambda>(k, fr). AddInMap S k fr) (keyed frds) m"
proof -
  have "\<forall>fr\<in>snd ` set (keyed frds). has_attributes n fr" using attr by auto
  from aggregation.add_all_from [OF m this] obtain m' where m': "fold_res (\<lambda>(k, fr). AddInMap S k fr) (keyed frds) m = Inr m'"
    "aggregation.valid_map n m'" "dom m' = dom m \<union> fst ` set (keyed frds)" by blast
  let ?step = "\<lambda>v (m, cvMap). andThen (AddInMap S (frd_DetTagGroupBy v) (Fr v) m) (\<lambda>m'.
    andThen (if proofsB then FormatAggregationProofs v cvMap else Inr cvMap) (\<lambda>cvMap'. Inr (m', cvMap')))"
  let ?cols = "\<lambda>k. let frs = of_key k (keyed frds) in if frs = [] then None else Some (columns n frs)"
  have c: "fold_res (\<lambda>v cvMap. if proofsB then FormatAggregationProofs v cvMap else Inr cvMap) frds Map.empty =
      Inr (if proofsB then ?cols else Map.empty)"
  proof (cases proofsB)
    case False
    then show ?thesis by (simp add: fold_res_const)
  qed (use FormatAggregationProofs_columns [OF \<open>0 < n\<close> attr] in simp)
  have loop: "fold_res ?step frds (m, Map.empty) = Inr (m', if proofsB then ?cols else Map.empty)"
    by (rule fold_res_pair) (use m'(1) c in \<open>simp_all add: fold_res_map\<close>)
  have "fold_res (\<lambda>(k, v) u. andThen (AggregationListProofCreation v
      (case m' k of None \<Rightarrow> [] | Some fr \<Rightarrow> fr_AggregatingAttributes fr)) (\<lambda>_. Inr u)) (visit ?cols) () = Inr ()" if proofsB
  proof -
    have "\<exists>pl. AggregationListProofCreation cv (case m' k of None \<Rightarrow> [] | Some fr \<Rightarrow> fr_AggregatingAttributes fr) = Inr pl"
      if kv: "(k, cv) \<in> set (visit ?cols)" for k cv
    proof -
      have "?cols k = Some cv" using kv v \<open>proofsB\<close> by (auto simp: visits_entries_def)
      then have "of_key k (keyed frds) \<noteq> []" and cv: "length cv = n" by (auto simp: Let_def split: if_splits)
      then have "k \<in> dom m'" unfolding of_key_eq_Nil m'(3) by blast
      then obtain fr where fr: "m' k = Some fr" by blast
      then have "has_attributes n fr" using m'(2) unfolding aggregation.valid_map_def by blast
      then have "length (fr_AggregatingAttributes fr) = length cv" by (simp add: has_attributes_def cv)
      then show ?thesis
        unfolding fr option.case AggregationListProofCreation_def by (intro exI) (rule par_list_Inr, simp_all)
    qed
    then show ?thesis by (intro fold_res_const) (auto simp: andThen_eq_Inr)
  qed
  with loop m'(1) show ?thesis by (simp add: local_aggregation_def)
qed

end

interpretation ed_responses: key_accumulator "add_aggregated ed25519" "\<lambda>pr. has_attributes n (filtered pr)" "\<lambda>pr. aggr_at ed25519 (filtered pr)"
  "\<lambda>f g i. ct_Add ed25519 (f i) (g i)" "\<lambda>_. NewCipherText ed25519" for n :: nat
  by (rule ed.responses.key_accumulator_axioms)

section \<open>The store as a state machine\<close>

definition fr_layout :: "nat \<Rightarrow> nat \<Rightarrow> 'p FilteredResponse \<Rightarrow> bool" where
  "fr_layout g a fr \<longleftrightarrow> length (fr_GroupByEnc fr) = g \<and> length (fr_AggregatingAttributes fr) = a"

text \<open>
  The operations that the service performs on the store of one survey, whose query names the
  groups, the sums and the conditions; what comes in from the protocols has the layout of the query.
\<close>

inductive store_step :: "('s, 'p) suite \<Rightarrow> string list \<Rightarrow> string list \<Rightarrow> 'p WhereQueryAttribute list \<Rightarrow> 'p Store \<Rightarrow> 'p Store \<Rightarrow> bool"
  for S groupBy sumNames wh where
  insert: "InsertDpResponse S cr proofsB groupBy sumNames wh s = Inr s' \<Longrightarrow> store_step S groupBy sumNames wh s s'"
| pull: "enumerates entries (DpResponsesAggr s) \<Longrightarrow> PullDpResponses entries s = (prs, s') \<Longrightarrow> store_step S groupBy sumNames wh s s'"
| push_shuffled: "\<forall>pr\<in>set prs. layout (length groupBy) (length wh) (length sumNames) pr \<Longrightarrow>
    store_step S groupBy sumNames wh s (PushShuffledProcessResponses prs s)"
| pull_shuffled: "PullShuffledProcessResponses s = (prs, s') \<Longrightarrow> store_step S groupBy sumNames wh s s'"
| push_filtered: "\<forall>frd\<in>set frds. fr_layout (length groupBy) (length sumNames) (Fr frd) \<Longrightarrow>
    PushDeterministicFilteredResponses S visit frds proofsB s = Inr s' \<Longrightarrow> store_step S groupBy sumNames wh s s'"
| pull_local: "PullLocallyAggregatedResponses s = (m, s') \<Longrightarrow> store_step S groupBy sumNames wh s s'"
| push_aggregated: "\<forall>fr\<in>snd ` set entries. fr_layout (length groupBy) (length sumNames) fr \<Longrightarrow>
    PushCothorityAggregatedFilteredResponses S entries s = Inr s' \<Longrightarrow> store_step S groupBy sumNames wh s s'"
| pull_aggregated: "enumerates entries (GroupedDeterministicFilteredResponses s) \<Longrightarrow>
    PullCothorityAggregatedFilteredResponses S diffPri noise entries s = (frs, s') \<Longrightarrow> store_step S groupBy sumNames wh s s'"
| push_results: "\<forall>fr\<in>set frs. fr_layout (length groupBy) (length sumNames) fr \<Longrightarrow>
    store_step S groupBy sumNames wh s (PushQuerierKeyEncryptedResponses frs s)"
| pull_results: "PullDeliverableResults S diffPri noise s = (frs, s') \<Longrightarrow> store_step S groupBy sumNames wh s s'"

inductive reachable_store :: "('s, 'p) suite \<Rightarrow> string list \<Rightarrow> string list \<Rightarrow> 'p WhereQueryAttribute list \<Rightarrow> 'p Store \<Rightarrow> bool"
  for S groupBy sumNames wh where
  new: "reachable_store S groupBy sumNames wh NewStore"
| step: "reachable_store S groupBy sumNames wh s \<Longrightarrow> store_step S groupBy sumNames wh s s' \<Longrightarrow> reachable_store S groupBy sumNames wh s'"

definition store_ok :: "nat \<Rightarrow> nat \<Rightarrow> nat \<Rightarrow> 'p Store \<Rightarrow> bool" where
  "store_ok g w a s \<longleftrightarrow>
     (\<forall>pr\<in>set (DpResponses s) \<union> ran (DpResponsesAggr s) \<union> set (ShuffledProcessResponses s). layout g w a pr) \<and>
     (\<forall>fr\<in>ran (LocAggregatedProcessResponse s) \<union> ran (GroupedDeterministicFilteredResponses s) \<union> set (DeliverableResults s). fr_layout g a fr)"

lemma ran_update: "x \<in> ran (m(k \<mapsto> v)) \<Longrightarrow> x = v \<or> x \<in> ran m"
  by (auto simp: ran_def split: if_splits)

lemma AddInMap_layout:
  assumes "AddInMap S k fr m = Inr m'" and "\<forall>fr\<in>ran m. fr_layout g a fr" and "fr_layout g a fr"
  shows "\<forall>fr\<in>ran m'. fr_layout g a fr"
proof (cases "m k")
  case None
  with assms show ?thesis by (auto simp: AddInMap_new dest: ran_update)
next
  case (Some u)
  then have "fr_layout g a u" using assms(2) by (auto intro: ranI)
  with assms Some show ?thesis by (auto simp: AddInMap_shorter fr_layout_def dest!: ran_update)
qed

lemma local_aggregation_layout:
  assumes "local_aggregation S visit proofsB frds m = Inr m'" and "\<forall>frd\<in>set frds. fr_layout g a (Fr frd)" and "\<forall>fr\<in>ran m. fr_layout g a fr"
  shows "\<forall>fr\<in>ran m'. fr_layout g a fr"
proof -
  let ?P = "\<lambda>st. \<forall>fr\<in>ran (fst st). fr_layout g a fr"
  obtain cvMap where loop: "fold_res (\<lambda>v (m, cvMap). andThen (AddInMap S (frd_DetTagGroupBy v) (Fr v) m) (\<lambda>m'.
    andThen (if proofsB then FormatAggregationProofs v cvMap else Inr cvMap) (\<lambda>cvMap'. Inr (m', cvMap')))) frds (m, Map.empty) = Inr (m', cvMap)"
    using assms(1) by (auto simp: local_aggregation_def andThen_eq_Inr split: prod.splits)
  have "?P (m', cvMap)"
  proof (rule fold_res_invariant [OF loop])
    fix v st st'
    assume "v \<in> set frds" "?P st" and step: "(case st of (m, cvMap) \<Rightarrow> andThen (AddInMap S (frd_DetTagGroupBy v) (Fr v) m) (\<lambda>m'.
      andThen (if proofsB then FormatAggregationProofs v cvMap else Inr cvMap) (\<lambda>cvMap'. Inr (m', cvMap')))) = Inr st'"
    from step have "AddInMap S (frd_DetTagGroupBy v) (Fr v) (fst st) = Inr (fst st')"
      by (cases st, cases st') (auto simp: andThen_eq_Inr)
    from AddInMap_layout [OF this] show "?P st'" using \<open>v \<in> set frds\<close> \<open>?P st\<close> assms(2) by blast
  qed (use assms(3) in simp)
  then show ?thesis by simp
qed

lemma store_step_ok:
  assumes "store_step S groupBy sumNames wh s s'" and "store_ok (length groupBy) (length wh) (length sumNames) s"
  shows "store_ok (length groupBy) (length wh) (length sumNames) s'"
  using assms
proof (cases rule: store_step.cases)
  case (insert cr proofsB)
  show ?thesis
  proof (cases "in_clear cr")
    case True
    obtain k v where kv: "clear_entry S groupBy sumNames (map wq_Name wh) cr = (k, v)" by (metis surj_pair)
    have v: "layout (length groupBy) (length wh) (length sumNames) v"
      using kv by (auto simp: clear_entry_def clear_groups_def layout_def attributes_def IntArrayToCipherVector_def Let_def)
    obtain m where m: "add_aggregated S k v (DpResponsesAggr s) = Inr m" "s' = s\<lparr>DpResponsesAggr := m\<rparr>"
      using insert by (auto simp: InsertDpResponse_clear [OF True] kv andThen_eq_Inr)
    have "\<forall>pr\<in>ran m. layout (length groupBy) (length wh) (length sumNames) pr"
    proof (cases "DpResponsesAggr s k")
      case None
      with m(1) v assms(2) show ?thesis by (auto simp: add_aggregated_def store_ok_def dest: ran_update)
    next
      case (Some u)
      then have "layout (length groupBy) (length wh) (length sumNames) u" using assms(2) by (auto simp: store_ok_def intro: ranI)
      with m(1) v assms(2) Some show ?thesis
        by (auto simp: add_aggregated_def cv_Add_Inr layout_def store_ok_def dest!: ran_update)
    qed
    with m(2) assms(2) show ?thesis by (auto simp: store_ok_def)
  next
    case False
    with insert assms(2) show ?thesis
      by (auto simp: InsertDpResponse_encrypted store_ok_def encrypted_response_def attributes_def layout_def)
  qed
next
  case (push_filtered frds visit proofsB)
  with assms(2) show ?thesis
    by (auto simp: PushDeterministicFilteredResponses_def andThen_eq_Inr store_ok_def dest!: local_aggregation_layout)
next
  case (push_aggregated entries)
  then obtain m where m: "fold_res (\<lambda>(key, value). AddInMap S key value) entries (GroupedDeterministicFilteredResponses s) = Inr m"
    "s' = s\<lparr>GroupedDeterministicFilteredResponses := m\<rparr>"
    by (auto simp: PushCothorityAggregatedFilteredResponses_def andThen_eq_Inr)
  have "\<forall>fr\<in>ran m. fr_layout (length groupBy) (length sumNames) fr"
  proof (rule fold_res_invariant [OF m(1)])
    fix e m m'
    assume e: "e \<in> set entries" and m: "\<forall>fr\<in>ran m. fr_layout (length groupBy) (length sumNames) fr" "(case e of (k, v) \<Rightarrow> AddInMap S k v) m = Inr m'"
    have "AddInMap S (fst e) (snd e) m = Inr m'" using m(2) by (simp add: split_beta)
    then show "\<forall>fr\<in>ran m'. fr_layout (length groupBy) (length sumNames) fr"
      by (rule AddInMap_layout [OF _ m(1)]) (use e push_aggregated(1) in blast)
  qed (use assms(2) in \<open>auto simp: store_ok_def\<close>)
  with m(2) assms(2) show ?thesis by (auto simp: store_ok_def)
qed (auto simp: store_ok_def PullDpResponses_def PushShuffledProcessResponses_def PullShuffledProcessResponses_def PullLocallyAggregatedResponses_def
    PullCothorityAggregatedFilteredResponses_def PushQuerierKeyEncryptedResponses_def PullDeliverableResults_def)

lemma reachable_store_ok: "reachable_store S groupBy sumNames wh s \<Longrightarrow> store_ok (length groupBy) (length wh) (length sumNames) s"
proof (induction rule: reachable_store.induct)
  case new
  then show ?case by (simp add: store_ok_def NewStore_def)
next
  case (step s s')
  then show ?case by (blast intro: store_step_ok)
qed

section \<open>Properties\<close>

text \<open>
  C15. Insertion of the responses of data providers: inserting any responses succeeds; those with an
  encrypted group or condition are kept one by one in the order of arrival, with a clear value
  where an attribute is not encrypted; those in clear are summed, homomorphically, over all the
  responses with the same groups and conditions, and no two different combinations are mixed.
\<close>

theorem inserted_responses_summed:
  assumes "kyber_suite S"
  shows "\<exists>s. fold_res (\<lambda>cr. InsertDpResponse S cr proofsB groupBy sumNames wh) crs NewStore = Inr s \<and>
    DpResponses s = map (encrypted_response S groupBy sumNames (map wq_Name wh)) (filter (\<lambda>cr. \<not> in_clear cr) crs) \<and>
    (\<forall>g w. let hits = filter (\<lambda>cr. in_clear cr \<and> clear_groups groupBy (map wq_Name wh) cr = (g, w)) crs in
      DpResponsesAggr s (Key g, Key w) =
        (if hits = [] then None
         else Some \<lparr>pr_WhereEnc = IntArrayToCipherVector S w, pr_GroupByEnc = IntArrayToCipherVector S g,
           pr_AggregatingAttributes = map (\<lambda>i. csum S (map (\<lambda>cr. attributes S sumNames cr ! i) hits)) [0..<length sumNames]\<rparr>))"
  using assms by (rule kyber_suite.inserted)

theorem inserted_responses_summed_witness:
  "\<exists>s. fold_res (\<lambda>cr. InsertDpResponse ed25519 cr False [''g0''] [''s0''] ([] :: ed_l WhereQueryAttribute list))
     (map (\<lambda>c. \<lparr>WhereClear = Map.empty, WhereEnc = None, GroupByClear = [''g0'' \<mapsto> 3], GroupByEnc = None,
       AggregatingAttributesClear = Map.empty, AggregatingAttributesEnc = Some [''s0'' \<mapsto> c]\<rparr>) [\<lparr>ctK = 1, ctC = 5\<rparr>, \<lparr>ctK = 2, ctC = 6\<rparr>]) NewStore = Inr s \<and>
     map_option pr_AggregatingAttributes (DpResponsesAggr s (Key [3], Key [])) = Some [\<lparr>ctK = 3, ctC = 11\<rparr>]"
proof -
  let ?crs = "map (\<lambda>c. \<lparr>WhereClear = Map.empty, WhereEnc = None, GroupByClear = [''g0'' \<mapsto> 3], GroupByEnc = None,
       AggregatingAttributesClear = Map.empty, AggregatingAttributesEnc = Some [''s0'' \<mapsto> c]\<rparr>) [\<lparr>ctK = 1, ctC = 5 :: ed_l\<rparr>, \<lparr>ctK = 2, ctC = 6\<rparr>]"
  from inserted_responses_summed [OF ed.kyber_suite_axioms, of False "[''g0'']" "[''s0'']" "[]" ?crs]
  obtain s where s: "fold_res (\<lambda>cr. InsertDpResponse ed25519 cr False [''g0''] [''s0''] []) ?crs NewStore = Inr s"
    and all: "\<forall>g w. let hits = filter (\<lambda>cr. in_clear cr \<and> clear_groups [''g0''] (map wq_Name ([] :: ed_l WhereQueryAttribute list)) cr = (g, w)) ?crs in
      DpResponsesAggr s (Key g, Key w) =
        (if hits = [] then None
         else Some \<lparr>pr_WhereEnc = IntArrayToCipherVector ed25519 w, pr_GroupByEnc = IntArrayToCipherVector ed25519 g,
           pr_AggregatingAttributes = map (\<lambda>i. csum ed25519 (map (\<lambda>cr. attributes ed25519 [''s0''] cr ! i) hits)) [0..<length [''s0'']]\<rparr>)"
    by (elim exE conjE) (rule that)
  have "map_option pr_AggregatingAttributes (DpResponsesAggr s (Key [3], Key [])) = Some [\<lparr>ctK = 3, ctC = 11\<rparr>]"
    using all [rule_format, of "[3]" "[]"]
    by (simp add: in_clear_def clear_groups_def clear_value_def attributes_def attribute_def ct_Add_def NewCipherText_def ed_simps)
  with s show ?thesis by blast
qed

end
