(* ===== verification/ProtocolTools.thy ===== *)
theory ProtocolTools
  imports CollectiveAggregation Tagging Store
begin

text \<open>
  protocols/tools_protocol.go: the conversions between the responses that a server stores and the
  flat lists of ciphertexts on which the protocols work. A pair of lengths is a Go slice of two
  integers; all slices that are cut here have been made with their length as capacity.
\<close>

section \<open>Collective aggregation\<close>

definition RetrieveSimpleDataFromMap :: "(GroupingKey \<rightharpoonup> 'p FilteredResponse) \<Rightarrow> 'p CipherText list res" where
  "RetrieveSimpleDataFromMap groupedData =
     (if card (dom groupedData) \<noteq> 1
      then Inl (Err ''the map given in arguments is empty or have more than one key'')
      else case groupedData EMPTYKEY of
        Some filteredResp \<Rightarrow> Inr (fr_AggregatingAttributes filteredResp)
      | None \<Rightarrow> Inl (Err ''the map element doesn't have key with value EMPTYKEY''))"

section \<open>Deterministic tagging\<close>

definition ProcessResponseToCipherVector :: "'p ProcessResponse list \<Rightarrow> 'p CipherVector" where
  "ProcessResponseToCipherVector p = concat (map (\<lambda>v. pr_WhereEnc v @ pr_GroupByEnc v) p)"

fun deter_loop :: "('s, 'p) suite \<Rightarrow> 'p DeterministCipherVector \<Rightarrow> 'p ProcessResponse list \<Rightarrow> nat \<Rightarrow> 'p ProcessResponseDet list res" where
  "deter_loop S detCt [] pos = Inr []"
| "deter_loop S detCt (target # targetOfSwitch) pos =
     (let whereEncLen = length (pr_WhereEnc target); groupByLen = length (pr_GroupByEnc target) in
      andThen (slice detCt pos (pos + whereEncLen)) (\<lambda>wh.
      andThen (slice detCt (pos + whereEncLen) (pos + whereEncLen + groupByLen)) (\<lambda>deterministicGroupAttributes.
      andThen (deter_loop S detCt targetOfSwitch (pos + whereEncLen + groupByLen)) (\<lambda>result.
      Inr (\<lparr>PR = target, prd_DetTagGroupBy = dcv_Key S deterministicGroupAttributes,
            prd_DetTagWhere = map (dct_String S) wh\<rparr> # result)))))"

definition DeterCipherVectorToProcessResponseDet :: "('s, 'p) suite \<Rightarrow> 'p DeterministCipherVector \<Rightarrow> 'p ProcessResponse list
    \<Rightarrow> 'p ProcessResponseDet list res" where
  "DeterCipherVectorToProcessResponseDet S detCt targetOfSwitch = deter_loop S detCt targetOfSwitch 0"

section \<open>Key switching\<close>

definition FilteredResponseToCipherVector :: "'p FilteredResponse list \<Rightarrow> 'p CipherVector \<times> (nat \<times> nat) list" where
  "FilteredResponseToCipherVector fr =
     (concat (map (\<lambda>v. fr_GroupByEnc v @ fr_AggregatingAttributes v) fr),
      map (\<lambda>v. (length (fr_GroupByEnc v), length (fr_AggregatingAttributes v))) fr)"

fun filtered_loop :: "'p CipherVector \<Rightarrow> (nat \<times> nat) list \<Rightarrow> nat \<Rightarrow> 'p FilteredResponse list res" where
  "filtered_loop cv [] pos = Inr []"
| "filtered_loop cv ((length0, length1) # lengths) pos =
     andThen (slice cv pos (pos + length0)) (\<lambda>groupBy.
     andThen (slice cv (pos + length0) (pos + length0 + length1)) (\<lambda>aggr.
     andThen (filtered_loop cv lengths (pos + length0 + length1)) (\<lambda>filteredResponse.
     Inr (\<lparr>fr_GroupByEnc = groupBy, fr_AggregatingAttributes = aggr\<rparr> # filteredResponse))))"

definition CipherVectorToFilteredResponse :: "'p CipherVector \<Rightarrow> (nat \<times> nat) list \<Rightarrow> 'p FilteredResponse list res" where
  "CipherVectorToFilteredResponse cv lengths = filtered_loop cv lengths 0"

section \<open>Shuffling\<close>

text \<open>A single response gets a companion with the same groups and aggregates that are zero.\<close>

definition pad_single :: "('s, 'p) suite \<Rightarrow> 'p ProcessResponse list \<Rightarrow> 'p ProcessResponse list" where
  "pad_single S pr =
     (case pr of
        [p] \<Rightarrow> [p, \<lparr>pr_WhereEnc = pr_WhereEnc p, pr_GroupByEnc = pr_GroupByEnc p,
                    pr_AggregatingAttributes = replicate (length (pr_AggregatingAttributes p)) (IntToCipherText S 0)\<rparr>]
      | _ \<Rightarrow> pr)"

definition ProcessResponseToMatrixCipherText :: "('s, 'p) suite \<Rightarrow> 'p ProcessResponse list \<Rightarrow> 'p CipherVector list \<times> (nat \<times> nat) list" where
  "ProcessResponseToMatrixCipherText S pr =
     (let pr' = pad_single S pr in
      (map (\<lambda>v. pr_GroupByEnc v @ pr_WhereEnc v @ pr_AggregatingAttributes v) pr',
       map (\<lambda>v. (length (pr_GroupByEnc v), length (pr_WhereEnc v))) pr'))"

definition row_response :: "'p CipherVector \<Rightarrow> nat \<times> nat \<Rightarrow> 'p ProcessResponse res" where
  "row_response cv l =
     (let groupByEncPos = fst l; whereEncPos = groupByEncPos + snd l in
      andThen (slice cv 0 groupByEncPos) (\<lambda>grp.
      andThen (slice cv groupByEncPos whereEncPos) (\<lambda>whr.
      andThen (slice cv whereEncPos (length cv)) (\<lambda>aggr.
      Inr \<lparr>pr_WhereEnc = whr, pr_GroupByEnc = grp, pr_AggregatingAttributes = aggr\<rparr>))))"

definition MatrixCipherTextToProcessResponse :: "'p CipherVector list \<Rightarrow> (nat \<times> nat) list \<Rightarrow> 'p ProcessResponse list res" where
  "MatrixCipherTextToProcessResponse cv lengths =
     traverse (\<lambda>i. andThen (index_at cv i) (\<lambda>row. row_response row (lengths ! i))) [0..<length lengths]"

definition AdaptCipherTextArray :: "'p CipherText list \<Rightarrow> 'p CipherVector list" where
  "AdaptCipherTextArray cipherTexts = map (\<lambda>v. [v]) cipherTexts"

section \<open>Facts\<close>

lemma RetrieveSimpleDataFromMap_Inr:
  "RetrieveSimpleDataFromMap m = Inr xs \<longleftrightarrow> (\<exists>fr. m = [EMPTYKEY \<mapsto> fr] \<and> fr_AggregatingAttributes fr = xs)"
proof
  assume "RetrieveSimpleDataFromMap m = Inr xs"
  then obtain fr where fr: "card (dom m) = 1" "m EMPTYKEY = Some fr" "fr_AggregatingAttributes fr = xs"
    by (auto simp: RetrieveSimpleDataFromMap_def split: if_splits option.splits)
  then have "dom m = {EMPTYKEY}" by (metis card_1_singletonE domI singletonD)
  with fr(2) have "m = [EMPTYKEY \<mapsto> fr]" by (auto simp: fun_eq_iff dom_def)
  with fr(3) show "\<exists>fr. m = [EMPTYKEY \<mapsto> fr] \<and> fr_AggregatingAttributes fr = xs" by blast
qed (auto simp: RetrieveSimpleDataFromMap_def)

text \<open>The tags of the responses, whatever stands before and after them.\<close>

lemma deter_loop_map:
  "deter_loop S (pre @ map tag (ProcessResponseToCipherVector prs) @ suf) prs (length pre) =
    Inr (map (\<lambda>v. \<lparr>PR = v, prd_DetTagGroupBy = dcv_Key S (map tag (pr_GroupByEnc v)),
      prd_DetTagWhere = map (\<lambda>c. dct_String S (tag c)) (pr_WhereEnc v)\<rparr>) prs)"
proof (induction prs arbitrary: pre)
  case Nil
  then show ?case by simp
next
  case (Cons v prs)
  let ?w = "map tag (pr_WhereEnc v)" and ?g = "map tag (pr_GroupByEnc v)" and ?r = "map tag (ProcessResponseToCipherVector prs) @ suf"
  have s: "pre @ map tag (ProcessResponseToCipherVector (v # prs)) @ suf = pre @ ?w @ ?g @ ?r"
    by (simp add: ProcessResponseToCipherVector_def)
  have w: "slice (pre @ ?w @ ?g @ ?r) (length pre) (length pre + length (pr_WhereEnc v)) = Inr ?w"
    using slice_append [of "length pre" pre _ ?w "?g @ ?r"] by simp
  have g: "slice (pre @ ?w @ ?g @ ?r) (length pre + length (pr_WhereEnc v)) (length pre + length (pr_WhereEnc v) + length (pr_GroupByEnc v)) = Inr ?g"
    using slice_append [of "length (pre @ ?w)" "pre @ ?w" _ ?g ?r] by simp
  have r: "deter_loop S (pre @ ?w @ ?g @ ?r) prs (length pre + length (pr_WhereEnc v) + length (pr_GroupByEnc v)) =
      Inr (map (\<lambda>v. \<lparr>PR = v, prd_DetTagGroupBy = dcv_Key S (map tag (pr_GroupByEnc v)),
        prd_DetTagWhere = map (\<lambda>c. dct_String S (tag c)) (pr_WhereEnc v)\<rparr>) prs)"
    using Cons.IH [of "pre @ ?w @ ?g"] by (simp add: add.assoc)
  show ?case unfolding s by (simp only: deter_loop.simps Let_def w g r andThen_Inr list.map map_map comp_def)
qed

lemma responses_tagged:
  "DeterCipherVectorToProcessResponseDet S (map tag (ProcessResponseToCipherVector prs)) prs =
    Inr (map (\<lambda>v. \<lparr>PR = v, prd_DetTagGroupBy = dcv_Key S (map tag (pr_GroupByEnc v)),
      prd_DetTagWhere = map (\<lambda>c. dct_String S (tag c)) (pr_WhereEnc v)\<rparr>) prs)"
  using deter_loop_map [of S "[]" tag prs "[]"] by (simp add: DeterCipherVectorToProcessResponseDet_def)

text \<open>A vector that shows the same as that of the responses is cut into responses that show the same.\<close>

abbreviation shown :: "('p CipherText \<Rightarrow> 'q) \<Rightarrow> 'p FilteredResponse \<Rightarrow> 'q list \<times> 'q list" where
  "shown h fr \<equiv> (map h (fr_GroupByEnc fr), map h (fr_AggregatingAttributes fr))"

lemma filtered_loop_shown:
  assumes "map h cv = map h' (fst (FilteredResponseToCipherVector frs))"
  shows "\<exists>frs'. filtered_loop (pre @ cv) (snd (FilteredResponseToCipherVector frs)) (length pre) = Inr frs' \<and> map (shown h) frs' = map (shown h') frs"
  using assms
proof (induction frs arbitrary: pre cv)
  case Nil
  then show ?case by (simp add: FilteredResponseToCipherVector_def)
next
  case (Cons v frs)
  let ?g = "length (fr_GroupByEnc v)" and ?a = "length (fr_AggregatingAttributes v)"
  define grp aggr rest where parts: "grp = take ?g cv" "aggr = take ?a (drop ?g cv)" "rest = drop (?g + ?a) cv"
  have eq: "map h cv = map h' (fr_GroupByEnc v) @ map h' (fr_AggregatingAttributes v) @ map h' (fst (FilteredResponseToCipherVector frs))"
    using Cons.prems by (simp add: FilteredResponseToCipherVector_def)
  have m: "map h grp = map h' (fr_GroupByEnc v)" "map h aggr = map h' (fr_AggregatingAttributes v)"
    "map h rest = map h' (fst (FilteredResponseToCipherVector frs))"
    unfolding parts take_map [symmetric] drop_map [symmetric] eq by simp_all
  have len: "length grp = ?g" "length aggr = ?a" using m(1,2) [THEN arg_cong [of _ _ length]] by simp_all
  have cv: "cv = grp @ aggr @ rest" unfolding parts by (metis add.commute append_take_drop_id drop_drop)
  obtain frs' where r: "filtered_loop ((pre @ grp @ aggr) @ rest) (snd (FilteredResponseToCipherVector frs)) (length (pre @ grp @ aggr)) = Inr frs'"
    "map (shown h) frs' = map (shown h') frs"
    using Cons.IH [OF m(3), of "pre @ grp @ aggr"] by blast
  have "slice (pre @ cv) (length pre) (length pre + ?g) = Inr grp"
    unfolding cv using slice_append [of "length pre" pre _ grp "aggr @ rest"] len by simp
  moreover have "slice (pre @ cv) (length pre + ?g) (length pre + ?g + ?a) = Inr aggr"
    unfolding cv using slice_append [of "length (pre @ grp)" "pre @ grp" _ aggr rest] len by simp
  moreover have "filtered_loop (pre @ cv) (snd (FilteredResponseToCipherVector frs)) (length pre + ?g + ?a) = Inr frs'"
    using r(1) len by (simp add: cv add.assoc)
  ultimately have "filtered_loop (pre @ cv) (snd (FilteredResponseToCipherVector (v # frs))) (length pre) =
      Inr (\<lparr>fr_GroupByEnc = grp, fr_AggregatingAttributes = aggr\<rparr> # frs')"
    by (simp add: FilteredResponseToCipherVector_def)
  then show ?case using r(2) m(1,2) by simp
qed

lemma filtered_responses_back:
  assumes "FilteredResponseToCipherVector frs = (cv, lengths)" and "map h cv' = map h' cv"
  obtains frs' where "CipherVectorToFilteredResponse cv' lengths = Inr frs'" "map (shown h) frs' = map (shown h') frs"
  using filtered_loop_shown [of h cv' h' frs "[]"] assms by (auto simp: CipherVectorToFilteredResponse_def)

text \<open>Rows of one layout are cut alike, in whatever order they come.\<close>

definition cut_row :: "nat \<Rightarrow> nat \<Rightarrow> 'p CipherVector \<Rightarrow> 'p ProcessResponse" where
  "cut_row g w row = \<lparr>pr_WhereEnc = take w (drop g row), pr_GroupByEnc = take g row, pr_AggregatingAttributes = drop (g + w) row\<rparr>"

lemma row_response_Inr: "g + w \<le> length row \<Longrightarrow> row_response row (g, w) = Inr (cut_row g w row)"
  by (simp add: row_response_def cut_row_def slice_def)

lemma matrix_back:
  assumes "length rows = n" and "\<forall>row\<in>set rows. g + w \<le> length row"
  shows "MatrixCipherTextToProcessResponse rows (replicate n (g, w)) = Inr (map (cut_row g w) rows)"
proof -
  have "traverse (\<lambda>i. andThen (index_at rows i) (\<lambda>row. row_response row (replicate n (g, w) ! i))) [0..<n] =
      Inr (map (\<lambda>i. cut_row g w (rows ! i)) [0..<n])"
    by (rule traverse_Inr_map) (use assms in \<open>simp add: row_response_Inr\<close>)
  moreover have "map (\<lambda>i. cut_row g w (rows ! i)) [0..<n] = map (cut_row g w) rows"
    using assms(1) by (intro nth_equalityI) simp_all
  ultimately show ?thesis by (simp add: MatrixCipherTextToProcessResponse_def)
qed

lemma cut_row_response: "layout g w a pr \<Longrightarrow> cut_row g w (pr_GroupByEnc pr @ pr_WhereEnc pr @ pr_AggregatingAttributes pr) = pr"
  by (simp add: layout_def cut_row_def)

text \<open>What a view h of the ciphertexts, such as decryption, shows of a response.\<close>

definition viewed :: "('p CipherText \<Rightarrow> 'q) \<Rightarrow> 'p ProcessResponse \<Rightarrow> 'q list \<times> 'q list \<times> 'q list" where
  "viewed h pr = (map h (pr_GroupByEnc pr), map h (pr_WhereEnc pr), map h (pr_AggregatingAttributes pr))"

lemma pad_single_layout: "\<forall>pr\<in>set prs. layout g w a pr \<Longrightarrow> \<forall>pr\<in>set (pad_single S prs). layout g w a pr"
  by (auto simp: pad_single_def layout_def split: list.splits)

lemma shuffled_back:
  assumes lay: "\<forall>pr\<in>set prs. layout g w a pr" and rows: "ProcessResponseToMatrixCipherText S prs = (rows, lengths)"
    and sh: "mset (map (map h) rows') = mset (map (map h) rows)"
  obtains prs' where "MatrixCipherTextToProcessResponse rows' lengths = Inr prs'" "\<forall>pr\<in>set prs'. layout g w a pr"
    "mset (map (viewed h) prs') = mset (map (viewed h) (pad_single S prs))"
proof -
  let ?prs = "pad_single S prs"
  let ?row = "\<lambda>v. pr_GroupByEnc v @ pr_WhereEnc v @ pr_AggregatingAttributes v"
  let ?cut = "\<lambda>xs :: 'c list. (take g xs, take w (drop g xs), drop (g + w) xs)"
  have lay': "\<forall>pr\<in>set ?prs. layout g w a pr" by (rule pad_single_layout [OF lay])
  have r: "rows = map ?row ?prs" and l: "lengths = map (\<lambda>v. (length (pr_GroupByEnc v), length (pr_WhereEnc v))) ?prs"
    using rows by (simp_all add: ProcessResponseToMatrixCipherText_def Let_def)
  have len: "length rows' = length ?prs" using arg_cong [OF sh, of size] by (simp add: r)
  have lengths: "lengths = replicate (length rows') (g, w)"
    unfolding l len using lay' by (intro nth_equalityI) (auto simp: layout_def)
  have width: "length row = g + w + a" if "row \<in> set rows'" for row
  proof -
    have "map h row \<in> set (map (map h) rows)" using that mset_eq_setD [OF sh] by auto
    then show ?thesis using lay' by (auto simp: r layout_def dest: arg_cong [of _ _ length])
  qed
  have cut: "MatrixCipherTextToProcessResponse rows' lengths = Inr (map (cut_row g w) rows')"
    unfolding lengths by (rule matrix_back) (auto simp: width)
  have "map (viewed h) (map (cut_row g w) rows') = map ?cut (map (map h) rows')"
    by (simp add: viewed_def cut_row_def take_map drop_map comp_def)
  then have "mset (map (viewed h) (map (cut_row g w) rows')) = mset (map ?cut (map (map h) rows'))" by (rule arg_cong)
  also have "\<dots> = image_mset ?cut (mset (map (map h) rows'))" by (rule mset_map)
  also have "\<dots> = mset (map ?cut (map (map h) rows))" unfolding sh by (rule mset_map [symmetric])
  also have "map ?cut (map (map h) rows) = map (viewed h) ?prs"
    unfolding r using lay' by (simp add: viewed_def layout_def)
  finally have m: "mset (map (viewed h) (map (cut_row g w) rows')) = mset (map (viewed h) ?prs)" .
  have "layout g w a (cut_row g w row)" if "row \<in> set rows'" for row
    using width [OF that] by (simp add: layout_def cut_row_def)
  then have "\<forall>pr\<in>set (map (cut_row g w) rows'). layout g w a pr" by auto
  with cut m show thesis by (intro that)
qed

section \<open>Properties\<close>

text \<open>
  C16. Every reachable store of a survey keeps one layout: all responses have as many groups,
  conditions and aggregates as the query names. Therefore the responses that are pulled for a
  shuffle can be cut out of rows that have been shuffled and rerandomized, with the lengths that
  were taken before the shuffle: what a view h of the ciphertexts shows of them is the same, up to
  their order.
\<close>

theorem store_layout_invariant:
  assumes "reachable_store S groupBy sumNames wh s" and "enumerates entries (DpResponsesAggr s)"
    and "PullDpResponses entries s = (prs, s')" and "ProcessResponseToMatrixCipherText S prs = (rows, lengths)"
    and "mset (map (map h) rows') = mset (map (map h) rows)"
  shows "store_ok (length groupBy) (length wh) (length sumNames) s \<and> store_ok (length groupBy) (length wh) (length sumNames) s' \<and>
    (\<exists>prs'. MatrixCipherTextToProcessResponse rows' lengths = Inr prs' \<and>
      (\<forall>pr\<in>set prs'. layout (length groupBy) (length wh) (length sumNames) pr) \<and>
      mset (map (viewed h) prs') = mset (map (viewed h) (pad_single S prs)))"
proof -
  have ok: "store_ok (length groupBy) (length wh) (length sumNames) s" by (rule reachable_store_ok [OF assms(1)])
  have ok': "store_ok (length groupBy) (length wh) (length sumNames) s'"
    by (rule store_step_ok [OF store_step.pull [OF assms(2,3)] ok])
  have "prs = DpResponses s @ map snd entries" using assms(3) by (simp add: PullDpResponses_def)
  then have "set prs = set (DpResponses s) \<union> snd ` set entries" by simp
  moreover have "snd ` set entries = ran (DpResponsesAggr s)"
    using enumerates_set [OF assms(2)] by (force simp: ran_def)
  ultimately have "\<forall>pr\<in>set prs. layout (length groupBy) (length wh) (length sumNames) pr" using ok by (simp add: store_ok_def)
  from shuffled_back [OF this assms(4,5)] ok ok' show ?thesis by metis
qed

theorem store_layout_invariant_witness:
  "\<exists>s prs'. reachable_store ed25519 [''g0''] [''s0''] [] s \<and> DpResponses s = [\<lparr>pr_WhereEnc = [], pr_GroupByEnc = [\<lparr>ctK = 0, ctC = 2\<rparr>], pr_AggregatingAttributes = [\<lparr>ctK = 1, ctC = 5\<rparr>]\<rparr>] \<and>
    MatrixCipherTextToProcessResponse [[\<lparr>ctK = 3, ctC = 5\<rparr>, \<lparr>ctK = 0, ctC = 0\<rparr>], [\<lparr>ctK = 0, ctC = 2\<rparr>, \<lparr>ctK = 1, ctC = 5\<rparr>]] [(1, 0), (1, 0)] = Inr prs' \<and>
    mset (map (viewed (decryptPoint ed25519 1)) prs') = {#([2], [], [4]), ([2], [], [0])#}"
proof -
  let ?pr = "\<lparr>pr_WhereEnc = [], pr_GroupByEnc = [\<lparr>ctK = 0, ctC = 2 :: ed_l\<rparr>], pr_AggregatingAttributes = [\<lparr>ctK = 1, ctC = 5\<rparr>]\<rparr>"
  let ?cr = "\<lparr>WhereClear = Map.empty, WhereEnc = None, GroupByClear = [''g0'' \<mapsto> 2], GroupByEnc = Some Map.empty,
    AggregatingAttributesClear = Map.empty, AggregatingAttributesEnc = Some [''s0'' \<mapsto> \<lparr>ctK = 1, ctC = 5 :: ed_l\<rparr>]\<rparr>"
  let ?s = "(NewStore :: ed_l Store)\<lparr>DpResponses := [?pr]\<rparr>"
  have ins: "InsertDpResponse ed25519 ?cr False [''g0''] [''s0''] [] NewStore = Inr ?s"
    by (simp add: InsertDpResponse_def proccessParameters_def clear_value_def IntToCipherText_def PointToCipherText_def IntToPoint_def NewStore_def ed_simps)
  have r: "reachable_store ed25519 [''g0''] [''s0''] [] ?s"
    by (rule reachable_store.step [OF reachable_store.new store_step.insert [OF ins]])
  have e: "enumerates [] (DpResponsesAggr ?s)" by (simp add: NewStore_def)
  have p: "PullDpResponses [] ?s = ([?pr], ?s\<lparr>DpResponses := []\<rparr>)" by (simp add: PullDpResponses_def)
  have m: "ProcessResponseToMatrixCipherText ed25519 [?pr] =
      ([[\<lparr>ctK = 0, ctC = 2\<rparr>, \<lparr>ctK = 1, ctC = 5\<rparr>], [\<lparr>ctK = 0, ctC = 2\<rparr>, \<lparr>ctK = 0, ctC = 0\<rparr>]], [(1, 0), (1, 0)])"
    by (simp add: ProcessResponseToMatrixCipherText_def pad_single_def IntToCipherText_def PointToCipherText_def IntToPoint_def ed_simps)
  have "mset (map (map (decryptPoint ed25519 1)) [[\<lparr>ctK = 3, ctC = 5\<rparr>, \<lparr>ctK = 0, ctC = 0\<rparr>], [\<lparr>ctK = 0, ctC = 2\<rparr>, \<lparr>ctK = 1, ctC = 5\<rparr>]]) =
      mset (map (map (decryptPoint ed25519 1)) [[\<lparr>ctK = 0, ctC = 2\<rparr>, \<lparr>ctK = 1, ctC = 5\<rparr>], [\<lparr>ctK = 0, ctC = 2\<rparr>, \<lparr>ctK = 0, ctC = 0\<rparr>]])"
    by (simp add: decryptPoint_def ed_simps)
  from store_layout_invariant [OF r e p m this] obtain prs' where
    "MatrixCipherTextToProcessResponse [[\<lparr>ctK = 3, ctC = 5\<rparr>, \<lparr>ctK = 0, ctC = 0\<rparr>], [\<lparr>ctK = 0, ctC = 2\<rparr>, \<lparr>ctK = 1, ctC = 5\<rparr>]] [(1, 0), (1, 0)] = Inr prs'"
    "mset (map (viewed (decryptPoint ed25519 1)) prs') = mset (map (viewed (decryptPoint ed25519 1)) (pad_single ed25519 [?pr]))" by blast
  moreover have "mset (map (viewed (decryptPoint ed25519 1)) (pad_single ed25519 [?pr])) = {#([2], [], [4]), ([2], [], [0])#}"
    by (simp add: pad_single_def viewed_def decryptPoint_def IntToCipherText_def PointToCipherText_def IntToPoint_def ed_simps)
  ultimately show ?thesis using r by (intro exI [of _ ?s] exI [of _ prs'] conjI) simp_all
qed

end
