(* ===== verification/Service.thy ===== *)
theory Service
  imports ProtocolTools KeySwitching Shuffling
begin

text \<open>
  services/service.go: a survey at a server and the phases that StartService goes through. A phase
  is given the instances that NewProtocol makes at the other servers, in the order of the circuit
  or as trees, and returns the survey that it puts back. An error ends the processing of the
  survey, its state after an error is not modelled. TIMEOUT never strikes.
\<close>

type_synonym SurveyID = string

record ('p, 'id) SurveyCreationQuery =
  SurveyID :: SurveyID
  Roster_List :: "'id list"
  Roster_Aggregate :: 'p
  ClientPubKey :: "'p option"
  MapDPs :: "'id \<rightharpoonup> int64"
  scq_Proofs :: bool
  AppFlag :: bool
  scq_IntraMessage :: bool
  Source :: "'id option"
  scq_Sum :: "string list"
  Count :: bool
  Where :: "'p WhereQueryAttribute list"
  Predicate :: string
  GroupBy :: "string list"

text \<open>A buffered channel is the number of the tokens in it; every token is the integer 1.\<close>

record ('s, 'p, 'id) Survey =
  sv_Store :: "'p Store"
  Query :: "('p, 'id) SurveyCreationQuery"
  SurveySecretKey :: 's
  ShufflePrecompute :: "('s, 'p) CipherVectorScalar list option"
  Lengths :: "(nat \<times> nat) list"
  TargetOfSwitch :: "'p ProcessResponse list"
  SurveyChannel :: nat
  DpChannel :: nat
  DDTChannel :: nat
  Noise :: "'p CipherText option"

definition DIFFPRI :: bool where
  "DIFFPRI = False"

section \<open>Surveys of a server\<close>

definition getSurvey :: "(SurveyID \<rightharpoonup> ('s, 'p, 'id) Survey) \<Rightarrow> SurveyID \<Rightarrow> ('s, 'p, 'id) Survey res" where
  "getSurvey surveys sid =
     (case surveys sid of
        None \<Rightarrow> Inl (Err (''empty map entry while getting surveyID '' @ sid))
      | Some surv \<Rightarrow> Inr surv)"

definition putSurvey :: "SurveyID \<Rightarrow> ('s, 'p, 'id) Survey \<Rightarrow> (SurveyID \<rightharpoonup> ('s, 'p, 'id) Survey) \<Rightarrow> (SurveyID \<rightharpoonup> ('s, 'p, 'id) Survey)" where
  "putSurvey sid surv surveys = surveys(sid \<mapsto> surv)"

text \<open>A response comes with the entries of its three maps in the order of the range loops.\<close>

type_synonym received = "DpResponseToSend \<times> (string \<times> byte list) list \<times> (string \<times> byte list) list \<times> (string \<times> byte list) list"

definition PushData :: "('s, 'p) suite \<Rightarrow> SurveyID \<Rightarrow> received list \<Rightarrow> bool \<Rightarrow> (SurveyID \<rightharpoonup> ('s, 'p, 'id) Survey)
    \<Rightarrow> (SurveyID \<rightharpoonup> ('s, 'p, 'id) Survey) res" where
  "PushData S sid responses proofs surveys =
     andThen (getSurvey surveys sid) (\<lambda>survey.
     andThen (fold_res (\<lambda>(v, grp, whr, aggr) store.
         andThen (FromDpResponseToSend S grp whr aggr v) (\<lambda>dr.
         InsertDpResponse S dr proofs (GroupBy (Query survey)) (scq_Sum (Query survey)) (Where (Query survey)) store))
       responses (sv_Store survey)) (\<lambda>store.
     Inr (putSurvey sid (survey\<lparr>sv_Store := store\<rparr>) surveys)))"

definition HandleSurveyResponseQuery :: "('s, 'p) suite \<Rightarrow> SurveyID \<Rightarrow> received list \<Rightarrow> (SurveyID \<rightharpoonup> ('s, 'p, 'id) Survey)
    \<Rightarrow> (SurveyID \<rightharpoonup> ('s, 'p, 'id) Survey) res" where
  "HandleSurveyResponseQuery S sid responses surveys =
     andThen (getSurvey surveys sid) (\<lambda>survey.
     andThen (PushData S sid responses (scq_Proofs (Query survey)) surveys) (\<lambda>surveys'.
     andThen (getSurvey surveys' sid) (\<lambda>survey'.
     Inr (putSurvey sid (survey'\<lparr>DpChannel := DpChannel survey' + 1\<rparr>) surveys'))))"

text \<open>
  The survey that HandleSurveyCreationQuery puts, without an application flag: the precomputed
  values are made from a stream xof that the survey secret determines.
\<close>

definition create_survey :: "('s, 'p) suite \<Rightarrow> (nat \<Rightarrow> nat \<Rightarrow> 's) \<Rightarrow> 's \<Rightarrow> ('p, 'id) SurveyCreationQuery
    \<Rightarrow> (SurveyID \<rightharpoonup> ('s, 'p, 'id) Survey) \<Rightarrow> (SurveyID \<rightharpoonup> ('s, 'p, 'id) Survey)" where
  "create_survey S xof surveySecret recq surveys =
     (let lineSize = length (scq_Sum recq) + length (Where recq) + length (GroupBy recq) + 1;
          precomputeShuffle = CreatePrecomputedRandomize S (Point_Base S) (Roster_Aggregate recq) xof (lineSize * 2) 10
      in surveys(SurveyID recq \<mapsto>
           \<lparr>sv_Store = NewStore, Query = recq, SurveySecretKey = surveySecret, ShufflePrecompute = Some precomputeShuffle,
            Lengths = [], TargetOfSwitch = [], SurveyChannel = 0, DpChannel = 0, DDTChannel = 0, Noise = None\<rparr>))"

section \<open>The predicate\<close>

text \<open>
  govaluate is given: it parses a predicate, or fails, and evaluates it on named strings to a
  boolean or to something else. The counter of the loop is i div 2.
\<close>

type_synonym govaluate = "string \<Rightarrow> ((string \<rightharpoonup> string) \<Rightarrow> bool option) option"

definition where_parameters :: "WhereQueryAttributeTagged list \<Rightarrow> GroupingKey list \<Rightarrow> nat \<Rightarrow> (string \<rightharpoonup> string) res" where
  "where_parameters whereQueryValues detTagWhere n =
     fold_res (\<lambda>i parameters.
         andThen (if even i then andThen (index_at whereQueryValues (i div 2)) (\<lambda>q. Inr (wqt_Value q)) else index_at detTagWhere (i div 2)) (\<lambda>v.
         Inr (parameters(''v'' @ Itoa (of_nat i) \<mapsto> v))))
       [0..<n] Map.empty"

definition filtered_det :: "'p ProcessResponseDet \<Rightarrow> 'p FilteredResponseDet" where
  "filtered_det v = \<lparr>frd_DetTagGroupBy = prd_DetTagGroupBy v, Fr = filtered (PR v)\<rparr>"

fun filter_loop :: "govaluate \<Rightarrow> string \<Rightarrow> WhereQueryAttributeTagged list \<Rightarrow> nat \<Rightarrow> 'p ProcessResponseDet list \<Rightarrow> 'p FilteredResponseDet list res" where
  "filter_loop gov pred whereQueryValues n [] = Inr []"
| "filter_loop gov pred whereQueryValues n (v # vs) =
     (case gov pred of
        None \<Rightarrow> Inr []
      | Some expression \<Rightarrow>
          andThen (where_parameters whereQueryValues (prd_DetTagWhere v) n) (\<lambda>parameters.
          case expression parameters of
            None \<Rightarrow> Inl Panic
          | Some keep \<Rightarrow> andThen (filter_loop gov pred whereQueryValues n vs) (\<lambda>result.
              Inr (if keep then filtered_det v # result else result))))"

definition FilterResponses :: "govaluate \<Rightarrow> string \<Rightarrow> WhereQueryAttributeTagged list \<Rightarrow> 'p ProcessResponseDet list \<Rightarrow> 'p FilteredResponseDet list res" where
  "FilterResponses gov pred whereQueryValues responsesToFilter =
     filter_loop gov pred whereQueryValues
       (length whereQueryValues + length (case responsesToFilter of [] \<Rightarrow> [] | v # _ \<Rightarrow> prd_DetTagWhere v)) responsesToFilter"

definition FilterNone :: "'p ProcessResponseDet list \<Rightarrow> 'p FilteredResponseDet list" where
  "FilterNone responsesToFilter = map filtered_det responsesToFilter"

definition CountDPs :: "('k \<times> int64) list \<Rightarrow> int64" where
  "CountDPs m = fold (\<lambda>(k, v) result. result + v) m 0"

section \<open>Phases\<close>

text \<open>The random choices that a server makes in one shuffle.\<close>

record 's shuffle_choices =
  blind :: "nat \<Rightarrow> nat \<Rightarrow> 's"
  pickline :: "nat \<Rightarrow> nat"
  draw :: "nat \<Rightarrow> nat"

text \<open>NewProtocol, one definition per protocol; the root also fills in the target.\<close>

definition new_shuffling :: "('s, 'p, 'id) Survey \<Rightarrow> 's shuffle_choices \<Rightarrow> ('s, 'p) ShufflingProtocol" where
  "new_shuffling survey ch =
     \<lparr>sp_ShuffleTarget = None, sp_Precomputed = ShufflePrecompute survey, sp_Aggregate = Roster_Aggregate (Query survey), sp_CollectiveKey = None,
      sp_blind = blind ch, sp_pickline = pickline ch, sp_draw = draw ch\<rparr>"

definition new_tagging :: "('s, 'p, 'id) Survey \<Rightarrow> 's \<Rightarrow> 'p \<Rightarrow> ('s, 'p) DeterministicTaggingProtocol" where
  "new_tagging survey priv pub =
     \<lparr>tg_Private = priv, tg_Public = pub, tg_TargetOfSwitch = None, tg_SurveySecretKey = Some (SurveySecretKey survey), tg_Proofs = scq_Proofs (Query survey)\<rparr>"

text \<open>entries are those of DpResponsesAggr in the order of the range loop.\<close>

definition ShufflingPhase :: "('s, 'p) suite \<Rightarrow> (GroupingKeyTuple \<times> 'p ProcessResponse) list \<Rightarrow> 's shuffle_choices
    \<Rightarrow> ('s, 'p) ShufflingProtocol list \<Rightarrow> ('s, 'p, 'id) Survey \<Rightarrow> ('s, 'p, 'id) Survey res" where
  "ShufflingPhase S entries ch others survey =
     (let store = sv_Store survey in
      if length (DpResponses store) = 0 \<and> card (dom (DpResponsesAggr store)) = 0 then Inr survey
      else (let (dpResponses, store') = PullDpResponses entries store;
                (toShuffleCV, lengths) = ProcessResponseToMatrixCipherText S dpResponses
            in andThen (Shuffling_run S ((new_shuffling survey ch)\<lparr>sp_ShuffleTarget := Some toShuffleCV\<rparr>) others) (\<lambda>tmpShufflingResult.
               andThen (MatrixCipherTextToProcessResponse tmpShufflingResult lengths) (\<lambda>shufflingResult.
               Inr (survey\<lparr>Lengths := lengths, sv_Store := PushShuffledProcessResponses shufflingResult store'\<rparr>)))))"

text \<open>A tag without a point makes String panic.\<close>

definition TaggingPhase :: "('s, 'p) suite \<Rightarrow> ('s, 'p) proofs \<Rightarrow> govaluate
    \<Rightarrow> ((GroupingKey \<rightharpoonup> 'p CipherVector list) \<Rightarrow> (GroupingKey \<times> 'p CipherVector list) list)
    \<Rightarrow> 's \<Rightarrow> 'p \<Rightarrow> ('s, 'p) DeterministicTaggingProtocol list \<Rightarrow> ('s, 'p, 'id) Survey \<Rightarrow> ('s, 'p, 'id) Survey res" where
  "TaggingPhase S Z gov visit priv pub others survey =
     (if length (ShuffledProcessResponses (sv_Store survey)) = 0 then Inr survey
      else (let (shuffledClientResponses, store') = PullShuffledProcessResponses (sv_Store survey);
                whereQuery = Where (Query survey);
                queryWhereToTag = map (\<lambda>v. \<lparr>pr_WhereEnc = [wq_Value v], pr_GroupByEnc = [], pr_AggregatingAttributes = []\<rparr>) whereQuery;
                target = queryWhereToTag @ shuffledClientResponses;
                deterministicTOS = ProcessResponseToCipherVector target
            in andThen (DeterministicTagging_run S Z ((new_tagging survey priv pub)\<lparr>tg_TargetOfSwitch := Some deterministicTOS\<rparr>) others) (\<lambda>tags.
               andThen (traverse (\<lambda>t. case t of None \<Rightarrow> Inl Panic | Some p \<Rightarrow> Inr p) tags) (\<lambda>tmpDeterministicTaggingResult.
               andThen (DeterCipherVectorToProcessResponseDet S tmpDeterministicTaggingResult target) (\<lambda>deterministicTaggingResult.
               andThen (slice deterministicTaggingResult 0 (length whereQuery)) (\<lambda>tagged.
               andThen (traverse (\<lambda>i. andThen (index_at (prd_DetTagWhere (tagged ! i)) 0) (\<lambda>value.
                   Inr \<lparr>wqt_Name = wq_Name (whereQuery ! i), wqt_Value = value\<rparr>)) [0..<length tagged]) (\<lambda>queryWhereTag.
               andThen (if Predicate (Query survey) = [] \<or> length queryWhereTag = 0
                        then Inr (FilterNone (drop (length whereQuery) deterministicTaggingResult))
                        else FilterResponses gov (Predicate (Query survey)) queryWhereTag (drop (length whereQuery) deterministicTaggingResult)) (\<lambda>filteredResponses.
               andThen (PushDeterministicFilteredResponses S visit filteredResponses (scq_Proofs (Query survey)) store') (\<lambda>store''.
               Inr (survey\<lparr>TargetOfSwitch := target, sv_Store := store''\<rparr>))))))))))"

record ('s, 'p) aggregation_choices =
  padding :: "nat \<Rightarrow> GroupingKey \<Rightarrow> nat \<Rightarrow> 's"
  visit_map :: "(GroupingKey \<rightharpoonup> 'p FilteredResponse) \<Rightarrow> (GroupingKey \<times> 'p FilteredResponse) list"
  last_goroutine :: nat

definition new_aggregation :: "('s, 'p, 'id) Survey \<Rightarrow> ('s, 'p) aggregation_choices \<Rightarrow> ('s, 'p) CollectiveAggregationProtocol \<times> ('s, 'p, 'id) Survey" where
  "new_aggregation survey ch =
     (let (groupedData, store') = PullLocallyAggregatedResponses (sv_Store survey) in
      (\<lparr>ca_GroupedData = Some groupedData, ca_SimpleData = None, ca_Proofs = scq_Proofs (Query survey), ca_Aggregate = Roster_Aggregate (Query survey),
        ca_picks = padding ch, ca_visit = visit_map ch, ca_last = last_goroutine ch\<rparr>, survey\<lparr>sv_Store := store'\<rparr>))"

definition AggregationPhase :: "('s, 'p) suite \<Rightarrow> ('s, 'p) aggregation_choices \<Rightarrow> nat list \<Rightarrow> nat list \<Rightarrow> ('s, 'p) CollectiveAggregationProtocol tree list
    \<Rightarrow> ('s, 'p, 'id) Survey \<Rightarrow> ('s, 'p, 'id) Survey res" where
  "AggregationPhase S ch lo da others survey =
     (let (root, survey') = new_aggregation survey ch in
      andThen (CollectiveAggregation_run S (Node root lo da others)) (\<lambda>groupedData.
      andThen (PushCothorityAggregatedFilteredResponses S (visit_map ch groupedData) (sv_Store survey')) (\<lambda>store.
      Inr (survey'\<lparr>sv_Store := store\<rparr>))))"

definition new_keyswitching :: "'s \<Rightarrow> (nat \<Rightarrow> 's) \<Rightarrow> ('s, 'p) KeySwitchingProtocol" where
  "new_keyswitching priv picks = \<lparr>ks_Private = priv, ks_picks = picks, ks_TargetOfSwitch = None, ks_TargetPublicKey = None\<rparr>"

text \<open>
  diffPri stands for the constant DIFFPRI of the build. A client key without a point makes its
  serialization panic.
\<close>

definition KeySwitchingPhase :: "('s, 'p) suite \<Rightarrow> bool \<Rightarrow> ('s, 'p) aggregation_choices \<Rightarrow> 's \<Rightarrow> (nat \<Rightarrow> 's) \<Rightarrow> nat list \<Rightarrow> nat list \<Rightarrow> ('s, 'p) KeySwitchingProtocol tree list
    \<Rightarrow> ('s, 'p, 'id) Survey \<Rightarrow> ('s, 'p, 'id) Survey res" where
  "KeySwitchingPhase S diffPri ch priv picks lo da others survey =
     (let noise = (case (diffPri, Noise survey) of (True, Some c) \<Rightarrow> c | _ \<Rightarrow> NewCipherText S);
          (coaggr, store') = PullCothorityAggregatedFilteredResponses S diffPri noise
            (visit_map ch (GroupedDeterministicFilteredResponses (sv_Store survey))) (sv_Store survey);
          (cv, lengths) = FilteredResponseToCipherVector coaggr
      in andThen (case ClientPubKey (Query survey) of
                    None \<Rightarrow> Inl Panic
                  | Some cpk \<Rightarrow> KeySwitching_run S (Node ((new_keyswitching priv picks)\<lparr>ks_TargetOfSwitch := Some cv, ks_TargetPublicKey := Some cpk\<rparr>)
                      lo da others)) (\<lambda>tmpKeySwitchingResult.
         andThen (CipherVectorToFilteredResponse tmpKeySwitchingResult lengths) (\<lambda>keySwitchedAggregatedResponses.
         Inr (survey\<lparr>Lengths := lengths, sv_Store := PushQuerierKeyEncryptedResponses keySwitchedAggregatedResponses store'\<rparr>))))"

end
