(* ===== verification/SurveyRun.thy ===== *)
theory SurveyRun
  imports Service
begin

text \<open>
  A whole survey: StartService at every server of the roster, from the responses that the stores
  hold to the results for the querier. The servers run their shuffling and tagging phases on their
  own data, each with its own order of the other servers in the circuit; then the root aggregates
  and switches the key over trees of all servers.
\<close>

record ('s, 'p, 'id) server =
  Private :: 's
  Public :: 'p
  survey :: "('s, 'p, 'id) Survey"
  entries :: "(GroupingKeyTuple \<times> 'p ProcessResponse) list"
  circuit_order :: "nat list"
  choices :: "nat \<Rightarrow> 's shuffle_choices"
  visit_columns :: "(GroupingKey \<rightharpoonup> 'p CipherVector list) \<Rightarrow> (GroupingKey \<times> 'p CipherVector list) list"
  aggregation :: "('s, 'p) aggregation_choices"
  switch_picks :: "nat \<Rightarrow> 's"

text \<open>StartService up to the message that the tagging is finished, at the server i.\<close>

definition local_phases :: "('s, 'p) suite \<Rightarrow> ('s, 'p) proofs \<Rightarrow> govaluate \<Rightarrow> ('s, 'p, 'id) server list \<Rightarrow> nat \<Rightarrow> ('s, 'p, 'id) Survey res" where
  "local_phases S Z gov servers i =
     (let this = servers ! i; others = map ((!) servers) (circuit_order this) in
      andThen (ShufflingPhase S (entries this) (choices this i) (map (\<lambda>s. new_shuffling (survey s) (choices s i)) others) (survey this)) (\<lambda>sv.
      TaggingPhase S Z gov (visit_columns this) (Private this) (Public this)
        (map (\<lambda>s. new_tagging (survey s) (Private s) (Public s)) others) sv))"

text \<open>
  StartService at the root from there on: aggr and switch are the trees of the two protocols over
  the servers' numbers, with the orders of arrival of the messages.
\<close>

definition root_phases :: "('s, 'p) suite \<Rightarrow> ('s, 'p, 'id) server list \<Rightarrow> nat tree \<Rightarrow> nat tree \<Rightarrow> ('s, 'p, 'id) Survey list \<Rightarrow> ('s, 'p, 'id) Survey res" where
  "root_phases S servers aggr switch tagged =
     (let r = content aggr; root = servers ! r in
      andThen (AggregationPhase S (aggregation root) (length_order aggr) (data_order aggr)
          (map (map_tree (\<lambda>j. fst (new_aggregation (tagged ! j) (aggregation (servers ! j))))) (children aggr)) (tagged ! r)) (\<lambda>sv.
      KeySwitchingPhase S DIFFPRI (aggregation root) (Private root) (switch_picks root) (length_order switch) (data_order switch)
          (map (map_tree (\<lambda>j. new_keyswitching (Private (servers ! j)) (switch_picks (servers ! j)))) (children switch)) sv))"

definition survey_run :: "('s, 'p) suite \<Rightarrow> ('s, 'p) proofs \<Rightarrow> govaluate \<Rightarrow> ('s, 'p, 'id) server list \<Rightarrow> nat tree \<Rightarrow> nat tree \<Rightarrow> 'p FilteredResponse list res" where
  "survey_run S Z gov servers aggr switch =
     andThen (traverse (local_phases S Z gov servers) [0..<length servers]) (\<lambda>tagged.
     andThen (root_phases S servers aggr switch tagged) (\<lambda>sv.
     Inr (fst (PullDeliverableResults S False (NewCipherText S) (sv_Store sv)))))"

section \<open>The predicate sees equalities of tags\<close>

abbreviation parameter :: "nat \<Rightarrow> string" where
  "parameter i \<equiv> ''v'' @ Itoa (of_nat i)"

text \<open>A predicate that only compares the value of each condition with the attribute of the response.\<close>

definition compares_pairs :: "((string \<rightharpoonup> string) \<Rightarrow> bool option) \<Rightarrow> nat \<Rightarrow> (bool list \<Rightarrow> bool) \<Rightarrow> bool" where
  "compares_pairs expression n ev \<longleftrightarrow>
     (\<forall>ps qs ds. length qs = n \<and> length ds = n \<and> (\<forall>i<n. ps (parameter (2 * i)) = Some (qs ! i) \<and> ps (parameter (2 * i + 1)) = Some (ds ! i)) \<longrightarrow>
       expression ps = Some (ev (map2 (=) qs ds)))"

definition predicate_is :: "govaluate \<Rightarrow> ('p, 'id) SurveyCreationQuery \<Rightarrow> (bool list \<Rightarrow> bool) \<Rightarrow> bool" where
  "predicate_is gov q ev \<longleftrightarrow>
     (if Predicate q = [] \<or> Where q = [] then ev = (\<lambda>_. True)
      else \<exists>expression. gov (Predicate q) = Some expression \<and> compares_pairs expression (length (Where q)) ev)"

lemma where_parameters_Inr:
  assumes "length qs = n" and "length ds = n" and "n < 2 ^ 62"
  shows "\<exists>ps. where_parameters qs ds (n + n) = Inr ps \<and>
    (\<forall>i<n. ps (parameter (2 * i)) = Some (map wqt_Value qs ! i) \<and> ps (parameter (2 * i + 1)) = Some (ds ! i))"
proof -
  define val where "val i = (if even i then map wqt_Value qs ! (i div 2) else ds ! (i div 2))" for i
  have inj: "parameter i = parameter j \<longleftrightarrow> i = j" if "i < 2 ^ 63" "j < 2 ^ 63" for i j
    using that by (simp add: word_of_nat_eq_iff take_bit_nat_eq_self)
  have "\<exists>ps. where_parameters qs ds k = Inr ps \<and> (\<forall>i<k. ps (parameter i) = Some (val i))" if "k \<le> n + n" for k
    using that
  proof (induction k)
    case 0
    then show ?case by (simp add: where_parameters_def)
  next
    case (Suc k)
    then obtain ps where ps: "where_parameters qs ds k = Inr ps" "\<forall>i<k. ps (parameter i) = Some (val i)" by auto
    have "k div 2 < n" using Suc.prems by linarith
    then have "(if even k then andThen (index_at qs (k div 2)) (\<lambda>q. Inr (wqt_Value q)) else index_at ds (k div 2)) = Inr (val k)"
      using assms(1,2) by (simp add: val_def)
    then have "where_parameters qs ds (Suc k) = Inr (ps(parameter k \<mapsto> val k))"
      using ps(1) by (simp add: where_parameters_def fold_res_append del: upt_Suc) (simp add: fold_res_append)
    moreover have "(ps(parameter k \<mapsto> val k)) (parameter i) = Some (val i)" if "i < Suc k" for i
      using ps(2) that inj [of i k] Suc.prems assms(3) by (auto simp: less_Suc_eq)
    ultimately show ?case by blast
  qed
  from this [of "n + n"] obtain ps where ps: "where_parameters qs ds (n + n) = Inr ps" "\<forall>i<n + n. ps (parameter i) = Some (val i)" by auto
  have "ps (parameter (2 * i)) = Some (map wqt_Value qs ! i) \<and> ps (parameter (2 * i + 1)) = Some (ds ! i)" if "i < n" for i
    using ps(2) [rule_format, of "2 * i"] ps(2) [rule_format, of "2 * i + 1"] that by (simp add: val_def)
  with ps(1) show ?thesis by blast
qed

lemma FilterResponses_Inr:
  assumes "gov pred = Some expression" and "compares_pairs expression n ev" and "length qs = n" and "n < 2 ^ 62"
    and "\<forall>v\<in>set vs. length (prd_DetTagWhere v) = n"
  shows "FilterResponses gov pred qs vs =
    Inr (map filtered_det (filter (\<lambda>v. ev (map2 (=) (map wqt_Value qs) (prd_DetTagWhere v))) vs))"
proof -
  have "filter_loop gov pred qs (n + n) vs = Inr (map filtered_det (filter (\<lambda>v. ev (map2 (=) (map wqt_Value qs) (prd_DetTagWhere v))) vs))"
    using assms(5)
  proof (induction vs)
    case (Cons v vs)
    obtain ps where ps: "where_parameters qs (prd_DetTagWhere v) (n + n) = Inr ps"
      "\<forall>i<n. ps (parameter (2 * i)) = Some (map wqt_Value qs ! i) \<and> ps (parameter (2 * i + 1)) = Some (prd_DetTagWhere v ! i)"
      using where_parameters_Inr [OF assms(3) _ assms(4), of "prd_DetTagWhere v"] Cons.prems by auto
    have "expression ps = Some (ev (map2 (=) (map wqt_Value qs) (prd_DetTagWhere v)))"
      using assms(2,3) ps(2) Cons.prems unfolding compares_pairs_def by (metis length_map list.set_intros(1))
    with Cons assms(1) ps(1) show ?case by simp
  qed simp
  moreover have "FilterResponses gov pred qs vs = filter_loop gov pred qs (n + n) vs"
    using assms(3,5) by (cases vs) (simp_all add: FilterResponses_def)
  ultimately show ?thesis by simp
qed

section \<open>The phases of one server\<close>

text \<open>The responses that a server pulls, and what a phase leaves alone.\<close>

definition stored :: "(GroupingKeyTuple \<times> 'p ProcessResponse) list \<Rightarrow> ('s, 'p, 'id) Survey \<Rightarrow> 'p ProcessResponse list" where
  "stored es sv = DpResponses (sv_Store sv) @ map snd es"

definition same_survey :: "('s, 'p, 'id) Survey \<Rightarrow> ('s, 'p, 'id) Survey \<Rightarrow> bool" where
  "same_survey sv sv' \<longleftrightarrow> Query sv' = Query sv \<and> SurveySecretKey sv' = SurveySecretKey sv \<and>
     GroupedDeterministicFilteredResponses (sv_Store sv') = GroupedDeterministicFilteredResponses (sv_Store sv)"

context kyber_suite
begin

lemma ShufflingPhase_ok:
  assumes "\<forall>p\<in>set (new_shuffling sv ch # others). shuffler S x (g + w + a) p" and "g + w + a < 2 ^ 32"
    and lay: "\<forall>pr\<in>set (stored es sv). layout g w a pr" and es: "enumerates es (DpResponsesAggr (sv_Store sv))"
    and "ShuffledProcessResponses (sv_Store sv) = []"
  shows "\<exists>sv'. ShufflingPhase S es ch others sv = Inr sv' \<and> same_survey sv sv' \<and>
    LocAggregatedProcessResponse (sv_Store sv') = LocAggregatedProcessResponse (sv_Store sv) \<and>
    (\<forall>pr\<in>set (ShuffledProcessResponses (sv_Store sv')). layout g w a pr) \<and>
    mset (map (viewed (decryptPoint S x)) (ShuffledProcessResponses (sv_Store sv'))) =
      mset (map (viewed (decryptPoint S x)) (pad_single S (stored es sv)))"
proof (cases "stored es sv = []")
  case True
  then have "es = []" "DpResponses (sv_Store sv) = []" by (simp_all add: stored_def)
  with es have "ShufflingPhase S es ch others sv = Inr sv" by (simp add: ShufflingPhase_def)
  with True assms(5) show ?thesis by (simp add: same_survey_def pad_single_def)
next
  case False
  obtain rows lengths where rl: "ProcessResponseToMatrixCipherText S (stored es sv) = (rows, lengths)" by (metis surj_pair)
  have rows: "rows = map (\<lambda>v. pr_GroupByEnc v @ pr_WhereEnc v @ pr_AggregatingAttributes v) (pad_single S (stored es sv))"
    using rl by (simp add: ProcessResponseToMatrixCipherText_def Let_def)
  have width: "\<forall>row\<in>set rows. length row = g + w + a"
    using pad_single_layout [OF lay, of S] by (auto simp: rows layout_def)
  have "rows \<noteq> []" using False by (auto simp: rows pad_single_def split: list.splits)
  let ?start = "(new_shuffling sv ch)\<lparr>sp_ShuffleTarget := Some rows\<rparr>"
  have sh: "\<forall>p\<in>set (?start # others). shuffler S x (g + w + a) p"
    using assms(1) by (auto simp: shuffler_def shuffling_key_def new_shuffling_def)
  obtain rows' where r: "Shuffling_run S ?start others = Inr rows'"
    "mset (map (map (decryptPoint S x)) rows') = mset (map (map (decryptPoint S x)) rows)"
    using shuffling_run [OF _ sh \<open>rows \<noteq> []\<close> width assms(2)] by auto
  obtain prs' where p: "MatrixCipherTextToProcessResponse rows' lengths = Inr prs'" "\<forall>pr\<in>set prs'. layout g w a pr"
    "mset (map (viewed (decryptPoint S x)) prs') = mset (map (viewed (decryptPoint S x)) (pad_single S (stored es sv)))"
    by (rule shuffled_back [OF lay rl r(2)])
  have ne: "\<not> (length (DpResponses (sv_Store sv)) = 0 \<and> card (dom (DpResponsesAggr (sv_Store sv))) = 0)"
    using False enumerates_length [OF es] by (cases es) (auto simp: stored_def)
  then have "ShufflingPhase S es ch others sv = Inr (sv\<lparr>Lengths := lengths,
      sv_Store := PushShuffledProcessResponses prs' ((sv_Store sv)\<lparr>DpResponses := []\<rparr>)\<rparr>)"
    by (simp only: ShufflingPhase_def Let_def ne if_False PullDpResponses_def stored_def [symmetric] prod.case rl r(1) p(1) andThen_Inr)
  with p(2,3) assms(5) show ?thesis by (simp add: same_survey_def PushShuffledProcessResponses_def)
qed

end

text \<open>The tag that a circuit of servers gives to a plaintext.\<close>

definition circuit_tag :: "('s, 'p) suite \<Rightarrow> ('s, 'p) DeterministicTaggingProtocol list \<Rightarrow> 'p \<Rightarrow> 'p DeterministCipherText" where
  "circuit_tag S ps P = DeterministCipherText (Point_Mul S (sprod S (map (secret_of S) ps))
     (Point_Add S P (Point_Mul S (ssum S (map (secret_of S) ps)) (Point_Base S))))"

definition circuit_key :: "('s, 'p) suite \<Rightarrow> ('s, 'p) DeterministicTaggingProtocol list \<Rightarrow> 's" where
  "circuit_key S ps = ssum S (map tg_Private ps)"

definition kept :: "('s, 'p) suite \<Rightarrow> 's \<Rightarrow> (bool list \<Rightarrow> bool) \<Rightarrow> ('p, 'id) SurveyCreationQuery \<Rightarrow> 'p ProcessResponse \<Rightarrow> bool" where
  "kept S x ev q v \<longleftrightarrow> ev (map2 (=) (map (\<lambda>c. decryptPoint S x (wq_Value c)) (Where q)) (map (decryptPoint S x) (pr_WhereEnc v)))"

definition tagged_entry :: "('s, 'p) suite \<Rightarrow> 's \<Rightarrow> ('p \<Rightarrow> 'p DeterministCipherText) \<Rightarrow> 'p ProcessResponse \<Rightarrow> GroupingKey \<times> 'p FilteredResponse" where
  "tagged_entry S x T v = (dcv_Key S (map (\<lambda>c. T (decryptPoint S x c)) (pr_GroupByEnc v)), filtered v)"

context proof_system
begin

lemma tag_string_eq:
  assumes "Scalar_Mul S ia (sprod S (map (secret_of S) ps)) = Scalar_One S"
  shows "dct_String S (circuit_tag S ps P) = dct_String S (circuit_tag S ps Q) \<longleftrightarrow> P = Q"
  by (simp add: dct_String_def circuit_tag_def point_string_inject tags_separate [OF assms])

lemma TaggingPhase_ok:
  fixes others sv priv pub
  defines "ps \<equiv> others @ [new_tagging sv priv pub]"
  defines "x \<equiv> circuit_key S ps" and "T \<equiv> circuit_tag S ps"
  assumes tg: "\<forall>p\<in>set ps. tagger Z p" and inv: "Scalar_Mul S ia (sprod S (map (secret_of S) ps)) = Scalar_One S"
    and pred: "predicate_is gov (Query sv) ev" and few: "length (Where (Query sv)) < 2 ^ 62" and "0 < a"
    and lay: "\<forall>pr\<in>set (ShuffledProcessResponses (sv_Store sv)). layout g (length (Where (Query sv))) a pr"
    and loc: "LocAggregatedProcessResponse (sv_Store sv) = Map.empty" and v: "visits_entries visit"
  shows "\<exists>sv'. TaggingPhase S Z gov visit priv pub others sv = Inr sv' \<and> same_survey sv sv' \<and>
    fold_res (\<lambda>(k, fr). AddInMap S k fr)
      (map (tagged_entry S x T) (filter (kept S x ev (Query sv)) (ShuffledProcessResponses (sv_Store sv)))) Map.empty =
      Inr (LocAggregatedProcessResponse (sv_Store sv'))"
proof (cases "ShuffledProcessResponses (sv_Store sv) = []")
  case True
  then show ?thesis by (simp add: TaggingPhase_def same_survey_def loc)
next
  case False
  let ?wh = "Where (Query sv)" and ?prs = "ShuffledProcessResponses (sv_Store sv)"
  let ?q = "\<lambda>v. \<lparr>pr_WhereEnc = [wq_Value v], pr_GroupByEnc = [], pr_AggregatingAttributes = []\<rparr>"
  let ?target = "map ?q ?wh @ ?prs"
  let ?tag = "\<lambda>c. T (decryptPoint S x c)"
  let ?D = "\<lambda>v. \<lparr>PR = v, prd_DetTagGroupBy = dcv_Key S (map ?tag (pr_GroupByEnc v)), prd_DetTagWhere = map (\<lambda>c. dct_String S (?tag c)) (pr_WhereEnc v)\<rparr>"
  let ?tos = "ProcessResponseToCipherVector ?target"
  let ?start = "(new_tagging sv priv pub)\<lparr>tg_TargetOfSwitch := Some ?tos\<rparr>"
  have same: "map (secret_of S) (others @ [?start]) = map (secret_of S) ps" "map tg_Private (others @ [?start]) = map tg_Private ps"
    "\<forall>p\<in>set (others @ [?start]). tagger Z p"
    using tg by (auto simp: ps_def secret_of_def tagger_def new_tagging_def)
  have run: "DeterministicTagging_run S Z ?start others = Inr (map (\<lambda>ct. Some (?tag ct)) ?tos)"
    using tagging_run [of ?start ?tos others, OF _ same(3)] unfolding same T_def x_def circuit_tag_def circuit_key_def by simp
  have points: "traverse (\<lambda>t. case t of None \<Rightarrow> Inl Panic | Some p \<Rightarrow> Inr p) (map (\<lambda>ct. Some (?tag ct)) cv) = Inr (map ?tag cv)" for cv
    by (induction cv) simp_all
  have det: "DeterCipherVectorToProcessResponseDet S (map ?tag ?tos) ?target = Inr (map ?D (map ?q ?wh) @ map ?D ?prs)"
    unfolding responses_tagged by simp
  have tagged: "slice (map ?D (map ?q ?wh) @ map ?D ?prs) 0 (length ?wh) = Inr (map ?D (map ?q ?wh))" by (rule slice_prefix) simp
  let ?qs = "map (\<lambda>i. \<lparr>wqt_Name = wq_Name (?wh ! i), wqt_Value = dct_String S (?tag (wq_Value (?wh ! i)))\<rparr>) [0..<length (map ?D (map ?q ?wh))]"
  have qs: "traverse (\<lambda>i. andThen (index_at (prd_DetTagWhere (map ?D (map ?q ?wh) ! i)) 0) (\<lambda>value.
      Inr \<lparr>wqt_Name = wq_Name (?wh ! i), wqt_Value = value\<rparr>)) [0..<length (map ?D (map ?q ?wh))] = Inr ?qs"
    by (rule traverse_Inr_map) simp
  have drop: "drop (length ?wh) (map ?D (map ?q ?wh) @ map ?D ?prs) = map ?D ?prs" by simp
  let ?P = "\<lambda>v. ev (map2 (=) (map wqt_Value ?qs) (prd_DetTagWhere v))"
  have filter_ok: "(if Predicate (Query sv) = [] \<or> length ?qs = 0 then Inr (FilterNone (map ?D ?prs))
      else FilterResponses gov (Predicate (Query sv)) ?qs (map ?D ?prs)) = Inr (map filtered_det (filter ?P (map ?D ?prs)))"
  proof (cases "Predicate (Query sv) = [] \<or> ?wh = []")
    case True
    then have "ev = (\<lambda>_. True)" using pred by (simp add: predicate_is_def)
    moreover have "filter (\<lambda>_. True) xs = xs" for xs :: "'b ProcessResponseDet list" by simp
    ultimately show ?thesis using True by (auto simp: FilterNone_def)
  next
    case False
    then obtain expression where e: "gov (Predicate (Query sv)) = Some expression" "compares_pairs expression (length ?wh) ev"
      using pred by (auto simp: predicate_is_def)
    have "FilterResponses gov (Predicate (Query sv)) ?qs (map ?D ?prs) = Inr (map filtered_det (filter ?P (map ?D ?prs)))"
      by (rule FilterResponses_Inr [where gov = gov and expression = expression and n = "length ?wh", OF e]) (use few lay in \<open>auto simp: layout_def\<close>)
    moreover have "\<not> (Predicate (Query sv) = [] \<or> length ?qs = 0)" using False by simp
    ultimately show ?thesis by (simp only: if_False)
  qed
  have "?P (?D v) = kept S x ev (Query sv) v" if "v \<in> set ?prs" for v
  proof -
    have "map2 (=) (map wqt_Value ?qs) (prd_DetTagWhere (?D v)) =
        map2 (=) (map (\<lambda>c. decryptPoint S x (wq_Value c)) ?wh) (map (decryptPoint S x) (pr_WhereEnc v))"
      using lay that by (intro nth_equalityI) (auto simp: layout_def T_def tag_string_eq [OF inv])
    then show ?thesis by (simp only: kept_def)
  qed
  then have sel: "map filtered_det (filter ?P (map ?D ?prs)) = map (\<lambda>v. filtered_det (?D v)) (filter (kept S x ev (Query sv)) ?prs)"
    by (simp add: filter_map comp_def cong: filter_cong)
  let ?frds = "map (\<lambda>v. filtered_det (?D v)) (filter (kept S x ev (Query sv)) ?prs)"
  have attr: "\<forall>frd\<in>set ?frds. has_attributes a (Fr frd)"
    using lay by (auto simp: filtered_det_def filtered_def has_attributes_def layout_def)
  have keys: "keyed ?frds = map (tagged_entry S x T) (filter (kept S x ev (Query sv)) ?prs)"
    by (simp add: tagged_entry_def filtered_det_def)
  have "\<forall>fr\<in>snd ` set (keyed ?frds). has_attributes a fr" using attr by auto
  from AddInMap_ex [OF this] obtain m where m: "fold_res (\<lambda>(k, fr). AddInMap S k fr) (keyed ?frds) Map.empty = Inr m" by blast
  have "local_aggregation S visit (scq_Proofs (Query sv)) ?frds Map.empty = Inr m"
    using local_aggregation_Inr [OF attr aggregation.valid_map_empty \<open>0 < a\<close>, of "scq_Proofs (Query sv)" visit] v m by simp
  then have push: "PushDeterministicFilteredResponses S visit ?frds (scq_Proofs (Query sv)) ((sv_Store sv)\<lparr>ShuffledProcessResponses := []\<rparr>) =
      Inr ((sv_Store sv)\<lparr>ShuffledProcessResponses := [], LocAggregatedProcessResponse := m\<rparr>)"
    by (simp add: PushDeterministicFilteredResponses_def loc)
  have ne: "\<not> length ?prs = 0" using False by simp
  have "TaggingPhase S Z gov visit priv pub others sv =
      Inr (sv\<lparr>TargetOfSwitch := ?target, sv_Store := (sv_Store sv)\<lparr>ShuffledProcessResponses := [], LocAggregatedProcessResponse := m\<rparr>\<rparr>)"
    by (simp only: TaggingPhase_def PullShuffledProcessResponses_def Let_def prod.case ne if_False run points det andThen_Inr tagged qs drop
        filter_ok sel push)
  with m show ?thesis unfolding keys by (simp add: same_survey_def)
qed

end

section \<open>Rows, and the maps that hold them\<close>

text \<open>A plaintext row: the group, the conditions and the aggregates of a response.\<close>

type_synonym 'p row = "'p list \<times> 'p list \<times> 'p list"

definition row_total :: "('s, 'p) suite \<Rightarrow> nat \<Rightarrow> 'p row list \<Rightarrow> 'p" where
  "row_total S i rows = psum S (map (\<lambda>(grp, wh, aggr). aggr ! i) rows)"

text \<open>m is the aggregation of the rows by the keys of their groups.\<close>

definition holds_rows :: "('s, 'p) suite \<Rightarrow> 's \<Rightarrow> ('p list \<Rightarrow> GroupingKey) \<Rightarrow> nat \<Rightarrow> nat \<Rightarrow> 'p row list \<Rightarrow> (GroupingKey \<rightharpoonup> 'p FilteredResponse) \<Rightarrow> bool" where
  "holds_rows S x key g a rows m \<longleftrightarrow> dom m = (\<lambda>r. key (fst r)) ` set rows \<and>
     (\<forall>k fr. m k = Some fr \<longrightarrow> length (fr_GroupByEnc fr) = g \<and> key (map (decryptPoint S x) (fr_GroupByEnc fr)) = k \<and> length (fr_AggregatingAttributes fr) = a \<and>
       (\<forall>i<a. decryptPoint S x (fr_AggregatingAttributes fr ! i) = row_total S i (filter (\<lambda>r. key (fst r) = k) rows)))"

lemma AddInMap_group:
  assumes "AddInMap S k fr m = Inr m'" and "\<forall>k fr. m k = Some fr \<longrightarrow> P k (fr_GroupByEnc fr)" and "P k (fr_GroupByEnc fr)"
  shows "\<forall>k fr. m' k = Some fr \<longrightarrow> P k (fr_GroupByEnc fr)"
proof (cases "m k")
  case None
  with assms show ?thesis by (auto simp: AddInMap_new split: if_splits)
next
  case (Some u)
  with assms show ?thesis
    by (cases "length (fr_AggregatingAttributes fr) < length (fr_AggregatingAttributes u)")
      (auto simp: AddInMap_longer AddInMap_shorter split: if_splits)
qed

context kyber_suite
begin

lemma row_total_simps [simp]: "row_total S i [] = Point_Null S" "row_total S i (r # rs) = Point_Add S (snd (snd r) ! i) (row_total S i rs)"
  "row_total S i (rs @ rs') = Point_Add S (row_total S i rs) (row_total S i rs')"
  by (simp_all add: row_total_def split_beta)

lemma row_total_mset: "mset rs = mset rs' \<Longrightarrow> row_total S i rs = row_total S i rs'"
  unfolding row_total_def by (rule psum_mset) (simp add: mset_map)

lemma aggregated_holds_rows:
  assumes "fold_res (\<lambda>(k, fr). AddInMap S k fr) (map (\<lambda>v. (key (map (decryptPoint S x) (pr_GroupByEnc v)), filtered v)) vs) Map.empty = Inr m"
    and lay: "\<forall>v\<in>set vs. layout g w a v"
  shows "holds_rows S x key g a (map (viewed (decryptPoint S x)) vs) m"
proof -
  let ?dec = "decryptPoint S x"
  let ?es = "map (\<lambda>v. (key (map ?dec (pr_GroupByEnc v)), filtered v)) vs"
  have attr: "\<forall>fr\<in>snd ` set ?es. has_attributes a fr" using lay by (auto simp: has_attributes_def filtered_def layout_def)
  from AddInMap_ex [OF attr] assms(1) have m: "dom m = fst ` set ?es"
    "\<And>k fr. m k = Some fr \<Longrightarrow> has_attributes a fr" "\<And>k fr i. m k = Some fr \<Longrightarrow> aggr_at S fr i = csum S (map (\<lambda>fr. aggr_at S fr i) (of_key k ?es))"
    by auto
  have grp: "\<forall>k fr. m k = Some fr \<longrightarrow> length (fr_GroupByEnc fr) = g \<and> key (map ?dec (fr_GroupByEnc fr)) = k"
  proof (rule fold_res_invariant [OF assms(1)])
    fix e n n'
    assume e: "e \<in> set ?es" and n: "\<forall>k fr. n k = Some fr \<longrightarrow> length (fr_GroupByEnc fr) = g \<and> key (map ?dec (fr_GroupByEnc fr)) = k"
      "(case e of (k, fr) \<Rightarrow> AddInMap S k fr) n = Inr n'"
    have "AddInMap S (fst e) (snd e) n = Inr n'" using n(2) by (simp add: split_beta)
    then show "\<forall>k fr. n' k = Some fr \<longrightarrow> length (fr_GroupByEnc fr) = g \<and> key (map ?dec (fr_GroupByEnc fr)) = k"
      by (rule AddInMap_group [OF _ n(1)]) (use e lay in \<open>auto simp: filtered_def layout_def\<close>)
  qed simp
  have sum: "?dec (fr_AggregatingAttributes fr ! i) = row_total S i (filter (\<lambda>r. key (fst r) = k) (map (viewed ?dec) vs))"
    if fr: "m k = Some fr" and i: "i < a" for k fr i
  proof -
    let ?hits = "filter (\<lambda>v. key (map ?dec (pr_GroupByEnc v)) = k) vs"
    have "fr_AggregatingAttributes fr ! i = csum S (map (\<lambda>fr. aggr_at S fr i) (map filtered ?hits))"
      using m(3) [OF fr, of i] m(2) [OF fr] i by (simp add: aggr_at_def [of S fr] has_attributes_def of_key_def filter_map comp_def)
    also have "map (\<lambda>fr. aggr_at S fr i) (map filtered ?hits) = map (\<lambda>v. pr_AggregatingAttributes v ! i) ?hits"
      using lay i by (simp add: aggr_at_def filtered_def layout_def)
    finally have "?dec (fr_AggregatingAttributes fr ! i) = psum S (map (\<lambda>v. ?dec (pr_AggregatingAttributes v ! i)) ?hits)"
      by (simp add: decrypt_csum comp_def)
    also have "map (\<lambda>v. ?dec (pr_AggregatingAttributes v ! i)) ?hits = map (\<lambda>v. map ?dec (pr_AggregatingAttributes v) ! i) ?hits"
      using lay i by (simp add: layout_def)
    finally show ?thesis by (simp add: row_total_def filter_map comp_def viewed_def)
  qed
  have "dom m = (\<lambda>r. key (fst r)) ` set (map (viewed ?dec) vs)" using m(1) by (simp add: viewed_def image_image comp_def)
  with grp sum m(2) show ?thesis by (simp add: holds_rows_def has_attributes_def)
qed

text \<open>The companion of a single response adds nothing.\<close>

lemma padded_rows:
  assumes "\<forall>pr\<in>set prs. layout g w a pr" and "i < a"
    and P: "\<And>grp wh aggr aggr'. P (grp, wh, aggr) = P (grp, wh, aggr')"
  shows "row_total S i (filter P (map (viewed (decryptPoint S x)) (pad_single S prs))) = row_total S i (filter P (map (viewed (decryptPoint S x)) prs))"
    and "fst ` set (filter P (map (viewed (decryptPoint S x)) (pad_single S prs))) = fst ` set (filter P (map (viewed (decryptPoint S x)) prs))"
proof -
  have zero: "decryptPoint S x (IntToCipherText S 0) = Point_Null S" by (simp add: decrypt_IntToCipherText IntToPoint_def)
  let ?fil = "\<lambda>prs. filter P (map (viewed (decryptPoint S x)) prs)"
  have "row_total S i (?fil (pad_single S prs)) = row_total S i (?fil prs) \<and> fst ` set (?fil (pad_single S prs)) = fst ` set (?fil prs)"
  proof (cases "\<exists>p. prs = [p]")
    case True
    then obtain p where p: "prs = [p]" by blast
    let ?G = "map (decryptPoint S x) (pr_GroupByEnc p)" and ?W = "map (decryptPoint S x) (pr_WhereEnc p)"
    have "map (viewed (decryptPoint S x)) (pad_single S prs) =
        [(?G, ?W, map (decryptPoint S x) (pr_AggregatingAttributes p)), (?G, ?W, replicate (length (pr_AggregatingAttributes p)) (Point_Null S))]"
      by (simp add: p pad_single_def viewed_def zero)
    then show ?thesis
      using P [of ?G ?W "map (decryptPoint S x) (pr_AggregatingAttributes p)" "replicate (length (pr_AggregatingAttributes p)) (Point_Null S)"] assms(1,2)
      by (cases "P (?G, ?W, map (decryptPoint S x) (pr_AggregatingAttributes p))") (simp_all add: p viewed_def layout_def)
  next
    case False
    then show ?thesis by (auto simp: pad_single_def split: list.splits)
  qed
  then show "row_total S i (?fil (pad_single S prs)) = row_total S i (?fil prs)" "fst ` set (?fil (pad_single S prs)) = fst ` set (?fil prs)" by simp_all
qed

end

end
