(* ===== verification/SurveyResult.thy ===== *)
theory SurveyResult
  imports SurveyRun
begin

text \<open>
  The result of a survey. The specification is a query on the clear rows of all servers: keep the
  rows that satisfy the predicate, group them, and sum every aggregate. A run of all servers
  refines it: what the querier decrypts is the answer of the query, whatever the randomness, the
  shuffles, the trees and the orders of arrival.
\<close>

section \<open>The specification\<close>

definition plain_rows :: "('s, 'p) suite \<Rightarrow> 's \<Rightarrow> ('s, 'p, 'id) server list \<Rightarrow> 'p row list" where
  "plain_rows S x servers = concat (map (\<lambda>s. map (viewed (decryptPoint S x)) (stored (entries s) (survey s))) servers)"

definition satisfies :: "(bool list \<Rightarrow> bool) \<Rightarrow> 'p list \<Rightarrow> 'p row \<Rightarrow> bool" where
  "satisfies ev wanted r \<longleftrightarrow> ev (map2 (=) wanted (fst (snd r)))"

definition answers :: "('s, 'p) suite \<Rightarrow> nat \<Rightarrow> 'p row list \<Rightarrow> ('p list \<times> 'p list) list \<Rightarrow> bool" where
  "answers S a rows out \<longleftrightarrow> distinct (map fst out) \<and> set (map fst out) = fst ` set rows \<and>
     (\<forall>(grp, aggr)\<in>set out. aggr = map (\<lambda>i. row_total S i (filter (\<lambda>r. fst r = grp) rows)) [0..<a])"

lemma answers_entry:
  "answers S a rows out \<Longrightarrow> (grp, aggr) \<in> set out \<Longrightarrow> aggr = map (\<lambda>i. row_total S i (filter (\<lambda>r. fst r = grp) rows)) [0..<a]"
  by (auto simp: answers_def)

section \<open>Tags as keys\<close>

definition joint_tag :: "('s, 'p) suite \<Rightarrow> 's list \<Rightarrow> 'p \<Rightarrow> 'p DeterministCipherText" where
  "joint_tag S ss P = DeterministCipherText (Point_Mul S (sprod S ss) (Point_Add S P (Point_Mul S (ssum S ss) (Point_Base S))))"

definition joint_key :: "('s, 'p) suite \<Rightarrow> 's list \<Rightarrow> 'p list \<Rightarrow> GroupingKey" where
  "joint_key S ss Ps = dcv_Key S (map (joint_tag S ss) Ps)"

lemma holds_rows_cong:
  assumes "fst ` set rows = fst ` set rows'"
    and "\<And>k i. i < a \<Longrightarrow> row_total S i (filter (\<lambda>r. key (fst r) = k) rows) = row_total S i (filter (\<lambda>r. key (fst r) = k) rows')"
    and "holds_rows S x key g a rows m"
  shows "holds_rows S x key g a rows' m"
proof -
  have "(\<lambda>r. key (fst r)) ` set rows = (\<lambda>r. key (fst r)) ` set rows'"
    using arg_cong [OF assms(1), of "(`) key"] by (simp add: image_image)
  with assms(2,3) show ?thesis by (simp add: holds_rows_def)
qed

context kyber_suite
begin

lemma joint_tag_mset: "mset as = mset bs \<Longrightarrow> joint_tag S as = joint_tag S bs"
  using sprod_mset [of as bs] ssum_mset [of as bs] by (simp add: joint_tag_def fun_eq_iff)

lemma joint_key_length: "length (joint_key S ss Ps) = length Ps * (2 * PointLen S)"
  by (simp add: joint_key_def dcv_Key_def dct_String_def length_concat comp_def sum_list_triv point_string_length)

lemma joint_key_inject:
  assumes "Scalar_Mul S ia (sprod S ss) = Scalar_One S" and "length Ps = length Qs"
  shows "joint_key S ss Ps = joint_key S ss Qs \<longleftrightarrow> Ps = Qs"
proof -
  have "P = Q" if "Point_Mul S (sprod S ss) (Point_Add S P T) = Point_Mul S (sprod S ss) (Point_Add S Q T)" for P Q T
  proof -
    have "Point_Mul S ia (Point_Mul S (sprod S ss) (Point_Add S P T)) = Point_Mul S ia (Point_Mul S (sprod S ss) (Point_Add S Q T))"
      by (simp only: that)
    then show ?thesis using assms(1) by (simp only: mul_mul mul_one pt.add_right_cancel)
  qed
  then have "inj (joint_tag S ss)" by (auto simp: inj_def joint_tag_def)
  with assms(2) show ?thesis by (simp add: joint_key_def dcv_Key_inject)
qed

text \<open>The maps of several servers together hold the rows of all of them.\<close>

lemma total_of_maps:
  assumes "\<forall>j\<in>set js. holds_rows S x key g a (rows j) (m j)" and "i < a"
  shows "psum S (map (\<lambda>fr. decryptPoint S x (fr_AggregatingAttributes fr ! i)) (List.map_filter (\<lambda>j. m j k) js)) =
    row_total S i (filter (\<lambda>r. key (fst r) = k) (concat (map rows js)))"
  using assms(1)
proof (induction js)
  case (Cons j js)
  have h: "holds_rows S x key g a (rows j) (m j)" using Cons.prems by simp
  show ?case
  proof (cases "m j k")
    case None
    then have "k \<notin> (\<lambda>r. key (fst r)) ` set (rows j)" using h by (metis domIff holds_rows_def)
    then have "filter (\<lambda>r. key (fst r) = k) (rows j) = []" by (auto simp: filter_empty_conv)
    with Cons None show ?thesis by (simp add: map_filter_simps)
  next
    case (Some fr)
    then have "decryptPoint S x (fr_AggregatingAttributes fr ! i) = row_total S i (filter (\<lambda>r. key (fst r) = k) (rows j))"
      using h assms(2) by (simp add: holds_rows_def)
    with Cons Some show ?thesis by (simp add: map_filter_simps)
  qed
qed (simp add: map_filter_simps)

lemma answers_of_map:
  assumes h: "holds_rows S x key g a rows m" and es: "enumerates es m" and len: "\<forall>r\<in>set rows. length (fst r) = g"
    and inj: "\<And>Ps Qs. length Ps = g \<Longrightarrow> length Qs = g \<Longrightarrow> key Ps = key Qs \<longleftrightarrow> Ps = Qs"
  shows "answers S a rows (map (shown (decryptPoint S x)) (map snd es))"
proof -
  let ?dec = "decryptPoint S x"
  let ?out = "map (shown ?dec) (map snd es)"
  have e: "length (fr_GroupByEnc fr) = g" "key (map ?dec (fr_GroupByEnc fr)) = k" "length (fr_AggregatingAttributes fr) = a"
    "\<And>i. i < a \<Longrightarrow> ?dec (fr_AggregatingAttributes fr ! i) = row_total S i (filter (\<lambda>r. key (fst r) = k) rows)"
    if "(k, fr) \<in> set es" for k fr
    using h that unfolding enumerates_set [OF es] holds_rows_def by auto
  have keys: "map key (map fst ?out) = map fst es" using e(2) by (auto simp: comp_def)
  have "distinct (map key (map fst ?out))" unfolding keys using es by (simp add: enumerates_def)
  then have d: "distinct (map fst ?out)" by (simp only: distinct_map)
  have g: "\<forall>Ps\<in>set (map fst ?out). length Ps = g" using e(1) by force
  have "key ` set (map fst ?out) = key ` fst ` set rows"
    using arg_cong [OF keys, of set] enumerates_dom [OF es] h by (simp add: holds_rows_def image_image)
  moreover have "inj_on key {Ps. length Ps = g}" using inj by (simp add: inj_on_def)
  ultimately have s: "set (map fst ?out) = fst ` set rows"
    by (rule_tac inj_on_image_eq_iff [THEN iffD1, of key "{Ps. length Ps = g}"]) (use g len in auto)
  have "aggr = map (\<lambda>i. row_total S i (filter (\<lambda>r. fst r = grp) rows)) [0..<a]" if out: "(grp, aggr) \<in> set ?out" for grp aggr
  proof -
    obtain k fr where fr: "(k, fr) \<in> set es" "grp = map ?dec (fr_GroupByEnc fr)" "aggr = map ?dec (fr_AggregatingAttributes fr)"
      using out by auto
    have "filter (\<lambda>r. key (fst r) = k) rows = filter (\<lambda>r. fst r = grp) rows"
      using inj len e(1,2) [OF fr(1)] by (intro filter_cong) (auto simp: fr(2))
    with e(3,4) [OF fr(1)] show ?thesis by (intro nth_equalityI) (simp_all add: fr(3))
  qed
  with d s show ?thesis by (auto simp: answers_def)
qed

lemma fold_AddInMap_new:
  assumes "distinct (map fst es)" and "dom m \<inter> fst ` set es = {}"
  shows "fold_res (\<lambda>(k, v). AddInMap S k v) es m = Inr (m ++ map_of es)"
  using assms
proof (induction es arbitrary: m)
  case (Cons e es)
  obtain k v where e: "e = (k, v)" by (cases e)
  have new: "m k = None" and k: "k \<notin> dom (map_of es)" using Cons.prems by (auto simp: e dom_map_of_conv_image_fst)
  have "dom (m(k \<mapsto> v)) = insert k (dom m)" by auto
  then have "dom (m(k \<mapsto> v)) \<inter> fst ` set es = {}" using Cons.prems by (simp only:) (auto simp: e)
  then have "fold_res (\<lambda>(k, v). AddInMap S k v) es (m(k \<mapsto> v)) = Inr (m(k \<mapsto> v) ++ map_of es)"
    by (rule Cons.IH [rotated]) (use Cons.prems(1) in simp)
  moreover have "fold_res (\<lambda>(k, v). AddInMap S k v) (e # es) m = fold_res (\<lambda>(k, v). AddInMap S k v) es (m(k \<mapsto> v))"
    by (simp add: e AddInMap_def new)
  moreover have "m(k \<mapsto> v) ++ map_of es = m ++ map_of (e # es)" using k by (simp add: e map_add_upd_left)
  ultimately show ?case by (simp only:)
qed simp

end

section \<open>The servers\<close>

definition joint_private :: "('s, 'p) suite \<Rightarrow> ('s, 'p, 'id) server list \<Rightarrow> 's" where
  "joint_private S servers = ssum S (map Private servers)"

definition survey_secrets :: "('s, 'p, 'id) server list \<Rightarrow> 's list" where
  "survey_secrets servers = map (\<lambda>s. SurveySecretKey (survey s)) servers"

text \<open>
  What is assumed of the server i: its copy of the query, its store before the survey starts, its
  precomputed values, its range loops, and its circuit, which visits every other server once. The
  responses have g groups and a aggregates.
\<close>

definition server_ok :: "('s, 'p) suite \<Rightarrow> ('s, 'p) proofs \<Rightarrow> ('s, 'p, 'id) server list \<Rightarrow> 'p WhereQueryAttribute list \<Rightarrow> string \<Rightarrow> nat \<Rightarrow> nat
    \<Rightarrow> nat \<Rightarrow> ('s, 'p, 'id) server \<Rightarrow> bool" where
  "server_ok S Z servers wh pred g a i s \<longleftrightarrow>
     (let q = Query (survey s); st = sv_Store (survey s); key = Point_Mul S (joint_private S servers) (Point_Base S) in
      Where q = wh \<and> Predicate q = pred \<and> Roster_Aggregate q = key \<and> (scq_Proofs q \<longrightarrow> prover_returns Z) \<and>
      (\<forall>pr\<in>set (stored (entries s) (survey s)). layout g (length wh) a pr) \<and> enumerates (entries s) (DpResponsesAggr st) \<and>
      ShuffledProcessResponses st = [] \<and> LocAggregatedProcessResponse st = Map.empty \<and> GroupedDeterministicFilteredResponses st = Map.empty \<and>
      blinding_ok S (Point_Base S) key (g + length wh + a) (ShufflePrecompute (survey s)) \<and>
      visits_entries (visit_columns s) \<and>
      (\<forall>m. finite (dom m) \<longrightarrow> (\<forall>k\<in>dom m. length k = g * (2 * PointLen S)) \<longrightarrow> enumerates (visit_map (aggregation s) m) m) \<and>
      mset (i # circuit_order s) = mset [0..<length servers])"

definition server_rows :: "('s, 'p) suite \<Rightarrow> 's \<Rightarrow> (bool list \<Rightarrow> bool) \<Rightarrow> 'p WhereQueryAttribute list \<Rightarrow> ('s, 'p, 'id) server \<Rightarrow> 'p row list" where
  "server_rows S x ev wh s =
     filter (satisfies ev (map (\<lambda>c. decryptPoint S x (wq_Value c)) wh)) (map (viewed (decryptPoint S x)) (stored (entries s) (survey s)))"

lemma each_once: "mset js = mset [0..<length xs] \<Longrightarrow> mset (map (\<lambda>j. f (xs ! j)) js) = mset (map f xs)"
proof -
  assume a: "mset js = mset [0..<length xs]"
  have "mset (map (\<lambda>j. f (xs ! j)) js) = image_mset (\<lambda>j. f (xs ! j)) (mset js)" by simp
  also have "\<dots> = mset (map f (map ((!) xs) [0..<length xs]))" unfolding a by (simp add: image_mset.compositionality comp_def)
  finally show ?thesis by (simp only: map_nth)
qed

lemma circuit_of:
  "mset (i # order) = mset [0..<length servers] \<Longrightarrow> mset (map f (map ((!) servers) order @ [servers ! i])) = mset (map f servers)"
  using each_once [of "i # order" servers f] by (simp add: comp_def)

context proof_system
begin

lemma local_phases_ok:
  assumes ok: "\<forall>i<length servers. server_ok S Z servers wh pred g a i (servers ! i)" and i: "i < length servers"
    and inv: "Scalar_Mul S ia (sprod S (survey_secrets servers)) = Scalar_One S"
    and ev: "predicate_is gov (Query (survey (servers ! i))) ev" and few: "length wh < 2 ^ 62" and "0 < a" and "g + length wh + a < 2 ^ 32"
  shows "\<exists>sv'. local_phases S Z gov servers i = Inr sv' \<and> same_survey (survey (servers ! i)) sv' \<and>
    holds_rows S (joint_private S servers) (joint_key S (survey_secrets servers)) g a
      (server_rows S (joint_private S servers) ev wh (servers ! i)) (LocAggregatedProcessResponse (sv_Store sv'))"
proof -
  let ?x = "joint_private S servers" and ?ss = "survey_secrets servers" and ?s = "servers ! i"
  let ?dec = "decryptPoint S ?x" and ?others = "map ((!) servers) (circuit_order (servers ! i))"
  let ?key = "joint_key S ?ss" and ?P = "satisfies ev (map (\<lambda>c. decryptPoint S (joint_private S servers) (wq_Value c)) wh)"
  have s: "server_ok S Z servers wh pred g a i ?s" using ok i by blast
  have order: "mset (i # circuit_order ?s) = mset [0..<length servers]" using s by (simp add: server_ok_def Let_def)
  have oth: "\<exists>j<length servers. t = servers ! j \<and> server_ok S Z servers wh pred g a j t" if t: "t \<in> set ?others" for t
  proof -
    obtain j where j: "j \<in> set (circuit_order ?s)" "t = servers ! j" using t by auto
    then have "j < length servers" using mset_eq_setD [OF order] by force
    with j ok show ?thesis by blast
  qed
  have sh: "\<forall>p\<in>set (new_shuffling (survey ?s) (choices ?s i) # map (\<lambda>s. new_shuffling (survey s) (choices s i)) ?others). shuffler S ?x (g + length wh + a) p"
    using s oth by (fastforce simp: server_ok_def Let_def shuffler_def shuffling_key_def new_shuffling_def)
  have lay: "\<forall>pr\<in>set (stored (entries ?s) (survey ?s)). layout g (length wh) a pr" and es: "enumerates (entries ?s) (DpResponsesAggr (sv_Store (survey ?s)))"
    and empty: "ShuffledProcessResponses (sv_Store (survey ?s)) = []" "LocAggregatedProcessResponse (sv_Store (survey ?s)) = Map.empty"
    and q: "Where (Query (survey ?s)) = wh" and v: "visits_entries (visit_columns ?s)"
    using s by (simp_all add: server_ok_def Let_def)
  obtain sv1 where 1: "ShufflingPhase S (entries ?s) (choices ?s i) (map (\<lambda>s. new_shuffling (survey s) (choices s i)) ?others) (survey ?s) = Inr sv1"
    "same_survey (survey ?s) sv1" "LocAggregatedProcessResponse (sv_Store sv1) = Map.empty"
    "\<forall>pr\<in>set (ShuffledProcessResponses (sv_Store sv1)). layout g (length wh) a pr"
    "mset (map (viewed ?dec) (ShuffledProcessResponses (sv_Store sv1))) = mset (map (viewed ?dec) (pad_single S (stored (entries ?s) (survey ?s))))"
    using ShufflingPhase_ok [OF sh assms(7) lay es empty(1)] empty(2) by auto
  let ?ps = "map (\<lambda>s. new_tagging (survey s) (Private s) (Public s)) ?others @ [new_tagging sv1 (Private ?s) (Public ?s)]"
  have same: "Query sv1 = Query (survey ?s)" "SurveySecretKey sv1 = SurveySecretKey (survey ?s)" using 1(2) by (simp_all add: same_survey_def)
  have start: "new_tagging sv1 (Private ?s) (Public ?s) = new_tagging (survey ?s) (Private ?s) (Public ?s)"
    using same by (simp add: new_tagging_def)
  have tg: "\<forall>p\<in>set ?ps. tagger Z p"
    unfolding start using s oth by (fastforce simp: server_ok_def Let_def tagger_def new_tagging_def)
  have sec: "map (secret_of S) ?ps = map (\<lambda>s. SurveySecretKey (survey s)) (?others @ [?s])"
    and priv: "map tg_Private ?ps = map Private (?others @ [?s])"
    unfolding start by (simp_all add: secret_of_def new_tagging_def)
  have sec': "mset (map (secret_of S) ?ps) = mset ?ss" unfolding sec survey_secrets_def by (rule circuit_of [OF order])
  have priv': "mset (map tg_Private ?ps) = mset (map Private servers)" unfolding priv by (rule circuit_of [OF order])
  have key: "circuit_key S ?ps = ?x" unfolding circuit_key_def joint_private_def by (rule ssum_mset [OF priv'])
  have tag: "circuit_tag S ?ps = joint_tag S ?ss"
    using sprod_mset [OF sec'] ssum_mset [OF sec'] by (simp add: circuit_tag_def joint_tag_def fun_eq_iff)
  have inv': "Scalar_Mul S ia (sprod S (map (secret_of S) ?ps)) = Scalar_One S" using inv sprod_mset [OF sec'] by simp
  obtain sv2 where 2: "TaggingPhase S Z gov (visit_columns ?s) (Private ?s) (Public ?s)
      (map (\<lambda>s. new_tagging (survey s) (Private s) (Public s)) ?others) sv1 = Inr sv2" "same_survey sv1 sv2"
    "fold_res (\<lambda>(k, fr). AddInMap S k fr) (map (tagged_entry S ?x (joint_tag S ?ss))
      (filter (kept S ?x ev (Query sv1)) (ShuffledProcessResponses (sv_Store sv1)))) Map.empty = Inr (LocAggregatedProcessResponse (sv_Store sv2))"
    using TaggingPhase_ok [OF tg inv', where gov = gov and ev = ev and a = a and g = g and visit = "visit_columns ?s", unfolded key tag] ev few 1(3,4) v \<open>0 < a\<close> same q by auto
  have run: "local_phases S Z gov servers i = Inr sv2"
    using 1(1) 2(1) by (simp add: local_phases_def Let_def comp_def)
  let ?kept = "filter (kept S ?x ev (Query sv1)) (ShuffledProcessResponses (sv_Store sv1))"
  have "map (tagged_entry S ?x (joint_tag S ?ss)) ?kept = map (\<lambda>v. (?key (map ?dec (pr_GroupByEnc v)), filtered v)) ?kept"
    by (simp add: tagged_entry_def joint_key_def comp_def)
  with 2(3) have m: "fold_res (\<lambda>(k, fr). AddInMap S k fr) (map (\<lambda>v. (?key (map ?dec (pr_GroupByEnc v)), filtered v)) ?kept) Map.empty =
      Inr (LocAggregatedProcessResponse (sv_Store sv2))" by simp
  have h: "holds_rows S ?x ?key g a (map (viewed ?dec) ?kept) (LocAggregatedProcessResponse (sv_Store sv2))"
    by (rule aggregated_holds_rows [OF m]) (use 1(4) in auto)
  have "kept S ?x ev (Query sv1) = ?P \<circ> viewed ?dec" by (simp add: kept_def satisfies_def viewed_def fun_eq_iff same q comp_def)
  then have rows: "map (viewed ?dec) ?kept = filter ?P (map (viewed ?dec) (ShuffledProcessResponses (sv_Store sv1)))"
    by (simp add: filter_map)
  have shuffled: "mset (filter Q (map (viewed ?dec) (ShuffledProcessResponses (sv_Store sv1)))) =
      mset (filter Q (map (viewed ?dec) (pad_single S (stored (entries ?s) (survey ?s)))))" for Q
    unfolding mset_filter 1(5) ..
  have "holds_rows S ?x ?key g a (server_rows S ?x ev wh ?s) (LocAggregatedProcessResponse (sv_Store sv2))"
  proof (rule holds_rows_cong [OF _ _ h])
    show "fst ` set (map (viewed ?dec) ?kept) = fst ` set (server_rows S ?x ev wh ?s)"
      unfolding rows server_rows_def mset_eq_setD [OF shuffled] by (rule padded_rows(2) [OF lay \<open>0 < a\<close>]) (simp add: satisfies_def)
  next
    fix k j
    assume "j < a"
    let ?Q = "\<lambda>r. ?P r \<and> ?key (fst r) = k"
    have "row_total S j (filter ?Q (map (viewed ?dec) (ShuffledProcessResponses (sv_Store sv1)))) =
        row_total S j (filter ?Q (map (viewed ?dec) (stored (entries ?s) (survey ?s))))"
      unfolding row_total_mset [OF shuffled] by (rule padded_rows(1) [OF lay \<open>j < a\<close>]) (simp add: satisfies_def)
    then show "row_total S j (filter (\<lambda>r. ?key (fst r) = k) (map (viewed ?dec) ?kept)) =
        row_total S j (filter (\<lambda>r. ?key (fst r) = k) (server_rows S ?x ev wh ?s))"
      unfolding rows server_rows_def by (simp add: conj_commute)
  qed
  moreover have "same_survey (survey ?s) sv2" using 1(2) 2(2) by (simp add: same_survey_def)
  ultimately show ?thesis using run by blast
qed

end

section \<open>The root\<close>

lemma tree_nodes_map [simp]: "tree_nodes (map_tree f t) = map f (tree_nodes t)"
  by (induction t) (simp add: map_concat comp_def cong: map_cong)

lemma arrivals_ok_map [simp]: "arrivals_ok match (map_tree f t) \<longleftrightarrow> arrivals_ok match t"
  by (induction t) (simp add: list_all_iff)

lemma arrivals_ok_mono: "arrivals_ok match t \<Longrightarrow> (\<And>lo da. match lo da \<Longrightarrow> match' lo da) \<Longrightarrow> arrivals_ok match' t"
  by (induction t) (simp add: list_all_iff)

context kyber_suite
begin

lemma AggregationPhase_ok:
  fixes key d x
  defines "G \<equiv> \<lambda>k grp. key (map (decryptPoint S x) grp) = k"
  assumes h: "\<forall>j<n. holds_rows S x key g a (rows j) (LocAggregatedProcessResponse (sv_Store (tagged ! j)))"
    and v: "\<forall>j<n. \<forall>m. finite (dom m) \<longrightarrow> (\<forall>k\<in>dom m. length k = d) \<longrightarrow> enumerates (visit_map (ch j) m) m"
    and key: "\<And>Ps. length Ps = g \<Longrightarrow> length (key Ps) = d" and "0 < a"
    and tree: "arrivals_ok (\<lambda>lo da. ne \<or> lo = da) aggr" "mset (tree_nodes aggr) = mset [0..<n]"
    and rows: "ne \<Longrightarrow> \<forall>j<n. rows j \<noteq> []"
    and empty: "GroupedDeterministicFilteredResponses (sv_Store (tagged ! content aggr)) = Map.empty"
  shows "\<exists>sv. AggregationPhase S (ch (content aggr)) (length_order aggr) (data_order aggr)
      (map (map_tree (\<lambda>j. fst (new_aggregation (tagged ! j) (ch j)))) (children aggr)) (tagged ! content aggr) = Inr sv \<and>
    Query sv = Query (tagged ! content aggr) \<and>
    holds_rows S x key g a (concat (map rows [0..<n])) (GroupedDeterministicFilteredResponses (sv_Store sv)) \<and>
    enumerates (visit_map (ch (content aggr)) (GroupedDeterministicFilteredResponses (sv_Store sv))) (GroupedDeterministicFilteredResponses (sv_Store sv))"
proof -
  let ?p = "\<lambda>j. fst (new_aggregation (tagged ! j) (ch j))"
  let ?m = "\<lambda>j. LocAggregatedProcessResponse (sv_Store (tagged ! j))"
  have j: "j < n" if "j \<in> set (tree_nodes aggr)" for j using that mset_eq_setD [OF tree(2)] by simp
  have p: "checkData (?p j) = Inr (?p j)" "ca_GroupedData (?p j) = Some (?m j)" "ca_visit (?p j) = visit_map (ch j)" for j
    by (simp_all add: checkData_def new_aggregation_def PullLocallyAggregatedResponses_def)
  have lm: "local_map (?p j) = ?m j" for j by (simp add: local_map_def p)
  have fin: "finite (dom m)" and sh: "\<forall>k fr. m k = Some fr \<longrightarrow> shaped g a d G k fr" if "holds_rows S x key g a rs m" for rs m
  proof -
    show "finite (dom m)" using that by (simp add: holds_rows_def)
    have "length k = d" if "m k = Some fr" for k fr
      using key [of "map (decryptPoint S x) (fr_GroupByEnc fr)"] that \<open>holds_rows S x key g a rs m\<close> by (simp add: holds_rows_def)
    with that show "\<forall>k fr. m k = Some fr \<longrightarrow> shaped g a d G k fr" by (simp add: holds_rows_def shaped_def G_def)
  qed
  have ready: "\<forall>q\<in>set (tree_nodes (map_tree ?p aggr)). ready g a d G ne q"
  proof
    fix q
    assume "q \<in> set (tree_nodes (map_tree ?p aggr))"
    then obtain i where i: "i < n" "q = ?p i" using j by auto
    have hi: "holds_rows S x key g a (rows i) (?m i)" using h i(1) by blast
    have "visits d (?p i)" using v i(1) by (simp add: visits_def p)
    moreover have "ne \<longrightarrow> ?m i \<noteq> Map.empty" using rows i(1) hi by (auto simp: holds_rows_def)
    ultimately show "ready g a d G ne q" using p [of i] fin [OF hi] sh [OF hi] \<open>0 < a\<close> by (simp add: ready_def i(2))
  qed
  obtain M where M: "CollectiveAggregation_run S (map_tree ?p aggr) = Inr M" "dom M = (\<Union>j\<in>set (tree_nodes aggr). dom (?m j))"
    "\<And>k fr. M k = Some fr \<Longrightarrow> length (fr_GroupByEnc fr) = g \<and> G k (fr_GroupByEnc fr) \<and> length (fr_AggregatingAttributes fr) = a \<and>
      (\<forall>i<a. decryptPoint S x (fr_AggregatingAttributes fr ! i) =
        psum S (map (\<lambda>fr. decryptPoint S x (fr_AggregatingAttributes fr ! i)) (held k (map_tree ?p aggr))))"
    using collective_aggregation_result [OF _ ready, of x] tree(1) lm by auto
  have held: "held k (map_tree ?p aggr) = List.map_filter (\<lambda>j. ?m j k) (tree_nodes aggr)" for k
    by (simp add: held_def List.map_filter_def filter_map comp_def lm)
  have all: "\<forall>j\<in>set (tree_nodes aggr). holds_rows S x key g a (rows j) (?m j)" using h j by blast
  have perm: "mset (concat (map rows (tree_nodes aggr))) = mset (concat (map rows [0..<n]))"
    unfolding mset_concat using tree(2) by (metis mset_map sum_mset_sum_list)
  have "holds_rows S x key g a (concat (map rows [0..<n])) M"
  proof (rule holds_rows_cong [where rows = "concat (map rows (tree_nodes aggr))"])
    have "dom M = (\<lambda>r. key (fst r)) ` set (concat (map rows (tree_nodes aggr)))"
      unfolding M(2) using all by (auto simp: holds_rows_def)
    then show "holds_rows S x key g a (concat (map rows (tree_nodes aggr))) M"
      using M(3) unfolding held total_of_maps [OF all] by (simp add: holds_rows_def G_def total_of_maps [OF all])
  next
    show "fst ` set (concat (map rows (tree_nodes aggr))) = fst ` set (concat (map rows [0..<n]))"
      using mset_eq_setD [OF perm] by (simp only:)
    show "row_total S i (filter (\<lambda>r. key (fst r) = k) (concat (map rows (tree_nodes aggr)))) =
        row_total S i (filter (\<lambda>r. key (fst r) = k) (concat (map rows [0..<n])))" for k i
      by (rule row_total_mset) (simp only: mset_filter perm)
  qed
  moreover have e: "enumerates (visit_map (ch (content aggr)) M) M"
    using v j [of "content aggr"] fin [OF calculation] sh [OF calculation] by (cases aggr) (auto simp: shaped_def)
  moreover have "PushCothorityAggregatedFilteredResponses S (visit_map (ch (content aggr)) M) (sv_Store (snd (new_aggregation (tagged ! content aggr) (ch (content aggr))))) =
      Inr ((sv_Store (snd (new_aggregation (tagged ! content aggr) (ch (content aggr)))))\<lparr>GroupedDeterministicFilteredResponses := M\<rparr>)"
    using e empty fold_AddInMap_new [of "visit_map (ch (content aggr)) M" Map.empty]
    by (simp add: PushCothorityAggregatedFilteredResponses_def enumerates_def new_aggregation_def PullLocallyAggregatedResponses_def)
  ultimately show ?thesis
    using M(1) by (cases aggr) (simp add: AggregationPhase_def split_beta, simp add: new_aggregation_def PullLocallyAggregatedResponses_def)
qed

lemma KeySwitchingPhase_ok:
  fixes servers sv ch and switch :: "nat tree"
  defines "M \<equiv> GroupedDeterministicFilteredResponses (sv_Store sv)" and "node \<equiv> \<lambda>j. new_keyswitching (Private (servers ! j)) (switch_picks (servers ! j))"
  assumes client: "ClientPubKey (Query sv) = Some (Point_Mul S y (Point_Base S))"
    and tree: "arrivals_ok (\<lambda>_ _. True) switch" "mset (tree_nodes switch) = mset [0..<length servers]"
    and size: "length (fst (FilteredResponseToCipherVector (map snd (visit_map ch M)))) < 2 ^ 32"
  shows "\<exists>sv'. KeySwitchingPhase S dp ch (Private (servers ! content switch)) (switch_picks (servers ! content switch)) (length_order switch) (data_order switch)
      (map (map_tree node) (children switch)) sv = Inr sv' \<and>
    map (shown (decryptPoint S y)) (DeliverableResults (sv_Store sv')) =
      map (shown (decryptPoint S (joint_private S servers))) (map snd (visit_map ch M))"
proof -
  obtain r lo da ts where t: "switch = Node r lo da ts" by (cases switch)
  obtain cv lengths where cv: "FilteredResponseToCipherVector (map snd (visit_map ch M)) = (cv, lengths)" by (metis surj_pair)
  let ?root = "(node r)\<lparr>ks_TargetOfSwitch := Some cv, ks_TargetPublicKey := Some (Point_Mul S y (Point_Base S))\<rparr>"
  let ?T = "Node ?root lo da (map (map_tree node) ts)"
  have "map ks_Private (tree_nodes ?T) = map (\<lambda>j. Private (servers ! j)) (tree_nodes switch)"
    by (simp add: t node_def new_keyswitching_def map_concat comp_def)
  then have "mset (map ks_Private (tree_nodes ?T)) = mset (map Private servers)"
    using each_once [OF tree(2), of Private] by (simp only:)
  then have x: "ssum S (map ks_Private (tree_nodes ?T)) = joint_private S servers" unfolding joint_private_def by (rule ssum_mset)
  have ok: "arrivals_ok (\<lambda>_ _. True) ?T" using tree(1) by (simp add: t list_all_iff)
  obtain switched where sw: "KeySwitching_run S ?T = Inr switched"
    "map (decryptPoint S y) switched = map (decryptPoint S (joint_private S servers)) cv"
    using switched_run [OF ok, of cv y] size x cv by auto
  obtain frs where frs: "CipherVectorToFilteredResponse switched lengths = Inr frs"
    "map (shown (decryptPoint S y)) frs = map (shown (decryptPoint S (joint_private S servers))) (map snd (visit_map ch M))"
    by (rule filtered_responses_back [OF cv sw(2)])
  from sw(1) frs(1) client cv have "KeySwitchingPhase S dp ch (Private (servers ! r)) (switch_picks (servers ! r)) lo da (map (map_tree node) ts) sv =
      Inr (sv\<lparr>Lengths := lengths, sv_Store := PushQuerierKeyEncryptedResponses frs ((sv_Store sv)\<lparr>GroupedDeterministicFilteredResponses := Map.empty\<rparr>)\<rparr>)"
    by (simp add: KeySwitchingPhase_def PullCothorityAggregatedFilteredResponses_def M_def node_def)
  with frs(2) show ?thesis by (simp add: t PushQuerierKeyEncryptedResponses_def)
qed

lemma switch_size:
  assumes "holds_rows S x key g a rows m" and "enumerates es m" and "length rows * (g + a) < 2 ^ 32"
  shows "length (fst (FilteredResponseToCipherVector (map snd es))) < 2 ^ 32"
proof -
  have "\<forall>e\<in>set es. length (fr_GroupByEnc (snd e)) + length (fr_AggregatingAttributes (snd e)) = g + a"
    using assms(1) enumerates_set [OF assms(2)] unfolding holds_rows_def by force
  then have "length (fst (FilteredResponseToCipherVector (map snd es))) = length es * (g + a)"
    by (induction es) (simp_all add: FilteredResponseToCipherVector_def)
  moreover have "length es \<le> length rows"
  proof -
    have "length es = card (dom m)"
      using assms(2) by (metis distinct_card enumerates_def enumerates_dom length_map set_map)
    also have "\<dots> = card ((\<lambda>r. key (fst r)) ` set rows)" using assms(1) by (simp add: holds_rows_def)
    also have "\<dots> \<le> card (set rows)" by (rule card_image_le) simp
    finally show ?thesis using card_length [of rows] by linarith
  qed
  then have "length es * (g + a) \<le> length rows * (g + a)" by simp
  ultimately show ?thesis using assms(3) by linarith
qed

end

context proof_system
begin

lemma survey_answered:
  assumes ok: "\<forall>i<length servers. server_ok S Z servers wh pred g a i (servers ! i)"
    and inv: "Scalar_Mul S ia (sprod S (survey_secrets servers)) = Scalar_One S"
    and ev: "\<forall>s\<in>set servers. predicate_is gov (Query (survey s)) ev"
    and "0 < a" and few: "length wh < 2 ^ 62" "g + length wh + a < 2 ^ 32" "length (plain_rows S (joint_private S servers) servers) * (g + a) < 2 ^ 32"
    and aggr: "arrivals_ok (\<lambda>lo da. (\<forall>s\<in>set servers. server_rows S (joint_private S servers) ev wh s \<noteq> []) \<or> lo = da) aggr"
      "mset (tree_nodes aggr) = mset [0..<length servers]"
    and switch: "arrivals_ok (\<lambda>_ _. True) switch" "mset (tree_nodes switch) = mset [0..<length servers]" "content switch = content aggr"
    and client: "ClientPubKey (Query (survey (servers ! content aggr))) = Some (Point_Mul S y (Point_Base S))"
  shows "\<exists>results. survey_run S Z gov servers aggr switch = Inr results \<and>
    answers S a (filter (satisfies ev (map (\<lambda>c. decryptPoint S (joint_private S servers) (wq_Value c)) wh)) (plain_rows S (joint_private S servers) servers))
      (map (shown (decryptPoint S y)) results)"
proof -
  let ?x = "joint_private S servers" and ?key = "joint_key S (survey_secrets servers)" and ?n = "length servers" and ?r = "content aggr"
  let ?rows = "\<lambda>j. server_rows S ?x ev wh (servers ! j)" and ?ch = "\<lambda>j. aggregation (servers ! j)"
  let ?sel = "filter (satisfies ev (map (\<lambda>c. decryptPoint S (joint_private S servers) (wq_Value c)) wh)) (plain_rows S (joint_private S servers) servers)"
  have "\<forall>i\<in>set [0..<?n]. \<exists>sv'. local_phases S Z gov servers i = Inr sv' \<and> same_survey (survey (servers ! i)) sv' \<and>
      holds_rows S ?x ?key g a (?rows i) (LocAggregatedProcessResponse (sv_Store sv'))"
    using local_phases_ok [OF ok _ inv _ few(1) \<open>0 < a\<close> few(2)] ev by simp
  then obtain f where f: "\<forall>i\<in>set [0..<?n]. local_phases S Z gov servers i = Inr (f i) \<and> same_survey (survey (servers ! i)) (f i) \<and>
      holds_rows S ?x ?key g a (?rows i) (LocAggregatedProcessResponse (sv_Store (f i)))" by (rule bchoice [THEN exE])
  let ?tagged = "map f [0..<?n]"
  have local: "traverse (local_phases S Z gov servers) [0..<?n] = Inr ?tagged" by (rule traverse_Inr_map) (use f in blast)
  have r: "?r < ?n" using mset_eq_setD [OF aggr(2)] by (cases aggr) auto
  have h: "\<forall>j<?n. holds_rows S ?x ?key g a (?rows j) (LocAggregatedProcessResponse (sv_Store (?tagged ! j)))" using f by simp
  have visit: "\<forall>j<?n. \<forall>m. finite (dom m) \<longrightarrow> (\<forall>k\<in>dom m. length k = g * (2 * PointLen S)) \<longrightarrow> enumerates (visit_map (?ch j) m) m"
    using ok by (simp add: server_ok_def Let_def)
  have root: "Query (?tagged ! ?r) = Query (survey (servers ! ?r))" "GroupedDeterministicFilteredResponses (sv_Store (?tagged ! ?r)) = Map.empty"
    using f ok r by (simp_all add: same_survey_def server_ok_def Let_def)
  obtain sv where sv: "AggregationPhase S (?ch ?r) (length_order aggr) (data_order aggr)
      (map (map_tree (\<lambda>j. fst (new_aggregation (?tagged ! j) (?ch j)))) (children aggr)) (?tagged ! ?r) = Inr sv" "Query sv = Query (?tagged ! ?r)"
    "holds_rows S ?x ?key g a (concat (map ?rows [0..<?n])) (GroupedDeterministicFilteredResponses (sv_Store sv))"
    "enumerates (visit_map (?ch ?r) (GroupedDeterministicFilteredResponses (sv_Store sv))) (GroupedDeterministicFilteredResponses (sv_Store sv))"
    using AggregationPhase_ok [OF h visit _ \<open>0 < a\<close> aggr _ root(2)] joint_key_length by auto
  have sel: "concat (map ?rows [0..<?n]) = ?sel"
  proof -
    have "concat (map ?rows [0..<?n]) = concat (map (\<lambda>s. server_rows S ?x ev wh s) (map ((!) servers) [0..<?n]))" by (simp add: comp_def)
    also have "\<dots> = ?sel" unfolding map_nth by (simp only: plain_rows_def server_rows_def filter_concat map_map comp_def)
    finally show ?thesis .
  qed
  have "length ?sel * (g + a) \<le> length (plain_rows S ?x servers) * (g + a)" by simp
  then have size: "length (fst (FilteredResponseToCipherVector (map snd (visit_map (?ch ?r) (GroupedDeterministicFilteredResponses (sv_Store sv)))))) < 2 ^ 32"
    using few(3) by (intro switch_size [OF sv(3,4)]) (simp only: sel)
  obtain sv' where sv': "KeySwitchingPhase S DIFFPRI (?ch ?r) (Private (servers ! ?r)) (switch_picks (servers ! ?r)) (length_order switch) (data_order switch)
      (map (map_tree (\<lambda>j. new_keyswitching (Private (servers ! j)) (switch_picks (servers ! j)))) (children switch)) sv = Inr sv'"
    "map (shown (decryptPoint S y)) (DeliverableResults (sv_Store sv')) =
      map (shown (decryptPoint S ?x)) (map snd (visit_map (?ch ?r) (GroupedDeterministicFilteredResponses (sv_Store sv))))"
    using KeySwitchingPhase_ok [where y = y, OF _ switch(1,2) size] client sv(2) root(1) switch(3) by auto
  have "survey_run S Z gov servers aggr switch = Inr (DeliverableResults (sv_Store sv'))"
    using local sv(1) sv'(1) by (simp add: survey_run_def root_phases_def PullDeliverableResults_def)
  moreover have "answers S a ?sel (map (shown (decryptPoint S y)) (DeliverableResults (sv_Store sv')))"
    unfolding sv'(2)
  proof (rule answers_of_map [OF sv(3,4), unfolded sel])
    show "\<forall>r\<in>set ?sel. length (fst r) = g"
      using ok by (fastforce simp: plain_rows_def viewed_def server_ok_def Let_def layout_def in_set_conv_nth)
    show "?key Ps = ?key Qs \<longleftrightarrow> Ps = Qs" if "length Ps = g" "length Qs = g" for Ps Qs
      using joint_key_inject [OF inv] that by simp
  qed
  ultimately show ?thesis by blast
qed

end

section \<open>Properties\<close>

text \<open>
  C1. A survey answers its query. Let every server hold responses of g groups, one encrypted value
  per condition of the query and a aggregates, under the sum x of the servers' keys, and let the
  product of their survey secrets be invertible. Then StartService at all servers succeeds,
  whatever their random choices, precomputed values, circuits and range loops, and the trees of the
  root; and what the querier decrypts with its key y has one entry for every group of the rows that
  satisfy the predicate, with the sums of their aggregates. The predicate only compares the
  conditions with the attributes. In the key switching the messages arrive in any orders; in the
  collective aggregation they do when every server has a row that satisfies the predicate, and
  otherwise the lengths and the data of the children must reach a node in one order
  (crossed_messages_lose_data is about the other orders).
\<close>

theorem survey_answers_query:
  assumes "proof_system S Z" and "\<forall>i<length servers. server_ok S Z servers wh pred g a i (servers ! i)"
    and "Scalar_Mul S ia (sprod S (survey_secrets servers)) = Scalar_One S"
    and "\<forall>s\<in>set servers. predicate_is gov (Query (survey s)) ev"
    and "0 < a" and "length wh < 2 ^ 62" and "g + length wh + a < 2 ^ 32"
    and "length (plain_rows S (joint_private S servers) servers) * (g + a) < 2 ^ 32"
    and "arrivals_ok (\<lambda>lo da. (\<forall>s\<in>set servers. server_rows S (joint_private S servers) ev wh s \<noteq> []) \<or> lo = da) aggr"
    and "mset (tree_nodes aggr) = mset [0..<length servers]" and "arrivals_ok (\<lambda>_ _. True) switch"
    and "mset (tree_nodes switch) = mset [0..<length servers]" and "content switch = content aggr"
    and "ClientPubKey (Query (survey (servers ! content aggr))) = Some (Point_Mul S y (Point_Base S))"
  shows "\<exists>results. survey_run S Z gov servers aggr switch = Inr results \<and>
    answers S a (filter (satisfies ev (map (\<lambda>c. decryptPoint S (joint_private S servers) (wq_Value c)) wh)) (plain_rows S (joint_private S servers) servers))
      (map (shown (decryptPoint S y)) results)"
  using assms by (rule proof_system.survey_answered)

text \<open>Two servers with the private keys 2 and 3, and SELECT SUM(s0) WHERE w0 = 1 GROUP BY g0.\<close>

definition survey_query :: "(ed_l, string) SurveyCreationQuery" where
  "survey_query = \<lparr>SurveyID = ''s'', Roster_List = [''a'', ''b''], Roster_Aggregate = 5, ClientPubKey = Some 11, MapDPs = Map.empty,
     scq_Proofs = False, AppFlag = False, scq_IntraMessage = False, Source = None, scq_Sum = [''s0''], Count = False,
     Where = [\<lparr>wq_Name = ''w0'', wq_Value = \<lparr>ctK = 2, ctC = 11\<rparr>\<rparr>], Predicate = '' v0 == v1 '', GroupBy = [''g0'']\<rparr>"

definition survey_predicate :: govaluate where
  "survey_predicate text =
     (if text = '' v0 == v1 '' then Some (\<lambda>ps. case (ps ''v0'', ps ''v1'') of (Some a, Some b) \<Rightarrow> Some (a = b) | _ \<Rightarrow> None) else None)"

definition survey_response :: "ed_l \<Rightarrow> ed_l \<Rightarrow> ed_l \<Rightarrow> ed_l \<Rightarrow> ed_l ProcessResponse" where
  "survey_response r g w v =
     \<lparr>pr_WhereEnc = [\<lparr>ctK = r, ctC = 5 * r + w\<rparr>], pr_GroupByEnc = [\<lparr>ctK = r + 1, ctC = 5 * (r + 1) + g\<rparr>], pr_AggregatingAttributes = [\<lparr>ctK = r, ctC = 5 * r + v\<rparr>]\<rparr>"

definition visit_strings :: "nat \<Rightarrow> (string \<rightharpoonup> 'v) \<Rightarrow> (string \<times> 'v) list" where
  "visit_strings d m = List.map_filter (\<lambda>k. map_option (Pair k) (m k)) (List.n_lists d Enum.enum)"

definition survey_server :: "ed_l \<Rightarrow> ed_l ProcessResponse list \<Rightarrow> nat list \<Rightarrow> (ed_l, ed_l, string) server" where
  "survey_server k prs order =
     \<lparr>Private = k, Public = k,
      survey = \<lparr>sv_Store = NewStore\<lparr>DpResponses := prs\<rparr>, Query = survey_query, SurveySecretKey = - 1,
        ShufflePrecompute = Some (CreatePrecomputedRandomize ed25519 1 5 (\<lambda>i j. of_nat (i + j)) 8 10),
        Lengths = [], TargetOfSwitch = [], SurveyChannel = 0, DpChannel = 0, DDTChannel = 0, Noise = None\<rparr>,
      entries = [], circuit_order = order, choices = (\<lambda>i. \<lparr>blind = (\<lambda>i j. of_nat (i * j)), pickline = (\<lambda>i. i), draw = (\<lambda>i. i)\<rparr>),
      visit_columns = (\<lambda>_. []),
      aggregation = \<lparr>padding = (\<lambda>_ _ i. of_nat i), visit_map = visit_strings 64, last_goroutine = 0\<rparr>, switch_picks = (\<lambda>i. k + of_nat i)\<rparr>"

definition two_servers :: "ed_l ProcessResponse list \<Rightarrow> ed_l ProcessResponse list \<Rightarrow> (ed_l, ed_l, string) server list" where
  "two_servers prs prs' = [survey_server 2 prs [1], survey_server 3 prs' [0]]"

definition survey_servers :: "(ed_l, ed_l, string) server list" where
  "survey_servers = two_servers [survey_response 3 7 1 10, survey_response 4 8 0 99] [survey_response 6 7 1 32]"

lemma visit_strings_enumerates: "\<forall>k\<in>dom m. length k = d \<Longrightarrow> enumerates (visit_strings d m) m"
proof -
  assume d: "\<forall>k\<in>dom m. length k = d"
  let ?ks = "filter (\<lambda>k. m k \<noteq> None) (List.n_lists d Enum.enum)"
  have es: "visit_strings d m = map (\<lambda>k. (k, the (m k))) ?ks"
    by (auto simp: visit_strings_def List.map_filter_def)
  have "distinct ?ks" by (simp add: distinct_n_lists enum_distinct)
  moreover have "set ?ks = dom m" using d by (auto simp: set_n_lists enum_UNIV)
  ultimately show ?thesis unfolding es enumerates_def by (auto simp: comp_def map_of_map_keys)
qed

lemma survey_predicate_is: "predicate_is survey_predicate survey_query (\<lambda>bs. bs = [True])"
proof -
  have v: "parameter 0 = ''v0''" "parameter 1 = ''v1''" by (simp_all add: Itoa_def dec.simps digit_def)
  have "compares_pairs (\<lambda>ps. case (ps ''v0'', ps ''v1'') of (Some a, Some b) \<Rightarrow> Some (a = b) | _ \<Rightarrow> None) 1 (\<lambda>bs. bs = [True])"
    unfolding compares_pairs_def
  proof (intro allI impI)
    fix ps :: "string \<rightharpoonup> string" and qs ds
    assume a: "length qs = 1 \<and> length ds = 1 \<and> (\<forall>i<1. ps (parameter (2 * i)) = Some (qs ! i) \<and> ps (parameter (2 * i + 1)) = Some (ds ! i))"
    then obtain q d where "qs = [q]" "ds = [d]" by (auto simp: length_Suc_conv)
    moreover from this a have "ps ''v0'' = Some q" "ps ''v1'' = Some d" using v by simp_all
    ultimately show "(case (ps ''v0'', ps ''v1'') of (Some a, Some b) \<Rightarrow> Some (a = b) | _ \<Rightarrow> None) = Some (map2 (=) qs ds = [True])" by simp
  qed
  then show ?thesis by (simp add: predicate_is_def survey_query_def survey_predicate_def)
qed

lemma two_servers_simps:
  "joint_private ed25519 (two_servers prs prs') = 5" "survey_secrets (two_servers prs prs') = [- 1, - 1]"
  "map (\<lambda>c. decryptPoint ed25519 5 (wq_Value c)) (Where survey_query) = [1]" "length (two_servers prs prs') = 2"
  "two_servers prs prs' ! 0 = survey_server 2 prs [1]" "two_servers prs prs' ! 1 = survey_server 3 prs' [0]"
  "Query (survey (survey_server k ps order)) = survey_query"
  by (simp_all add: joint_private_def survey_secrets_def two_servers_def survey_server_def survey_query_def decryptPoint_def ssum_def ed_simps)

lemma survey_servers_simps:
  "joint_private ed25519 survey_servers = 5" "map (\<lambda>c. decryptPoint ed25519 5 (wq_Value c)) (Where survey_query) = [1]"
  "plain_rows ed25519 5 survey_servers = [([7], [1], [10]), ([8], [0], [99]), ([7], [1], [32])]"
  by (simp_all only: survey_servers_def two_servers_simps) (simp add: survey_servers_def two_servers_def survey_server_def plain_rows_def stored_def NewStore_def
      viewed_def survey_response_def decryptPoint_def ed_simps)

lemma two_servers_ok:
  assumes "\<forall>pr\<in>set prs \<union> set prs'. layout 1 1 1 pr"
  shows "\<forall>i<length (two_servers prs prs'). server_ok ed25519 (transparent ed25519) (two_servers prs prs') (Where survey_query) '' v0 == v1 '' 1 1 i (two_servers prs prs' ! i)"
proof -
  have d: "1 * (2 * PointLen ed25519) = 64" by (simp add: ed_simps)
  have b: "blinding_ok ed25519 1 5 n (Some (CreatePrecomputedRandomize ed25519 1 5 picks 8 10))" if "n \<le> 8" for n picks
    by (rule CreatePrecomputedRandomize_ok) (use that in simp_all)
  have v: "\<forall>m :: GroupingKey \<rightharpoonup> ed_l FilteredResponse. finite (dom m) \<longrightarrow> (\<forall>k\<in>dom m. length k = 64) \<longrightarrow> enumerates (visit_strings 64 m) m"
    using visit_strings_enumerates by blast
  have "server_ok ed25519 (transparent ed25519) (two_servers prs prs') (Where survey_query) '' v0 == v1 '' 1 1 i (survey_server k ps order)"
    if "\<forall>pr\<in>set ps. layout 1 1 1 pr" "mset (i # order) = mset [0, 1]" for i k ps order
    using that b [of "Suc (Suc (Suc 0))"] v
    by (simp add: server_ok_def Let_def two_servers_simps d survey_server_def survey_query_def stored_def NewStore_def ed_simps visits_entries_def numeral_2_eq_2)
  then show ?thesis
    using assms by (auto simp: two_servers_def less_Suc_eq)
qed

lemma survey_sum: "map (\<lambda>i. row_total ed25519 i (filter (\<lambda>r. fst r = [7]) [([7], [1], [10]), ([7], [1], [32 :: ed_l])])) [0..<1] = [42]"
  by simp (simp add: row_total_def psum_def ed_simps)

lemma distinct_one: "distinct xs \<Longrightarrow> set xs = {u} \<Longrightarrow> xs = [u]"
  by (cases xs; cases "tl xs") auto

theorem survey_answers_query_witness:
  "\<exists>results. survey_run ed25519 (transparent ed25519) survey_predicate survey_servers (Node 0 [0] [0] [Node 1 [] [] []]) (Node 0 [0] [0] [Node 1 [] [] []]) = Inr results \<and>
    map (shown (decryptPoint ed25519 11)) results = [([7], [42])]"
proof -
  let ?t = "Node 0 [0] [0] [Node 1 [] [] []] :: nat tree"
  let ?sel = "filter (satisfies (\<lambda>bs. bs = [True]) [1]) [([7], [1], [10]), ([8], [0], [99]), ([7], [1], [32 :: ed_l])]"
  have two: "[0..<length survey_servers] = [0, 1]" by (simp add: survey_servers_def two_servers_simps upt_rec)
  have "\<exists>results. survey_run ed25519 (transparent ed25519) survey_predicate survey_servers ?t ?t = Inr results \<and>
    answers ed25519 1 (filter (satisfies (\<lambda>bs. bs = [True]) (map (\<lambda>c. decryptPoint ed25519 (joint_private ed25519 survey_servers) (wq_Value c)) (Where survey_query)))
        (plain_rows ed25519 (joint_private ed25519 survey_servers) survey_servers)) (map (shown (decryptPoint ed25519 11)) results)"
  proof (rule survey_answers_query [OF ed.transparent_proof_system, where ia = 1])
    show "\<forall>i<length survey_servers. server_ok ed25519 (transparent ed25519) survey_servers (Where survey_query) '' v0 == v1 '' 1 1 i (survey_servers ! i)"
      unfolding survey_servers_def by (rule two_servers_ok) (simp add: survey_response_def layout_def)
    show "Scalar_Mul ed25519 1 (sprod ed25519 (survey_secrets survey_servers)) = Scalar_One ed25519"
      by (simp add: survey_servers_def two_servers_simps sprod_def ed_simps)
    show "\<forall>s\<in>set survey_servers. predicate_is survey_predicate (Query (survey s)) (\<lambda>bs. bs = [True])"
      using survey_predicate_is by (simp add: survey_servers_def two_servers_def survey_server_def)
    show "length (Where survey_query) < 2 ^ 62" "1 + length (Where survey_query) + 1 < 2 ^ 32" by (simp_all add: survey_query_def)
    show "length (plain_rows ed25519 (joint_private ed25519 survey_servers) survey_servers) * (1 + 1) < 2 ^ 32"
      by (simp add: survey_servers_simps)
    show "ClientPubKey (Query (survey (survey_servers ! content ?t))) = Some (Point_Mul ed25519 11 (Point_Base ed25519))"
      by (simp add: survey_servers_def two_servers_def survey_server_def survey_query_def ed_simps)
  qed (simp_all add: two)
  then obtain results where r: "survey_run ed25519 (transparent ed25519) survey_predicate survey_servers ?t ?t = Inr results"
    "answers ed25519 1 ?sel (map (shown (decryptPoint ed25519 11)) results)" unfolding survey_servers_simps by blast
  let ?out = "map (shown (decryptPoint ed25519 11)) results"
  have sel: "?sel = [([7], [1], [10]), ([7], [1], [32])]" by (simp add: satisfies_def)
  note a = r(2) [unfolded sel answers_def]
  have "fst ` set [([7], [1], [10]), ([7], [1], [32 :: ed_l])] = {[7 :: ed_l]}" by simp
  with a have "distinct (map fst ?out)" "set (map fst ?out) = {[7]}" by (simp_all only:)
  then have "map fst ?out = [[7]]" by (rule distinct_one)
  then obtain aggr where out: "?out = [([7], aggr)]" by (cases results) auto
  have "([7], aggr) \<in> set ?out" unfolding out by simp
  from answers_entry [OF r(2) [unfolded sel] this] have "?out = [([7], [42])]" unfolding survey_sum out by simp
  with r(1) show ?thesis by (intro exI conjI)
qed

end
