(* ===== verification/Coordination.thy ===== *)
theory Coordination
  imports Prelude
begin

text \<open>
  How the services of the servers wait for each other in services/service.go: the root's answer to
  the creation query waits until every server has the survey (SurveyChannel), StartService waits
  for the data providers (DpChannel), and the collective aggregation waits until the other servers
  have tagged their data (DDTChannel). The model keeps the channels, the messages in flight and
  the counters of the waiting loops; the channels hold 100 integers in the code, and a sender that
  is blocked on a full one counts as a token in the channel; what the phases compute is left to the theory SurveyRun. Every
  handler is a function on the state, and a step relation interleaves them in any order.
\<close>

section \<open>Servers, messages and channels\<close>

datatype message = SurveyCreation | QueryBroadcastFinished | SurveyResults | DDTfinished | DataReference

text \<open>A call that waits on a channel: its counter says how many tokens it still has to receive.\<close>

datatype wait_call = Idle | Waiting nat | Returned

primrec left :: "nat \<Rightarrow> wait_call \<Rightarrow> nat" where
  "left n Idle = n"
| "left n (Waiting k) = k"
| "left n Returned = 0"

text \<open>One iteration of for counter > 0 { counter = counter - <-channel } on a channel with some tokens.\<close>

fun wait_step :: "wait_call \<Rightarrow> nat \<Rightarrow> (wait_call \<times> nat) option" where
  "wait_step (Waiting 0) tokens = Some (Returned, tokens)"
| "wait_step (Waiting (Suc k)) (Suc tokens) = Some (Waiting k, tokens)"
| "wait_step _ _ = None"

text \<open>
  The servers are 0 to servers - 1. parent_of gives the tree of the aggregation that the root
  generates; map_dps is MapDPs of the query, one number for every server.
\<close>

record deployment =
  servers :: nat
  root_server :: nat
  parent_of :: "nat \<Rightarrow> nat"
  map_dps :: "nat \<Rightarrow> nat"

text \<open>
  The state of all servers. in_flight counts the messages under way to a server; present tells
  whether a server has the survey; pushes counts the responses that the data providers of a server
  still have to send; pulled_early records that an instance of the aggregation took the data of a
  server that had not finished its tagging.
\<close>

record coordination =
  in_flight :: "message \<Rightarrow> nat \<Rightarrow> nat"
  present :: "nat \<Rightarrow> bool"
  survey_ch :: "nat \<Rightarrow> nat"
  creation :: wait_call
  asked :: bool
  pushes :: "nat \<Rightarrow> nat"
  dp_ch :: "nat \<Rightarrow> nat"
  providers :: "nat \<Rightarrow> wait_call"
  tagged :: "nat \<Rightarrow> bool"
  ddt_ch :: "nat \<Rightarrow> nat"
  aggregation :: "nat \<Rightarrow> wait_call"
  pulled_early :: "nat \<Rightarrow> bool"

definition coordination_start :: "deployment \<Rightarrow> coordination" where
  "coordination_start d = \<lparr>in_flight = (\<lambda>_ _. 0), present = (\<lambda>_. False), survey_ch = (\<lambda>_. 0), creation = Idle, asked = False,
     pushes = map_dps d, dp_ch = (\<lambda>_. 0), providers = (\<lambda>_. Idle), tagged = (\<lambda>_. False), ddt_ch = (\<lambda>_. 0),
     aggregation = (\<lambda>_. Idle), pulled_early = (\<lambda>_. False)\<rparr>"

section \<open>Handlers\<close>

definition send_to :: "nat set \<Rightarrow> message \<Rightarrow> coordination \<Rightarrow> coordination" where
  "send_to js m s = s\<lparr>in_flight := (in_flight s)(m := \<lambda>j. in_flight s m j + (if j \<in> js then 1 else 0))\<rparr>"

definition others :: "deployment \<Rightarrow> nat \<Rightarrow> nat set" where
  "others d i = {..<servers d} - {i}"

definition peers :: "deployment \<Rightarrow> nat" where
  "peers d = servers d - 1"

definition kids :: "deployment \<Rightarrow> nat \<Rightarrow> nat set" where
  "kids d i = {j\<in>others d (root_server d). parent_of d j = i}"

text \<open>HandleSurveyCreationQuery at the root, up to its waiting loop, and at the other servers.\<close>

definition create_at_root :: "deployment \<Rightarrow> coordination \<Rightarrow> coordination" where
  "create_at_root d s =
     (let r = root_server d in
      send_to (others d r) SurveyCreation (s\<lparr>present := (present s)(r := True), creation := Waiting (peers d)\<rparr>))"

definition create_at :: "deployment \<Rightarrow> nat \<Rightarrow> coordination \<Rightarrow> coordination" where
  "create_at d j s = send_to {root_server d} QueryBroadcastFinished (s\<lparr>present := (present s)(j := True)\<rparr>)"

text \<open>Without the survey the handlers return an error and the token is lost.\<close>

definition on_broadcast_finished :: "nat \<Rightarrow> coordination \<Rightarrow> coordination" where
  "on_broadcast_finished j s = (if present s j then s\<lparr>survey_ch := (survey_ch s)(j := survey_ch s j + 1)\<rparr> else s)"

definition on_DDTfinished :: "nat \<Rightarrow> coordination \<Rightarrow> coordination" where
  "on_DDTfinished j s = (if present s j then s\<lparr>ddt_ch := (ddt_ch s)(j := ddt_ch s j + 1)\<rparr> else s)"

definition on_response :: "nat \<Rightarrow> coordination \<Rightarrow> coordination" where
  "on_response j s = (if present s j then s\<lparr>dp_ch := (dp_ch s)(j := dp_ch s j + 1)\<rparr> else s)"

text \<open>HandleSurveyResultsQuery up to the waiting loop of StartService; the root passes the query on.\<close>

definition on_results :: "deployment \<Rightarrow> nat \<Rightarrow> coordination \<Rightarrow> coordination" where
  "on_results d j s =
     (if present s j
      then (let s' = s\<lparr>providers := (providers s)(j := Waiting (map_dps d j))\<rparr> in
            if j = root_server d then send_to (others d j) SurveyResults s' else s')
      else s)"

text \<open>The end of TaggingPhase in StartService.\<close>

definition finish_tagging :: "deployment \<Rightarrow> nat \<Rightarrow> coordination \<Rightarrow> coordination" where
  "finish_tagging d j s = send_to (others d j) DDTfinished (s\<lparr>tagged := (tagged s)(j := True)\<rparr>)"

text \<open>NewProtocol for the aggregation, up to its waiting loop: it pulls the local data first.\<close>

definition new_aggregation_call :: "deployment \<Rightarrow> nat \<Rightarrow> coordination \<Rightarrow> coordination" where
  "new_aggregation_call d j s =
     (if present s j
      then s\<lparr>pulled_early := (pulled_early s)(j := \<not> tagged s j), aggregation := (aggregation s)(j := Waiting (peers d))\<rparr>
      else s)"

text \<open>Process, and onet's creation of an instance for a message of the aggregation.\<close>

fun handle :: "deployment \<Rightarrow> nat \<Rightarrow> message \<Rightarrow> coordination \<Rightarrow> coordination" where
  "handle d j SurveyCreation s = create_at d j s"
| "handle d j QueryBroadcastFinished s = on_broadcast_finished j s"
| "handle d j SurveyResults s = on_results d j s"
| "handle d j DDTfinished s = on_DDTfinished j s"
| "handle d j DataReference s = new_aggregation_call d j s"

text \<open>When the call for the aggregation returns, the announcement goes to the children.\<close>

definition aggregation_step :: "deployment \<Rightarrow> nat \<Rightarrow> wait_call \<times> nat \<Rightarrow> coordination \<Rightarrow> coordination" where
  "aggregation_step d j ct s =
     (let s' = s\<lparr>aggregation := (aggregation s)(j := fst ct), ddt_ch := (ddt_ch s)(j := snd ct)\<rparr> in
      if fst ct = Returned then send_to (kids d j) DataReference s' else s')"

section \<open>All interleavings\<close>

text \<open>
  The querier sends the creation query once and the results query after its answer; the data
  providers send their responses when the survey has been created.
\<close>

inductive coordination_step :: "deployment \<Rightarrow> coordination \<Rightarrow> coordination \<Rightarrow> bool" for d where
  query: "creation s = Idle \<Longrightarrow> coordination_step d s (create_at_root d s)"
| deliver: "0 < in_flight s m j \<Longrightarrow> s' = s\<lparr>in_flight := (in_flight s)(m := (in_flight s m)(j := in_flight s m j - 1))\<rparr> \<Longrightarrow>
    coordination_step d s (handle d j m s')"
| created: "wait_step (creation s) (survey_ch s (root_server d)) = Some (c, t) \<Longrightarrow>
    coordination_step d s (s\<lparr>creation := c, survey_ch := (survey_ch s)(root_server d := t)\<rparr>)"
| ask: "creation s = Returned \<Longrightarrow> \<not> asked s \<Longrightarrow> coordination_step d s (on_results d (root_server d) (s\<lparr>asked := True\<rparr>))"
| push: "creation s = Returned \<Longrightarrow> j < servers d \<Longrightarrow> 0 < pushes s j \<Longrightarrow>
    coordination_step d s (on_response j (s\<lparr>pushes := (pushes s)(j := pushes s j - 1)\<rparr>))"
| provided: "j < servers d \<Longrightarrow> wait_step (providers s j) (dp_ch s j) = Some (c, t) \<Longrightarrow>
    coordination_step d s (s\<lparr>providers := (providers s)(j := c), dp_ch := (dp_ch s)(j := t)\<rparr>)"
| tag: "j < servers d \<Longrightarrow> providers s j = Returned \<Longrightarrow> \<not> tagged s j \<Longrightarrow> coordination_step d s (finish_tagging d j s)"
| aggregate: "tagged s (root_server d) \<Longrightarrow> aggregation s (root_server d) = Idle \<Longrightarrow>
    coordination_step d s (new_aggregation_call d (root_server d) s)"
| waited: "j < servers d \<Longrightarrow> wait_step (aggregation s j) (ddt_ch s j) = Some ct \<Longrightarrow> coordination_step d s (aggregation_step d j ct s)"

inductive reachable_coordination :: "deployment \<Rightarrow> coordination \<Rightarrow> bool" for d where
  start: "reachable_coordination d (coordination_start d)"
| step: "reachable_coordination d s \<Longrightarrow> coordination_step d s s' \<Longrightarrow> reachable_coordination d s'"

section \<open>Invariants\<close>

definition tree_ok :: "deployment \<Rightarrow> bool" where
  "tree_ok d \<longleftrightarrow> root_server d < servers d \<and>
     (\<exists>depth :: nat \<Rightarrow> nat. \<forall>j\<in>others d (root_server d). parent_of d j < servers d \<and> depth (parent_of d j) < depth j)"

definition tally :: "nat set \<Rightarrow> (nat \<Rightarrow> bool) \<Rightarrow> nat" where
  "tally A f = card {i \<in> A. f i}"

text \<open>Every token is accounted for: it is under way, in the channel or received.\<close>

definition creation_ok :: "deployment \<Rightarrow> coordination \<Rightarrow> bool" where
  "creation_ok d s \<longleftrightarrow> (let r = root_server d in
     (\<forall>j. in_flight s SurveyCreation j = (if j \<in> others d r \<and> creation s \<noteq> Idle \<and> \<not> present s j then 1 else 0)) \<and>
     (\<forall>j. j \<noteq> r \<longrightarrow> in_flight s QueryBroadcastFinished j = 0) \<and>
     (present s r \<longleftrightarrow> creation s \<noteq> Idle) \<and> (\<forall>j. present s j \<longrightarrow> j < servers d \<and> creation s \<noteq> Idle) \<and>
     survey_ch s r + in_flight s QueryBroadcastFinished r + peers d =
       tally (others d r) (present s) + left (peers d) (creation s) \<and> left (peers d) (creation s) \<le> peers d)"

definition results_ok :: "deployment \<Rightarrow> coordination \<Rightarrow> bool" where
  "results_ok d s \<longleftrightarrow> (let r = root_server d in
     (asked s \<longrightarrow> creation s = Returned) \<and> (providers s r \<noteq> Idle \<longleftrightarrow> asked s) \<and> (\<forall>j. providers s j \<noteq> Idle \<longrightarrow> asked s) \<and>
     (\<forall>j. in_flight s SurveyResults j = (if j \<in> others d r \<and> asked s \<and> providers s j = Idle then 1 else 0)))"

definition providers_ok :: "deployment \<Rightarrow> coordination \<Rightarrow> bool" where
  "providers_ok d s \<longleftrightarrow> (\<forall>j < servers d. dp_ch s j + pushes s j = left (map_dps d j) (providers s j)) \<and>
     (\<forall>j. left (map_dps d j) (providers s j) \<le> map_dps d j) \<and>
     (\<forall>j. tagged s j \<longrightarrow> j < servers d \<and> providers s j = Returned)"

definition tagging_ok :: "deployment \<Rightarrow> coordination \<Rightarrow> bool" where
  "tagging_ok d s \<longleftrightarrow> (\<forall>j. left (peers d) (aggregation s j) \<le> peers d) \<and> (\<forall>j. servers d \<le> j \<longrightarrow> in_flight s DDTfinished j = 0) \<and>
     (\<forall>j < servers d. ddt_ch s j + in_flight s DDTfinished j + peers d =
       tally (others d j) (tagged s) + left (peers d) (aggregation s j))"

definition aggregation_ok :: "deployment \<Rightarrow> coordination \<Rightarrow> bool" where
  "aggregation_ok d s \<longleftrightarrow> (let r = root_server d in
     (\<forall>j. in_flight s DataReference j =
        (if j \<in> others d r \<and> aggregation s (parent_of d j) = Returned \<and> aggregation s j = Idle then 1 else 0)) \<and>
     (aggregation s r \<noteq> Idle \<longrightarrow> tagged s r) \<and> (\<forall>j. aggregation s j \<noteq> Idle \<longrightarrow> j < servers d \<and> (j \<noteq> r \<longrightarrow> aggregation s (parent_of d j) = Returned)) \<and>
     (\<forall>j. \<not> pulled_early s j))"

definition coordination_ok :: "deployment \<Rightarrow> coordination \<Rightarrow> bool" where
  "coordination_ok d s \<longleftrightarrow> creation_ok d s \<and> results_ok d s \<and> providers_ok d s \<and> tagging_ok d s \<and> aggregation_ok d s"

lemma finite_others [simp]: "finite (others d i)"
  by (simp add: others_def)

lemma card_others: "i < servers d \<Longrightarrow> card (others d i) = peers d"
  by (simp add: others_def peers_def)

lemma tally_upd [simp]: "finite A \<Longrightarrow> tally A (f(j := True)) = tally A f + (if j \<in> A \<and> \<not> f j then 1 else 0)"
proof -
  assume A: "finite A"
  have "{i \<in> A. (f(j := True)) i} = (if j \<in> A \<and> \<not> f j then insert j {i \<in> A. f i} else {i \<in> A. f i})" by auto
  then show ?thesis using A by (simp add: tally_def)
qed

lemma tally_False [simp]: "tally A (\<lambda>_. False) = 0"
  by (simp add: tally_def)

lemma all_flagged: "i < servers d \<Longrightarrow> peers d \<le> tally (others d i) f \<Longrightarrow> \<forall>k\<in>others d i. f k"
proof -
  assume a: "i < servers d" "peers d \<le> tally (others d i) f"
  have "{k \<in> others d i. f k} = others d i"
    by (rule card_seteq) (use a card_others [OF a(1)] in \<open>auto simp: tally_def\<close>)
  then show ?thesis by blast
qed

lemma tally_all: "i < servers d \<Longrightarrow> \<forall>k\<in>others d i. f k \<Longrightarrow> tally (others d i) f = peers d"
proof -
  assume i: "i < servers d" and f: "\<forall>k\<in>others d i. f k"
  then have "{k \<in> others d i. f k} = others d i" by blast
  with card_others [OF i] show ?thesis by (simp add: tally_def)
qed

lemma wait_step_left:
  "wait_step c tokens = Some (c', tokens') \<Longrightarrow> c \<noteq> Idle \<and> c \<noteq> Returned \<and> c' \<noteq> Idle \<and> tokens' + left n c = tokens + left n c' \<and> left n c' \<le> left n c"
  by (cases "(c, tokens)" rule: wait_step.cases) auto

lemma wait_step_None: "wait_step c tokens = None \<longleftrightarrow> c = Idle \<or> c = Returned \<or> (\<exists>k. c = Waiting (Suc k)) \<and> tokens = 0"
  by (cases "(c, tokens)" rule: wait_step.cases) auto

text \<open>What the invariants say together.\<close>

lemma creation_returned:
  assumes ok: "creation_ok d s" and r: "root_server d < servers d" and c: "creation s = Returned" and j: "j < servers d"
  shows "present s j"
proof -
  have "survey_ch s (root_server d) + in_flight s QueryBroadcastFinished (root_server d) + peers d =
      tally (others d (root_server d)) (present s) + left (peers d) (creation s)" and p: "present s (root_server d)"
    using ok c by (simp_all add: creation_ok_def Let_def)
  then have "peers d \<le> tally (others d (root_server d)) (present s)" unfolding c left.simps by linarith
  with all_flagged [OF r this] p j show ?thesis by (cases "j = root_server d") (auto simp: others_def)
qed

lemma waited_tagged:
  assumes ok: "tagging_ok d s" and i: "i < servers d" and c: "aggregation s i = Returned" and j: "j < servers d" "j \<noteq> i"
  shows "tagged s j"
proof -
  have "ddt_ch s i + in_flight s DDTfinished i + peers d = tally (others d i) (tagged s) + left (peers d) (aggregation s i)"
    using ok i unfolding tagging_ok_def by blast
  then have "peers d \<le> tally (others d i) (tagged s)" unfolding c left.simps by linarith
  with all_flagged [OF i this] j show ?thesis by (auto simp: others_def)
qed

lemma root_waited:
  assumes "tagging_ok d s" "aggregation_ok d s" "root_server d < servers d" "aggregation s (root_server d) = Returned" "j < servers d"
  shows "tagged s j"
proof (cases "j = root_server d")
  case True
  with assms(2,4) show ?thesis by (simp add: aggregation_ok_def Let_def)
next
  case False
  then show ?thesis by (rule waited_tagged [OF assms(1,3,4,5)])
qed

text \<open>The calls return from the root of the tree down.\<close>

lemma root_returned:
  assumes "aggregation_ok d s" "tree_ok d" "aggregation s j = Returned"
  shows "aggregation s (root_server d) = Returned"
proof -
  obtain depth :: "nat \<Rightarrow> nat" where up: "\<forall>j\<in>others d (root_server d). parent_of d j < servers d \<and> depth (parent_of d j) < depth j"
    using assms(2) by (auto simp: tree_ok_def)
  show ?thesis
    using assms(3)
  proof (induction j rule: measure_induct_rule [of depth])
    case (less j)
    show ?case
    proof (cases "j = root_server d")
      case False
      then have "j \<in> others d (root_server d)" "aggregation s (parent_of d j) = Returned"
        using assms(1) less.prems by (auto simp: aggregation_ok_def Let_def others_def)
      with less.IH up show ?thesis by blast
    qed (use less.prems in simp)
  qed
qed

lemma start_ok: "root_server d < servers d \<Longrightarrow> coordination_ok d (coordination_start d)"
  by (simp add: coordination_ok_def creation_ok_def results_ok_def providers_ok_def tagging_ok_def aggregation_ok_def coordination_start_def Let_def others_def)

section \<open>Every step keeps the invariants\<close>

lemmas handler_defs = send_to_def create_at_root_def create_at_def on_broadcast_finished_def on_DDTfinished_def on_response_def on_results_def
  finish_tagging_def new_aggregation_call_def aggregation_step_def Let_def

lemma creation_ok_step:
  assumes "coordination_step d s s'" and "root_server d < servers d" and "creation_ok d s"
  shows "creation_ok d s'"
  using assms
proof (cases rule: coordination_step.cases)
  case query
  then show ?thesis using assms(2,3) card_others [of "root_server d" d] by (auto simp: creation_ok_def handler_defs others_def)
next
  case (deliver m j s0)
  show ?thesis
  proof (cases m)
    case SurveyCreation
    with deliver assms(3) have j: "j \<in> others d (root_server d)" "creation s \<noteq> Idle" "\<not> present s j"
      by (auto simp: creation_ok_def Let_def split: if_splits)
    then have "j < servers d" "j \<noteq> root_server d" by (auto simp: others_def)
    with j SurveyCreation deliver assms(3) show ?thesis by (auto simp: creation_ok_def handler_defs)
  next
    case QueryBroadcastFinished
    with deliver assms(3) have "j = root_server d" by (auto simp: creation_ok_def Let_def split: if_splits)
    moreover have "present s (root_server d)"
    proof (rule ccontr)
      assume "\<not> present s (root_server d)"
      then have "creation s = Idle" "\<forall>j. \<not> present s j" using assms(3) by (auto simp: creation_ok_def Let_def)
      then have "in_flight s QueryBroadcastFinished (root_server d) = 0" using assms(3) by (simp add: creation_ok_def Let_def tally_def)
      with deliver QueryBroadcastFinished calculation show False by simp
    qed
    ultimately show ?thesis using QueryBroadcastFinished deliver assms(3) by (auto simp: creation_ok_def handler_defs)
  qed (use deliver assms(3) in \<open>auto simp: creation_ok_def handler_defs\<close>)
next
  case (created c t)
  then show ?thesis using assms(3) wait_step_left [OF created(2), of "peers d"] by (auto simp: creation_ok_def Let_def)
qed (use assms(3) in \<open>auto simp: creation_ok_def handler_defs\<close>)

lemma results_ok_step:
  assumes "coordination_step d s s'" and "root_server d < servers d" and "creation_ok d s" and "results_ok d s"
  shows "results_ok d s'"
  using assms(1)
proof (cases rule: coordination_step.cases)
  case (deliver m j s0)
  show ?thesis
  proof (cases m)
    case SurveyResults
    with deliver assms(4) have j: "j \<in> others d (root_server d)" "asked s" "providers s j = Idle"
      by (auto simp: results_ok_def Let_def split: if_splits)
    then have "j \<noteq> root_server d" "j < servers d" "creation s = Returned" using assms(4) by (auto simp: others_def results_ok_def Let_def)
    then show ?thesis
      using SurveyResults deliver assms(4) j creation_returned [OF assms(3,2)] by (auto simp: results_ok_def handler_defs)
  qed (use deliver assms(4) in \<open>auto simp: results_ok_def handler_defs\<close>)
next
  case ask
  then have "present s (root_server d)" using creation_returned [OF assms(3,2)] assms(2) by blast
  with ask assms(4) show ?thesis by (auto simp: results_ok_def handler_defs others_def)
next
  case (created c t)
  then show ?thesis using assms(4) wait_step_left [OF created(2)] by (auto simp: results_ok_def Let_def)
next
  case (provided j c t)
  then show ?thesis using assms(4) wait_step_left [OF provided(3)] by (auto simp: results_ok_def Let_def)
qed (use assms(4) in \<open>auto simp: results_ok_def handler_defs\<close>)

lemma providers_ok_step:
  assumes "coordination_step d s s'" and "root_server d < servers d" and "creation_ok d s" and "results_ok d s" and "providers_ok d s"
  shows "providers_ok d s'"
  using assms(1)
proof (cases rule: coordination_step.cases)
  case (deliver m j s0)
  show ?thesis
  proof (cases m)
    case SurveyResults
    with deliver assms(4) have "providers s j = Idle" by (auto simp: results_ok_def Let_def split: if_splits)
    with SurveyResults deliver assms(5) show ?thesis by (auto simp: providers_ok_def handler_defs)
  qed (use deliver assms(5) in \<open>auto simp: providers_ok_def handler_defs\<close>)
next
  case ask
  then have "providers s (root_server d) = Idle" using assms(4) by (auto simp: results_ok_def Let_def)
  with ask assms(5) show ?thesis by (auto simp: providers_ok_def handler_defs)
next
  case (push j)
  then have "present s j" using creation_returned [OF assms(3,2)] by blast
  with push assms(5) show ?thesis by (auto simp: providers_ok_def handler_defs)
next
  case (provided j c t)
  have w: "left (map_dps d j) c \<le> left (map_dps d j) (providers s j)" "t + left (map_dps d j) (providers s j) = dp_ch s j + left (map_dps d j) c"
    "providers s j \<noteq> Returned"
    using wait_step_left [OF provided(3), of "map_dps d j"] by simp_all
  moreover have "left (map_dps d j) (providers s j) \<le> map_dps d j" using assms(5) by (simp add: providers_ok_def)
  ultimately have "left (map_dps d j) c \<le> map_dps d j" by (rule_tac le_trans)
  with w(2,3) show ?thesis using provided(1,2) assms(5) unfolding providers_ok_def by (intro conjI) (auto simp: Let_def)
qed (use assms(5) in \<open>auto simp: providers_ok_def handler_defs\<close>)

text \<open>A server that has finished its tagging knows that every server has the survey.\<close>

lemma tagged_present:
  assumes "coordination_ok d s" "root_server d < servers d" "tagged s i" "j < servers d"
  shows "present s j"
proof -
  have "providers s i \<noteq> Idle" using assms(1,3) by (auto simp: coordination_ok_def providers_ok_def)
  then have "creation s = Returned" using assms(1) by (auto simp: coordination_ok_def results_ok_def Let_def)
  with creation_returned [OF _ assms(2) _ assms(4)] assms(1) show ?thesis by (auto simp: coordination_ok_def)
qed

lemma DDTfinished_present:
  assumes "coordination_ok d s" "root_server d < servers d" "0 < in_flight s DDTfinished j"
  shows "j < servers d \<and> present s j"
proof -
  have t: "tagging_ok d s" using assms(1) by (simp add: coordination_ok_def)
  then have j: "j < servers d" using assms(3) by (auto simp: tagging_ok_def not_less [symmetric])
  have "ddt_ch s j + in_flight s DDTfinished j + peers d = tally (others d j) (tagged s) + left (peers d) (aggregation s j)"
    using t j unfolding tagging_ok_def by blast
  moreover have "left (peers d) (aggregation s j) \<le> peers d" using t by (simp add: tagging_ok_def)
  ultimately have "0 < tally (others d j) (tagged s)" using assms(3) by linarith
  then obtain i where "tagged s i" by (fastforce simp: tally_def card_gt_0_iff)
  with tagged_present [OF assms(1,2) this j] j show ?thesis by blast
qed

lemma tagging_ok_step:
  assumes "coordination_step d s s'" and "root_server d < servers d" and ok: "coordination_ok d s"
  shows "tagging_ok d s'"
  using assms(1)
proof (cases rule: coordination_step.cases)
  have t: "tagging_ok d s" using ok by (simp add: coordination_ok_def)
  {
    case (deliver m j s0)
    show ?thesis
    proof (cases m)
      case DDTfinished
      with deliver have "j < servers d \<and> present s j" using DDTfinished_present [OF ok assms(2)] by blast
      with DDTfinished deliver t show ?thesis by (auto simp: tagging_ok_def handler_defs)
    next
      case DataReference
      with deliver ok have "aggregation s j = Idle" by (auto simp: coordination_ok_def aggregation_ok_def Let_def split: if_splits)
      with DataReference deliver t show ?thesis by (auto simp: tagging_ok_def handler_defs)
    qed (use deliver t in \<open>auto simp: tagging_ok_def handler_defs\<close>)
  next
    case (tag j)
    then show ?thesis using t by (auto simp: tagging_ok_def handler_defs others_def)
  next
    case (waited j ct)
    obtain c u where ct: "ct = (c, u)" by (cases ct)
    from waited have "u + left (peers d) (aggregation s j) = ddt_ch s j + left (peers d) c" "left (peers d) c \<le> left (peers d) (aggregation s j)"
      using wait_step_left [of "aggregation s j" "ddt_ch s j" c u "peers d"] by (simp_all add: ct)
    moreover have "left (peers d) (aggregation s j) \<le> peers d" using t by (simp add: tagging_ok_def)
    moreover from calculation have "left (peers d) c \<le> peers d" by linarith
    moreover from t this have "left (peers d) (((aggregation s)(j := c)) i) \<le> peers d" for i by (simp add: tagging_ok_def)
    ultimately show ?thesis using t waited unfolding tagging_ok_def by (intro conjI) (auto simp: handler_defs ct)
  }
qed (use ok in \<open>auto simp: coordination_ok_def tagging_ok_def handler_defs\<close>)

lemma aggregation_ok_step:
  assumes "coordination_step d s s'" and "tree_ok d" and ok: "coordination_ok d s"
  shows "aggregation_ok d s'"
  using assms(1)
proof (cases rule: coordination_step.cases)
  have r: "root_server d < servers d" using assms(2) by (simp add: tree_ok_def)
  have a: "aggregation_ok d s" and t: "tagging_ok d s" using ok by (simp_all add: coordination_ok_def)
  {
    case (deliver m j s0)
    show ?thesis
    proof (cases m)
      case DataReference
      with deliver a have j: "j \<in> others d (root_server d)" "aggregation s (parent_of d j) = Returned" "aggregation s j = Idle"
        by (auto simp: aggregation_ok_def Let_def split: if_splits)
      then have n: "j < servers d" "j \<noteq> root_server d" by (auto simp: others_def)
      have ret: "aggregation s (root_server d) = Returned"
        by (rule root_returned [OF a assms(2) j(2)])
      then have "tagged s j" by (rule root_waited [OF t a r _ n(1)])
      then have "present s j" by (rule tagged_present [OF ok r _ n(1)])
      with \<open>tagged s j\<close> ret j n DataReference deliver a show ?thesis by (auto simp: aggregation_ok_def handler_defs)
    qed (use deliver a in \<open>auto simp: aggregation_ok_def handler_defs\<close>)
  next
    case aggregate
    then have "present s (root_server d)" using tagged_present [OF ok r _ r] by blast
    with aggregate r a show ?thesis by (auto simp: aggregation_ok_def handler_defs others_def)
  next
    case (waited j ct)
    then have "aggregation s j \<noteq> Idle" "aggregation s j \<noteq> Returned" "fst ct \<noteq> Idle"
      using wait_step_left [of "aggregation s j" "ddt_ch s j" "fst ct" "snd ct"] by simp_all
    with waited a show ?thesis by (auto simp: aggregation_ok_def handler_defs others_def kids_def)
  }
qed (use ok in \<open>auto simp: coordination_ok_def aggregation_ok_def handler_defs\<close>)

lemma coordination_step_ok:
  assumes "coordination_step d s s'" and "tree_ok d" and ok: "coordination_ok d s"
  shows "coordination_ok d s'"
proof -
  have r: "root_server d < servers d" using assms(2) by (simp add: tree_ok_def)
  show ?thesis
    using creation_ok_step [OF assms(1) r] results_ok_step [OF assms(1) r] providers_ok_step [OF assms(1) r]
      tagging_ok_step [OF assms(1) r ok] aggregation_ok_step [OF assms(1,2) ok] ok
    by (simp add: coordination_ok_def)
qed

lemma reachable_coordination_ok: "reachable_coordination d s \<Longrightarrow> tree_ok d \<Longrightarrow> coordination_ok d s"
  by (induction rule: reachable_coordination.induct) (auto simp: tree_ok_def start_ok intro: coordination_step_ok [unfolded tree_ok_def])

lemma message_present:
  assumes ok: "coordination_ok d s" and tree: "tree_ok d" and m: "0 < in_flight s m j" "m \<noteq> SurveyCreation"
  shows "present s j"
proof -
  have r: "root_server d < servers d" using tree by (simp add: tree_ok_def)
  have c: "creation_ok d s" and q: "results_ok d s" and a: "aggregation_ok d s" and t: "tagging_ok d s" using ok by (simp_all add: coordination_ok_def)
  show ?thesis
  proof (cases m)
    case QueryBroadcastFinished
    then have j: "j = root_server d" using c m(1) unfolding creation_ok_def Let_def by (metis less_numeral_extra(3))
    show ?thesis
    proof (rule ccontr)
      assume "\<not> present s j"
      then have "creation s = Idle" "\<forall>j. \<not> present s j" using c j by (auto simp: creation_ok_def Let_def)
      then have "in_flight s QueryBroadcastFinished (root_server d) = 0" using c by (simp add: creation_ok_def Let_def tally_def)
      with m QueryBroadcastFinished j show False by simp
    qed
  next
    case SurveyResults
    with q m(1) have "j < servers d" "creation s = Returned" by (auto simp: results_ok_def Let_def others_def split: if_splits)
    then show ?thesis using creation_returned [OF c r] by blast
  next
    case DDTfinished
    with DDTfinished_present [OF ok r] m(1) show ?thesis by blast
  next
    case DataReference
    with a m(1) have j: "j < servers d" "aggregation s (parent_of d j) = Returned"
      by (auto simp: aggregation_ok_def Let_def others_def split: if_splits)
    have "tagged s j" by (rule root_waited [OF t a r root_returned [OF a tree j(2)] j(1)])
    then show ?thesis by (rule tagged_present [OF ok r _ j(1)])
  qed (use m in simp)
qed

lemma tally_le: "i < servers d \<Longrightarrow> tally (others d i) f \<le> peers d"
  using card_mono [of "others d i" "{k \<in> others d i. f k}"] card_others [of i d] by (simp add: tally_def)

lemma survey_tokens_bounded:
  assumes "coordination_ok d s" "root_server d < servers d"
  shows "survey_ch s (root_server d) \<le> servers d - 1"
proof -
  have "survey_ch s (root_server d) + in_flight s QueryBroadcastFinished (root_server d) + peers d =
      tally (others d (root_server d)) (present s) + left (peers d) (creation s)"
    using assms(1) by (simp add: coordination_ok_def creation_ok_def Let_def)
  moreover have "left (peers d) (creation s) \<le> peers d" using assms(1) by (simp add: coordination_ok_def creation_ok_def Let_def)
  ultimately show ?thesis using tally_le [OF assms(2), of "present s"] by (simp add: peers_def)
qed

lemma tokens_bounded:
  assumes "coordination_ok d s" "j < servers d"
  shows "ddt_ch s j \<le> servers d - 1 \<and> dp_ch s j \<le> map_dps d j"
proof -
  have "ddt_ch s j + in_flight s DDTfinished j + peers d = tally (others d j) (tagged s) + left (peers d) (aggregation s j)"
    and "left (peers d) (aggregation s j) \<le> peers d" and "dp_ch s j + pushes s j = left (map_dps d j) (providers s j)"
    using assms unfolding coordination_ok_def tagging_ok_def providers_ok_def by blast+
  moreover have "left (map_dps d j) (providers s j) \<le> map_dps d j" using assms(1) by (simp add: coordination_ok_def providers_ok_def)
  ultimately show ?thesis using tally_le [OF assms(2), of "tagged s"] by (simp add: peers_def)
qed

section \<open>Every run comes to an end\<close>

primrec call_work :: "nat \<Rightarrow> nat \<Rightarrow> wait_call \<Rightarrow> nat" where
  "call_work before w Idle = before"
| "call_work before w (Waiting k) = w"
| "call_work before w Returned = 0"

definition node_work :: "deployment \<Rightarrow> coordination \<Rightarrow> nat \<Rightarrow> nat" where
  "node_work d s j =
     3 * in_flight s SurveyCreation j + 2 * in_flight s QueryBroadcastFinished j + in_flight s SurveyResults j + 2 * in_flight s DDTfinished j +
     in_flight s DataReference j + survey_ch s j + 2 * pushes s j + dp_ch s j + ddt_ch s j + call_work 2 1 (providers s j) +
     (if tagged s j then 0 else 2 * servers d + 1) + call_work (servers d + 2) (servers d + 1) (aggregation s j)"

definition work :: "deployment \<Rightarrow> coordination \<Rightarrow> nat" where
  "work d s = (\<Sum>j < servers d. node_work d s j) + call_work (3 * servers d + 2) 1 (creation s) + (if asked s then 0 else servers d + 1)"

lemma work_decreases:
  assumes "\<And>i. i < servers d \<Longrightarrow> node_work d s' i + (if i = j then K else 0) \<le> node_work d s i + (if i \<in> B then w else 0)" and "j < servers d"
    and "card (B \<inter> {..<servers d}) * w + (call_work (3 * servers d + 2) 1 (creation s') + (if asked s' then 0 else servers d + 1)) <
      K + (call_work (3 * servers d + 2) 1 (creation s) + (if asked s then 0 else servers d + 1))"
  shows "work d s' < work d s"
proof -
  let ?n = "servers d"
  have "(\<Sum>i < ?n. node_work d s' i) + (\<Sum>i < ?n. if i = j then K else 0) \<le> (\<Sum>i < ?n. node_work d s i) + (\<Sum>i < ?n. if i \<in> B then w else 0)"
    unfolding sum.distrib [symmetric] by (rule sum_mono) (use assms(1) in simp)
  moreover have "(\<Sum>i < ?n. if i = j then K else 0) = K" using assms(2) by simp
  moreover have "(\<Sum>i < ?n. if i \<in> B then w else 0) = card (B \<inter> {..<?n}) * w"
    by (simp add: sum.If_cases Int_commute)
  ultimately show ?thesis using assms(3) unfolding work_def by linarith
qed

lemma wait_step_cases [consumes 1, case_names returned received]:
  assumes "wait_step c tokens = Some (c', tokens')"
  obtains "c = Waiting 0" "c' = Returned" "tokens' = tokens" | k where "c = Waiting (Suc k)" "c' = Waiting k" "tokens = Suc tokens'"
  using assms by (cases "(c, tokens)" rule: wait_step.cases) auto

lemma deliver_work:
  assumes ok: "coordination_ok d s" and r: "root_server d < servers d" and m: "0 < in_flight s m j"
  shows "work d (handle d j m (s\<lparr>in_flight := (in_flight s)(m := (in_flight s m)(j := in_flight s m j - 1))\<rparr>)) < work d s"
proof -
  let ?s = "s\<lparr>in_flight := (in_flight s)(m := (in_flight s m)(j := in_flight s m j - 1))\<rparr>"
  show ?thesis
  proof (cases m)
    case SurveyCreation
    with m ok have "j < servers d" by (auto simp: coordination_ok_def creation_ok_def Let_def others_def split: if_splits)
    then show ?thesis
      using SurveyCreation m r
      by (intro work_decreases [where j = j and K = 3 and B = "{root_server d}" and w = 2]) (auto simp: node_work_def handler_defs)
  next
    case QueryBroadcastFinished
    have "j = root_server d"
      using ok m QueryBroadcastFinished unfolding coordination_ok_def creation_ok_def Let_def by (metis less_numeral_extra(3))
    with r have "j < servers d" by simp
    then show ?thesis
      using QueryBroadcastFinished m
      by (intro work_decreases [where j = j and K = 1 and B = "{}" and w = 0]) (auto simp: node_work_def handler_defs)
  next
    case SurveyResults
    with m ok have "j < servers d" "j \<noteq> root_server d" "providers s j = Idle"
      by (auto simp: coordination_ok_def results_ok_def Let_def others_def split: if_splits)
    then show ?thesis
      using SurveyResults m
      by (intro work_decreases [where j = j and K = 1 and B = "{}" and w = 0]) (auto simp: node_work_def handler_defs)
  next
    case DDTfinished
    with DDTfinished_present [OF ok r] m have "j < servers d" by blast
    then show ?thesis
      using DDTfinished m
      by (intro work_decreases [where j = j and K = 1 and B = "{}" and w = 0]) (auto simp: node_work_def handler_defs)
  next
    case DataReference
    with m ok have "j < servers d" "aggregation s j = Idle"
      by (auto simp: coordination_ok_def aggregation_ok_def Let_def others_def split: if_splits)
    then show ?thesis
      using DataReference m
      by (intro work_decreases [where j = j and K = 1 and B = "{}" and w = 0]) (auto simp: node_work_def handler_defs)
  qed
qed

lemma coordination_step_work:
  assumes "coordination_step d s s'" and ok: "coordination_ok d s" and r: "root_server d < servers d"
  shows "work d s' < work d s"
  using assms(1)
proof (cases rule: coordination_step.cases)
  case query
  then show ?thesis
    using r ok by (intro work_decreases [where j = "root_server d" and K = 0 and B = UNIV and w = 3])
      (auto simp: node_work_def handler_defs coordination_ok_def results_ok_def)
next
  case (deliver m j s0)
  with deliver_work [OF ok r, of m j] show ?thesis by simp
next
  case (created c t)
  from created(2) show ?thesis
  proof (cases rule: wait_step_cases)
    case returned
    with created r show ?thesis
      by (intro work_decreases [where j = "root_server d" and K = 0 and B = "{}" and w = 0]) (auto simp: node_work_def)
  next
    case (received k)
    with created r show ?thesis
      by (intro work_decreases [where j = "root_server d" and K = 1 and B = "{}" and w = 0]) (auto simp: node_work_def)
  qed
next
  case ask
  then show ?thesis
    using r ok by (intro work_decreases [where j = "root_server d" and K = 1 and B = UNIV and w = 1])
      (auto simp: node_work_def handler_defs coordination_ok_def results_ok_def)
next
  case (push j)
  then show ?thesis
    by (intro work_decreases [where j = j and K = 1 and B = "{}" and w = 0]) (auto simp: node_work_def handler_defs)
next
  case (provided j c t)
  from provided(3) show ?thesis
    by (cases rule: wait_step_cases)
      (use provided in \<open>auto simp: node_work_def intro!: work_decreases [where j = j and K = 1 and B = "{}" and w = 0]\<close>)
next
  case (tag j)
  then show ?thesis
    by (intro work_decreases [where j = j and K = "2 * servers d + 1" and B = UNIV and w = 2]) (auto simp: node_work_def handler_defs)
next
  case aggregate
  then have "present s (root_server d)" using tagged_present [OF ok r _ r] by blast
  with aggregate show ?thesis
    using r by (intro work_decreases [where j = "root_server d" and K = 1 and B = "{}" and w = 0]) (auto simp: node_work_def handler_defs)
next
  case (waited j ct)
  obtain c t where ct: "ct = (c, t)" by (cases ct)
  from waited(3) show ?thesis
    unfolding ct
  proof (cases rule: wait_step_cases)
    case returned
    have "card (kids d j \<inter> {..<servers d}) \<le> servers d" using card_mono [of "{..<servers d}" "kids d j \<inter> {..<servers d}"] by simp
    with returned waited(1,2) show ?thesis
      by (intro work_decreases [where j = j and K = "servers d + 1" and B = "kids d j" and w = 1]) (auto simp: node_work_def handler_defs ct)
  next
    case (received k)
    with waited(1,2) show ?thesis
      by (intro work_decreases [where j = j and K = 1 and B = "{}" and w = 0]) (auto simp: node_work_def handler_defs ct)
  qed
qed

text \<open>A state without a step is one in which every call has returned.\<close>

definition completed :: "deployment \<Rightarrow> coordination \<Rightarrow> bool" where
  "completed d s \<longleftrightarrow> creation s = Returned \<and> (\<forall>j < servers d. providers s j = Returned \<and> tagged s j \<and> aggregation s j = Returned)"

lemma stuck_call:
  "c \<noteq> Idle \<Longrightarrow> wait_step c tokens = None \<Longrightarrow> (tokens = 0 \<Longrightarrow> left n c = 0) \<Longrightarrow> c = Returned"
  by (cases "(c, tokens)" rule: wait_step.cases) auto

lemma stuck_completed:
  assumes ok: "coordination_ok d s" and tree: "tree_ok d" and stuck: "\<And>s'. \<not> coordination_step d s s'"
  shows "completed d s"
proof -
  let ?r = "root_server d"
  have r: "?r < servers d" using tree by (simp add: tree_ok_def)
  have c: "creation_ok d s" and q: "results_ok d s" and p: "providers_ok d s" and t: "tagging_ok d s" and a: "aggregation_ok d s"
    using ok by (simp_all add: coordination_ok_def)
  have empty: "in_flight s m j = 0" for m j using stuck coordination_step.deliver by blast
  have "creation s \<noteq> Idle" using stuck coordination_step.query by blast
  moreover have "wait_step (creation s) (survey_ch s ?r) = None" using stuck coordination_step.created by (metis not_Some_eq surj_pair)
  moreover have "left (peers d) (creation s) = 0" if "survey_ch s ?r = 0"
  proof -
    have "\<forall>j\<in>others d ?r. present s j" using c \<open>creation s \<noteq> Idle\<close> empty [of SurveyCreation] unfolding creation_ok_def Let_def by (metis zero_neq_one)
    then have "tally (others d ?r) (present s) = peers d" by (rule tally_all [OF r])
    with c that empty show ?thesis by (simp add: creation_ok_def Let_def)
  qed
  ultimately have created: "creation s = Returned" by (rule stuck_call)
  then have asked: "asked s" using stuck coordination_step.ask by blast
  have idle: "providers s j \<noteq> Idle" if "j < servers d" for j
    using q asked empty [of SurveyResults] that by (cases "j = ?r") (auto simp: results_ok_def Let_def others_def split: if_splits)
  have provided: "providers s j = Returned" if j: "j < servers d" for j
  proof (rule stuck_call)
    show "wait_step (providers s j) (dp_ch s j) = None" using stuck coordination_step.provided [OF j] by (metis not_Some_eq surj_pair)
    show "providers s j \<noteq> Idle" by (rule idle [OF j])
    have "pushes s j = 0" using stuck coordination_step.push [OF created j] by (metis neq0_conv)
    then show "left (map_dps d j) (providers s j) = 0" if "dp_ch s j = 0"
      using p j that unfolding providers_ok_def by (metis add_0)
  qed
  then have tagged: "tagged s j" if "j < servers d" for j using stuck coordination_step.tag that by blast
  have waited: "aggregation s j = Returned" if j: "j < servers d" and "aggregation s j \<noteq> Idle" for j
  proof (rule stuck_call)
    show "wait_step (aggregation s j) (ddt_ch s j) = None" using stuck coordination_step.waited [OF j] by (metis not_Some_eq)
    have "tally (others d j) (tagged s) = peers d" by (rule tally_all [OF j]) (use tagged in \<open>simp add: others_def\<close>)
    moreover have "ddt_ch s j + in_flight s DDTfinished j + peers d = tally (others d j) (tagged s) + left (peers d) (aggregation s j)"
      using t j unfolding tagging_ok_def by blast
    ultimately show "left (peers d) (aggregation s j) = 0" if "ddt_ch s j = 0" using that empty by simp
  qed (fact that(2))
  obtain depth :: "nat \<Rightarrow> nat" where up: "\<forall>j\<in>others d ?r. parent_of d j < servers d \<and> depth (parent_of d j) < depth j"
    using tree by (auto simp: tree_ok_def)
  have "aggregation s j = Returned" if "j < servers d" for j
    using that
  proof (induction j rule: measure_induct_rule [of depth])
    case (less j)
    have "aggregation s j \<noteq> Idle"
    proof (cases "j = ?r")
      case True
      then show ?thesis using stuck coordination_step.aggregate tagged [OF r] by blast
    next
      case False
      then have j: "j \<in> others d ?r" using less.prems by (simp add: others_def)
      then have "aggregation s (parent_of d j) = Returned" using less.IH up by blast
      with a j empty [of DataReference j] show ?thesis by (auto simp: aggregation_ok_def Let_def split: if_splits)
    qed
    then show ?case by (rule waited [OF less.prems])
  qed
  with created provided tagged show ?thesis by (simp add: completed_def)
qed

section \<open>Properties\<close>

text \<open>
  C5. The services wait for each other. In every reachable state, whatever the interleaving of the
  handlers, the waiting loops and the messages: no message arrives at a server without the survey,
  so no token is lost; a server has finished its tagging only after all responses of its data
  providers have arrived; an instance of the collective aggregation has taken the data of a server
  only after that server finished its tagging; when the aggregation of a server starts, all servers
  have finished theirs; and no channel ever holds more tokens than the loop that reads it waits for.
\<close>

theorem aggregation_waits_for_tagging:
  assumes "tree_ok d" and "reachable_coordination d s"
  shows "(\<forall>m j. 0 < in_flight s m j \<and> m \<noteq> SurveyCreation \<longrightarrow> present s j) \<and> (\<forall>j < servers d. tagged s j \<longrightarrow> pushes s j = 0 \<and> dp_ch s j = 0) \<and>
    (\<forall>j. \<not> pulled_early s j) \<and> (\<forall>i < servers d. \<forall>j < servers d. aggregation s j = Returned \<longrightarrow> tagged s i) \<and>
    (\<forall>j < servers d. ddt_ch s j \<le> servers d - 1 \<and> dp_ch s j \<le> map_dps d j) \<and> survey_ch s (root_server d) \<le> servers d - 1"
proof -
  have ok: "coordination_ok d s" by (rule reachable_coordination_ok [OF assms(2,1)])
  have r: "root_server d < servers d" using assms(1) by (simp add: tree_ok_def)
  have a: "aggregation_ok d s" and t: "tagging_ok d s" and p: "providers_ok d s" and c: "creation_ok d s" and q: "results_ok d s"
    using ok by (simp_all add: coordination_ok_def)
  have tagged: "tagged s i" if "aggregation s j = Returned" "i < servers d" for i j
    by (rule root_waited [OF t a r root_returned [OF a assms(1) that(1)] that(2)])
  have present: "present s j" if "0 < in_flight s m j" "m \<noteq> SurveyCreation" for m j
    by (rule message_present [OF ok assms(1) that])
  have "pushes s j = 0 \<and> dp_ch s j = 0" if "j < servers d" "tagged s j" for j
  proof -
    have "dp_ch s j + pushes s j = left (map_dps d j) (providers s j)" "providers s j = Returned"
      using p that unfolding providers_ok_def by blast+
    then show ?thesis by simp
  qed
  moreover have "ddt_ch s j \<le> servers d - 1 \<and> dp_ch s j \<le> map_dps d j" if "j < servers d" for j
    by (rule tokens_bounded [OF ok that])
  moreover have "survey_ch s (root_server d) \<le> servers d - 1" by (rule survey_tokens_bounded [OF ok r])
  ultimately show ?thesis using present tagged a by (auto simp: aggregation_ok_def Let_def)
qed

text \<open>
  C6. A survey comes to an end: from every reachable state every interleaving is finite, and a state
  from which no step is left is one in which the creation query has been answered, all servers have
  the data of their providers and have tagged it, and the aggregation has started everywhere. There
  is no deadlock.
\<close>

theorem coordination_completes:
  assumes "tree_ok d" and "reachable_coordination d s"
  shows "\<not> (\<exists>run. run 0 = s \<and> (\<forall>k :: nat. coordination_step d (run k) (run (Suc k)))) \<and>
    (completed d s \<or> (\<exists>s'. coordination_step d s s'))"
proof (intro conjI notI)
  assume "\<exists>run. run 0 = s \<and> (\<forall>k. coordination_step d (run k) (run (Suc k)))"
  then obtain run where run: "run 0 = s" "\<And>k. coordination_step d (run k) (run (Suc k))" by blast
  have reach: "reachable_coordination d (run k)" for k
    by (induction k) (use run assms(2) in \<open>auto intro: reachable_coordination.step\<close>)
  have "work d (run (Suc k)) < work d (run k)" for k
    using coordination_step_work [OF run(2)] reachable_coordination_ok [OF reach assms(1)] assms(1) by (simp add: tree_ok_def)
  then have "work d (run k) + k \<le> work d (run 0)" for k
    by (induction k) (simp, metis Suc_leI add_Suc_right add_Suc_shift le_trans nat_add_left_cancel_le add.commute)
  from this [of "Suc (work d (run 0))"] show False by simp
next
  show "completed d s \<or> (\<exists>s'. coordination_step d s s')"
    using stuck_completed [OF reachable_coordination_ok [OF assms(2,1)] assms(1)] by blast
qed

text \<open>Two servers with one data provider each, while server 1 reports that it has the survey.\<close>

definition two_servers :: deployment where
  "two_servers = \<lparr>servers = 2, root_server = 0, parent_of = (\<lambda>_. 0), map_dps = (\<lambda>_. 1)\<rparr>"

definition survey_received :: coordination where
  "survey_received =
     (let s = create_at_root two_servers (coordination_start two_servers) in
      handle two_servers 1 SurveyCreation (s\<lparr>in_flight := (in_flight s)(SurveyCreation := (in_flight s SurveyCreation)(1 := in_flight s SurveyCreation 1 - 1))\<rparr>))"

lemma two_servers_tree: "tree_ok two_servers"
  unfolding tree_ok_def by (intro conjI exI [of _ "\<lambda>j. j"]) (auto simp: two_servers_def others_def)

lemma survey_received_reachable: "reachable_coordination two_servers survey_received"
  unfolding survey_received_def Let_def
  by (intro reachable_coordination.step [OF reachable_coordination.step [OF reachable_coordination.start query] deliver [OF _ refl]])
    (simp_all add: coordination_start_def handler_defs others_def two_servers_def)

theorem aggregation_waits_for_tagging_witness:
  "in_flight survey_received QueryBroadcastFinished 0 = 1 \<and> present survey_received 0 \<and> \<not> pulled_early survey_received 1 \<and> ddt_ch survey_received 1 \<le> 1 \<and>
    survey_ch survey_received 0 \<le> 1"
proof -
  have f: "in_flight survey_received QueryBroadcastFinished 0 = 1"
    by (simp add: survey_received_def coordination_start_def handler_defs others_def two_servers_def)
  have n: "servers two_servers = 2" "root_server two_servers = 0" by (simp_all add: two_servers_def)
  from aggregation_waits_for_tagging [OF two_servers_tree survey_received_reachable] f n show ?thesis
    by (metis Suc_1 diff_Suc_1 lessI message.distinct(1) zero_less_one)
qed

theorem coordination_completes_witness:
  "\<not> (\<exists>run. run 0 = survey_received \<and> (\<forall>k :: nat. coordination_step two_servers (run k) (run (Suc k)))) \<and>
    (completed two_servers survey_received \<or> (\<exists>s'. coordination_step two_servers survey_received s'))"
  by (rule coordination_completes [OF two_servers_tree survey_received_reachable])

end
