(* ===== verification/Circuit.thy ===== *)
theory Circuit
  imports Shuffling
begin

text \<open>
  The circuits of the shuffling and tagging protocols. Every node looks itself up in Tree().List()
  and sends to the node after it, the last one to the first. A message that the root sends is passed
  on until the root receives it. The lemmas show that this visits every other node exactly once, so
  the rounds of the protocols are folds over the other nodes.
\<close>

section \<open>The next node\<close>

fun circuit_loop :: "'n list \<Rightarrow> 'n \<Rightarrow> (nat \<times> 'n) list \<Rightarrow> 'n option" where
  "circuit_loop nodeList self [] = None"
| "circuit_loop nodeList self ((i, node) # rest) =
     (if self = node then Some (nodeList ! ((i + 1) mod length nodeList)) else circuit_loop nodeList self rest)"

definition nextNodeInCircuit :: "'n list \<Rightarrow> 'n \<Rightarrow> 'n option" where
  "nextNodeInCircuit nodeList self = circuit_loop nodeList self (List.enumerate 0 nodeList)"

text \<open>
  The message on its way from a node: hop is what a node that is not the root does with it, and
  sending to no node panics. The loop ends when the root receives the message.
\<close>

partial_function (option) pass_around :: "'n list \<Rightarrow> 'n \<Rightarrow> ('n \<Rightarrow> 'm \<Rightarrow> 'm res) \<Rightarrow> 'n \<Rightarrow> 'm \<Rightarrow> 'm res option" where
  "pass_around nodeList home hop self m =
     (case nextNodeInCircuit nodeList self of
        None \<Rightarrow> Some (Inl Panic)
      | Some node \<Rightarrow>
          if node = home then Some (Inr m)
          else (case hop node m of Inl e \<Rightarrow> Some (Inl e) | Inr m' \<Rightarrow> pass_around nodeList home hop node m'))"

lemma nextNodeInCircuit_nth:
  assumes "distinct nodes" and "i < length nodes"
  shows "nextNodeInCircuit nodes (nodes ! i) = Some (nodes ! (Suc i mod length nodes))"
proof -
  have "circuit_loop all self (List.enumerate k ns) = Some (all ! ((k + i + 1) mod length all))"
    if "distinct ns" "i < length ns" "self = ns ! i" for all :: "'a list" and self ns k i
    using that
  proof (induction ns arbitrary: k i)
    case (Cons n ns)
    show ?case
    proof (cases i)
      case (Suc i')
      with Cons.prems have "self \<noteq> n" by (auto simp: nth_eq_iff_index_eq)
      with Cons.IH [of i' "Suc k"] Cons.prems Suc show ?thesis by simp
    qed (use Cons.prems in simp)
  qed simp
  from this [OF assms refl, of nodes 0] show ?thesis by (simp add: nextNodeInCircuit_def)
qed

text \<open>From the node at place i on, the places up to k before the root are visited in turn.\<close>

lemma pass_around_fold:
  assumes d: "distinct nodes" and r: "r < length nodes" and k: "k < length nodes"
  shows "pass_around nodes (nodes ! r) hop (nodes ! ((r + (length nodes - 1 - k)) mod length nodes)) m =
    Some (fold_res hop (map (\<lambda>j. nodes ! ((r + j) mod length nodes)) [length nodes - k..<length nodes]) m)"
  using k
proof (induction k arbitrary: m)
  case 0
  have "Suc (r + (length nodes - 1)) = r + length nodes" using r by linarith
  then have "Suc ((r + (length nodes - 1)) mod length nodes) mod length nodes = r" using r by (simp add: mod_Suc_eq del: add_Suc_right)
  moreover have "(r + (length nodes - 1)) mod length nodes < length nodes" by (rule mod_less_divisor) (use r in linarith)
  ultimately
  have "nextNodeInCircuit nodes (nodes ! ((r + (length nodes - 1 - 0)) mod length nodes)) = Some (nodes ! r)"
    using nextNodeInCircuit_nth [OF d, of "(r + (length nodes - 1)) mod length nodes"] by (simp only: diff_zero)
  then show ?case by (subst pass_around.simps) (simp only: option.case if_True, simp)
next
  case (Suc k)
  let ?n = "length nodes"
  have n: "?n - 1 - k = Suc (?n - 1 - Suc k)" "?n - Suc k = ?n - 1 - k" using Suc.prems by linarith+
  let ?next = "(r + (?n - 1 - k)) mod ?n"
  have nx: "Suc ((r + (?n - 1 - Suc k)) mod ?n) mod ?n = ?next" unfolding n(1) by (simp add: mod_Suc_eq)
  have "?next \<noteq> r"
    using r Suc.prems by (cases "r + (?n - 1 - k) < ?n") (auto simp: mod_if le_mod_geq not_less)
  moreover have pos: "i mod ?n < ?n" for i by (rule mod_less_divisor) (use r in linarith)
  ultimately have "nodes ! ?next \<noteq> nodes ! r" using d r nth_eq_iff_index_eq [OF d pos r] by simp
  moreover have "nextNodeInCircuit nodes (nodes ! ((r + (?n - 1 - Suc k)) mod ?n)) = Some (nodes ! ?next)"
    using nextNodeInCircuit_nth [OF d pos, of "r + (?n - 1 - Suc k)"] unfolding nx .
  moreover have "[?n - Suc k..<?n] = (?n - 1 - k) # [?n - k..<?n]" using Suc.prems by (simp add: upt_conv_Cons n(2) [symmetric] Suc_diff_Suc)
  ultimately show ?case using Suc by (subst pass_around.simps) (simp split: sum.split)
qed

definition circuit_from :: "'n list \<Rightarrow> nat \<Rightarrow> 'n list" where
  "circuit_from nodes r = map (\<lambda>j. nodes ! ((r + j) mod length nodes)) [1..<length nodes]"

lemma circuit_from_mset:
  assumes "r < length nodes"
  shows "mset (nodes ! r # circuit_from nodes r) = mset nodes"
proof -
  have "nodes ! r # circuit_from nodes r = map (\<lambda>j. nodes ! ((r + j) mod length nodes)) [0..<length nodes]"
  proof -
    have "[0..<length nodes] = 0 # [1..<length nodes]" using assms by (subst upt_conv_Cons) auto
    then show ?thesis using assms by (simp add: circuit_from_def)
  qed
  also have "\<dots> = rotate r nodes" using assms by (intro nth_equalityI) (simp_all add: nth_rotate)
  finally show ?thesis by (simp add: rotate_drop_take) (metis add.commute append_take_drop_id mset_append)
qed

lemma pass_around_circuit:
  assumes "distinct nodes" and "r < length nodes"
  shows "pass_around nodes (nodes ! r) hop (nodes ! r) m = Some (fold_res hop (circuit_from nodes r) m)"
proof -
  have "length nodes - 1 < length nodes" using assms(2) by linarith
  from pass_around_fold [OF assms this] assms(2) show ?thesis by (simp add: circuit_from_def)
qed

section \<open>Properties\<close>

text \<open>
  C7. The circuit ends at the root. For a list of different nodes, a message that is passed to the
  next node in the circuit returns to the node that sent it, having visited every other node exactly
  once. So the shuffling protocol around the circuit is the fold of its Dispatch over the other
  nodes, and every node contributes its shuffle once.
\<close>

theorem circuit_terminates:
  assumes "distinct nodes" and "r < length nodes" and "start = protocol (nodes ! r)"
  shows "\<exists>others. mset (nodes ! r # others) = mset nodes \<and>
    (\<forall>msg. pass_around nodes (nodes ! r) (\<lambda>n. Shuffling_Dispatch S (protocol n)) (nodes ! r) msg =
      Some (fold_res (\<lambda>n. Shuffling_Dispatch S (protocol n)) others msg)) \<and>
    Shuffling_run S start (map protocol others) =
      andThen (Shuffling_Start S start) (\<lambda>msg.
        andThen (the (pass_around nodes (nodes ! r) (\<lambda>n. Shuffling_Dispatch S (protocol n)) (nodes ! r) msg)) (Shuffling_report S))"
  using circuit_from_mset [OF assms(2)]
  by (intro exI [of _ "circuit_from nodes r"])
    (simp add: pass_around_circuit [OF assms(1,2)] Shuffling_run_def fold_res_map del: split_paired_All)

theorem circuit_terminates_witness:
  "\<forall>protocol. \<exists>others. mset (''b'' # others) = mset [''a'', ''b'', ''c''] \<and>
    (\<forall>msg. pass_around [''a'', ''b'', ''c''] ''b'' (\<lambda>n. Shuffling_Dispatch ed25519 (protocol n)) ''b'' msg =
      Some (fold_res (\<lambda>n. Shuffling_Dispatch ed25519 (protocol n)) others msg))"
proof
  fix protocol
  show "\<exists>others. mset (''b'' # others) = mset [''a'', ''b'', ''c''] \<and>
    (\<forall>msg. pass_around [''a'', ''b'', ''c''] ''b'' (\<lambda>n. Shuffling_Dispatch ed25519 (protocol n)) ''b'' msg =
      Some (fold_res (\<lambda>n. Shuffling_Dispatch ed25519 (protocol n)) others msg))"
    using circuit_terminates [of "[''a'', ''b'', ''c'']" 1 "protocol ''b''" protocol ed25519] by auto
qed

end
