(* ===== verification/ClearReference.thy ===== *)
theory ClearReference
  imports Store "HOL-Library.Char_ord" "HOL-Library.List_Lexorder"
begin

text \<open>
  The reference in the clear that the results of a survey are compared with: AddInClear of
  lib/store/store.go, the protocol of protocols/utils/local_clear_aggregation_protocol.go that calls
  it, and the expected results and their comparison of data/handle_data.go.
\<close>

section \<open>Responses as rows of integers\<close>

text \<open>
  Six vectors of integers stand for a response in the clear. AddInClear and WriteDataToFile take
  them out of the maps in the same six calls of ConvertMapToData, and GenerateData, AddInClear and
  ReadDataFromFile fill the maps in the same six calls of ConvertDataToMap.
\<close>

record clear_row =
  groups_clear :: "int64 list"
  groups_enc :: "int64 list"
  where_clear :: "int64 list"
  where_enc :: "int64 list"
  sums_clear :: "int64 list"
  sums_enc :: "int64 list"

definition map_len :: "('k \<rightharpoonup> 'v) \<Rightarrow> nat" where
  "map_len m = card (dom m)"

definition response_data :: "DpClearResponse \<Rightarrow> clear_row" where
  "response_data entry =
    \<lparr>groups_clear = ConvertMapToData (GroupByClear entry) ''g'' 0,
     groups_enc = ConvertMapToData (GroupByEnc entry) ''g'' (of_nat (map_len (GroupByClear entry))),
     where_clear = ConvertMapToData (WhereClear entry) ''w'' 0,
     where_enc = ConvertMapToData (WhereEnc entry) ''w'' (of_nat (map_len (WhereClear entry))),
     sums_clear = ConvertMapToData (AggregatingAttributesClear entry) ''s'' 0,
     sums_enc = ConvertMapToData (AggregatingAttributesEnc entry) ''s'' (of_nat (map_len (AggregatingAttributesClear entry)))\<rparr>"

definition clear_response :: "clear_row \<Rightarrow> DpClearResponse" where
  "clear_response row =
    \<lparr>WhereClear = ConvertDataToMap (where_clear row) ''w'' 0,
     WhereEnc = ConvertDataToMap (where_enc row) ''w'' (of_nat (length (where_clear row))),
     GroupByClear = ConvertDataToMap (groups_clear row) ''g'' 0,
     GroupByEnc = ConvertDataToMap (groups_enc row) ''g'' (of_nat (length (groups_clear row))),
     AggregatingAttributesClear = ConvertDataToMap (sums_clear row) ''s'' 0,
     AggregatingAttributesEnc = ConvertDataToMap (sums_enc row) ''s'' (of_nat (length (sums_clear row)))\<rparr>"

definition fits :: "clear_row \<Rightarrow> bool" where
  "fits row \<longleftrightarrow> list_all (\<lambda>xs. length xs \<le> 2 ^ 64)
     [groups_clear row, groups_enc row, where_clear row, where_enc row, sums_clear row, sums_enc row]"

lemma map_len_ConvertDataToMap [simp]:
  assumes "length data \<le> 2 ^ 64"
  shows "map_len (ConvertDataToMap data first start) = length data"
  using distinct_card [OF distinct_data_keys [OF assms, of first start]]
  by (simp add: map_len_def ConvertDataToMap_def ConvertDataToMap_loop_eq)

lemma response_data_clear_response [simp]: "fits row \<Longrightarrow> response_data (clear_response row) = row"
  by (simp add: response_data_def clear_response_def fits_def ConvertMapToData_ConvertDataToMap)

section \<open>AddInClear\<close>

text \<open>The tag of a response: its groups and conditions as text, without the last space.\<close>

definition clear_tag :: "clear_row \<Rightarrow> string res" where
  "clear_tag row =
     (let key = Int64ArrayToString (groups_clear row) @ Int64ArrayToString (groups_enc row) @
                Int64ArrayToString (where_clear row) @ Int64ArrayToString (where_enc row)
      in if key = [] then Inl Panic else Inr (butlast key))"

text \<open>With conditions, a response is kept unless the last character of its tag is 0.\<close>

definition matches :: "DpClearResponse \<Rightarrow> string \<Rightarrow> bool res" where
  "matches elem key =
     (if 0 < map_len (WhereClear elem) \<or> 0 < map_len (WhereEnc elem)
      then (if key = [] then Inl Panic else Inr (last key \<noteq> CHR ''0'')) else Inr True)"

definition add_clear :: "string \<Rightarrow> int64 list \<Rightarrow> (string \<rightharpoonup> int64 list) \<Rightarrow> (string \<rightharpoonup> int64 list) res" where
  "add_clear key cpy dataMap =
     (case dataMap key of
        None \<Rightarrow> Inr (dataMap(key \<mapsto> cpy))
      | Some vals \<Rightarrow>
          andThen (par_fill VPARALLELIZE (length vals) (\<lambda>i. andThen (index_at cpy i) (\<lambda>c. Inr (vals ! i + c))) vals) (\<lambda>vals'.
          Inr (dataMap(key \<mapsto> vals'))))"

definition add_in_clear :: "DpClearResponse \<Rightarrow> (string \<rightharpoonup> int64 list) \<Rightarrow> (string \<rightharpoonup> int64 list) res" where
  "add_in_clear elem dataMap =
     (let row = response_data elem in
      andThen (clear_tag row) (\<lambda>key.
      andThen (matches elem key) (\<lambda>keep.
      if keep then add_clear key (sums_clear row @ sums_enc row) dataMap else Inr dataMap)))"

text \<open>The first response gives the number of attributes of every kind.\<close>

definition clear_lengths :: "DpClearResponse list \<Rightarrow> nat \<times> nat \<times> nat \<times> nat \<times> nat" where
  "clear_lengths s = (case s of
     [] \<Rightarrow> (0, 0, 0, 0, 0)
   | e # _ \<Rightarrow> (map_len (GroupByClear e), map_len (GroupByEnc e), map_len (WhereClear e), map_len (WhereEnc e),
       map_len (AggregatingAttributesClear e)))"

text \<open>
  An entry of the sums becomes a response again. A slice expression may reach into the capacity
  that the runtime left behind the appended elements, which holds zeros; spare gives this capacity
  for the tag and for the sums of every entry.
\<close>

definition clear_result :: "(string \<Rightarrow> nat \<times> nat) \<Rightarrow> nat \<times> nat \<times> nat \<times> nat \<times> nat \<Rightarrow> string \<times> int64 list \<Rightarrow> DpClearResponse res" where
  "clear_result spare lengths entry =
     (let (gc, ge, wc, we, ac) = lengths; (k, v) = entry;
          aux = StringToInt64Array k @ replicate (fst (spare k)) 0;
          vals = v @ replicate (snd (spare k)) 0 in
      andThen (slice aux 0 gc) (\<lambda>groupsClear.
      andThen (slice aux gc (gc + ge)) (\<lambda>groupsEnc.
      andThen (slice aux (gc + ge) (gc + ge + wc)) (\<lambda>whereClear.
      andThen (slice aux (gc + ge + wc) (gc + ge + wc + we)) (\<lambda>whereEnc.
      andThen (slice vals 0 ac) (\<lambda>sumsClear.
      andThen (slice v ac (length v)) (\<lambda>sumsEnc.
      Inr \<lparr>WhereClear = ConvertDataToMap whereClear ''w'' 0, WhereEnc = ConvertDataToMap whereEnc ''w'' (of_nat wc),
           GroupByClear = ConvertDataToMap groupsClear ''g'' 0, GroupByEnc = ConvertDataToMap groupsEnc ''g'' (of_nat gc),
           AggregatingAttributesClear = ConvertDataToMap sumsClear ''s'' 0,
           AggregatingAttributesEnc = ConvertDataToMap sumsEnc ''s'' (of_nat ac)\<rparr>)))))))"

text \<open>visit is the order in which the range loop goes through the sums.\<close>

definition AddInClear :: "((string \<rightharpoonup> int64 list) \<Rightarrow> (string \<times> int64 list) list) \<Rightarrow> (string \<Rightarrow> nat \<times> nat)
    \<Rightarrow> DpClearResponse list \<Rightarrow> DpClearResponse list res" where
  "AddInClear visit spare s =
     andThen (fold_res add_in_clear s Map.empty) (\<lambda>dataMap.
     traverse (clear_result spare (clear_lengths s)) (visit dataMap))"

text \<open>The protocol hands the result from Start to Dispatch, which reports it.\<close>

definition LocalClearAggregation_Start :: "((string \<rightharpoonup> int64 list) \<Rightarrow> (string \<times> int64 list) list) \<Rightarrow> (string \<Rightarrow> nat \<times> nat)
    \<Rightarrow> DpClearResponse list \<Rightarrow> DpClearResponse list res" where
  "LocalClearAggregation_Start visit spare targetOfAggregation = AddInClear visit spare targetOfAggregation"

section \<open>Expected results\<close>

definition joinMaps :: "(string \<rightharpoonup> int64) \<Rightarrow> (string \<rightharpoonup> int64) \<Rightarrow> (string \<rightharpoonup> int64)" where
  "joinMaps a b = a ++ b"

definition ClearExpectedResult :: "DpClearResponse list \<Rightarrow> DpClearResponse list" where
  "ClearExpectedResult expectedResult =
     map (\<lambda>elem. elem\<lparr>WhereClear := Map.empty, WhereEnc := Map.empty,
        GroupByClear := joinMaps (GroupByClear elem) (GroupByEnc elem), GroupByEnc := Map.empty,
        AggregatingAttributesClear := joinMaps (AggregatingAttributesClear elem) (AggregatingAttributesEnc elem),
        AggregatingAttributesEnc := Map.empty\<rparr>) expectedResult"

text \<open>
  The loops that multiply the attributes write to the maps of testData itself, so the caller's data
  changes; every entry is taken to own its maps. visitData is the order of the range loop.
\<close>

definition repeat_entry :: "int64 \<Rightarrow> DpClearResponse \<Rightarrow> DpClearResponse" where
  "repeat_entry dataRepetitions elem =
     (if 1 <s dataRepetitions
      then elem\<lparr>AggregatingAttributesClear := map_option (\<lambda>v. v * dataRepetitions) \<circ> AggregatingAttributesClear elem,
                AggregatingAttributesEnc := map_option (\<lambda>v. v * dataRepetitions) \<circ> AggregatingAttributesEnc elem\<rparr>
      else elem)"

definition ComputeExpectedResult ::
  "((string \<rightharpoonup> DpClearResponse list) \<Rightarrow> (string \<times> DpClearResponse list) list) \<Rightarrow> ((string \<rightharpoonup> int64 list) \<Rightarrow> (string \<times> int64 list) list)
   \<Rightarrow> (string \<Rightarrow> nat \<times> nat) \<Rightarrow> (string \<rightharpoonup> DpClearResponse list) \<Rightarrow> int64 \<Rightarrow> bool
   \<Rightarrow> DpClearResponse list res \<times> (string \<rightharpoonup> DpClearResponse list)" where
  "ComputeExpectedResult visitData visit spare testData dataRepetitions clear =
     (let testData' = map_option (map (repeat_entry dataRepetitions)) \<circ> testData;
          allData = concat (map (\<lambda>(k, v). map (repeat_entry dataRepetitions) v) (visitData testData))
      in (andThen (AddInClear visit spare allData) (\<lambda>expectedResult.
          Inr (if clear then ClearExpectedResult expectedResult else expectedResult)), testData'))"

text \<open>reflect.DeepEqual tells a nil map from an empty one, which the second condition undoes.\<close>

definition same_section :: "(string \<rightharpoonup> int64) \<Rightarrow> (string \<rightharpoonup> int64) \<Rightarrow> bool" where
  "same_section a b \<longleftrightarrow> a = b \<or> map_len a = 0 \<and> map_len b = 0"

definition same_response :: "DpClearResponse \<Rightarrow> DpClearResponse \<Rightarrow> bool" where
  "same_response i j \<longleftrightarrow> same_section (GroupByClear i) (GroupByClear j) \<and> same_section (GroupByEnc i) (GroupByEnc j) \<and>
     same_section (WhereClear i) (WhereClear j) \<and> same_section (WhereEnc i) (WhereEnc j) \<and>
     same_section (AggregatingAttributesClear i) (AggregatingAttributesClear j) \<and>
     same_section (AggregatingAttributesEnc i) (AggregatingAttributesEnc j)"

fun compare_loop :: "DpClearResponse list \<Rightarrow> DpClearResponse list \<Rightarrow> bool \<Rightarrow> bool" where
  "compare_loop [] y test = test"
| "compare_loop (i # x) y test = (if list_ex (same_response i) y then compare_loop x y True else False)"

definition CompareClearResponses :: "DpClearResponse list \<Rightarrow> DpClearResponse list \<Rightarrow> bool" where
  "CompareClearResponses x y = compare_loop x y False"

section \<open>The sums of the responses\<close>

definition row_tags :: "clear_row \<Rightarrow> int64 list" where
  "row_tags row = groups_clear row @ groups_enc row @ where_clear row @ where_enc row"

definition row_conditions :: "clear_row \<Rightarrow> int64 list" where
  "row_conditions row = where_clear row @ where_enc row"

definition row_sums :: "clear_row \<Rightarrow> int64 list" where
  "row_sums row = sums_clear row @ sums_enc row"

definition row_key :: "clear_row \<Rightarrow> string" where
  "row_key row = butlast (Int64ArrayToString (row_tags row))"

text \<open>Only the last condition is looked at, and of it only the last decimal digit.\<close>

definition kept_row :: "clear_row \<Rightarrow> bool" where
  "kept_row row \<longleftrightarrow> row_conditions row = [] \<or> sint (last (row_conditions row)) mod 10 \<noteq> 0"

definition row_shape :: "clear_row \<Rightarrow> nat \<times> nat \<times> nat \<times> nat \<times> nat \<times> nat" where
  "row_shape row = (length (groups_clear row), length (groups_enc row), length (where_clear row), length (where_enc row),
     length (sums_clear row), length (sums_enc row))"

lemma Int64ArrayToString_eq: "Int64ArrayToString xs = concat (map (\<lambda>elem. Itoa elem @ '' '') xs)"
  by (simp add: Int64ArrayToString_def)

lemma Int64ArrayToString_eq_Nil [simp]: "Int64ArrayToString xs = [] \<longleftrightarrow> xs = []"
  by (cases xs) (simp_all add: Int64ArrayToString_eq)

lemma butlast_Int64ArrayToString: "butlast (Int64ArrayToString (xs @ [x])) = Int64ArrayToString xs @ Itoa x"
  by (simp add: Int64ArrayToString_eq butlast_append)

lemma StringToInt64Array_row_key [simp]: "xs \<noteq> [] \<Longrightarrow> StringToInt64Array (butlast (Int64ArrayToString xs)) = xs"
proof (cases xs rule: rev_cases)
  case (snoc ys x)
  have "Split (CHR '' '') (Int64ArrayToString ys @ Itoa x) = map Itoa ys @ [Itoa x]"
    by (induction ys) (simp_all add: Int64ArrayToString_eq Split_word Split_no_sep Itoa_no_space)
  moreover have "filter (\<lambda>elem. elem \<noteq> []) (map Itoa ys) = map Itoa ys" by (induction ys) simp_all
  moreover have "traverse ParseInt (map Itoa ys @ [Itoa x]) = Inr (ys @ [x])" by (induction ys) simp_all
  ultimately show ?thesis by (simp add: snoc butlast_Int64ArrayToString StringToInt64Array_def)
qed simp

lemma row_key_inject: "row_tags r \<noteq> [] \<Longrightarrow> row_tags q \<noteq> [] \<Longrightarrow> row_key r = row_key q \<longleftrightarrow> row_tags r = row_tags q"
  by (metis StringToInt64Array_row_key row_key_def)

lemma clear_tag_row: "row_tags row \<noteq> [] \<Longrightarrow> clear_tag row = Inr (row_key row)"
  by (simp add: clear_tag_def row_key_def row_tags_def Int64ArrayToString_eq)

lemma digit_zero: "d < 10 \<Longrightarrow> digit d = CHR ''0'' \<longleftrightarrow> d = 0"
  using digit_value_digit [of d] by (auto simp: digit_value_def digit_def)

lemma last_digit_zero: "last (Itoa x) = CHR ''0'' \<longleftrightarrow> sint x mod 10 = 0"
proof -
  have "int (nat \<bar>sint x\<bar> mod 10) = \<bar>sint x\<bar> mod 10" by (simp add: zmod_int)
  then have "nat \<bar>sint x\<bar> mod 10 = 0 \<longleftrightarrow> \<bar>sint x\<bar> mod 10 = 0" by linarith
  also have "\<dots> \<longleftrightarrow> sint x mod 10 = 0" by (simp flip: dvd_eq_mod_eq_0)
  finally show ?thesis by (simp add: last_Itoa digit_zero)
qed

lemma matches_row: "fits row \<Longrightarrow> row_tags row \<noteq> [] \<Longrightarrow> matches (clear_response row) (row_key row) = Inr (kept_row row)"
proof -
  assume f: "fits row" and t: "row_tags row \<noteq> []"
  have w: "map_len (WhereClear (clear_response row)) = length (where_clear row)"
    "map_len (WhereEnc (clear_response row)) = length (where_enc row)"
    using f by (simp_all add: clear_response_def fits_def)
  obtain ys x where yx: "row_tags row = ys @ [x]" using t by (cases "row_tags row" rule: rev_cases) auto
  then have k: "row_key row = Int64ArrayToString ys @ Itoa x" by (simp add: row_key_def butlast_Int64ArrayToString)
  have "last (row_conditions row) = x" if "row_conditions row \<noteq> []"
    using yx that by (simp add: row_tags_def row_conditions_def) (metis append_assoc last_append last_snoc append_is_Nil_conv)
  then show ?thesis
    using k by (auto simp: matches_def w kept_row_def row_conditions_def last_digit_zero)
qed

definition at_place :: "int64 list \<Rightarrow> nat \<Rightarrow> int64" where
  "at_place v = (\<lambda>i. if i < length v then v ! i else 0)"

lemma add_clear_old:
  assumes "m key = Some u" and "length u = n" and "length v = n"
  shows "\<exists>w. add_clear key v m = Inr (m(key \<mapsto> w)) \<and> length w = n \<and> at_place w = (\<lambda>i. at_place u i + at_place v i)"
proof -
  have "par_fill VPARALLELIZE (length u) (\<lambda>i. andThen (index_at v i) (\<lambda>c. Inr (u ! i + c))) u =
      Inr (map (\<lambda>i. u ! i + v ! i) [0..<length u] @ drop (length u) u)"
    using assms by (intro par_fill_Inr VPARALLELIZE_pos) simp_all
  then show ?thesis
    using assms by (intro exI [of _ "map (\<lambda>i. u ! i + v ! i) [0..<n]"]) (auto simp: add_clear_def at_place_def)
qed

interpretation clear_sums: key_accumulator add_clear "\<lambda>v. length v = n" at_place "\<lambda>f g i. f i + g i" "\<lambda>_. 0" for n
proof
  show "m k = Some u \<Longrightarrow> length u = n \<Longrightarrow> length v = n \<Longrightarrow>
      \<exists>w. add_clear k v m = Inr (m(k \<mapsto> w)) \<and> length w = n \<and> at_place w = (\<lambda>i. at_place u i + at_place v i)" for m k u v
    by (rule add_clear_old)
qed (simp_all add: fun_eq_iff add_clear_def algebra_simps)

lemma add_in_clear_row:
  "fits row \<Longrightarrow> row_tags row \<noteq> [] \<Longrightarrow>
   add_in_clear (clear_response row) m = (if kept_row row then add_clear (row_key row) (row_sums row) m else Inr m)"
  by (simp add: add_in_clear_def Let_def clear_tag_row matches_row row_sums_def)

lemma add_in_clear_rows:
  "\<forall>row\<in>set rows. fits row \<and> row_tags row \<noteq> [] \<Longrightarrow>
   fold_res add_in_clear (map clear_response rows) m =
     fold_res (\<lambda>(k, v). add_clear k v) (map (\<lambda>row. (row_key row, row_sums row)) (filter kept_row rows)) m"
proof (induction rows arbitrary: m)
  case (Cons row rows)
  show ?case
  proof (cases "kept_row row")
    case True
    then show ?thesis using Cons by (cases "add_clear (row_key row) (row_sums row) m") (simp_all add: add_in_clear_row)
  qed (use Cons in \<open>simp add: add_in_clear_row\<close>)
qed simp

lemma total_places: "total (\<lambda>f g i. f i + g i) (\<lambda>_. 0) (map at_place vs) i = (\<Sum>v\<leftarrow>vs. at_place v i)"
  by (induction vs) (simp_all add: total_def)

lemma clear_result_row:
  assumes "row_shape row = (gc, ge, wc, we, ac, ae)" and "row_tags row \<noteq> []" and "length v = ac + ae"
  shows "clear_result spare (gc, ge, wc, we, ac) (row_key row, v) =
    Inr (clear_response (row\<lparr>sums_clear := take ac v, sums_enc := drop ac v\<rparr>))"
proof -
  have n: "length (groups_clear row) = gc" "length (groups_enc row) = ge" "length (where_clear row) = wc" "length (where_enc row) = we"
    using assms(1) by (simp_all add: row_shape_def)
  show ?thesis
    using assms(2,3) by (simp add: clear_result_def Let_def row_key_def row_tags_def n slice_def clear_response_def)
qed

section \<open>Expected results as rows\<close>

definition repeated :: "int64 \<Rightarrow> clear_row \<Rightarrow> clear_row" where
  "repeated n row =
     (if 1 <s n then row\<lparr>sums_clear := map (\<lambda>v. v * n) (sums_clear row), sums_enc := map (\<lambda>v. v * n) (sums_enc row)\<rparr> else row)"

definition merged :: "clear_row \<Rightarrow> clear_row" where
  "merged row = \<lparr>groups_clear = groups_clear row @ groups_enc row, groups_enc = [], where_clear = [], where_enc = [],
     sums_clear = sums_clear row @ sums_enc row, sums_enc = []\<rparr>"

lemma map_upds_comp:
  "length ks = length vs \<Longrightarrow> map_option f \<circ> m(ks [\<mapsto>] vs) = (map_option f \<circ> m)(ks [\<mapsto>] map f vs)"
  by (induction ks vs arbitrary: m rule: list_induct2) simp_all

lemma map_ConvertDataToMap: "map_option f \<circ> ConvertDataToMap data first start = ConvertDataToMap (map f data) first start"
  by (simp add: ConvertDataToMap_def ConvertDataToMap_loop_eq map_upds_comp)

lemma repeat_clear_response: "repeat_entry n (clear_response row) = clear_response (repeated n row)"
  by (simp add: repeat_entry_def repeated_def clear_response_def map_ConvertDataToMap)

lemma ConvertDataToMap_loop_append:
  "ConvertDataToMap_loop (xs @ ys) first start m = ConvertDataToMap_loop ys first (start + of_nat (length xs)) (ConvertDataToMap_loop xs first start m)"
  by (induction xs first start m rule: ConvertDataToMap_loop.induct) (simp_all add: algebra_simps del: fun_upd_apply)

lemma ConvertDataToMap_loop_add: "ConvertDataToMap_loop xs first start m = m ++ ConvertDataToMap_loop xs first start Map.empty"
  by (simp add: ConvertDataToMap_loop_eq map_add_upds)

lemma joinMaps_ConvertDataToMap:
  "joinMaps (ConvertDataToMap xs first start) (ConvertDataToMap ys first (start + of_nat (length xs))) = ConvertDataToMap (xs @ ys) first start"
  unfolding joinMaps_def ConvertDataToMap_def ConvertDataToMap_loop_append by (metis ConvertDataToMap_loop_add)

lemma ClearExpectedResult_rows: "ClearExpectedResult (map clear_response rows) = map clear_response (map merged rows)"
proof -
  have "ConvertDataToMap [] first start = Map.empty" for first start by (simp add: ConvertDataToMap_def)
  then show ?thesis
    using joinMaps_ConvertDataToMap [where start = 0] by (simp add: ClearExpectedResult_def clear_response_def merged_def)
qed

lemma repeated_simps [simp]:
  "row_tags (repeated n row) = row_tags row" "kept_row (repeated n row) = kept_row row" "row_shape (repeated n row) = row_shape row"
  "fits (repeated n row) = fits row"
  by (simp_all add: repeated_def row_tags_def kept_row_def row_conditions_def row_shape_def fits_def)

lemma repeated_sums: "n = 1 \<or> 1 <s n \<Longrightarrow> i < length (row_sums row) \<Longrightarrow> row_sums (repeated n row) ! i = row_sums row ! i * n"
  by (auto simp: repeated_def row_sums_def nth_append)

lemma finite_clear_response [simp]:
  "finite (dom (ConvertDataToMap data first start))"
  by (simp add: ConvertDataToMap_def ConvertDataToMap_loop_eq)

lemma same_section_rows [simp]:
  "same_section (ConvertDataToMap xs first start) (ConvertDataToMap ys first' start') \<longleftrightarrow>
   ConvertDataToMap xs first start = ConvertDataToMap ys first' start'"
  by (auto simp: same_section_def map_len_def)

lemma same_response_rows [simp]: "same_response (clear_response i) (clear_response j) \<longleftrightarrow> clear_response i = clear_response j"
  by (auto simp: same_response_def clear_response_def)

lemma compare_loop_rows:
  "compare_loop (map clear_response xs) (map clear_response ys) test \<longleftrightarrow> (xs = [] \<longrightarrow> test) \<and> clear_response ` set xs \<subseteq> clear_response ` set ys"
proof (induction xs arbitrary: test)
  case (Cons x xs)
  have "list_ex (same_response (clear_response x)) (map clear_response ys) \<longleftrightarrow> clear_response x \<in> clear_response ` set ys"
    by (auto simp: list_ex_iff)
  with Cons show ?case by auto
qed simp

section \<open>The order of a range loop\<close>

lemma map_of_rev: "distinct (map fst es) \<Longrightarrow> map_of (rev es) = map_of es"
  by (rule map_of_eqI) (auto simp: rev_map [symmetric] intro: map_of_eq_Some_iff [THEN iffD2])

definition visit_sorted :: "(string \<rightharpoonup> 'v) \<Rightarrow> (string \<times> 'v) list" where
  "visit_sorted m = map (\<lambda>k. (k, the (m k))) (sorted_list_of_set (dom m))"

lemma visit_sorted_enumerates: "finite (dom m) \<Longrightarrow> enumerates (visit_sorted m) m"
  by (auto simp: visit_sorted_def enumerates_def comp_def map_of_map_keys)

text \<open>What AddInClear makes of an entry of its sums.\<close>

definition entry_row :: "clear_row list \<Rightarrow> string \<times> int64 list \<Rightarrow> clear_row \<Rightarrow> bool" where
  "entry_row rows kv q \<longleftrightarrow> row_key q = fst kv \<and> row_tags q \<noteq> [] \<and> row_sums q = snd kv \<and>
     (\<exists>r\<in>set (filter kept_row rows). row_tags q = row_tags r \<and> row_shape q = row_shape r)"

lemma clear_result_entry:
  assumes "r \<in> set (filter kept_row rows)" and "row_key r = k" and "row_tags r \<noteq> []" and "row_shape r = (gc, ge, wc, we, ac, ae)" and "length v = ac + ae"
  shows "\<exists>q. clear_result spare (gc, ge, wc, we, ac) (k, v) = Inr (clear_response q) \<and> entry_row rows (k, v) q"
proof (intro exI conjI)
  let ?q = "r\<lparr>sums_clear := take ac v, sums_enc := drop ac v\<rparr>"
  show "clear_result spare (gc, ge, wc, we, ac) (k, v) = Inr (clear_response ?q)"
    using clear_result_row [OF assms(4,3,5)] assms(2) by simp
  have "row_tags ?q = row_tags r" by (simp add: row_tags_def)
  moreover have "row_shape ?q = row_shape r" using assms(4,5) by (simp add: row_shape_def)
  ultimately show "entry_row rows (k, v) ?q" using assms unfolding entry_row_def row_key_def by (auto simp: row_sums_def)
qed

lemma traverse_exists:
  "\<forall>x\<in>set xs. \<exists>y. f x = Inr (g y) \<and> P x y \<Longrightarrow> \<exists>ys. traverse f xs = Inr (map g ys) \<and> list_all2 P xs ys"
proof (induction xs)
  case (Cons x xs)
  then obtain y ys where "f x = Inr (g y)" "P x y" "traverse f xs = Inr (map g ys)" "list_all2 P xs ys" by auto
  then show ?case by (intro exI [of _ "y # ys"]) simp
qed simp

lemma entry_rows:
  assumes "list_all2 (entry_row rows) es result" and "distinct (map fst es)" and "fst ` set es = row_key ` set (filter kept_row rows)"
    and "\<forall>row\<in>set rows. row_tags row \<noteq> []"
  shows "distinct (map row_tags result)" and "row_tags ` set result = row_tags ` set (filter kept_row rows)"
proof -
  have k: "map row_key result = map fst es"
    using assms(1) by (induction rule: list_all2_induct) (auto simp: entry_row_def)
  have t: "\<forall>q\<in>set result. row_tags q \<noteq> []"
    using assms(1) by (induction rule: list_all2_induct) (auto simp: entry_row_def)
  have "inj_on row_key (set result)" if "inj_on row_tags (set result)" using that t by (auto simp: inj_on_def row_key_inject)
  have "map row_key result = map (butlast \<circ> Int64ArrayToString) (map row_tags result)" by (simp add: row_key_def comp_def)
  then show "distinct (map row_tags result)" using k assms(2) by (metis distinct_map)
  have eq: "row_key ` set result = row_key ` set (filter kept_row rows)" using k assms(3) by (metis image_set)
  have ks: "\<forall>r\<in>set (filter kept_row rows). row_tags r \<noteq> []" using assms(4) by simp
  have inv: "row_tags ` A = StringToInt64Array ` row_key ` A" if "\<forall>r\<in>A. row_tags r \<noteq> []" for A
    using that by (force simp: row_key_def image_iff)
  show "row_tags ` set result = row_tags ` set (filter kept_row rows)" using inv [OF t] inv [OF ks] eq by metis
qed

lemma of_key_rows:
  "of_key k (map (\<lambda>row. (row_key row, row_sums row)) (filter kept_row rows)) = map row_sums (filter (\<lambda>r. kept_row r \<and> row_key r = k) rows)"
  by (induction rows) auto

definition kept_total :: "clear_row list \<Rightarrow> string \<Rightarrow> int64 list \<Rightarrow> bool" where
  "kept_total rows k v \<longleftrightarrow> at_place v = (\<lambda>i. \<Sum>r\<leftarrow>filter (\<lambda>r. kept_row r \<and> row_key r = k) rows. at_place (row_sums r) i)"

lemma rows_summed:
  assumes "\<forall>row\<in>set rows. row_shape row = (gc, ge, wc, we, ac, ae) \<and> fits row \<and> row_tags row \<noteq> []"
  obtains m where "fold_res add_in_clear (map clear_response rows) Map.empty = Inr m" "dom m = row_key ` set (filter kept_row rows)"
    "\<forall>k v. m k = Some v \<longrightarrow> length v = ac + ae \<and> kept_total rows k v"
proof -
  define kvs where "kvs = map (\<lambda>row. (row_key row, row_sums row)) (filter kept_row rows)"
  have valid: "\<forall>v\<in>snd ` set kvs. length v = ac + ae"
    using assms(1) by (auto simp: kvs_def row_shape_def row_sums_def)
  obtain m where m: "fold_res (\<lambda>(k, v). add_clear k v) kvs Map.empty = Inr m" "clear_sums.valid_map (ac + ae) m"
      "dom m = fst ` set kvs" "\<And>k. clear_sums.sum_at m k = total (\<lambda>f g i. f i + g i) (\<lambda>_. 0) (map at_place (of_key k kvs))"
    by (rule clear_sums.add_all [OF valid]) blast
  have "kept_total rows k v" if "m k = Some v" for k v
  proof -
    have "at_place v = total (\<lambda>f g i. f i + g i) (\<lambda>_. 0) (map at_place (of_key k kvs))"
      using m(4) [of k] that by (simp add: clear_sums.sum_at_def)
    moreover have "total (\<lambda>f g i. f i + g i) (\<lambda>_. 0) (map at_place (of_key k kvs)) i =
        (\<Sum>r\<leftarrow>filter (\<lambda>r. kept_row r \<and> row_key r = k) rows. at_place (row_sums r) i)" for i
      by (simp add: total_places kvs_def of_key_rows comp_def del: map_map) (simp add: comp_def)
    ultimately show ?thesis by (simp add: kept_total_def fun_eq_iff)
  qed
  then show ?thesis
    using that [of m] m(2,3) add_in_clear_rows [of rows Map.empty] assms(1) m(1)
    by (auto simp: kvs_def clear_sums.valid_map_def image_image)
qed

lemma kept_sums:
  assumes "kept_total rows k v"
    and q: "entry_row rows (k, v) q" and tags: "\<forall>row\<in>set rows. row_tags row \<noteq> []"
    and n: "\<forall>row\<in>set rows. length (row_sums row) = length v"
  shows "\<forall>i < length (row_sums q). row_sums q ! i = (\<Sum>r\<leftarrow>filter (\<lambda>r. kept_row r \<and> row_tags r = row_tags q) rows. row_sums r ! i)"
proof (intro allI impI)
  fix i assume i: "i < length (row_sums q)"
  have same: "filter (\<lambda>r. kept_row r \<and> row_key r = k) rows = filter (\<lambda>r. kept_row r \<and> row_tags r = row_tags q) rows"
    using q tags by (intro filter_cong) (auto simp: entry_row_def row_key_inject)
  have "row_sums q ! i = at_place v i" using i q by (simp add: at_place_def entry_row_def)
  also have "\<dots> = (\<Sum>r\<leftarrow>filter (\<lambda>r. kept_row r \<and> row_tags r = row_tags q) rows. at_place (row_sums r) i)"
    using assms(1) by (simp add: kept_total_def same)
  also have "\<dots> = (\<Sum>r\<leftarrow>filter (\<lambda>r. kept_row r \<and> row_tags r = row_tags q) rows. row_sums r ! i)"
    using i n q by (intro arg_cong [where f = sum_list] map_cong) (auto simp: at_place_def entry_row_def)
  finally show "row_sums q ! i = (\<Sum>r\<leftarrow>filter (\<lambda>r. kept_row r \<and> row_tags r = row_tags q) rows. row_sums r ! i)" .
qed

lemma add_in_clear_result:
  assumes "\<forall>row\<in>set rows. row_shape row = shape \<and> fits row \<and> row_tags row \<noteq> []" and "\<forall>m. finite (dom m) \<longrightarrow> enumerates (visit m) m"
  shows "(\<exists>result. AddInClear visit spare (map clear_response rows) = Inr (map clear_response result) \<and>
      distinct (map row_tags result) \<and> row_tags ` set result = row_tags ` set (filter kept_row rows) \<and>
      (\<forall>q\<in>set result. row_shape q = shape \<and>
        (\<forall>i < length (row_sums q). row_sums q ! i = (\<Sum>r\<leftarrow>filter (\<lambda>r. kept_row r \<and> row_tags r = row_tags q) rows. row_sums r ! i)))) \<and>
    (\<forall>row. fits row \<and> row_tags row = [] \<longrightarrow> AddInClear visit spare (map clear_response rows @ [clear_response row]) = Inl Panic)"
proof -
  obtain gc ge wc we ac ae where shape: "shape = (gc, ge, wc, we, ac, ae)" by (cases shape) auto
  obtain m where m: "fold_res add_in_clear (map clear_response rows) Map.empty = Inr m" "dom m = row_key ` set (filter kept_row rows)"
      "\<forall>k v. m k = Some v \<longrightarrow> length v = ac + ae \<and> kept_total rows k v"
    by (rule rows_summed) (use assms(1) shape in blast)
  have panic: "AddInClear visit spare (map clear_response rows @ [clear_response row]) = Inl Panic" if "fits row" "row_tags row = []" for row
    using that by (simp add: AddInClear_def fold_res_append m(1) add_in_clear_def clear_tag_def row_tags_def)
  have en: "enumerates (visit m) m" using assms(2) m(2) by simp
  have keys: "fst ` set (visit m) = row_key ` set (filter kept_row rows)"
    using enumerates_dom [OF en] m(2) by simp
  let ?result = "clear_result spare (clear_lengths (map clear_response rows))"
  have "\<forall>kv\<in>set (visit m). \<exists>q. ?result kv = Inr (clear_response q) \<and> entry_row rows kv q"
  proof clarify
    fix k v assume kv: "(k, v) \<in> set (visit m)"
    have "k \<in> row_key ` set (filter kept_row rows)" using keys kv by (metis fst_conv image_eqI)
    then obtain r where r: "r \<in> set (filter kept_row rows)" "row_key r = k" by blast
    then obtain row rest where rows: "rows = row # rest" by (cases rows) auto
    then have "row_shape row = shape" "fits row" using assms(1) by auto
    then have "clear_lengths (map clear_response rows) = (gc, ge, wc, we, ac)"
      by (simp add: rows shape clear_lengths_def clear_response_def row_shape_def fits_def)
    moreover have "length v = ac + ae" using kv enumerates_set [OF en] m(3) by blast
    ultimately show "\<exists>q. ?result (k, v) = Inr (clear_response q) \<and> entry_row rows (k, v) q"
      using clear_result_entry [OF r] r assms(1) shape by auto
  qed
  from traverse_exists [OF this] obtain result where
    result: "traverse ?result (visit m) = Inr (map clear_response result)" "list_all2 (entry_row rows) (visit m) result" by blast
  have tags: "\<forall>row\<in>set rows. row_tags row \<noteq> []" using assms(1) by blast
  have "row_shape q = shape \<and> (\<forall>i < length (row_sums q). row_sums q ! i = (\<Sum>r\<leftarrow>filter (\<lambda>r. kept_row r \<and> row_tags r = row_tags q) rows. row_sums r ! i))"
    if "q \<in> set result" for q
  proof -
    from that result(2) obtain k v where kv: "(k, v) \<in> set (visit m)" and q: "entry_row rows (k, v) q"
      by (metis in_set_conv_nth list_all2_conv_all_nth prod.exhaust)
    then have "length v = ac + ae" "kept_total rows k v" using enumerates_set [OF en] m(3) by blast+
    then show ?thesis
      using kept_sums [of rows k v q] q tags assms(1) shape by (auto simp: entry_row_def row_shape_def row_sums_def)
  qed
  then show ?thesis
    using result entry_rows [OF result(2) _ keys tags] en panic by (auto simp: AddInClear_def m(1) enumerates_def)
qed

section \<open>Properties\<close>

text \<open>
  C35. AddInClear is SELECT SUM ... GROUP BY on the responses in the clear. For responses of one
  shape that have a group or a condition, it returns one response for every combination of groups
  and conditions that occurs in a response it keeps, with these groups and conditions and with the
  sums, modulo 2^64, of the attributes of the kept responses that have them. A response with
  conditions is kept exactly when the last condition does not end in the digit 0: the other
  conditions are not looked at, although all of them are meant to be 1. A response with neither
  groups nor conditions makes it panic.
\<close>

theorem add_in_clear_sums:
  assumes "\<forall>row\<in>set rows. row_shape row = shape \<and> fits row \<and> row_tags row \<noteq> []" and "\<forall>m. finite (dom m) \<longrightarrow> enumerates (visit m) m"
  shows "(\<exists>result. AddInClear visit spare (map clear_response rows) = Inr (map clear_response result) \<and>
      distinct (map row_tags result) \<and> row_tags ` set result = row_tags ` set (filter kept_row rows) \<and>
      (\<forall>q\<in>set result. row_shape q = shape \<and>
        (\<forall>i < length (row_sums q). row_sums q ! i = (\<Sum>r\<leftarrow>filter (\<lambda>r. kept_row r \<and> row_tags r = row_tags q) rows. row_sums r ! i)))) \<and>
    (\<forall>row. fits row \<and> row_tags row = [] \<longrightarrow> AddInClear visit spare (map clear_response rows @ [clear_response row]) = Inl Panic)"
  by (rule add_in_clear_result [OF assms])

definition example_rows :: "clear_row list" where
  "example_rows =
    [\<lparr>groups_clear = [1], groups_enc = [], where_clear = [0, 1], where_enc = [], sums_clear = [10], sums_enc = []\<rparr>,
     \<lparr>groups_clear = [1], groups_enc = [], where_clear = [0, 1], where_enc = [], sums_clear = [32], sums_enc = []\<rparr>,
     \<lparr>groups_clear = [1], groups_enc = [], where_clear = [1, 10], where_enc = [], sums_clear = [99], sums_enc = []\<rparr>]"

theorem add_in_clear_sums_witness:
  "\<forall>spare. \<exists>q. AddInClear visit_sorted spare (map clear_response example_rows) = Inr [clear_response q] \<and> row_tags q = [1, 0, 1] \<and> row_sums q = [42]"
proof
  fix spare
  have k: "filter kept_row example_rows = take 2 example_rows" by (simp add: example_rows_def kept_row_def row_conditions_def)
  have shape: "\<forall>row\<in>set example_rows. row_shape row = (1, 0, 2, 0, 1, 0) \<and> fits row \<and> row_tags row \<noteq> []"
    by (simp add: example_rows_def row_shape_def fits_def row_tags_def)
  have visit: "\<forall>m :: string \<rightharpoonup> int64 list. finite (dom m) \<longrightarrow> enumerates (visit_sorted m) m" using visit_sorted_enumerates by blast
  obtain result where result: "AddInClear visit_sorted spare (map clear_response example_rows) = Inr (map clear_response result)"
      "distinct (map row_tags result)" "row_tags ` set result = row_tags ` set (filter kept_row example_rows)"
      "\<forall>q\<in>set result. row_shape q = (1, 0, 2, 0, 1, 0) \<and> (\<forall>i < length (row_sums q). row_sums q ! i =
        (\<Sum>r\<leftarrow>filter (\<lambda>r. kept_row r \<and> row_tags r = row_tags q) example_rows. row_sums r ! i))"
    using add_in_clear_sums [OF shape visit] by blast
  have tags: "row_tags ` set result = {[1, 0, 1]}"
    unfolding result(3) k by (simp add: example_rows_def row_tags_def)
  then obtain q where q: "result = [q]" "row_tags q = [1, 0, 1]"
    using result(2) by (cases result rule: remdups_adj.cases) (auto simp: insert_eq_iff subset_singleton_iff)
  then have n: "length (row_sums q) = 1" and s: "\<forall>i < length (row_sums q). row_sums q ! i =
      (\<Sum>r\<leftarrow>filter (\<lambda>r. kept_row r \<and> row_tags r = row_tags q) example_rows. row_sums r ! i)"
    using result(4) by (auto simp: row_shape_def row_sums_def)
  have "row_sums q ! 0 = 42"
    using n s q(2) by (simp add: example_rows_def kept_row_def row_conditions_def row_tags_def row_sums_def)
  then have "row_sums q = [42]" using n by (cases "row_sums q") auto
  with q result(1) show "\<exists>q. AddInClear visit_sorted spare (map clear_response example_rows) = Inr [clear_response q] \<and> row_tags q = [1, 0, 1] \<and> row_sums q = [42]"
    by auto
qed

text \<open>
  ComputeExpectedResult gives the sums of the test data of all providers times the number of
  repetitions, one response for every combination of groups and conditions that a kept response has.
  With clear, the conditions are removed from the responses after the sums, so the same groups occur once
  for every combination of conditions. It also multiplies the attributes in the test data
  of the caller, so that a second call with the same data multiplies again.
\<close>

theorem expected_results:
  assumes "visitData testData = map (\<lambda>(k, rows). (k, map clear_response rows)) es" and "enumerates (visitData testData) testData"
    and "\<forall>row\<in>set (concat (map snd es)). row_shape row = shape \<and> fits row \<and> row_tags row \<noteq> []"
    and "\<forall>m. finite (dom m) \<longrightarrow> enumerates (visit m) m" and "1 <s n"
  shows "\<exists>result. ComputeExpectedResult visitData visit spare testData n clear =
      (Inr (map clear_response (if clear then map merged result else result)),
       map_of (map (\<lambda>(k, rows). (k, map (clear_response \<circ> repeated n) rows)) es)) \<and>
    distinct (map row_tags result) \<and> row_tags ` set result = row_tags ` set (filter kept_row (concat (map snd es))) \<and>
    (\<forall>q\<in>set result. \<forall>i < length (row_sums q). row_sums q ! i =
      (\<Sum>r\<leftarrow>filter (\<lambda>r. kept_row r \<and> row_tags r = row_tags q) (concat (map snd es)). row_sums r ! i) * n)"
proof -
  let ?rows = "concat (map snd es)"
  have all: "concat (map (\<lambda>(k, v). map (repeat_entry n) v) (visitData testData)) = map clear_response (map (repeated n) ?rows)"
    unfolding assms(1) by (induction es) (auto simp: repeat_clear_response)
  have shape: "\<forall>row\<in>set (map (repeated n) ?rows). row_shape row = shape \<and> fits row \<and> row_tags row \<noteq> []"
    using assms(3) by simp
  from add_in_clear_result [OF this assms(4), of spare] obtain result where
    result: "AddInClear visit spare (map clear_response (map (repeated n) ?rows)) = Inr (map clear_response result)"
      "distinct (map row_tags result)" "row_tags ` set result = row_tags ` set (filter kept_row (map (repeated n) ?rows))"
      "\<forall>q\<in>set result. row_shape q = shape \<and> (\<forall>i < length (row_sums q). row_sums q ! i =
         (\<Sum>r\<leftarrow>filter (\<lambda>r. kept_row r \<and> row_tags r = row_tags q) (map (repeated n) ?rows). row_sums r ! i))"
    by blast
  have sums: "(\<Sum>r\<leftarrow>filter (\<lambda>r. kept_row r \<and> row_tags r = row_tags q) (map (repeated n) ?rows). row_sums r ! i) =
      (\<Sum>r\<leftarrow>filter (\<lambda>r. kept_row r \<and> row_tags r = row_tags q) ?rows. row_sums r ! i) * n"
    if "q \<in> set result" "i < length (row_sums q)" for q i
  proof -
    have "length (row_sums q) = length (row_sums r)" if "r \<in> set ?rows" for r
      using result(4) assms(3) \<open>q \<in> set result\<close> that by (force simp: row_shape_def row_sums_def)
    then have "row_sums (repeated n r) ! i = row_sums r ! i * n" if "r \<in> set ?rows" for r
      using repeated_sums assms(5) that \<open>i < length (row_sums q)\<close> by metis
    then have "map (\<lambda>r. row_sums (repeated n r) ! i) (filter (\<lambda>r. kept_row r \<and> row_tags r = row_tags q) ?rows) =
        map (\<lambda>r. row_sums r ! i * n) (filter (\<lambda>r. kept_row r \<and> row_tags r = row_tags q) ?rows)" by (intro map_cong) auto
    from arg_cong [OF this, of sum_list] show ?thesis unfolding sum_list_mult_const by (simp only: filter_map map_map comp_def repeated_simps)
  qed
  have data: "map_option (map (repeat_entry n)) \<circ> testData = map_of (map (\<lambda>(k, rows). (k, map (clear_response \<circ> repeated n) rows)) es)"
  proof -
    have "testData = map_of (visitData testData)" using assms(2) by (simp add: enumerates_def)
    moreover have "map_option (map (repeat_entry n)) \<circ> map_of (visitData testData) = map_of (map (\<lambda>(k, rows). (k, map (clear_response \<circ> repeated n) rows)) es)"
      unfolding assms(1) by (induction es) (auto simp: fun_eq_iff repeat_clear_response)
    ultimately show ?thesis by simp
  qed
  have tags: "row_tags ` set (filter kept_row (map (repeated n) ?rows)) = row_tags ` set (filter kept_row ?rows)"
    by (simp only: filter_map set_map image_image repeated_simps comp_def)
  show ?thesis
    using result(1,2,4) result(3) [unfolded tags] sums by (intro exI [of _ result])
      (simp add: ComputeExpectedResult_def Let_def all data ClearExpectedResult_rows del: map_map map_concat)
qed

text \<open>
  CompareClearResponses tells whether the first list is not empty and all its responses occur
  in the second list. It is no equality: responses of the second list that the first one lacks are
  not noticed, and two empty lists compare as different.
\<close>

theorem comparison_one_sided:
  "CompareClearResponses (map clear_response xs) (map clear_response ys) \<longleftrightarrow>
     xs \<noteq> [] \<and> clear_response ` set xs \<subseteq> clear_response ` set ys"
  by (simp add: CompareClearResponses_def compare_loop_rows)

theorem expected_results_witness:
  "\<exists>result. ComputeExpectedResult (\<lambda>_. [(''0'', map clear_response example_rows)]) visit_sorted (\<lambda>_. (0, 0)) [''0'' \<mapsto> map clear_response example_rows] 2 True =
      (Inr (map clear_response (map merged result)), [''0'' \<mapsto> map (clear_response \<circ> repeated 2) example_rows]) \<and>
    row_tags ` set result = {[1, 0, 1]}"
proof -
  have k: "filter kept_row example_rows = take 2 example_rows" by (simp add: example_rows_def kept_row_def row_conditions_def)
  have shape: "\<forall>row\<in>set (concat (map snd [(''0'', example_rows)])). row_shape row = (1, 0, 2, 0, 1, 0) \<and> fits row \<and> row_tags row \<noteq> []"
    by (simp add: example_rows_def row_shape_def fits_def row_tags_def)
  have visit: "\<forall>m :: string \<rightharpoonup> int64 list. finite (dom m) \<longrightarrow> enumerates (visit_sorted m) m" using visit_sorted_enumerates by blast
  have "row_tags ` set (filter kept_row example_rows) = {[1, 0, 1]}" unfolding k by (simp add: example_rows_def row_tags_def)
  moreover have "1 <s (2 :: int64)" by (simp add: word_sless_alt)
  ultimately show ?thesis
    using expected_results [OF _ _ shape visit, of "\<lambda>_. [(''0'', map clear_response example_rows)]" "[''0'' \<mapsto> map clear_response example_rows]" 2 "\<lambda>_. (0, 0)" True]
    by (auto simp: enumerates_def)
qed

end
