(* ===== verification/TestData.thy ===== *)
theory TestData
  imports ClearReference
begin

text \<open>
  The test data of data/handle_data.go: the enumeration of all groups, the generation of responses
  and the text file in which the responses of the data providers are kept.
\<close>

section \<open>Groups\<close>

definition FillInt64Slice :: "int64 list \<Rightarrow> int64 \<Rightarrow> int64 list" where
  "FillInt64Slice s v = map (\<lambda>_. v) s"

lemma fold_res_cong [fundef_cong]:
  "xs = ys \<Longrightarrow> s = t \<Longrightarrow> (\<And>x u. x \<in> set ys \<Longrightarrow> f x u = g x u) \<Longrightarrow> fold_res f xs s = fold_res g ys t"
proof (induction xs arbitrary: ys s t)
  case (Cons x xs)
  then show ?case by (cases "g x t") auto
qed simp

text \<open>The slice group is extended, copied at the end of the recursion and cut back.\<close>

function AllPossibleGroups :: "int64 list \<Rightarrow> int64 list \<Rightarrow> nat \<Rightarrow> int64 list list \<Rightarrow> int64 list list res" where
  "AllPossibleGroups numType grp pos groups =
     (if pos = length numType then Inr (groups @ [grp])
      else if length numType < pos then Inl Panic
      else fold_res (\<lambda>i groups. AllPossibleGroups numType (grp @ [of_nat i]) (pos + 1) groups) [0..<nat (sint (numType ! pos))] groups)"
  by pat_completeness auto
termination by (relation "measure (\<lambda>(numType, grp, pos, groups). length numType - pos)") auto

declare AllPossibleGroups.simps [simp del]

lemma fold_res_appends:
  "(\<And>x s. x \<in> set xs \<Longrightarrow> f x s = Inr (s @ g x)) \<Longrightarrow> fold_res f xs s = Inr (s @ concat (map g xs))"
  by (induction xs arbitrary: s) simp_all

lemma AllPossibleGroups_from:
  "pos \<le> length numType \<Longrightarrow> AllPossibleGroups numType grp pos groups =
     Inr (groups @ map ((@) grp) (product_lists (map (\<lambda>n. map of_nat [0..<nat (sint n)]) (drop pos numType))))"
proof (induction numType grp pos groups rule: AllPossibleGroups.induct)
  case (1 numType grp pos groups)
  show ?case
  proof (cases "pos = length numType")
    case True
    then show ?thesis by (subst AllPossibleGroups.simps) simp
  next
    case False
    let ?rest = "product_lists (map (\<lambda>n. map of_nat [0..<nat (sint n)]) (drop (pos + 1) numType)) :: int64 list list"
    have ext: "(@) (grp @ [of_nat i]) = (\<lambda>xs. grp @ of_nat i # xs)" for i :: nat by (simp add: fun_eq_iff)
    have d: "drop pos numType = numType ! pos # drop (pos + 1) numType" using False "1.prems" by (simp add: Cons_nth_drop_Suc)
    have "AllPossibleGroups numType grp pos groups =
        fold_res (\<lambda>i groups. AllPossibleGroups numType (grp @ [of_nat i]) (pos + 1) groups) [0..<nat (sint (numType ! pos))] groups"
      using False "1.prems" by (subst AllPossibleGroups.simps) simp
    also have "\<dots> = Inr (groups @ concat (map (\<lambda>i. map ((@) (grp @ [of_nat i])) ?rest) [0..<nat (sint (numType ! pos))]))"
      using False "1.prems" by (intro fold_res_appends "1.IH") simp_all
    also have "concat (map (\<lambda>i. map ((@) (grp @ [of_nat i])) ?rest) [0..<nat (sint (numType ! pos))]) =
        map ((@) grp) (product_lists (map (\<lambda>n. map of_nat [0..<nat (sint n)]) (drop pos numType)))"
      unfolding d ext by (simp add: map_concat comp_def)
    finally show ?thesis .
  qed
qed

section \<open>Generated responses\<close>

text \<open>random: the argument rnd stands for what rand yields; Intn panics for a bound that is not positive.\<close>

definition random_int :: "nat \<Rightarrow> int \<Rightarrow> int \<Rightarrow> int res" where
  "random_int rnd lo hi = (if hi - lo \<le> 0 then Inl Panic else Inr (int rnd mod (hi - lo) + lo))"

definition randomFillInt64Slice :: "(nat \<Rightarrow> nat) \<Rightarrow> int64 list \<Rightarrow> int64 \<Rightarrow> int64 list res" where
  "randomFillInt64Slice rnd s hi = traverse (\<lambda>i. andThen (random_int (rnd i) 0 (sint hi)) (\<lambda>r. Inr (word_of_int r))) [0..<length s]"

definition CreateInt64Slice :: "(nat \<Rightarrow> nat) \<Rightarrow> int64 \<Rightarrow> int64 \<Rightarrow> int64 \<Rightarrow> int64 list res" where
  "CreateInt64Slice rnd len lo hi =
     (if sint len < 0 then Inl Panic
      else traverse (\<lambda>i. andThen (random_int (rnd i) (sint lo) (sint hi)) (\<lambda>r. Inr (word_of_int r))) [0..<nat (sint len)])"

definition make_slice :: "int64 \<Rightarrow> int64 list res" where
  "make_slice n = (if sint n < 0 then Inl Panic else Inr (replicate (nat (sint n)) 0))"

definition slice64 :: "'a list \<Rightarrow> int64 \<Rightarrow> int64 \<Rightarrow> 'a list res" where
  "slice64 xs lo hi = (if sint lo < 0 \<or> sint hi < 0 then Inl Panic else slice xs (nat (sint lo)) (nat (sint hi)))"

record data_sizes =
  numGroupsClear :: int64
  numGroupsEnc :: int64
  numWhereClear :: int64
  numWhereEnc :: int64
  numAggrClear :: int64
  numAggrEnc :: int64

text \<open>
  Entry j of a provider. The variable groups that the loop reads is declared after the branch that
  fills a variable of the same name, and stays empty.
\<close>

definition generate_entry :: "(nat \<Rightarrow> nat) \<Rightarrow> (nat \<Rightarrow> nat) \<Rightarrow> data_sizes \<Rightarrow> int64 \<Rightarrow> int64 list \<Rightarrow> bool \<Rightarrow> int64 list list \<Rightarrow> nat \<Rightarrow> DpClearResponse res" where
  "generate_entry pickAggr pickGroup n numEntriesFiltered numType randomGroups groups j =
     andThen (make_slice (numAggrEnc n + numAggrClear n)) (\<lambda>aggr0.
     andThen (randomFillInt64Slice pickAggr aggr0 2) (\<lambda>aggr.
     andThen (make_slice (numGroupsClear n + numGroupsEnc n)) (\<lambda>grp0.
     andThen (make_slice (numWhereClear n + numWhereEnc n)) (\<lambda>where0.
     let whr = FillInt64Slice where0 (if int j < sint numEntriesFiltered then 1 else 0) in
     andThen (if randomGroups
              then traverse (\<lambda>k. andThen (index_at numType k) (\<lambda>t.
                andThen (random_int (pickGroup k) 0 (sint t)) (\<lambda>r. Inr (word_of_int r)))) [0..<length grp0]
              else index_at groups j) (\<lambda>grp.
     andThen (slice64 grp 0 (numGroupsClear n)) (\<lambda>gc.
     andThen (slice64 grp (numGroupsClear n) (numGroupsClear n + numGroupsEnc n)) (\<lambda>ge.
     andThen (slice64 whr 0 (numWhereClear n)) (\<lambda>wc.
     andThen (slice64 whr (numWhereClear n) (numWhereClear n + numWhereEnc n)) (\<lambda>we.
     andThen (slice64 aggr 0 (numAggrClear n)) (\<lambda>ac.
     andThen (slice64 aggr (numAggrClear n) (numAggrClear n + numAggrEnc n)) (\<lambda>ae.
     Inr \<lparr>WhereClear = ConvertDataToMap wc ''w'' 0, WhereEnc = ConvertDataToMap we ''w'' (numWhereClear n),
          GroupByClear = ConvertDataToMap gc ''g'' 0, GroupByEnc = ConvertDataToMap ge ''g'' (numGroupsClear n),
          AggregatingAttributesClear = ConvertDataToMap ac ''s'' 0,
          AggregatingAttributesEnc = ConvertDataToMap ae ''s'' (numAggrClear n)\<rparr>)))))))))))"

definition GenerateData :: "(nat \<Rightarrow> nat \<Rightarrow> nat \<Rightarrow> nat) \<Rightarrow> (nat \<Rightarrow> nat \<Rightarrow> nat \<Rightarrow> nat) \<Rightarrow> int64 \<Rightarrow> int64 \<Rightarrow> int64 \<Rightarrow> data_sizes \<Rightarrow> int64 list \<Rightarrow> bool
    \<Rightarrow> (string \<rightharpoonup> DpClearResponse list) res" where
  "GenerateData pickAggr pickGroup numDPs numEntries numEntriesFiltered n numType randomGroups =
     (if of_nat (length numType) \<noteq> numGroupsClear n + numGroupsEnc n
      then Inl (Err ''specify the correct number of grp types for each grouping attribute'')
      else andThen (if \<not> randomGroups
                    then if fold (\<lambda>el numElem. numElem * el) numType 1 = numEntries
                         then andThen (AllPossibleGroups numType [] 0 []) (\<lambda>groups. Inr ())
                         else Inl (Err ''the number of groups is different from the number of entries'')
                    else Inr ()) (\<lambda>_.
           let groups = [] in
           andThen (traverse (\<lambda>i.
               if sint numEntries < 0 then Inl Panic
               else andThen (traverse (\<lambda>j. generate_entry (pickAggr i j) (pickGroup i j) n numEntriesFiltered numType randomGroups groups j)
                      [0..<nat (sint numEntries)]) (\<lambda>dpData. Inr (Itoa (of_nat i), dpData))) [0..<nat (sint numDPs)]) (\<lambda>es.
           Inr (map_of (rev es)))))"

section \<open>Rows of the generated data\<close>

definition lengths_sizes :: "nat \<times> nat \<times> nat \<times> nat \<times> nat \<times> nat \<Rightarrow> data_sizes" where
  "lengths_sizes shape = (let (gc, ge, wc, we, ac, ae) = shape in
    \<lparr>numGroupsClear = of_nat gc, numGroupsEnc = of_nat ge, numWhereClear = of_nat wc, numWhereEnc = of_nat we,
     numAggrClear = of_nat ac, numAggrEnc = of_nat ae\<rparr>)"

text \<open>A row of the test data: groups of the types, conditions that are all x, and attributes that are 0 or 1.\<close>

definition generated_row :: "nat \<times> nat \<times> nat \<times> nat \<times> nat \<times> nat \<Rightarrow> int64 list \<Rightarrow> int64 \<Rightarrow> clear_row \<Rightarrow> bool" where
  "generated_row shape numType x row \<longleftrightarrow> row_shape row = shape \<and>
     list_all2 (\<lambda>g t. 0 \<le> sint g \<and> sint g < sint t) (groups_clear row @ groups_enc row) numType \<and>
     (\<forall>c\<in>set (row_conditions row). c = x) \<and> (\<forall>v\<in>set (row_sums row). v = 0 \<or> v = 1)"

lemma sint_of_nat: "n < 2 ^ 62 \<Longrightarrow> sint (of_nat n :: int64) = int n"
  using small_sint [of "int n"] by simp

text \<open>The names of the providers are different.\<close>

lemma provider_keys:
  assumes "dps < 2 ^ 61"
  shows "inj_on (\<lambda>i. Itoa (of_nat i)) {0..<dps}"
proof (rule inj_onI)
  fix i j assume ij: "i \<in> {0..<dps}" "j \<in> {0..<dps}" and eq: "Itoa (of_nat i) = Itoa (of_nat j)"
  have "sint (of_nat i :: int64) = int i" "sint (of_nat j :: int64) = int j" using ij assms by (simp_all add: sint_of_nat)
  with eq show "i = j" by (metis Itoa_inject of_nat_eq_iff)
qed

lemma make_slice_of_nat [simp]: "n < 2 ^ 62 \<Longrightarrow> make_slice (of_nat n) = Inr (replicate n 0)"
  by (simp add: make_slice_def sint_of_nat)

lemma slice64_of_nat: "lo < 2 ^ 62 \<Longrightarrow> hi < 2 ^ 62 \<Longrightarrow> slice64 xs (of_nat lo) (of_nat hi) = slice xs lo hi"
  by (simp add: slice64_def sint_of_nat)

lemma random_bits: "\<exists>aggr. randomFillInt64Slice rnd s 2 = Inr aggr \<and> length aggr = length s \<and> (\<forall>v\<in>set aggr. v = 0 \<or> v = 1)"
proof -
  have "\<exists>v :: int64. andThen (random_int r 0 (sint (2 :: int64))) (\<lambda>r. Inr (word_of_int r)) = Inr v \<and> (v = 0 \<or> v = 1)" for r
  proof -
    have "int r mod 2 = 0 \<or> int r mod 2 = 1" by auto
    then show ?thesis by (auto simp: random_int_def)
  qed
  then have "\<forall>i\<in>set [0..<length s]. \<exists>v :: int64. andThen (random_int (rnd i) 0 (sint (2 :: int64))) (\<lambda>r. Inr (word_of_int r)) = Inr (id v) \<and> (v = 0 \<or> v = 1)"
    by simp
  from traverse_exists [OF this] show ?thesis
    by (fastforce simp: randomFillInt64Slice_def list_all2_conv_all_nth in_set_conv_nth)
qed

lemma random_groups:
  fixes numType :: "int64 list"
  assumes "\<forall>t\<in>set numType. 0 < sint t"
  shows "\<exists>grp. traverse (\<lambda>k. andThen (index_at numType k) (\<lambda>t. andThen (random_int (pick k) 0 (sint t)) (\<lambda>r. Inr (word_of_int r)))) [0..<length numType] =
      Inr grp \<and> list_all2 (\<lambda>g t. 0 \<le> sint g \<and> sint g < sint t) (grp :: int64 list) numType"
proof -
  have "\<exists>g :: int64. andThen (index_at numType k) (\<lambda>t. andThen (random_int (pick k) 0 (sint t)) (\<lambda>r. Inr (word_of_int r))) = Inr (id g) \<and>
      0 \<le> sint g \<and> sint g < sint (numType ! k)" if "k \<in> set [0..<length numType]" for k
  proof -
    let ?t = "sint (numType ! k)" and ?r = "int (pick k) mod sint (numType ! k)"
    have t: "0 < ?t" "k < length numType" using assms that by auto
    then have r: "0 \<le> ?r" "?r < ?t" by simp_all
    have "?t < 2 ^ 63" using sint_range_size [of "numType ! k"] by (simp add: word_size)
    then have "sint (word_of_int ?r :: int64) = ?r"
      using r signed_of_int [where ?'a = int and ?'b = 64, of ?r] by (simp add: signed_take_bit_int_eq_self)
    then show ?thesis using r t by (intro exI [of _ "word_of_int ?r"]) (simp add: random_int_def)
  qed
  then have "\<forall>k\<in>set [0..<length numType]. \<exists>g :: int64. andThen (index_at numType k) (\<lambda>t. andThen (random_int (pick k) 0 (sint t)) (\<lambda>r. Inr (word_of_int r))) = Inr (id g) \<and>
      0 \<le> sint g \<and> sint g < sint (numType ! k)" by blast
  from traverse_exists [OF this] show ?thesis by (fastforce simp: list_all2_conv_all_nth)
qed

lemma generate_entry_row:
  assumes "list_all (\<lambda>n. n < 2 ^ 61) [gc, ge, wc, we, ac, ae]" and "length numType = gc + ge" and "\<forall>t\<in>set numType. 0 < sint t"
  shows "\<exists>row. generate_entry pickAggr pickGroup (lengths_sizes (gc, ge, wc, we, ac, ae)) numEntriesFiltered numType True groups j = Inr (clear_response row) \<and>
    generated_row (gc, ge, wc, we, ac, ae) numType (if int j < sint numEntriesFiltered then 1 else 0) row"
proof -
  obtain aggr where aggr: "randomFillInt64Slice pickAggr (replicate (ae + ac) 0) 2 = Inr aggr" "length aggr = ae + ac" "\<forall>v\<in>set aggr. v = 0 \<or> v = 1"
    using random_bits [of pickAggr "replicate (ae + ac) 0"] by auto
  obtain grp :: "int64 list" where grp: "traverse (\<lambda>k. andThen (index_at numType k) (\<lambda>t. andThen (random_int (pickGroup k) 0 (sint t)) (\<lambda>r. Inr (word_of_int r)))) [0..<gc + ge] = Inr grp"
      "list_all2 (\<lambda>g t. 0 \<le> sint g \<and> sint g < sint t) grp numType"
    using random_groups [OF assms(3), of pickGroup] assms(2) by auto
  have lg: "length grp = gc + ge" using grp(2) assms(2) by (auto dest: list_all2_lengthD)
  define x :: int64 where "x = (if int j < sint numEntriesFiltered then 1 else 0)"
  let ?row = "\<lparr>groups_clear = take gc grp, groups_enc = drop gc grp, where_clear = replicate wc x, where_enc = replicate we x,
      sums_clear = take ac aggr, sums_enc = drop ac aggr\<rparr>"
  have mk: "make_slice (of_nat a + of_nat b) = Inr (replicate (a + b) 0)" and sl: "slice64 xs (of_nat a) (of_nat a + of_nat b) = slice xs a (a + b)"
    if "a < 2 ^ 61" "b < 2 ^ 61" for a b and xs :: "int64 list"
    using that make_slice_of_nat [of "a + b"] slice64_of_nat [of a "a + b" xs] by simp_all
  have s0: "slice64 xs 0 (of_nat a) = slice xs 0 a" if "a < 2 ^ 61" for a and xs :: "int64 list"
    using that slice64_of_nat [of 0 a xs] by simp
  have fill: "FillInt64Slice (replicate (wc + we) 0) x = replicate (wc + we) x" by (simp add: FillInt64Slice_def map_replicate_const)
  have "generate_entry pickAggr pickGroup (lengths_sizes (gc, ge, wc, we, ac, ae)) numEntriesFiltered numType True groups j = Inr (clear_response ?row)"
    using assms(1) aggr(1,2) grp(1) lg
    by (simp add: generate_entry_def lengths_sizes_def mk sl s0 x_def [symmetric] fill slice_def clear_response_def Let_def del: upt_Suc)
  moreover have "generated_row (gc, ge, wc, we, ac, ae) numType x ?row"
    using aggr(2,3) grp(2) lg by (auto simp: generated_row_def row_shape_def row_conditions_def row_sums_def)
  ultimately show ?thesis unfolding x_def by blast
qed

lemma generate_entry_no_groups:
  assumes "list_all (\<lambda>n. n < 2 ^ 61) [gc, ge, wc, we, ac, ae]"
  shows "generate_entry pickAggr pickGroup (lengths_sizes (gc, ge, wc, we, ac, ae)) numEntriesFiltered numType False [] j = Inl Panic"
proof -
  have mk: "make_slice (of_nat a + of_nat b) = Inr (replicate (a + b) 0)" if "a < 2 ^ 61" "b < 2 ^ 61" for a b
    using that make_slice_of_nat [of "a + b"] by simp
  obtain aggr where "randomFillInt64Slice pickAggr (replicate (ae + ac) 0) 2 = Inr aggr" using random_bits by blast
  then show ?thesis using assms by (simp add: generate_entry_def lengths_sizes_def mk Let_def index_at_def)
qed

lemma below_type: "distinct (map of_nat [0..<nat (sint t)] :: int64 list)" "x \<in> set (map of_nat [0..<nat (sint t)]) \<longleftrightarrow> 0 \<le> sint x \<and> sint x < sint t"
  for t x :: int64
proof -
  have t: "sint t < 2 ^ 63" using sint_range_size [of t] by (simp add: word_size)
  have s: "sint (of_nat i :: int64) = int i" if "i < nat (sint t)" for i
    using t that signed_of_int [where ?'a = int and ?'b = 64, of "int i"] by (simp add: signed_take_bit_int_eq_self)
  have "inj_on (\<lambda>i. of_nat i :: int64) {0..<nat (sint t)}"
  proof (rule inj_onI)
    fix i j assume "i \<in> {0..<nat (sint t)}" "j \<in> {0..<nat (sint t)}" and eq: "(of_nat i :: int64) = of_nat j"
    then have "int i = int j" using s [of i] s [of j] by (simp only: eq atLeastLessThan_iff)
    then show "i = j" by simp
  qed
  then show "distinct (map of_nat [0..<nat (sint t)] :: int64 list)" by (simp only: distinct_map distinct_upt set_upt simp_thms)
  show "x \<in> set (map of_nat [0..<nat (sint t)]) \<longleftrightarrow> 0 \<le> sint x \<and> sint x < sint t"
  proof
    assume "0 \<le> sint x \<and> sint x < sint t"
    then have "nat (sint x) < nat (sint t)" "of_nat (nat (sint x)) = x" by auto
    then show "x \<in> set (map of_nat [0..<nat (sint t)])" by (metis atLeastLessThan_iff image_eqI le0 list.set_map set_upt)
  qed (use s in auto)
qed

lemma length_product_lists: "length (product_lists xss) = (\<Prod>xs\<leftarrow>xss. length xs)"
  by (induction xss) (simp_all add: length_concat comp_def sum_list_triv)

lemma generated_rows:
  assumes "shape = (gc, ge, wc, we, ac, ae)" and "list_all (\<lambda>n. n < 2 ^ 61) [gc, ge, wc, we, ac, ae, dps, entries, wanted]"
    and "length numType = gc + ge" and "\<forall>t\<in>set numType. 0 < sint t"
  shows "(\<exists>rows. GenerateData pickAggr pickGroup (of_nat dps) (of_nat entries) (of_nat wanted) (lengths_sizes shape) numType True =
      Inr (map_of (map (\<lambda>i. (Itoa (of_nat i), map (\<lambda>j. clear_response (rows i j)) [0..<entries])) [0..<dps])) \<and>
      (\<forall>i < dps. \<forall>j < entries. generated_row shape numType (if j < wanted then 1 else 0) (rows i j))) \<and>
    (0 < dps \<and> 0 < entries \<longrightarrow>
      GenerateData pickAggr pickGroup (of_nat dps) (of_nat entries) (of_nat wanted) (lengths_sizes shape) numType False =
        Inl (if fold (\<lambda>el numElem. numElem * el) numType 1 = of_nat entries then Panic
             else Err ''the number of groups is different from the number of entries''))"
proof -
  have nm: "of_nat (length numType) = numGroupsClear (lengths_sizes shape) + numGroupsEnc (lengths_sizes shape)"
    using assms(1,3) by (simp add: lengths_sizes_def)
  have sizes: "list_all (\<lambda>n. n < 2 ^ 61) [gc, ge, wc, we, ac, ae]" using assms(2) by simp
  have b: "sint (of_nat dps :: int64) = int dps" "sint (of_nat entries :: int64) = int entries" "sint (of_nat wanted :: int64) = int wanted"
    using assms(2) by (simp_all add: sint_of_nat)
  have "\<forall>i j. \<exists>row. generate_entry (pickAggr i j) (pickGroup i j) (lengths_sizes shape) (of_nat wanted) numType True [] j = Inr (clear_response row) \<and>
      generated_row shape numType (if j < wanted then 1 else 0) row"
    using generate_entry_row [OF sizes assms(3,4), where numEntriesFiltered = "of_nat wanted"] unfolding assms(1) b of_nat_less_iff by blast
  then obtain rows where rows: "\<And>i j. generate_entry (pickAggr i j) (pickGroup i j) (lengths_sizes shape) (of_nat wanted) numType True [] j = Inr (clear_response (rows i j))"
      "\<And>i j. generated_row shape numType (if j < wanted then 1 else 0) (rows i j)" by metis
  have keys: "inj_on (\<lambda>i. Itoa (of_nat i)) {0..<dps}" using assms(2) by (intro provider_keys) simp
  let ?es = "map (\<lambda>i. (Itoa (of_nat i), map (\<lambda>j. clear_response (rows i j)) [0..<entries])) [0..<dps]"
  have "distinct (map fst ?es)" using keys by (simp add: comp_def distinct_map)
  then have rev: "map_of (rev ?es) = map_of ?es" by (rule map_of_rev)
  have run: "GenerateData pickAggr pickGroup (of_nat dps) (of_nat entries) (of_nat wanted) (lengths_sizes shape) numType True = Inr (map_of ?es)"
  proof -
    have "traverse (\<lambda>j. generate_entry (pickAggr i j) (pickGroup i j) (lengths_sizes shape) (of_nat wanted) numType True [] j) [0..<entries] =
        Inr (map (\<lambda>j. clear_response (rows i j)) [0..<entries])" for i
      by (rule traverse_Inr_map) (rule rows(1))
    then show ?thesis using nm by (simp add: GenerateData_def b Let_def rev [symmetric])
  qed
  moreover have "GenerateData pickAggr pickGroup (of_nat dps) (of_nat entries) (of_nat wanted) (lengths_sizes shape) numType False =
      Inl (if fold (\<lambda>el numElem. numElem * el) numType 1 = of_nat entries then Panic
           else Err ''the number of groups is different from the number of entries'')" if "0 < dps" "0 < entries"
  proof -
    have "[0..<dps] = 0 # [1..<dps]" "[0..<entries] = 0 # [1..<entries]" using that by (simp_all add: upt_conv_Cons)
    then show ?thesis
      using nm AllPossibleGroups_from [of 0 numType "[]" "[]"] generate_entry_no_groups [OF sizes]
      by (simp add: GenerateData_def b assms(1))
  qed
  ultimately show ?thesis using rows(2) by blast
qed

section \<open>Properties\<close>

text \<open>
  C38. AllPossibleGroups ends and enumerates, without repetition, exactly the vectors of groups in
  which every component is at least 0 and less than the number of groups of its type; their number
  is the product of the numbers of groups.
\<close>

theorem all_groups_enumerated:
  "\<exists>groups. AllPossibleGroups numType [] 0 [] = Inr groups \<and> distinct groups \<and>
     set groups = {g. list_all2 (\<lambda>x t. 0 \<le> sint x \<and> sint x < sint t) g numType} \<and> length groups = (\<Prod>t\<leftarrow>numType. nat (sint t))"
proof (intro exI conjI)
  let ?groups = "product_lists (map (\<lambda>n. map of_nat [0..<nat (sint n)]) numType) :: int64 list list"
  have "(@) [] = (\<lambda>xs :: int64 list. xs)" by (simp add: fun_eq_iff)
  then show "AllPossibleGroups numType [] 0 [] = Inr ?groups" using AllPossibleGroups_from [of 0 numType "[]" "[]"] by simp
  show "distinct ?groups" by (rule distinct_product_lists) (auto simp: below_type(1) simp del: distinct_map)
  show "set ?groups = {g. list_all2 (\<lambda>x t. 0 \<le> sint x \<and> sint x < sint t) g numType}"
    unfolding product_lists_set list_all2_map2 below_type(2) ..
  show "length ?groups = (\<Prod>t\<leftarrow>numType. nat (sint t))" by (simp add: length_product_lists comp_def)
qed

text \<open>
  C37. GenerateData with random groups gives every data provider the number of entries asked for, each
  of the shape asked for: its groups are below the number of groups of their types, its attributes
  are 0 or 1, and its conditions are all 1 for the first numEntriesFiltered entries and all 0
  for the others. Without random groups and with at least one provider and one entry it panics when
  the number of entries is right, because the groups that it enumerates are lost, and returns an error otherwise.
\<close>

theorem generated_data:
  assumes "shape = (gc, ge, wc, we, ac, ae)" and "list_all (\<lambda>n. n < 2 ^ 61) [gc, ge, wc, we, ac, ae, dps, entries, wanted]"
    and "length numType = gc + ge" and "\<forall>t\<in>set numType. 0 < sint t"
  shows "(\<exists>rows. GenerateData pickAggr pickGroup (of_nat dps) (of_nat entries) (of_nat wanted) (lengths_sizes shape) numType True =
      Inr (map_of (map (\<lambda>i. (Itoa (of_nat i), map (\<lambda>j. clear_response (rows i j)) [0..<entries])) [0..<dps])) \<and>
      (\<forall>i < dps. \<forall>j < entries. generated_row shape numType (if j < wanted then 1 else 0) (rows i j))) \<and>
    (0 < dps \<and> 0 < entries \<longrightarrow>
      GenerateData pickAggr pickGroup (of_nat dps) (of_nat entries) (of_nat wanted) (lengths_sizes shape) numType False =
        Inl (if fold (\<lambda>el numElem. numElem * el) numType 1 = of_nat entries then Panic
             else Err ''the number of groups is different from the number of entries''))"
  by (rule generated_rows [OF assms])

theorem generated_data_witness:
  "\<forall>pickAggr pickGroup.
    (\<exists>rows. GenerateData pickAggr pickGroup 2 6 3 (lengths_sizes (1, 1, 0, 1, 0, 2)) [2, 3] True =
      Inr (map_of (map (\<lambda>i. (Itoa (of_nat i), map (\<lambda>j. clear_response (rows i j)) [0..<6])) [0..<2])) \<and>
      generated_row (1, 1, 0, 1, 0, 2) [2, 3] 1 (rows 1 2) \<and> generated_row (1, 1, 0, 1, 0, 2) [2, 3] 0 (rows 1 3)) \<and>
    GenerateData pickAggr pickGroup 2 6 3 (lengths_sizes (1, 1, 0, 1, 0, 2)) [2, 3] False = Inl Panic"
proof (intro allI conjI)
  fix pickAggr pickGroup
  have sizes: "list_all (\<lambda>n. n < 2 ^ 61) [1, 1, 0, 1, 0, 2, 2, 6, 3 :: nat]" by simp
  note run = generated_data [OF refl sizes, of "[2, 3]" pickAggr pickGroup]
  from run obtain rows where r: "GenerateData pickAggr pickGroup (of_nat 2) (of_nat 6) (of_nat 3) (lengths_sizes (1, 1, 0, 1, 0, 2)) [2, 3] True =
      Inr (map_of (map (\<lambda>i. (Itoa (of_nat i), map (\<lambda>j. clear_response (rows i j)) [0..<6])) [0..<2]))"
    "\<forall>i < 2. \<forall>j < 6. generated_row (1, 1, 0, 1, 0, 2) [2, 3] (if j < 3 then 1 else 0) (rows i j)"
    by force
  have "generated_row (1, 1, 0, 1, 0, 2) [2, 3] 1 (rows 1 2)" "generated_row (1, 1, 0, 1, 0, 2) [2, 3] 0 (rows 1 3)"
    using r(2) [rule_format, of 1 2] r(2) [rule_format, of 1 3] by simp_all
  with r(1) show "\<exists>rows. GenerateData pickAggr pickGroup 2 6 3 (lengths_sizes (1, 1, 0, 1, 0, 2)) [2, 3] True =
      Inr (map_of (map (\<lambda>i. (Itoa (of_nat i), map (\<lambda>j. clear_response (rows i j)) [0..<6])) [0..<2])) \<and>
      generated_row (1, 1, 0, 1, 0, 2) [2, 3] 1 (rows 1 2) \<and> generated_row (1, 1, 0, 1, 0, 2) [2, 3] 0 (rows 1 3)"
    by (intro exI [of _ rows]) (simp del: upt_rec_numeral)
  from run show "GenerateData pickAggr pickGroup 2 6 3 (lengths_sizes (1, 1, 0, 1, 0, 2)) [2, 3] False = Inl Panic"
    by simp
qed

end
