(* ===== verification/TestDataFile.thy ===== *)
theory TestDataFile
  imports ClearReference
begin

text \<open>
  The text file of data/handle_data.go in which the responses of the data providers are kept:
  WriteDataToFile and ReadDataFromFile on its contents. Creating, opening and closing the file is
  left to the caller; the lines of bufio.Scanner are written out.
\<close>

section \<open>Writing\<close>

definition newline :: char where
  "newline = CHR 0x0A"

definition flushInt64Data :: "int64 list \<Rightarrow> string" where
  "flushInt64Data xs = concat (map (\<lambda>g. Itoa g @ '' '') xs) @ [newline]"

definition write_entry :: "DpClearResponse \<Rightarrow> string" where
  "write_entry entry = (let row = response_data entry in
     flushInt64Data (groups_clear row) @ flushInt64Data (groups_enc row) @ flushInt64Data (where_clear row) @
     flushInt64Data (where_enc row) @ flushInt64Data (sums_clear row) @ flushInt64Data (sums_enc row))"

definition WriteDataToFile :: "((string \<rightharpoonup> DpClearResponse list) \<Rightarrow> (string \<times> DpClearResponse list) list) \<Rightarrow> (string \<rightharpoonup> DpClearResponse list) \<Rightarrow> string" where
  "WriteDataToFile visit testData =
     concat (map (\<lambda>(k, v). ''#'' @ k @ [newline] @ concat (map write_entry v)) (visit testData))"

section \<open>Reading\<close>

text \<open>
  The lines of bufio.ScanLines: the text after the last newline is a line only if it is not empty, and a
  carriage return at the end of a line is dropped. A line that does not fit the buffer of 64 kB
  stops the scanner with an error; after the end, Text returns the empty string.
\<close>

definition raw_lines :: "string \<Rightarrow> string list" where
  "raw_lines text = (let ls = Split newline text in if last ls = [] then butlast ls else ls)"

definition drop_cr :: "string \<Rightarrow> string" where
  "drop_cr line = (if line \<noteq> [] \<and> last line = CHR 0x0D then butlast line else line)"

definition scan_lines :: "string \<Rightarrow> string list \<times> bool" where
  "scan_lines text =
     (let raw = raw_lines text; good = takeWhile (\<lambda>line. length line < 65536) raw
      in (map drop_cr good, length good < length raw))"

definition nth_line :: "string list \<Rightarrow> nat \<Rightarrow> string" where
  "nth_line rest i = (if i < length rest then rest ! i else [])"

definition parse_line :: "string \<Rightarrow> int64 list" where
  "parse_line line = StringToInt64Array (butlast line)"

definition read_entry :: "string \<Rightarrow> string list \<Rightarrow> DpClearResponse" where
  "read_entry line rest = clear_response
     \<lparr>groups_clear = parse_line line, groups_enc = parse_line (nth_line rest 0), where_clear = parse_line (nth_line rest 1),
      where_enc = parse_line (nth_line rest 2), sums_clear = parse_line (nth_line rest 3), sums_enc = parse_line (nth_line rest 4)\<rparr>"

function read_lines :: "string list \<Rightarrow> string \<Rightarrow> bool \<Rightarrow> DpClearResponse list \<Rightarrow> (string \<rightharpoonup> DpClearResponse list) \<Rightarrow> (string \<rightharpoonup> DpClearResponse list)" where
  "read_lines [] uid dataIn container testData = testData(uid \<mapsto> container)"
| "read_lines (line # rest) uid dataIn container testData =
     (if 0 < length line \<and> line ! 0 = CHR ''#''
      then read_lines rest (tl line) True (if dataIn then [] else container) (if dataIn then testData(uid \<mapsto> container) else testData)
      else read_lines (drop 5 rest) uid dataIn (container @ [read_entry line rest]) testData)"
  by pat_completeness auto
termination by (relation "measure (\<lambda>(ls, _). length ls)") auto

text \<open>The contents are an error when the file cannot be opened.\<close>

definition ReadDataFromFile :: "string res \<Rightarrow> (string \<rightharpoonup> DpClearResponse list) res" where
  "ReadDataFromFile contents =
     andThen contents (\<lambda>text.
     let (ls, tooLong) = scan_lines text; testData = read_lines ls [] False [] Map.empty in
     if tooLong then Inl (Err ''bufio.Scanner: token too long'') else Inr testData)"

section \<open>The lines of a file\<close>

definition row_lines :: "clear_row \<Rightarrow> string list" where
  "row_lines row = map Int64ArrayToString
     [groups_clear row, groups_enc row, where_clear row, where_enc row, sums_clear row, sums_enc row]"

definition provider_lines :: "string \<times> clear_row list \<Rightarrow> string list" where
  "provider_lines p = (''#'' @ fst p) # concat (map row_lines (snd p))"

definition file_lines :: "(string \<times> clear_row list) list \<Rightarrow> string list" where
  "file_lines es = concat (map provider_lines es)"

abbreviation end_line :: "string \<Rightarrow> string" where
  "end_line l \<equiv> l @ [newline]"

lemma write_entry_row: "fits row \<Longrightarrow> write_entry (clear_response row) = concat (map end_line (row_lines row))"
  by (simp add: write_entry_def flushInt64Data_def row_lines_def Int64ArrayToString_eq)

lemma write_entries: "\<forall>row\<in>set rows. fits row \<Longrightarrow>
  concat (map write_entry (map clear_response rows)) = concat (map end_line (concat (map row_lines rows)))"
  by (induction rows) (simp_all add: write_entry_row)

lemma WriteDataToFile_lines:
  assumes "visit testData = map (\<lambda>(k, rows). (k, map clear_response rows)) es" and "\<forall>(k, rows)\<in>set es. \<forall>row\<in>set rows. fits row"
  shows "WriteDataToFile visit testData = concat (map end_line (file_lines es))"
proof -
  have "concat (map (\<lambda>(k, v). ''#'' @ k @ [newline] @ concat (map write_entry v)) (map (\<lambda>(k, rows). (k, map clear_response rows)) es)) =
      concat (map end_line (file_lines es))"
    using assms(2)
  proof (induction es)
    case (Cons e es)
    then show ?case using write_entries [of "snd e"] by (auto simp: file_lines_def provider_lines_def)
  qed (simp add: file_lines_def)
  with assms(1) show ?thesis by (simp add: WriteDataToFile_def)
qed

lemma Split_end_lines: "\<forall>l\<in>set ls. newline \<notin> set l \<Longrightarrow> Split newline (concat (map end_line ls)) = ls @ [[]]"
  by (induction ls) (simp_all add: Split_word)

text \<open>Lines that the scanner gives back as they are.\<close>

definition clean_line :: "string \<Rightarrow> bool" where
  "clean_line l \<longleftrightarrow> newline \<notin> set l \<and> (l \<noteq> [] \<longrightarrow> last l \<noteq> CHR 0x0D) \<and> length l < 65536"

lemma scan_lines_clean: "\<forall>l\<in>set ls. clean_line l \<Longrightarrow> scan_lines (concat (map end_line ls)) = (ls, False)"
proof -
  assume c: "\<forall>l\<in>set ls. clean_line l"
  then have "raw_lines (concat (map end_line ls)) = ls" by (simp add: raw_lines_def Split_end_lines clean_line_def)
  moreover have "takeWhile (\<lambda>line. length line < 65536) ls = ls"
    using c unfolding takeWhile_eq_all_conv clean_line_def by blast
  moreover have "map drop_cr ls = ls" using c by (intro map_idI) (auto simp: drop_cr_def clean_line_def)
  ultimately show ?thesis by (simp only: scan_lines_def Let_def less_irrefl)
qed

lemma parse_line_array [simp]: "parse_line (Int64ArrayToString xs) = xs"
  by (cases "xs = []") (simp add: parse_line_def StringToInt64Array_def Int64ArrayToString_eq, simp add: parse_line_def)

text \<open>The characters of the lines that hold integers.\<close>

definition is_plain :: "char \<Rightarrow> bool" where
  "is_plain c \<longleftrightarrow> c = CHR '' '' \<or> c = CHR ''-'' \<or> digit_value c \<noteq> None"

lemma array_plain: "c \<in> set (Int64ArrayToString xs) \<Longrightarrow> is_plain c"
proof -
  have "is_plain c" if "c \<in> set (dec n)" for c n using set_dec [OF that] by (auto simp: is_plain_def)
  then have "is_plain c" if "c \<in> set (Itoa i)" for c i using that by (auto simp: Itoa_def is_plain_def split: if_splits)
  then show "c \<in> set (Int64ArrayToString xs) \<Longrightarrow> is_plain c" by (auto simp: Int64ArrayToString_eq is_plain_def split: if_splits)
qed

lemma not_plain: "\<not> is_plain (CHR ''#'')" "\<not> is_plain newline" "\<not> is_plain (CHR 0x0D)"
  by (simp_all add: is_plain_def digit_value_def newline_def)

lemma clean_row: "l \<in> set (row_lines row) \<Longrightarrow> length l < 65536 \<Longrightarrow> clean_line l"
proof -
  assume "l \<in> set (row_lines row)" "length l < 65536"
  then obtain xs where "l = Int64ArrayToString xs" "length l < 65536" by (auto simp: row_lines_def)
  then show ?thesis unfolding clean_line_def using array_plain not_plain(2,3) last_in_set by metis
qed

lemma read_lines_row:
  "read_lines (row_lines row @ rest) uid dataIn container testData = read_lines rest uid dataIn (container @ [clear_response row]) testData"
proof -
  let ?line = "Int64ArrayToString (groups_clear row)"
  have "\<not> (0 < length ?line \<and> ?line ! 0 = CHR ''#'')" using array_plain [of "?line ! 0"] not_plain(1) by (metis nth_mem)
  then have "read_lines (?line # ls) uid dataIn container testData = read_lines (drop 5 ls) uid dataIn (container @ [read_entry ?line ls]) testData" for ls
    by (simp only: read_lines.simps(2) if_False)
  then show ?thesis by (cases row) (simp add: row_lines_def read_entry_def nth_line_def del: read_lines.simps)
qed

lemma read_lines_rows:
  "read_lines (concat (map row_lines rows) @ rest) uid dataIn container testData =
   read_lines rest uid dataIn (container @ map clear_response rows) testData"
  by (induction rows arbitrary: container) (simp_all add: read_lines_row)

lemma read_lines_provider:
  "read_lines (provider_lines (k, rows) @ rest) uid dataIn container testData =
   read_lines rest k True ((if dataIn then [] else container) @ map clear_response rows) (if dataIn then testData(uid \<mapsto> container) else testData)"
  by (simp add: provider_lines_def read_lines_rows)

lemma read_lines_providers:
  "read_lines (file_lines es) uid True container testData = (testData(uid \<mapsto> container)) ++ map_of (rev (map (\<lambda>(k, rows). (k, map clear_response rows)) es))"
proof (induction es arbitrary: uid container testData)
  case (Cons e es)
  then show ?case by (cases e) (simp add: file_lines_def read_lines_provider del: fun_upd_apply)
qed (simp add: file_lines_def)

lemma read_written_data:
  assumes "visit testData = map (\<lambda>(k, rows). (k, map clear_response rows)) es" and "enumerates (visit testData) testData"
    and "\<forall>(k, rows)\<in>set es. clean_line (''#'' @ k) \<and> (\<forall>row\<in>set rows. fits row \<and> (\<forall>l\<in>set (row_lines row). length l < 65536))"
  shows "ReadDataFromFile (Inr (WriteDataToFile visit testData)) = Inr (if es = [] then ['''' \<mapsto> []] else testData)"
proof -
  have "\<forall>l\<in>set (file_lines es). clean_line l"
    using assms(3) clean_row by (fastforce simp: file_lines_def provider_lines_def)
  then have scan: "scan_lines (WriteDataToFile visit testData) = (file_lines es, False)"
    using WriteDataToFile_lines [of visit testData es] assms(1,3) scan_lines_clean by fastforce
  have "read_lines (file_lines es) [] False [] Map.empty = testData" if ne: "es \<noteq> []"
  proof -
    obtain k rows es' where es: "es = (k, rows) # es'" using ne by (cases es) auto
    let ?all = "map (\<lambda>(k, rows). (k, map clear_response rows)) es"
    have "distinct (map fst ?all)" "map_of ?all = testData" using assms(1,2) by (simp_all add: enumerates_def)
    then have "map_of (rev ?all) = testData" using map_of_rev by metis
    then show ?thesis
      using read_lines_providers [of es' k "map clear_response rows" Map.empty] by (simp add: es file_lines_def read_lines_provider)
  qed
  then show ?thesis by (auto simp: ReadDataFromFile_def scan file_lines_def)
qed

lemma long_line_read:
  assumes "\<forall>l\<in>set ls. newline \<notin> set l" and "l \<in> set ls" and "\<not> length l < 65536"
  shows "ReadDataFromFile (Inr (concat (map end_line ls))) = Inl (Err ''bufio.Scanner: token too long'')"
proof -
  have "raw_lines (concat (map end_line ls)) = ls" using assms(1) by (simp add: raw_lines_def Split_end_lines)
  moreover have "takeWhile (\<lambda>line. length line < 65536) ls \<noteq> ls"
    unfolding takeWhile_eq_all_conv using assms(2,3) by blast
  then have "length (takeWhile (\<lambda>line. length line < 65536) ls) < length ls"
    by (metis le_neq_implies_less length_takeWhile_le takeWhile_eq_take take_all_iff order_refl)
  ultimately show ?thesis by (simp add: ReadDataFromFile_def scan_lines_def Let_def)
qed

lemma file_lines_plain:
  assumes "\<forall>(k, rows)\<in>set es. newline \<notin> set k" and "l \<in> set (file_lines es)"
  shows "newline \<notin> set l"
proof -
  consider k rows where "(k, rows) \<in> set es" "l = ''#'' @ k" | xs where "l = Int64ArrayToString xs"
    using assms(2) by (fastforce simp: file_lines_def provider_lines_def row_lines_def)
  then show ?thesis
  proof cases
    case 1
    then show ?thesis using assms(1) by (auto simp: newline_def)
  next
    case 2
    then show ?thesis using array_plain not_plain(2) by metis
  qed
qed

lemma read_data_exact:
  assumes "visit testData = map (\<lambda>(k, rows). (k, map clear_response rows)) es" and "enumerates (visit testData) testData"
    and ids: "\<forall>(k, rows)\<in>set es. newline \<notin> set k \<and> (k \<noteq> [] \<longrightarrow> last k \<noteq> CHR 0x0D) \<and> (\<forall>row\<in>set rows. fits row)"
  shows "ReadDataFromFile (Inr (WriteDataToFile visit testData)) =
    (if \<forall>l\<in>set (file_lines es). length l < 65536 then Inr (if es = [] then ['''' \<mapsto> []] else testData)
     else Inl (Err ''bufio.Scanner: token too long''))"
proof (cases "\<forall>l\<in>set (file_lines es). length l < 65536")
  case True
  have "\<forall>(k, rows)\<in>set es. clean_line (''#'' @ k) \<and> (\<forall>row\<in>set rows. fits row \<and> (\<forall>l\<in>set (row_lines row). length l < 65536))"
  proof (rule ballI, clarify)
    fix k rows
    assume e: "(k, rows) \<in> set es"
    then have "set (provider_lines (k, rows)) \<subseteq> set (file_lines es)" by (auto simp: file_lines_def)
    then have "\<forall>l\<in>set (provider_lines (k, rows)). length l < 65536" using True by blast
    then show "clean_line (''#'' @ k) \<and> (\<forall>row\<in>set rows. fits row \<and> (\<forall>l\<in>set (row_lines row). length l < 65536))"
      using ids e by (auto simp: provider_lines_def clean_line_def newline_def)
  qed
  from read_written_data [of visit testData es, OF assms(1,2) this] True show ?thesis by simp
next
  case False
  then obtain l where l: "l \<in> set (file_lines es)" "\<not> length l < 65536" by blast
  have "WriteDataToFile visit testData = concat (map end_line (file_lines es))"
    using ids by (intro WriteDataToFile_lines [of visit testData es, OF assms(1)]) blast
  moreover have "\<forall>l\<in>set (file_lines es). newline \<notin> set l" using ids by (intro ballI file_lines_plain [of es]) auto
  ultimately show ?thesis using long_line_read [OF _ l] False by simp
qed

section \<open>Properties\<close>

text \<open>
  C36. What ReadDataFromFile makes of a file that WriteDataToFile wrote, in whatever order the range
  loop visits the providers, when the responses have the layout of the generated data and the
  identifiers have no newline and no carriage return at the end: it gives the data back exactly when
  every line is shorter than 64 kB, and is the error of the scanner otherwise. Only
  without any provider, when the file is empty, it reads the data of one provider with an empty name.
\<close>

theorem test_data_file_roundtrip:
  assumes "visit testData = map (\<lambda>(k, rows). (k, map clear_response rows)) es" and "enumerates (visit testData) testData"
    and "\<forall>(k, rows)\<in>set es. newline \<notin> set k \<and> (k \<noteq> [] \<longrightarrow> last k \<noteq> CHR 0x0D) \<and> (\<forall>row\<in>set rows. fits row)"
  shows "ReadDataFromFile (Inr (WriteDataToFile visit testData)) =
    (if \<forall>l\<in>set (file_lines es). length l < 65536 then Inr (if es = [] then ['''' \<mapsto> []] else testData)
     else Inl (Err ''bufio.Scanner: token too long''))"
  using assms by (rule read_data_exact)

text \<open>A file of one provider, and one whose provider has a name of 65535 characters.\<close>

theorem test_data_file_roundtrip_witness:
  "ReadDataFromFile (Inr (WriteDataToFile (\<lambda>_. [(''7'', map clear_response example_rows)]) [''7'' \<mapsto> map clear_response example_rows])) =
     Inr [''7'' \<mapsto> map clear_response example_rows] \<and>
   ReadDataFromFile (Inr (WriteDataToFile (\<lambda>_. [(replicate 65535 (CHR ''7''), [])]) [replicate 65535 (CHR ''7'') \<mapsto> []])) =
     Inl (Err ''bufio.Scanner: token too long'')"
proof -
  define k where "k = replicate 65535 (CHR ''7'')"
  have k: "length k = 65535" "newline \<notin> set k" "last k \<noteq> CHR 0x0D"
    by (simp_all only: k_def length_replicate set_replicate_conv_if last_replicate) (simp_all add: newline_def)
  have short: "\<forall>l\<in>set (file_lines [(''7'', example_rows)]). length l < 65536"
    by (simp add: example_rows_def file_lines_def provider_lines_def row_lines_def Int64ArrayToString_eq Itoa_def dec.simps)
  have "\<forall>row\<in>set example_rows. fits row" by (simp add: example_rows_def fits_def)
  then have "ReadDataFromFile (Inr (WriteDataToFile (\<lambda>_. [(''7'', map clear_response example_rows)]) [''7'' \<mapsto> map clear_response example_rows])) =
      Inr [''7'' \<mapsto> map clear_response example_rows]"
    using test_data_file_roundtrip [of "\<lambda>_. [(''7'', map clear_response example_rows)]" "[''7'' \<mapsto> map clear_response example_rows]" "[(''7'', example_rows)]"] short
    by (simp add: enumerates_def newline_def)
  moreover have "ReadDataFromFile (Inr (WriteDataToFile (\<lambda>_. [(k, [])]) [k \<mapsto> []])) = Inl (Err ''bufio.Scanner: token too long'')"
    using test_data_file_roundtrip [of "\<lambda>_. [(k, [])]" "[k \<mapsto> []]" "[(k, [])]"] k
    by (simp add: enumerates_def file_lines_def provider_lines_def)
  ultimately show ?thesis unfolding k_def by blast
qed

end
