(* ===== verification/QueryParser.thy ===== *)
theory QueryParser
  imports Structs
begin

text \<open>
  The query of the command line, cmd/unlynx/client.go: parseQuery checks the parameters against
  regular expressions, cuts them into their parts and encrypts the values of the conditions. The
  regular expressions of regexp and the functions of strings are written out for the expressions
  and the arguments that it uses.
\<close>

section \<open>Regular expressions\<close>

datatype regex = Nothing | Empty | OneOf "char list" | Seq regex regex | Alt regex regex | Star regex

primrec nullable :: "regex \<Rightarrow> bool" where
  "nullable Nothing = False"
| "nullable Empty = True"
| "nullable (OneOf cs) = False"
| "nullable (Seq r s) = (nullable r \<and> nullable s)"
| "nullable (Alt r s) = (nullable r \<or> nullable s)"
| "nullable (Star r) = True"

primrec derivative :: "char \<Rightarrow> regex \<Rightarrow> regex" where
  "derivative c Nothing = Nothing"
| "derivative c Empty = Nothing"
| "derivative c (OneOf cs) = (if c \<in> set cs then Empty else Nothing)"
| "derivative c (Seq r s) =
     (if nullable r then Alt (Seq (derivative c r) s) (derivative c s) else Seq (derivative c r) s)"
| "derivative c (Alt r s) = Alt (derivative c r) (derivative c s)"
| "derivative c (Star r) = Seq (derivative c r) (Star r)"

text \<open>MatchString asks for a match anywhere in the text.\<close>

fun match_prefix :: "regex \<Rightarrow> string \<Rightarrow> bool" where
  "match_prefix r [] = nullable r"
| "match_prefix r (c # cs) = (nullable r \<or> match_prefix (derivative c r) cs)"

fun MatchString :: "regex \<Rightarrow> string \<Rightarrow> bool" where
  "MatchString r [] = match_prefix r []"
| "MatchString r (c # cs) = (match_prefix r (c # cs) \<or> MatchString r cs)"

definition char_regex :: "char \<Rightarrow> regex" where
  "char_regex c = OneOf [c]"

definition number_regex :: regex where
  "number_regex = Seq (OneOf ''0123456789'') (Star (OneOf ''0123456789''))"

definition comma_regex :: regex where
  "comma_regex = Seq (char_regex (CHR '','')) (Star (OneOf [CHR 0x09, CHR 0x0A, CHR 0x0C, CHR 0x0D, CHR '' '']))"

definition attribute_regex :: "char \<Rightarrow> regex" where
  "attribute_regex c = Seq (char_regex c) number_regex"

text \<open>The expression of the sums for c = s, and of the groups for c = g.\<close>

definition names_regex :: "char \<Rightarrow> regex" where
  "names_regex c = Seq (char_regex (CHR ''{'')) (Seq (attribute_regex c) (Seq (Star (Seq comma_regex (attribute_regex c))) (char_regex (CHR ''}''))))"

definition whereRegex :: regex where
  "whereRegex = Seq (char_regex (CHR ''{''))
     (Seq (Star (Seq (attribute_regex (CHR ''w'')) (Seq comma_regex number_regex)))
     (Seq (Star (Seq comma_regex (Seq (attribute_regex (CHR ''w'')) (Seq comma_regex number_regex)))) (char_regex (CHR ''}''))))"

section \<open>parseQuery\<close>

definition remove_char :: "char \<Rightarrow> string \<Rightarrow> string" where
  "remove_char c s = filter (\<lambda>d. d \<noteq> c) s"

definition tokens :: "string \<Rightarrow> string list" where
  "tokens s = Split (CHR '','') (remove_char (CHR ''}'') (remove_char (CHR ''{'') (remove_char (CHR '' '') s)))"

text \<open>strconv.Atoi is ParseInt of the width of an int.\<close>

fun where_loop :: "('s, 'p) suite \<Rightarrow> 'p \<Rightarrow> (nat \<Rightarrow> 's) \<Rightarrow> nat \<Rightarrow> string \<Rightarrow> string list \<Rightarrow> 'p WhereQueryAttribute list res" where
  "where_loop S aggregate picks i variable [] = Inr []"
| "where_loop S aggregate picks i variable (token # whereTokens) =
     (if even i then where_loop S aggregate picks (i + 1) token whereTokens
      else andThen (ParseInt token) (\<lambda>value.
           andThen (where_loop S aggregate picks (i + 1) variable whereTokens) (\<lambda>whereFinal.
           Inr (\<lparr>wq_Name = variable, wq_Value = EncryptInt S aggregate value (picks i)\<rparr> # whereFinal))))"

definition parseQuery :: "('s, 'p) suite \<Rightarrow> 'p \<Rightarrow> (nat \<Rightarrow> 's) \<Rightarrow> string \<Rightarrow> bool \<Rightarrow> string \<Rightarrow> string \<Rightarrow> string
    \<Rightarrow> (string list \<times> bool \<times> 'p WhereQueryAttribute list \<times> string \<times> string list) res" where
  "parseQuery S aggregate picks sum0 count0 where0 predicate groupBy0 =
     (if sum0 = [] \<or> where0 \<noteq> [] \<and> predicate = [] \<or> where0 = [] \<and> predicate \<noteq> []
      then Inl (Err ''wrong query! please check the sum, where and the predicate parameters'')
      else if \<not> MatchString (names_regex (CHR ''s'')) sum0 then Inl (Err ''error parsing the sum parameter(s)'')
      else let sumFinal = tokens sum0 in
        if count0 \<and> \<not> list_ex (\<lambda>el. el = ''count'') sumFinal then Inl (Err ''no 'count' attribute in the sum variables'')
        else if \<not> MatchString whereRegex where0 then Inl (Err ''error parsing the where parameter(s)'')
        else andThen (where_loop S aggregate picks 0 [] (tokens where0)) (\<lambda>whereFinal.
          if \<not> MatchString (names_regex (CHR ''g'')) groupBy0 then Inl (Err ''error parsing the groupBy parameter(s)'')
          else Inr (sumFinal, count0, whereFinal, predicate, tokens groupBy0)))"

section \<open>Queries as text\<close>

definition after_comma :: "string \<Rightarrow> string" where
  "after_comma w = '', '' @ w"

definition separated :: "string list \<Rightarrow> string" where
  "separated ws = concat (case ws of [] \<Rightarrow> [] | w # ws \<Rightarrow> w # map after_comma ws)"

definition attribute_name :: "char \<Rightarrow> nat \<Rightarrow> string" where
  "attribute_name c i = c # dec i"

definition show_names :: "char \<Rightarrow> nat list \<Rightarrow> string" where
  "show_names c is = ''{'' @ separated (map (attribute_name c) is) @ ''}''"

definition show_where :: "(nat \<times> nat) list \<Rightarrow> string" where
  "show_where wh = ''{'' @ separated (concat (map (\<lambda>(i, v). [attribute_name (CHR ''w'') i, dec v]) wh)) @ ''}''"

section \<open>The language of a regular expression\<close>

inductive in_star :: "(string \<Rightarrow> bool) \<Rightarrow> string \<Rightarrow> bool" for L where
  empty: "in_star L []"
| step: "L u \<Longrightarrow> in_star L v \<Longrightarrow> in_star L (u @ v)"

primrec language :: "regex \<Rightarrow> string \<Rightarrow> bool" where
  "language Nothing s = False"
| "language Empty s = (s = [])"
| "language (OneOf cs) s = (\<exists>c\<in>set cs. s = [c])"
| "language (Seq r1 r2) s = (\<exists>u v. s = u @ v \<and> language r1 u \<and> language r2 v)"
| "language (Alt r1 r2) s = (language r1 s \<or> language r2 s)"
| "language (Star r) s = in_star (language r) s"

lemma nullable_language: "nullable r \<longleftrightarrow> language r []"
  by (induction r) (auto intro: in_star.empty)

lemma in_star_Cons: "in_star L (c # s) \<longleftrightarrow> (\<exists>u v. s = u @ v \<and> L (c # u) \<and> in_star L v)"
proof
  have "\<exists>u v. s = u @ v \<and> L (c # u) \<and> in_star L v" if "in_star L t" "t = c # s" for t
    using that by (induction rule: in_star.induct) (auto simp: append_eq_Cons_conv)
  then show "in_star L (c # s) \<Longrightarrow> \<exists>u v. s = u @ v \<and> L (c # u) \<and> in_star L v" by blast
  show "\<exists>u v. s = u @ v \<and> L (c # u) \<and> in_star L v \<Longrightarrow> in_star L (c # s)"
    using in_star.step [of L "c # u" v for u v] by auto
qed

lemma derivative_language: "language (derivative c r) s \<longleftrightarrow> language r (c # s)"
proof (induction r arbitrary: s)
  case (Seq r1 r2)
  have "language (Seq r1 r2) (c # s) \<longleftrightarrow> language r1 [] \<and> language r2 (c # s) \<or> (\<exists>u v. s = u @ v \<and> language r1 (c # u) \<and> language r2 v)"
    by (auto simp: Cons_eq_append_conv)
  then show ?case by (auto simp: Seq nullable_language)
next
  case (Star r)
  then show ?case by (simp add: in_star_Cons)
qed auto

lemma match_prefix_language: "match_prefix r s \<longleftrightarrow> (\<exists>u v. s = u @ v \<and> language r u)"
  by (induction r s rule: match_prefix.induct) (auto simp: nullable_language derivative_language Cons_eq_append_conv)

lemma MatchString_language: "MatchString r s \<longleftrightarrow> (\<exists>t u v. s = t @ u @ v \<and> language r u)"
proof (induction r s rule: MatchString.induct)
  case (2 r c cs)
  have "(\<exists>t u v. c # cs = t @ u @ v \<and> language r u) \<longleftrightarrow> (\<exists>u v. c # cs = u @ v \<and> language r u) \<or> (\<exists>t u v. cs = t @ u @ v \<and> language r u)"
    (is "?l \<longleftrightarrow> ?r1 \<or> ?r2")
  proof
    assume ?l
    then obtain t u v where t: "c # cs = t @ u @ v" "language r u" by blast
    then show "?r1 \<or> ?r2" by (cases t) auto
  next
    assume "?r1 \<or> ?r2"
    then show ?l
    proof
      assume ?r1
      then show ?l by (metis append_Nil)
    next
      assume ?r2
      then show ?l by (metis append_Cons)
    qed
  qed
  with 2 show ?case by (simp add: match_prefix_language del: match_prefix.simps)
qed (simp add: nullable_language)

text \<open>The texts that show_names and show_where print match.\<close>

lemma digit_in: "d < 10 \<Longrightarrow> digit d \<in> set ''0123456789''"
  unfolding digit_def by (rule nth_mem) simp

lemma number_language: "language number_regex (dec n)"
proof -
  have "in_star (language (OneOf ''0123456789'')) (map digit ds)" if "\<forall>d\<in>set ds. d < 10" for ds
    using that
  proof (induction ds)
    case (Cons d ds)
    have "language (OneOf ''0123456789'') [digit d]" using Cons.prems digit_in by simp
    then have "in_star (language (OneOf ''0123456789'')) ([digit d] @ map digit ds)"
      using Cons.IH Cons.prems by (intro in_star.step) (simp_all del: language.simps)
    then show ?case by (simp del: language.simps)
  qed (simp add: in_star.empty)
  note digits = this
  obtain ds where ds: "dec n = map digit ds" "ds \<noteq> []" "\<forall>d\<in>set ds. d < 10" using dec_digits by blast
  then obtain d ds' where d: "ds = d # ds'" by (cases ds) auto
  have "language (OneOf ''0123456789'') [digit d]" using ds(3) digit_in by (simp add: d)
  moreover have "in_star (language (OneOf ''0123456789'')) (map digit ds')" using digits ds(3) by (simp add: d)
  ultimately have "language number_regex ([digit d] @ map digit ds')" unfolding number_regex_def language.simps by blast
  then show ?thesis by (simp add: ds(1) d)
qed

lemma char_language [simp]: "language (char_regex c) s \<longleftrightarrow> s = [c]"
  by (simp add: char_regex_def)

lemma language_Seq: "language r1 u \<Longrightarrow> language r2 v \<Longrightarrow> language (Seq r1 r2) (u @ v)"
  by auto

lemma attribute_language: "language (attribute_regex c) (attribute_name c i)"
  using language_Seq [of "char_regex c" "[c]", OF _ number_language] by (simp add: attribute_regex_def attribute_name_def)

lemma comma_language: "language comma_regex '', ''"
proof -
  let ?ws = "OneOf [CHR 0x09, CHR 0x0A, CHR 0x0C, CHR 0x0D, CHR '' '']"
  have "in_star (language ?ws) ('' '' @ [])" by (rule in_star.step) (simp_all add: in_star.empty)
  then have "language (Star ?ws) '' ''" by simp
  then show ?thesis using language_Seq [of "char_regex (CHR '','')" "'',''" "Star ?ws" "'' ''"] by (simp add: comma_regex_def)
qed

lemma star_separated: "\<forall>w\<in>set ws. language r w \<Longrightarrow> language (Star (Seq comma_regex r)) (concat (map after_comma ws))"
proof (induction ws)
  case (Cons w ws)
  have "language (Seq comma_regex r) (after_comma w)"
    unfolding after_comma_def using Cons.prems by (intro language_Seq comma_language) simp
  then have "in_star (language (Seq comma_regex r)) (after_comma w @ concat (map after_comma ws))"
    using Cons by (intro in_star.step) (simp_all del: language.simps, simp)
  then show ?case by simp
qed (simp add: in_star.empty)

lemma braces_language: "language r s \<Longrightarrow> language (Seq (char_regex (CHR ''{'')) (Seq r (char_regex (CHR ''}'')))) (''{'' @ s @ ''}'')"
  by (intro language_Seq) simp_all

lemma language_Seq_assoc: "language (Seq r1 (Seq r2 r3)) s \<longleftrightarrow> language (Seq (Seq r1 r2) r3) s"
  by (simp) (metis append.assoc)

lemma language_Seq_inner: "language (Seq r0 (Seq r1 (Seq r2 r3))) s \<longleftrightarrow> language (Seq r0 (Seq (Seq r1 r2) r3)) s"
  unfolding language.simps(4) [of r0] language_Seq_assoc [of r1 r2 r3] by (rule refl)

lemma MatchString_whole: "language r s \<Longrightarrow> MatchString r s"
  using MatchString_language [of r s] by (metis append_Nil append_Nil2)

lemma show_names_matches: "is \<noteq> [] \<Longrightarrow> MatchString (names_regex c) (show_names c is)"
proof (rule MatchString_whole)
  assume "is \<noteq> []"
  then obtain i is' where i: "is = i # is'" by (cases "is") auto
  let ?rest = "Star (Seq comma_regex (attribute_regex c))"
  have "language (Seq (attribute_regex c) ?rest) (attribute_name c i @ concat (map after_comma (map (attribute_name c) is')))"
    using attribute_language by (intro language_Seq star_separated) auto
  from braces_language [OF this] show "language (names_regex c) (show_names c is)"
    unfolding names_regex_def language_Seq_inner by (simp add: show_names_def separated_def i del: language.simps)
qed

lemma show_where_matches: "MatchString whereRegex (show_where wh)"
proof (rule MatchString_whole)
  define pair where "pair p = attribute_name (CHR ''w'') (fst p) @ '', '' @ dec (snd p)" for p
  let ?pair = "Seq (attribute_regex (CHR ''w'')) (Seq comma_regex number_regex)"
  have pair: "language ?pair (pair p)" for p
    unfolding pair_def by (intro language_Seq attribute_language comma_language number_language)
  have printed: "show_where wh = ''{'' @ separated (map pair wh) @ ''}''"
  proof -
    have "concat (map after_comma (concat (map (\<lambda>(i, v). [attribute_name (CHR ''w'') i, dec v]) wh))) = concat (map after_comma (map pair wh))" for wh
      by (induction wh) (auto simp: pair_def after_comma_def)
    then show ?thesis by (cases wh) (auto simp: show_where_def separated_def pair_def after_comma_def)
  qed
  have "language (Seq (Star ?pair) (Star (Seq comma_regex ?pair))) (separated (map pair wh))"
  proof (cases wh)
    case Nil
    then show ?thesis by (simp add: separated_def in_star.empty)
  next
    case (Cons p wh')
    have "in_star (language ?pair) (pair p @ [])" by (intro in_star.step in_star.empty) (rule pair)
    then have "language (Star ?pair) (pair p)" by simp
    then have "language (Seq (Star ?pair) (Star (Seq comma_regex ?pair))) (pair p @ concat (map after_comma (map pair wh')))"
      using pair by (intro language_Seq star_separated) auto
    then show ?thesis by (simp add: Cons separated_def del: language.simps)
  qed
  from braces_language [OF this] show "language whereRegex (show_where wh)"
    unfolding whereRegex_def language_Seq_inner printed .
qed

section \<open>Tokens\<close>

lemma dec_no_special: "c \<in> set (dec n) \<Longrightarrow> c \<noteq> CHR '' '' \<and> c \<noteq> CHR ''{'' \<and> c \<noteq> CHR ''}'' \<and> c \<noteq> CHR '',''"
proof -
  assume "c \<in> set (dec n)"
  then obtain d where "d < 10" "c = digit d" using set_dec by blast
  then have "digit_value c \<noteq> None" by simp
  then show ?thesis by (auto simp: digit_value_def)
qed

definition word_chars :: "string \<Rightarrow> bool" where
  "word_chars w \<longleftrightarrow> set w \<inter> {CHR '' '', CHR ''{'', CHR ''}'', CHR '',''} = {}"

lemma remove_word: "word_chars w \<Longrightarrow> c \<in> {CHR '' '', CHR ''{'', CHR ''}''} \<Longrightarrow> remove_char c w = w"
  by (auto simp: remove_char_def word_chars_def filter_id_conv)

lemma tokens_separated:
  assumes "\<forall>w\<in>set ws. word_chars w"
  shows "tokens (''{'' @ separated ws @ ''}'') = (if ws = [] then [[]] else ws)"
proof -
  let ?clean = "\<lambda>s. remove_char (CHR ''}'') (remove_char (CHR ''{'') (remove_char (CHR '' '') s))"
  have app: "?clean (s @ t) = ?clean s @ ?clean t" for s t by (simp add: remove_char_def)
  have w: "?clean w = w" if "word_chars w" for w using that by (simp add: remove_word)
  have split: "Split (CHR '','') (w @ concat (map (\<lambda>v. ?clean (after_comma v)) vs)) = w # vs" if "word_chars w" "\<forall>v\<in>set vs. word_chars v" for w vs
    using that
  proof (induction vs arbitrary: w)
    case Nil
    then show ?case by (simp add: word_chars_def Split_no_sep)
  next
    case (Cons v vs)
    have "?clean (after_comma v) = CHR '','' # v" using w Cons.prems unfolding app after_comma_def by (simp add: remove_char_def)
    with Cons show ?case by (simp add: Split_word word_chars_def)
  qed
  show ?thesis
  proof (cases ws)
    case Nil
    then show ?thesis by (simp add: tokens_def separated_def remove_char_def)
  next
    case (Cons v vs)
    have c: "?clean (concat (map f xs)) = concat (map (\<lambda>x. ?clean (f x)) xs)" for f :: "string \<Rightarrow> string" and xs
      by (induction xs) (simp_all add: app, simp add: remove_char_def)
    have "?clean (''{'' @ separated ws @ ''}'') = v @ concat (map (\<lambda>v. ?clean (after_comma v)) vs)"
      using assms w by (simp only: app c separated_def Cons list.case concat.simps) (simp add: remove_char_def)
    with split assms show ?thesis by (simp add: tokens_def Cons)
  qed
qed

lemma word_chars_attribute: "c \<in> {CHR ''s'', CHR ''w'', CHR ''g''} \<Longrightarrow> word_chars (attribute_name c i)" "word_chars (dec i)"
  using dec_no_special by (auto simp: word_chars_def attribute_name_def)

lemma tokens_names: "c \<in> {CHR ''s'', CHR ''w'', CHR ''g''} \<Longrightarrow>
  tokens (show_names c is) = (if is = [] then [[]] else map (attribute_name c) is)"
  using word_chars_attribute(1) tokens_separated [of "map (attribute_name c) is"] by (simp add: show_names_def)

lemma tokens_where: "tokens (show_where wh) =
  (if wh = [] then [[]] else concat (map (\<lambda>(w, v). [attribute_name (CHR ''w'') w, dec v]) wh))"
proof -
  have "\<forall>w\<in>set (concat (map (\<lambda>(w, v). [attribute_name (CHR ''w'') w, dec v]) wh)). word_chars w"
    by (auto simp: word_chars_attribute)
  from tokens_separated [OF this] show ?thesis by (cases wh) (auto simp: show_where_def)
qed

lemma shown_nonempty: "show_names c is \<noteq> []" "show_where wh \<noteq> []"
  by (simp_all add: show_names_def show_where_def)

section \<open>Properties\<close>

text \<open>The conditions that the values stand for, encrypted with the picks of the odd tokens.\<close>

fun encrypted_where :: "('s, 'p) suite \<Rightarrow> 'p \<Rightarrow> (nat \<Rightarrow> 's) \<Rightarrow> nat \<Rightarrow> (nat \<times> nat) list \<Rightarrow> 'p WhereQueryAttribute list" where
  "encrypted_where S aggregate picks i [] = []"
| "encrypted_where S aggregate picks i ((w, v) # wh) =
     \<lparr>wq_Name = attribute_name (CHR ''w'') w, wq_Value = EncryptInt S aggregate (of_nat v) (picks (i + 1))\<rparr> #
     encrypted_where S aggregate picks (i + 2) wh"

lemma ParseInt_dec: "v < 2 ^ 63 \<Longrightarrow> ParseInt (dec v) = Inr (of_nat v)"
  by (simp add: ParseInt_def parse_dec Let_def)

lemma where_loop_pairs:
  "even i \<Longrightarrow> \<forall>(w, v)\<in>set wh. v < 2 ^ 63 \<Longrightarrow>
   where_loop S aggregate picks i variable (concat (map (\<lambda>(w, v). [attribute_name (CHR ''w'') w, dec v]) wh)) =
   Inr (encrypted_where S aggregate picks i wh)"
proof (induction wh arbitrary: i variable)
  case (Cons p wh)
  obtain w v where p: "p = (w, v)" by (cases p)
  with Cons p show ?case by (simp add: ParseInt_dec)
qed simp

lemma parse_shown_query:
  assumes "ss \<noteq> []" and "gs \<noteq> []" and "predicate \<noteq> []" and "\<forall>(w, v)\<in>set wh. v < 2 ^ 63"
  shows "parseQuery S aggregate picks (show_names (CHR ''s'') ss) False (show_where wh) predicate (show_names (CHR ''g'') gs) =
    Inr (map (attribute_name (CHR ''s'')) ss, False, encrypted_where S aggregate picks 0 wh, predicate, map (attribute_name (CHR ''g'')) gs)"
proof -
  have wh: "where_loop S aggregate picks 0 [] (tokens (show_where wh)) = Inr (encrypted_where S aggregate picks 0 wh)"
    using where_loop_pairs [OF _ assms(4), of 0] by (cases wh) (auto simp: tokens_where)
  show ?thesis
    using assms show_names_matches [of ss] show_names_matches [of gs] show_where_matches [of wh] wh
    by (simp add: parseQuery_def tokens_names shown_nonempty Let_def)
qed

text \<open>
  C39. A query that is written as text is read back: for sums s1, ..., conditions w1, v1, ... and
  groups g1, ... with at least one sum and one group and a predicate, parseQuery returns their names, the
  predicate and the conditions with the encryptions of their values.
\<close>

theorem parse_query_roundtrip:
  assumes "ss \<noteq> []" and "gs \<noteq> []" and "predicate \<noteq> []" and "\<forall>(w, v)\<in>set wh. v < 2 ^ 63"
  shows "parseQuery S aggregate picks (show_names (CHR ''s'') ss) False (show_where wh) predicate (show_names (CHR ''g'') gs) =
    Inr (map (attribute_name (CHR ''s'')) ss, False, encrypted_where S aggregate picks 0 wh, predicate, map (attribute_name (CHR ''g'')) gs)"
  by (rule parse_shown_query [OF assms])

theorem parse_query_roundtrip_witness:
  "parseQuery ed25519 5 (\<lambda>i. of_nat i) (show_names (CHR ''s'') [1, 2]) False (show_where [(1, 27)]) ''v0 == v1'' (show_names (CHR ''g'') [3]) =
    Inr (map (attribute_name (CHR ''s'')) [1, 2], False, encrypted_where ed25519 5 (\<lambda>i. of_nat i) 0 [(1, 27)], ''v0 == v1'', [attribute_name (CHR ''g'') 3])"
  using parse_query_roundtrip [of "[1, 2]" "[3]" "''v0 == v1''" "[(1, 27)]" ed25519 5 "\<lambda>i. of_nat i"] by simp

text \<open>parseQuery fails with an error and never panics.\<close>

lemma where_loop_error: "where_loop S aggregate picks i variable ts = Inl e \<Longrightarrow> e \<noteq> Panic"
  by (induction ts arbitrary: i variable)
    (auto simp: andThen_eq_Inl ParseInt_def Let_def split: if_splits option.splits)

lemma parse_query_error: "parseQuery S aggregate picks sum0 count0 where0 predicate groupBy0 = Inl e \<Longrightarrow> e \<noteq> Panic"
  by (auto simp: parseQuery_def Let_def andThen_eq_Inl dest: where_loop_error split: if_splits)

text \<open>
  parseQuery rejects every query without conditions, because the empty text does not match the
  expression of the conditions, every query without groups, and every count query whose sums are
  written as the expression of the sums wants them, because count is then none of them.
\<close>

theorem parse_query_rejects:
  "(\<exists>e. parseQuery S aggregate picks sum0 count0 [] predicate groupBy0 = Inl e) \<and>
   (\<exists>e. parseQuery S aggregate picks sum0 count0 where0 predicate [] = Inl e) \<and>
   (\<exists>e. parseQuery S aggregate picks (show_names (CHR ''s'') ss) True where0 predicate groupBy0 = Inl e)"
proof (intro conjI)
  have w: "\<not> MatchString whereRegex []" by (simp add: whereRegex_def char_regex_def)
  then show "\<exists>e. parseQuery S aggregate picks sum0 count0 [] predicate groupBy0 = Inl e" by (simp add: parseQuery_def Let_def)
  have g: "\<not> MatchString (names_regex c) []" for c by (simp add: names_regex_def char_regex_def)
  then show "\<exists>e. parseQuery S aggregate picks sum0 count0 where0 predicate [] = Inl e"
    by (cases "where_loop S aggregate picks 0 [] (tokens where0)") (simp_all add: parseQuery_def Let_def)
  have "\<not> list_ex (\<lambda>el. el = ''count'') (tokens (show_names (CHR ''s'') ss))"
    by (auto simp: tokens_names list_ex_iff attribute_name_def split: if_splits)
  then show "\<exists>e. parseQuery S aggregate picks (show_names (CHR ''s'') ss) True where0 predicate groupBy0 = Inl e"
    by (simp add: parseQuery_def Let_def)
qed

end
