(* ===== verification/Client.thy ===== *)
theory Client
  imports SurveyResult ClearReference DiscreteLog
begin

text \<open>
  services/api.go: the data provider that encrypts its responses for a survey, the querier that
  describes a survey and decrypts its results. The lemmas connect the ends of a survey: what the
  stores hold after the providers have sent their responses, and what the querier reads.
\<close>

section \<open>Data providers\<close>

text \<open>
  The random choices of the encryption of one response and the orders of its three range loops. A
  goroutine encrypts one response and copies it to the dataRepetitions places that start at its
  index times dataRepetitions. The product of the lengths is taken not to overflow.
\<close>

record 's encryption_choices =
  enc_picks :: "nat \<Rightarrow> string \<Rightarrow> 's"
  order_groups :: "(string \<times> int64) list"
  order_where :: "(string \<times> int64) list"
  order_sums :: "(string \<times> int64) list"

definition EncryptDataToSurvey :: "('s, 'p) suite \<Rightarrow> (nat \<Rightarrow> 's encryption_choices) \<Rightarrow> DpClearResponse list \<Rightarrow> 'p \<Rightarrow> int \<Rightarrow> bool
    \<Rightarrow> DpResponseToSend list res" where
  "EncryptDataToSurvey S ch dpClearResponses groupKey dataRepetitions count0 =
     (if 0 < length dpClearResponses \<and> dataRepetitions < 0 then Inl Panic
      else if dataRepetitions = 0 then Inr []
      else andThen (par_list 1 (length dpClearResponses) (\<lambda>i.
          EncryptDpClearResponse S (enc_picks (ch i)) (order_groups (ch i)) (order_where (ch i)) (order_sums (ch i))
            (dpClearResponses ! i) groupKey count0)) (\<lambda>responses.
        Inr (concat (map (replicate (nat dataRepetitions)) responses))))"

section \<open>The querier\<close>

definition NewUnLynxClient :: "('s, 'p) suite \<Rightarrow> 's \<Rightarrow> 's \<times> 'p" where
  "NewUnLynxClient S private = (private, Point_Mul S private (Point_Base S))"

text \<open>The query of SendSurveyCreationQuery; the answer of the server is the identifier of the survey.\<close>

definition creation_query :: "'id list \<Rightarrow> 'p \<Rightarrow> SurveyID \<Rightarrow> 'p option \<Rightarrow> ('id \<rightharpoonup> int64) \<Rightarrow> bool \<Rightarrow> bool \<Rightarrow> string list \<Rightarrow> bool
    \<Rightarrow> 'p WhereQueryAttribute list \<Rightarrow> string \<Rightarrow> string list \<Rightarrow> ('p, 'id) SurveyCreationQuery" where
  "creation_query entities aggregate surveyID clientPubKey nbrDPs proofs appFlag sumNames count0 wh predicate groupBy =
     \<lparr>SurveyID = surveyID, Roster_List = entities, Roster_Aggregate = aggregate, ClientPubKey = clientPubKey, MapDPs = nbrDPs,
      scq_Proofs = proofs, AppFlag = appFlag, scq_IntraMessage = False, Source = None, scq_Sum = sumNames, Count = count0,
      Where = wh, Predicate = predicate, GroupBy = groupBy\<rparr>"

text \<open>
  SendSurveyResultsQuery decrypts the groups and the sums of every result; the table of the
  decryption is a global variable. The answer of the server is an argument.
\<close>

fun decrypt_results :: "('s, 'p) suite \<Rightarrow> 'p dlog_table \<Rightarrow> 's \<Rightarrow> 'p FilteredResponse list \<Rightarrow> (int64 list \<times> int64 list) list res \<times> 'p dlog_table" where
  "decrypt_results S st private [] = (Inr [], st)"
| "decrypt_results S st private (result # results) =
     (case DecryptIntVector S st private (fr_GroupByEnc result) of
        (Inl e, st') \<Rightarrow> (Inl e, st')
      | (Inr grp, st') \<Rightarrow>
          (case DecryptIntVector S st' private (fr_AggregatingAttributes result) of
             (Inl e, st'') \<Rightarrow> (Inl e, st'')
           | (Inr aggr, st'') \<Rightarrow>
               (case decrypt_results S st'' private results of
                  (Inl e, st3) \<Rightarrow> (Inl e, st3)
                | (Inr rest, st3) \<Rightarrow> (Inr ((grp, aggr) # rest), st3))))"

definition SendSurveyResultsQuery :: "('s, 'p) suite \<Rightarrow> 'p dlog_table \<Rightarrow> 's \<Rightarrow> 'p FilteredResponse list res
    \<Rightarrow> (int64 list list \<times> int64 list list) res \<times> 'p dlog_table" where
  "SendSurveyResultsQuery S st private resp =
     (case resp of
        Inl e \<Rightarrow> (Inl e, st)
      | Inr results \<Rightarrow>
          (case decrypt_results S st private results of
             (Inl e, st') \<Rightarrow> (Inl e, st')
           | (Inr rs, st') \<Rightarrow> (Inr (map fst rs, map snd rs), st')))"

text \<open>The callers of SendSurveyResultsQuery wrap its error.\<close>

definition result_error :: "go_error \<Rightarrow> go_error" where
  "result_error e = (case e of Panic \<Rightarrow> Panic | Err m \<Rightarrow> Err (''service could not output the results: '' @ m))"

context kyber_suite
begin

lemma DecryptIntVector_inv: "table_inv S st \<Longrightarrow> map (decryptPoint S x) cv = map (IntToPoint S) ms \<Longrightarrow>
  \<forall>m\<in>set ms. 0 \<le> sint m \<and> sint m < MaxHomomorphicInt \<Longrightarrow> table_inv S (snd (DecryptIntVector S st x cv))"
proof (induction cv arbitrary: st ms)
  case (Cons c cv)
  then obtain m ms' where ms: "ms = m # ms'" "decryptPoint S x c = IntToPoint S m"
    "map (decryptPoint S x) cv = map (IntToPoint S) ms'" by (cases ms) auto
  have "fst (DecryptInt S st x c) = Inr m" "table_inv S (snd (DecryptInt S st x c))"
    using DecryptInt_nonneg [OF Cons.prems(1) ms(2)] Cons.prems(3) ms(1) by simp_all
  moreover from this have "fst (DecryptIntVector S (snd (DecryptInt S st x c)) x cv) = Inr ms'"
    "table_inv S (snd (DecryptIntVector S (snd (DecryptInt S st x c)) x cv))"
    using Cons.prems(3) ms DecryptIntVector_nonneg [of _ x cv ms'] Cons.IH [of _ ms'] by auto
  ultimately show ?case
    by (cases "DecryptInt S st x c", cases "DecryptIntVector S (snd (DecryptInt S st x c)) x cv") simp
qed simp

lemma decrypt_results_ints:
  assumes "table_inv S st" and "map (shown (decryptPoint S x)) results = map (\<lambda>(grp, aggr). (map (IntToPoint S) grp, map (IntToPoint S) aggr)) ints"
    and "\<forall>(grp, aggr)\<in>set ints. \<forall>m\<in>set grp \<union> set aggr. 0 \<le> sint m \<and> sint m < MaxHomomorphicInt"
  shows "fst (SendSurveyResultsQuery S st x (Inr results)) = Inr (map fst ints, map snd ints)"
proof -
  have "fst (decrypt_results S st x results) = Inr ints"
    using assms
  proof (induction results arbitrary: st ints)
    case (Cons result results)
    then obtain grp aggr ints' where i: "ints = (grp, aggr) # ints'" "map (decryptPoint S x) (fr_GroupByEnc result) = map (IntToPoint S) grp"
      "map (decryptPoint S x) (fr_AggregatingAttributes result) = map (IntToPoint S) aggr"
      "map (shown (decryptPoint S x)) results = map (\<lambda>(grp, aggr). (map (IntToPoint S) grp, map (IntToPoint S) aggr)) ints'"
      by (cases ints) auto
    have small: "\<forall>m\<in>set grp. 0 \<le> sint m \<and> sint m < MaxHomomorphicInt" "\<forall>m\<in>set aggr. 0 \<le> sint m \<and> sint m < MaxHomomorphicInt"
      using Cons.prems(3) i(1) by auto
    obtain st1 where g: "DecryptIntVector S st x (fr_GroupByEnc result) = (Inr grp, st1)" "table_inv S st1"
      using DecryptIntVector_nonneg [OF Cons.prems(1) i(2) small(1)] DecryptIntVector_inv [OF Cons.prems(1) i(2) small(1)]
      by (metis prod.collapse)
    obtain st2 where a: "DecryptIntVector S st1 x (fr_AggregatingAttributes result) = (Inr aggr, st2)" "table_inv S st2"
      using DecryptIntVector_nonneg [OF g(2) i(3) small(2)] DecryptIntVector_inv [OF g(2) i(3) small(2)] by (metis prod.collapse)
    have "fst (decrypt_results S st2 x results) = Inr ints'" using Cons.prems(3) i(1) by (intro Cons.IH [OF a(2) i(4)]) auto
    with g(1) a(1) i(1) show ?case by (cases "decrypt_results S st2 x results") simp
  qed simp
  then show ?thesis by (cases "decrypt_results S st x results") (simp add: SendSurveyResultsQuery_def)
qed

end

end
