(* ===== verification/ReferenceCheck.thy ===== *)
theory ReferenceCheck
  imports Client
begin

text \<open>
  The test of the service as a theorem: data providers encrypt the rows of the test data and send
  them to their servers, the servers run the survey, the querier decrypts the results, and these
  are the results that AddInClear computes from all rows in the clear.
\<close>

section \<open>What the stores hold\<close>

text \<open>
  A data provider sends its rows to a server: EncryptDataToSurvey made the responses, n for every
  row, every message brought one of them, with its maps in some order, and PushData inserted it
  into the store s, which is then s'.
\<close>

definition received_ok :: "received \<Rightarrow> bool" where
  "received_ok m \<longleftrightarrow> (case m of (ts, gf, wef, af) \<Rightarrow>
     enumerates gf (GroupByEnc ts) \<and> enumerates wef (WhereEnc ts) \<and> enumerates af (AggregatingAttributesEnc ts))"

definition choices_ok :: "'s encryption_choices \<Rightarrow> DpClearResponse \<Rightarrow> bool" where
  "choices_ok ch ccr \<longleftrightarrow> enumerates (order_groups ch) (GroupByEnc ccr) \<and> enumerates (order_where ch) (WhereEnc ccr) \<and>
     enumerates (order_sums ch) (AggregatingAttributesEnc ccr)"

definition provider_sends :: "('s, 'p) suite \<Rightarrow> ('p, 'id) SurveyCreationQuery \<Rightarrow> int \<Rightarrow> bool \<Rightarrow> DpClearResponse list \<Rightarrow> 'p Store \<Rightarrow> 'p Store \<Rightarrow> bool" where
  "provider_sends S q n c dataCollection s s' \<longleftrightarrow>
     (\<exists>ch ts ms. (\<forall>i < length dataCollection. choices_ok (ch i) (dataCollection ! i)) \<and>
        EncryptDataToSurvey S ch dataCollection (Roster_Aggregate q) n c = Inr ts \<and>
        map fst ms = ts \<and> (\<forall>m\<in>set ms. received_ok m) \<and>
        fold_res (\<lambda>(v, grp, whr, aggr) store. andThen (FromDpResponseToSend S grp whr aggr v) (\<lambda>dr.
          InsertDpResponse S dr (scq_Proofs q) (GroupBy q) (scq_Sum q) (Where q) store)) ms s = Inr s')"

lemma provider_sendsI:
  assumes "\<forall>i < length rows. choices_ok (ch i) (clear_response (rows ! i))"
    and "EncryptDataToSurvey S ch (map clear_response rows) (Roster_Aggregate q) n c = Inr ts"
    and "map fst ms = ts" and "\<forall>m\<in>set ms. received_ok m"
    and "fold_res (\<lambda>(v, grp, whr, aggr) store. andThen (FromDpResponseToSend S grp whr aggr v) (\<lambda>dr.
      InsertDpResponse S dr (scq_Proofs q) (GroupBy q) (scq_Sum q) (Where q) store)) ms s = Inr s'"
  shows "provider_sends S q n c (map clear_response rows) s s'"
  using assms unfolding provider_sends_def by (intro exI [of _ ch] exI [of _ ts] exI [of _ ms]) simp

definition provider_data :: "('s, 'p) suite \<Rightarrow> ('p, 'id) SurveyCreationQuery \<Rightarrow> clear_row list \<Rightarrow> 'p Store \<Rightarrow> bool" where
  "provider_data S q rows store \<longleftrightarrow> provider_sends S q 1 False (map clear_response rows) NewStore store"

definition row_points :: "('s, 'p) suite \<Rightarrow> clear_row \<Rightarrow> 'p row" where
  "row_points S row = (map (IntToPoint S) (groups_clear row @ groups_enc row), map (IntToPoint S) (row_conditions row), map (IntToPoint S) (row_sums row))"

lemma EncryptDataToSurvey_once:
  "EncryptDataToSurvey S ch cs key 1 c = par_list 1 (length cs) (\<lambda>i.
     EncryptDpClearResponse S (enc_picks (ch i)) (order_groups (ch i)) (order_where (ch i)) (order_sums (ch i)) (cs ! i) key c)"
proof -
  have "concat (map (\<lambda>x. [x]) xs) = xs" for xs :: "'x list" by (induction xs) simp_all
  moreover have "replicate (Suc 0) = (\<lambda>x :: DpResponseToSend. [x])" by (simp add: fun_eq_iff)
  ultimately show ?thesis by (simp add: EncryptDataToSurvey_def)
qed

text \<open>With repetitions, the copies of a row follow each other.\<close>

definition sent :: "nat \<Rightarrow> 'a list \<Rightarrow> 'a list" where
  "sent n rows = concat (map (replicate n) rows)"

lemma sent_once [simp]: "sent (Suc 0) rows = rows"
  by (induction rows) (simp_all add: sent_def)

lemma set_sent [simp]: "0 < n \<Longrightarrow> set (sent n rows) = set rows"
  by (auto simp: sent_def)

lemma length_sent [simp]: "length (sent n rows) = n * length rows"
  by (induction rows) (simp_all add: sent_def algebra_simps)

lemma list_all2_sent: "list_all2 P xs ys \<Longrightarrow> list_all2 P (sent n xs) (sent n ys)"
proof (induction rule: list_all2_induct)
  case (Cons x xs y ys)
  have "list_all2 P (replicate n x) (replicate n y)" using Cons.hyps(1) by (simp add: list_all2_conv_all_nth)
  with Cons.IH show ?case by (simp add: sent_def list_all2_appendI)
qed (simp add: sent_def)

lemma EncryptDataToSurvey_sent:
  assumes "0 < n"
  shows "EncryptDataToSurvey S ch cs key (int n) c = andThen (par_list 1 (length cs) (\<lambda>i.
     EncryptDpClearResponse S (enc_picks (ch i)) (order_groups (ch i)) (order_where (ch i)) (order_sums (ch i)) (cs ! i) key c)) (\<lambda>ts. Inr (sent n ts))"
  using assms by (simp add: EncryptDataToSurvey_def sent_def)

lemma ConvertDataToMap_append_map:
  "ConvertDataToMap (xs @ ys) first base = ConvertDataToMap xs first base ++ ConvertDataToMap ys first (base + of_nat (length xs))"
  using joinMaps_ConvertDataToMap [of xs first base ys] by (simp add: joinMaps_def)

lemma ConvertDataToMap_at:
  assumes "length data \<le> 2 ^ 64" and "i < length data"
  shows "ConvertDataToMap data first base (first @ Itoa (base + of_nat i)) = Some (data ! i)"
  using map_upds_nth [OF distinct_data_keys [OF assms(1), of first base], of data i Map.empty] assms(2)
  by (simp add: ConvertDataToMap_def ConvertDataToMap_loop_eq)

context kyber_suite
begin

text \<open>The attributes of a response by name, some of them in the clear and the others encrypted.\<close>

lemma named_attributes:
  assumes "\<forall>k\<in>set (data_keys first 0 (length (xs @ ys))). decrypted_section S x encr k = points_of S (ConvertDataToMap ys first (of_nat (length xs))) k"
    and "length (xs @ ys) \<le> 2 ^ 64"
  shows "map (decryptPoint S x) (map (attribute S (ConvertDataToMap xs first 0) encr) (data_keys first 0 (length (xs @ ys)))) = map (IntToPoint S) (xs @ ys)"
proof -
  let ?xm = "ConvertDataToMap xs first 0" and ?ym = "ConvertDataToMap ys first (of_nat (length xs))"
  have "decryptPoint S x (attribute S ?xm encr k) = IntToPoint S v"
    if k: "decrypted_section S x encr k = points_of S ?ym k" and v: "(?xm ++ ?ym) k = Some v" for k v
  proof (cases "?ym k")
    case (Some u)
    then have "v = u" "\<exists>c. (case encr of None \<Rightarrow> Map.empty | Some m \<Rightarrow> m) k = Some c \<and> decryptPoint S x c = IntToPoint S u"
      using k v by (auto simp: decrypted_section_def points_of_def)
    then show ?thesis by (auto simp: attribute_def split: option.splits)
  next
    case None
    then have "?xm k = Some v" "(case encr of None \<Rightarrow> Map.empty | Some m \<Rightarrow> m) k = None"
      using k v by (auto simp: decrypted_section_def points_of_def)
    then show ?thesis by (auto simp: attribute_def clear_value_def decrypt_IntToCipherText split: option.splits)
  qed
  moreover have "decrypted_section S x encr (first @ Itoa (of_nat i)) = points_of S ?ym (first @ Itoa (of_nat i))" if "i < length (xs @ ys)" for i
    using assms(1) that by simp
  moreover have "(?xm ++ ?ym) (first @ Itoa (of_nat i)) = Some ((xs @ ys) ! i)" if "i < length (xs @ ys)" for i
    using ConvertDataToMap_at [OF assms(2) that, of first 0] ConvertDataToMap_append_map [of xs ys first 0] by simp
  ultimately show ?thesis by (intro nth_equalityI) (simp_all del: map_append)
qed

lemma points_nonempty: "decrypted_section S x r = points_of S (ConvertDataToMap ys first base) \<Longrightarrow> ys \<noteq> [] \<Longrightarrow> r \<noteq> None"
proof
  assume a: "decrypted_section S x r = points_of S (ConvertDataToMap ys first base)" "ys \<noteq> []" "r = None"
  have "ConvertDataToMap ys first base \<noteq> Map.empty"
    using a(2) by (cases ys) (auto simp: ConvertDataToMap_def ConvertDataToMap_loop_eq map_upds_def upt_conv_Cons)
  then obtain k v where "ConvertDataToMap ys first base k = Some v" by (metis not_Some_eq)
  with fun_cong [OF a(1), of k] a(3) show False by (simp add: decrypted_section_def points_of_def)
qed

lemma provider_row:
  assumes "enumerates (order_groups ch) (GroupByEnc (clear_response row))" "enumerates (order_where ch) (WhereEnc (clear_response row))"
      "enumerates (order_sums ch) (AggregatingAttributesEnc (clear_response row))"
    and ts: "EncryptDpClearResponse S (enc_picks ch) (order_groups ch) (order_where ch) (order_sums ch) (clear_response row) (Point_Mul S x (Point_Base S)) c = Inr ts"
    and m: "received_ok (ts, gf, wef, af)"
    and len: "length (groups_clear row @ groups_enc row) \<le> 2 ^ 64" "length (row_conditions row) \<le> 2 ^ 64" "length (row_sums row) \<le> 2 ^ 64"
    and ne: "groups_enc row \<noteq> [] \<or> where_enc row \<noteq> []"
  shows "\<exists>r. FromDpResponseToSend S gf wef af ts = Inr r \<and> \<not> in_clear r \<and>
    viewed (decryptPoint S x) (encrypted_response S (data_keys ''g'' 0 (length (groups_clear row @ groups_enc row)))
      (data_keys ''s'' 0 (length (row_sums row))) (data_keys ''w'' 0 (length (row_conditions row))) r) = row_points S row"
proof -
  obtain r where r: "FromDpResponseToSend S gf wef af ts = Inr r" "GroupByClear r = GroupByClear (clear_response row)" "WhereClear r = WhereClear (clear_response row)"
      "AggregatingAttributesClear r = AggregatingAttributesClear (clear_response row)"
      "decrypted_section S x (GroupByEnc r) = points_of S (GroupByEnc (clear_response row))"
      "decrypted_section S x (WhereEnc r) = points_of S (WhereEnc (clear_response row))"
      "decrypted_section S x (AggregatingAttributesEnc r) =
        points_of S (if c then (AggregatingAttributesEnc (clear_response row))(''count'' \<mapsto> 1) else AggregatingAttributesEnc (clear_response row))"
    using provider_response [OF refl assms(1,2,3) ts, of gf wef af] m by (auto simp: received_ok_def)
  have keys: "decrypted_section S x (AggregatingAttributesEnc r) k = points_of S (AggregatingAttributesEnc (clear_response row)) k"
    if "k \<in> set (data_keys ''s'' 0 (length (sums_clear row @ sums_enc row)))" for k
    using that by (auto simp: r(7) points_of_def)
  have "\<not> in_clear r"
    using ne points_nonempty [of x "GroupByEnc r" "groups_enc row" "''g''"] points_nonempty [of x "WhereEnc r" "where_enc row" "''w''"] r(5,6)
    by (auto simp: in_clear_def clear_response_def)
  moreover have "viewed (decryptPoint S x) (encrypted_response S (data_keys ''g'' 0 (length (groups_clear row @ groups_enc row)))
      (data_keys ''s'' 0 (length (row_sums row))) (data_keys ''w'' 0 (length (row_conditions row))) r) = row_points S row"
    using r named_attributes [of "''g''" "groups_clear row" "groups_enc row" x "GroupByEnc r"]
      named_attributes [of "''w''" "where_clear row" "where_enc row" x "WhereEnc r"]
      named_attributes [of "''s''" "sums_clear row" "sums_enc row" x "AggregatingAttributesEnc r"] keys len
    by (simp add: viewed_def encrypted_response_def attributes_def row_points_def row_conditions_def row_sums_def clear_response_def del: map_map)
  ultimately show ?thesis using r(1) by blast
qed

text \<open>The rows are stored one after the other.\<close>

lemma provider_rows_stored:
  assumes "list_all2 (\<lambda>row (v, grp, whr, aggr). \<exists>r. FromDpResponseToSend S grp whr aggr v = Inr r \<and> \<not> in_clear r \<and>
      viewed (decryptPoint S x) (encrypted_response S groupBy sumNames (map wq_Name wh) r) = row_points S row) rows ms"
  shows "\<exists>new. fold_res (\<lambda>(v, grp, whr, aggr) store. andThen (FromDpResponseToSend S grp whr aggr v) (\<lambda>dr.
      InsertDpResponse S dr proofsB groupBy sumNames wh store)) ms s = Inr (s\<lparr>DpResponses := DpResponses s @ new\<rparr>) \<and>
    map (viewed (decryptPoint S x)) new = map (row_points S) rows"
  using assms
proof (induction rows ms arbitrary: s rule: list_all2_induct)
  case Nil
  then show ?case by simp
next
  case (Cons row rows m ms)
  obtain v grp whr aggr where m: "m = (v, grp, whr, aggr)" by (cases m) auto
  with Cons.hyps obtain r where r: "FromDpResponseToSend S grp whr aggr v = Inr r" "\<not> in_clear r"
    "viewed (decryptPoint S x) (encrypted_response S groupBy sumNames (map wq_Name wh) r) = row_points S row" by auto
  let ?e = "encrypted_response S groupBy sumNames (map wq_Name wh) r"
  from Cons.IH [of "s\<lparr>DpResponses := DpResponses s @ [?e]\<rparr>"] obtain new where
    "fold_res (\<lambda>(v, grp, whr, aggr) store. andThen (FromDpResponseToSend S grp whr aggr v) (\<lambda>dr.
      InsertDpResponse S dr proofsB groupBy sumNames wh store)) ms (s\<lparr>DpResponses := DpResponses s @ [?e]\<rparr>) =
      Inr (s\<lparr>DpResponses := (DpResponses s @ [?e]) @ new\<rparr>)"
    "map (viewed (decryptPoint S x)) new = map (row_points S) rows" by auto
  with r show ?case by (intro exI [of _ "?e # new"]) (simp add: m InsertDpResponse_encrypted)
qed

lemma EncryptDpClearResponse_finite:
  assumes "choices_ok ch ccr"
  shows "\<exists>ts. EncryptDpClearResponse S (enc_picks ch) (order_groups ch) (order_where ch) (order_sums ch) ccr key False = Inr ts \<and>
    finite (dom (GroupByEnc ts)) \<and> finite (dom (WhereEnc ts)) \<and> finite (dom (AggregatingAttributesEnc ts))"
proof -
  have es: "enumerates (order_groups ch) (GroupByEnc ccr)" "enumerates (order_where ch) (WhereEnc ccr)" "enumerates (order_sums ch) (AggregatingAttributesEnc ccr)"
    using assms by (simp_all add: choices_ok_def)
  have fin: "finite (dom (GroupByEnc ccr))" "finite (dom (WhereEnc ccr))" "finite (dom (AggregatingAttributesEnc ccr))"
    using es by (simp_all add: enumerates_dom)
  show ?thesis
    by (rule encrypt_section_ex [OF es(1), of key "enc_picks ch 0"], rule encrypt_section_ex [OF es(2), of key "enc_picks ch 1"],
        rule encrypt_section_ex [OF es(3), of key "enc_picks ch 2"]) (simp add: EncryptDpClearResponse_def fin)
qed

end

definition named_query :: "('p, 'id) SurveyCreationQuery \<Rightarrow> nat \<Rightarrow> nat \<Rightarrow> nat \<Rightarrow> bool" where
  "named_query q g w a \<longleftrightarrow> GroupBy q = data_keys ''g'' 0 g \<and> map wq_Name (Where q) = data_keys ''w'' 0 w \<and> scq_Sum q = data_keys ''s'' 0 a"

definition provider_row_ok :: "nat \<Rightarrow> nat \<Rightarrow> nat \<Rightarrow> clear_row \<Rightarrow> bool" where
  "provider_row_ok g w a row \<longleftrightarrow> length (groups_clear row @ groups_enc row) = g \<and> length (row_conditions row) = w \<and> length (row_sums row) = a \<and>
     (groups_enc row \<noteq> [] \<or> where_enc row \<noteq> [])"

context kyber_suite
begin

lemma sent_rows_received:
  assumes key: "Roster_Aggregate q = Point_Mul S x (Point_Base S)" and names: "named_query q g w a"
    and ok: "\<forall>row\<in>set rows. provider_row_ok g w a row" and few: "g \<le> 2 ^ 64" "w \<le> 2 ^ 64" "a \<le> 2 ^ 64"
    and ch: "\<forall>i < length rows. choices_ok (ch i) (clear_response (rows ! i))" and n: "0 < n"
    and ts: "EncryptDataToSurvey S ch (map clear_response rows) (Roster_Aggregate q) (int n) c = Inr ts"
    and ms: "map fst ms = ts" "\<forall>m\<in>set ms. received_ok m"
  shows "list_all2 (\<lambda>row (v, grp, whr, aggr). \<exists>r. FromDpResponseToSend S grp whr aggr v = Inr r \<and> \<not> in_clear r \<and>
      viewed (decryptPoint S x) (encrypted_response S (GroupBy q) (scq_Sum q) (map wq_Name (Where q)) r) = row_points S row) (sent n rows) ms"
proof -
  let ?P = "\<lambda>row (v, grp, whr, aggr). \<exists>r. FromDpResponseToSend S grp whr aggr v = Inr r \<and> \<not> in_clear r \<and>
      viewed (decryptPoint S x) (encrypted_response S (GroupBy q) (scq_Sum q) (map wq_Name (Where q)) r) = row_points S row"
  let ?arrives = "\<lambda>row v. \<forall>m. fst m = v \<and> received_ok m \<longrightarrow> ?P row m"
  obtain us where us: "length us = length rows" "\<forall>i < length rows. EncryptDpClearResponse S (enc_picks (ch i)) (order_groups (ch i)) (order_where (ch i))
      (order_sums (ch i)) (clear_response (rows ! i)) (Roster_Aggregate q) c = Inr (us ! i)" "ts = sent n us"
    using ts unfolding EncryptDataToSurvey_sent [OF n] by (auto simp: andThen_eq_Inr par_list_eq_Inr)
  have "?arrives (rows ! i) (us ! i)" if i: "i < length rows" for i
  proof (intro allI impI)
    fix m assume m: "fst m = us ! i \<and> received_ok m"
    obtain v gf wef af where v: "m = (v, gf, wef, af)" by (cases m) auto
    have "provider_row_ok g w a (rows ! i)" "choices_ok (ch i) (clear_response (rows ! i))" "us ! i = v" "received_ok (v, gf, wef, af)"
      using ok ch i m v by auto
    then have "\<exists>r. FromDpResponseToSend S gf wef af v = Inr r \<and> \<not> in_clear r \<and>
        viewed (decryptPoint S x) (encrypted_response S (data_keys ''g'' 0 g) (data_keys ''s'' 0 a) (data_keys ''w'' 0 w) r) = row_points S (rows ! i)"
      using provider_row [of "ch i" "rows ! i" x c v gf wef af] us(2) i key few by (simp add: provider_row_ok_def choices_ok_def)
    then show "?P (rows ! i) m" using names by (simp add: v named_query_def)
  qed
  with us(1) have "list_all2 ?arrives rows us" by (simp add: list_all2_conv_all_nth)
  then have "list_all2 ?arrives (sent n rows) (map fst ms)" unfolding ms(1) us(3) by (rule list_all2_sent)
  then have "list_all2 (\<lambda>row m. ?arrives row (fst m)) (sent n rows) ms" unfolding list_all2_map2 .
  then show ?thesis by (rule list.rel_mono_strong) (use ms(2) in blast)
qed

lemma provider_rows_received:
  assumes "Roster_Aggregate q = Point_Mul S x (Point_Base S)" and "named_query q g w a"
    and "\<forall>row\<in>set rows. provider_row_ok g w a row" and "g \<le> 2 ^ 64" "w \<le> 2 ^ 64" "a \<le> 2 ^ 64"
    and "\<forall>i < length rows. choices_ok (ch i) (clear_response (rows ! i))"
    and "EncryptDataToSurvey S ch (map clear_response rows) (Roster_Aggregate q) 1 False = Inr ts"
    and "map fst ms = ts" "\<forall>m\<in>set ms. received_ok m"
  shows "list_all2 (\<lambda>row (v, grp, whr, aggr). \<exists>r. FromDpResponseToSend S grp whr aggr v = Inr r \<and> \<not> in_clear r \<and>
      viewed (decryptPoint S x) (encrypted_response S (GroupBy q) (scq_Sum q) (map wq_Name (Where q)) r) = row_points S row) rows ms"
  using sent_rows_received [where n = "Suc 0", OF assms(1-7) _ _ assms(9,10)] assms(8) by simp

lemma provider_sends_rows:
  assumes "Roster_Aggregate q = Point_Mul S x (Point_Base S)" and "named_query q g w a"
    and "\<forall>row\<in>set rows. provider_row_ok g w a row" and "g \<le> 2 ^ 64" "w \<le> 2 ^ 64" "a \<le> 2 ^ 64" and "0 < n"
    and "provider_sends S q (int n) c (map clear_response rows) s s'"
  shows "\<exists>new. s' = s\<lparr>DpResponses := DpResponses s @ new\<rparr> \<and> map (viewed (decryptPoint S x)) new = map (row_points S) (sent n rows)"
proof -
  obtain ch ts ms where d: "\<forall>i < length rows. choices_ok (ch i) (clear_response (rows ! i))"
      "EncryptDataToSurvey S ch (map clear_response rows) (Roster_Aggregate q) (int n) c = Inr ts"
      "map fst ms = ts" "\<forall>m\<in>set ms. received_ok m"
      "fold_res (\<lambda>(v, grp, whr, aggr) store. andThen (FromDpResponseToSend S grp whr aggr v) (\<lambda>dr.
        InsertDpResponse S dr (scq_Proofs q) (GroupBy q) (scq_Sum q) (Where q) store)) ms s = Inr s'"
    using assms(8) unfolding provider_sends_def by auto
  from provider_rows_stored [OF sent_rows_received [OF assms(1-6) d(1) assms(7) d(2-4)], of "scq_Proofs q" s] d(5)
  show ?thesis by auto
qed

lemma provider_data_store:
  assumes "provider_data S q rows store" and "Roster_Aggregate q = Point_Mul S x (Point_Base S)" and "named_query q g w a"
    and "\<forall>row\<in>set rows. provider_row_ok g w a row" and "g \<le> 2 ^ 64" "w \<le> 2 ^ 64" "a \<le> 2 ^ 64"
  shows "\<exists>new. store = NewStore\<lparr>DpResponses := new\<rparr> \<and> map (viewed (decryptPoint S x)) new = map (row_points S) rows"
  using provider_sends_rows [where n = "Suc 0", OF assms(2-7), of False NewStore store] assms(1) by (auto simp: provider_data_def NewStore_def)

lemma viewed_layout:
  assumes "map (viewed (decryptPoint S x)) new = map (row_points S) rows" and "\<forall>row\<in>set rows. provider_row_ok g w a row"
  shows "\<forall>pr\<in>set new. layout g w a pr"
proof
  fix pr assume "pr \<in> set new"
  then have "viewed (decryptPoint S x) pr \<in> set (map (row_points S) rows)" unfolding assms(1) [symmetric] by simp
  then obtain row where "provider_row_ok g w a row" "viewed (decryptPoint S x) pr = row_points S row" using assms(2) by auto
  then show "layout g w a pr"
    by (auto simp: layout_def viewed_def row_points_def provider_row_ok_def row_sums_def row_conditions_def dest!: arg_cong [where f = length])
qed

text \<open>The data of a provider can always be sent.\<close>

lemma provider_sends_exists:
  assumes "Roster_Aggregate q = Point_Mul S x (Point_Base S)" and "named_query q g w a"
    and "\<forall>row\<in>set rows. provider_row_ok g w a row" and "g \<le> 2 ^ 64" "w \<le> 2 ^ 64" "a \<le> 2 ^ 64" and n: "0 < n"
  shows "\<exists>s'. provider_sends S q (int n) False (map clear_response rows) s s'"
proof -
  let ?c = "\<lambda>i. clear_response (rows ! i)"
  define ch where "ch i = \<lparr>enc_picks = (\<lambda>_ _. Scalar_Zero S), order_groups = visit_sorted (GroupByEnc (?c i)), order_where = visit_sorted (WhereEnc (?c i)),
    order_sums = visit_sorted (AggregatingAttributesEnc (?c i))\<rparr>" for i
  have ch: "\<forall>i < length rows. choices_ok (ch i) (?c i)"
    by (simp add: ch_def choices_ok_def visit_sorted_enumerates clear_response_def)
  define t where "t i = projr (EncryptDpClearResponse S (enc_picks (ch i)) (order_groups (ch i)) (order_where (ch i)) (order_sums (ch i)) (?c i) (Roster_Aggregate q) False)" for i
  have t: "EncryptDpClearResponse S (enc_picks (ch i)) (order_groups (ch i)) (order_where (ch i)) (order_sums (ch i)) (?c i) (Roster_Aggregate q) False = Inr (t i) \<and>
      finite (dom (GroupByEnc (t i))) \<and> finite (dom (WhereEnc (t i))) \<and> finite (dom (AggregatingAttributesEnc (t i)))" if "i < length rows" for i
    using EncryptDpClearResponse_finite [of "ch i" "?c i" "Roster_Aggregate q"] ch that by (auto simp: t_def)
  let ?ts = "sent n (map t [0..<length rows])" and ?m = "\<lambda>v. (v, visit_sorted (GroupByEnc v), visit_sorted (WhereEnc v), visit_sorted (AggregatingAttributesEnc v))"
  have "par_list 1 (length (map clear_response rows)) (\<lambda>i. EncryptDpClearResponse S (enc_picks (ch i)) (order_groups (ch i)) (order_where (ch i)) (order_sums (ch i))
      (map clear_response rows ! i) (Roster_Aggregate q) False) = Inr (map t [0..<length rows])" using t by (simp add: par_list_eq_Inr)
  then have ts: "EncryptDataToSurvey S ch (map clear_response rows) (Roster_Aggregate q) (int n) False = Inr ?ts"
    unfolding EncryptDataToSurvey_sent [OF n] by simp
  have ms: "map fst (map ?m ?ts) = ?ts" "\<forall>m\<in>set (map ?m ?ts). received_ok m"
    using t n by (auto simp: comp_def received_ok_def visit_sorted_enumerates)
  from provider_rows_stored [OF sent_rows_received [OF assms(1-6) ch n ts ms], of "scq_Proofs q" s]
  show ?thesis by (blast intro: provider_sendsI [OF ch ts ms])
qed

lemma provider_data_exists:
  assumes "Roster_Aggregate q = Point_Mul S x (Point_Base S)" and "named_query q g w a"
    and "\<forall>row\<in>set rows. provider_row_ok g w a row" and "g \<le> 2 ^ 64" "w \<le> 2 ^ 64" "a \<le> 2 ^ 64"
  shows "\<exists>store. provider_data S q rows store"
  using provider_sends_exists [where n = "Suc 0", OF assms] by (simp add: provider_data_def)

end

section \<open>The sums of the rows\<close>

definition row_groups :: "clear_row \<Rightarrow> int64 list" where
  "row_groups row = groups_clear row @ groups_enc row"

text \<open>
  Rows of the test data: of one shape, with conditions that are all 1 or all 0, with groups that
  the querier can decrypt and with attributes that are not negative.
\<close>

definition reference_row :: "nat \<times> nat \<times> nat \<times> nat \<times> nat \<times> nat \<Rightarrow> nat \<Rightarrow> nat \<Rightarrow> nat \<Rightarrow> clear_row \<Rightarrow> bool" where
  "reference_row shape g w a row \<longleftrightarrow> row_shape row = shape \<and> provider_row_ok g w a row \<and>
     (row_conditions row = replicate w 1 \<or> row_conditions row = replicate w 0) \<and>
     (\<forall>m\<in>set (row_groups row). 0 \<le> sint m \<and> sint m < MaxHomomorphicInt) \<and> (\<forall>m\<in>set (row_sums row). 0 \<le> sint m)"

text \<open>The sums of the attributes of rows by their groups.\<close>

definition reference_sums :: "nat \<Rightarrow> clear_row list \<Rightarrow> clear_row list \<Rightarrow> bool" where
  "reference_sums a rows expected \<longleftrightarrow> distinct (map row_groups expected) \<and> row_groups ` set expected = row_groups ` set rows \<and>
     (\<forall>q\<in>set expected. length (row_sums q) = a \<and>
       (\<forall>i<a. row_sums q ! i = (\<Sum>r\<leftarrow>filter (\<lambda>r. row_groups r = row_groups q) rows. row_sums r ! i)))"

definition sums_small :: "nat \<Rightarrow> clear_row list \<Rightarrow> bool" where
  "sums_small a rows \<longleftrightarrow> (\<forall>i<a. (\<Sum>row\<leftarrow>rows. sint (row_sums row ! i)) < MaxHomomorphicInt)"

lemma sint_sum_list:
  assumes "\<forall>v\<in>set vs. 0 \<le> sint (v :: int64)" and "(\<Sum>v\<leftarrow>vs. sint v) < 2 ^ 62"
  shows "sint (sum_list vs) = (\<Sum>v\<leftarrow>vs. sint v)"
  using assms
proof (induction vs)
  case (Cons v vs)
  have "0 \<le> (\<Sum>v\<leftarrow>vs. sint v)" using Cons.prems(1) by (intro sum_list_nonneg) auto
  with Cons show ?case by (simp add: sint_word_ariths signed_take_bit_int_eq_self_iff)
qed simp

lemma sum_list_filter_le: "\<forall>x\<in>set xs. 0 \<le> f x \<Longrightarrow> (\<Sum>x\<leftarrow>filter P xs. f x) \<le> (\<Sum>x\<leftarrow>xs. (f x :: int))"
  by (induction xs) auto

text \<open>One result for every group, given by its totals.\<close>

lemma mset_of_groups:
  assumes "distinct (map fst out)" and "distinct (map fst out')" and "set (map fst out) = set (map fst out')"
    and "\<forall>(k, v)\<in>set out. v = total_of k" and "\<forall>(k, v)\<in>set out'. v = total_of k"
  shows "mset out = mset out'"
proof -
  have "set os = (\<lambda>k. (k, total_of k)) ` set (map fst os)" if "\<forall>(k, v)\<in>set os. v = total_of k" for os
    using that by force
  then have "set out = set out'" using assms(3-5) by metis
  moreover have "distinct out" "distinct out'" using assms(1,2) by (simp_all only: distinct_map)
  ultimately show ?thesis by (simp add: set_eq_iff_mset_eq_distinct)
qed

lemma permuted_map: "mset xs = mset (map f ys) \<Longrightarrow> \<exists>zs. mset zs = mset ys \<and> xs = map f zs"
proof (induction xs arbitrary: ys)
  case (Cons x xs)
  then have "x \<in> f ` set ys" by (metis list.set_intros(1) list.set_map set_mset_mset)
  then obtain y where y: "y \<in> set ys" "x = f y" by blast
  obtain us vs where ys: "ys = us @ y # vs" using y(1) by (auto dest: split_list)
  then have "mset xs = mset (map f (us @ vs))" using Cons.prems y(2) by simp
  then obtain zs where "mset zs = mset (us @ vs)" "xs = map f zs" using Cons.IH by blast
  with y ys show ?case by (intro exI [of _ "y # zs"]) simp
qed simp

text \<open>What AddInClear makes of the rows.\<close>

lemma row_tags_groups: "row_tags row = row_groups row @ row_conditions row"
  by (simp add: row_tags_def row_groups_def row_conditions_def)

lemma kept_reference: "reference_row shape g w a row \<Longrightarrow> kept_row row \<longleftrightarrow> row_conditions row = replicate w 1"
  by (cases "w = 0") (auto simp: reference_row_def kept_row_def replicate_eq_replicate)

lemma same_shape_groups: "row_shape q = row_shape r \<Longrightarrow> row_tags q = row_tags r \<Longrightarrow> row_groups q = row_groups r \<and> row_conditions q = row_conditions r"
  by (simp add: row_tags_groups row_shape_def row_groups_def row_conditions_def)

lemma clear_reference:
  assumes ok: "\<forall>row\<in>set rows. reference_row shape g w a row" and few: "g \<le> 2 ^ 64" "w \<le> 2 ^ 64" "a \<le> 2 ^ 64"
    and visit: "\<forall>m. finite (dom m) \<longrightarrow> enumerates (visit m) m"
  shows "\<exists>expected. AddInClear visit spare (map clear_response rows) = Inr (map clear_response expected) \<and>
    reference_sums a (filter kept_row rows) expected"
proof -
  have "\<forall>row\<in>set rows. row_shape row = shape \<and> fits row \<and> row_tags row \<noteq> []"
    using ok few by (auto simp: reference_row_def provider_row_ok_def fits_def row_tags_def row_conditions_def row_sums_def)
  from add_in_clear_result [OF this visit, of spare] obtain expected where e:
    "AddInClear visit spare (map clear_response rows) = Inr (map clear_response expected)"
    "distinct (map row_tags expected)" "row_tags ` set expected = row_tags ` set (filter kept_row rows)"
    "\<forall>q\<in>set expected. row_shape q = shape \<and>
      (\<forall>i < length (row_sums q). row_sums q ! i = (\<Sum>r\<leftarrow>filter (\<lambda>r. kept_row r \<and> row_tags r = row_tags q) rows. row_sums r ! i))"
    by blast
  have kept: "row_tags r = row_groups r @ replicate w 1" if "r \<in> set rows" "kept_row r" for r
    using ok that kept_reference row_tags_groups by metis
  have of_kept: "\<exists>r\<in>set (filter kept_row rows). row_shape q = row_shape r \<and> row_tags q = row_tags r" if q: "q \<in> set expected" for q
  proof -
    have "row_tags q \<in> row_tags ` set (filter kept_row rows)" unfolding e(3) [symmetric] using q by (rule imageI)
    with e(4) q ok show ?thesis by (auto simp: reference_row_def)
  qed
  have tags: "row_tags q = row_groups q @ replicate w 1" "length (row_sums q) = a" if q: "q \<in> set expected" for q
  proof -
    obtain r where r: "r \<in> set rows" "kept_row r" "row_shape q = row_shape r" "row_tags q = row_tags r" using of_kept [OF q] by auto
    then show "row_tags q = row_groups q @ replicate w 1" using kept [OF r(1,2)] same_shape_groups [OF r(3,4)] by simp
    have "length (row_sums r) = a" using ok r(1) by (simp add: reference_row_def provider_row_ok_def)
    then show "length (row_sums q) = a" using r(3) by (simp add: row_shape_def row_sums_def)
  qed
  have d: "distinct (map row_groups expected)"
    using e(2) tags(1) by (simp add: distinct_map inj_on_def)
  have same: "(\<lambda>x. x @ replicate w 1) ` row_groups ` set expected = (\<lambda>x. x @ replicate w 1) ` row_groups ` set (filter kept_row rows)"
  proof -
    have "(\<lambda>x. x @ replicate w 1) ` row_groups ` set qs = row_tags ` set qs" if "\<forall>q\<in>set qs. row_tags q = row_groups q @ replicate w 1" for qs
      using that by (simp add: image_image cong: image_cong)
    from this [of expected] this [of "filter kept_row rows"] show ?thesis using tags(1) kept unfolding e(3) by simp
  qed
  have "inj (\<lambda>x. x @ replicate w (1 :: int64))" by (simp add: inj_def)
  with same have dom: "row_groups ` set expected = row_groups ` set (filter kept_row rows)" by (simp only: inj_image_eq_iff)
  have "filter (\<lambda>r. kept_row r \<and> row_tags r = row_tags q) rows = filter (\<lambda>r. row_groups r = row_groups q) (filter kept_row rows)"
    if "q \<in> set expected" for q
    using tags(1) [OF that] kept by (auto intro!: filter_cong)
  with e(4) tags(2) have "\<forall>q\<in>set expected. length (row_sums q) = a \<and>
      (\<forall>i<a. row_sums q ! i = (\<Sum>r\<leftarrow>filter (\<lambda>r. row_groups r = row_groups q) (filter kept_row rows). row_sums r ! i))" by simp
  with e(1) d dom show ?thesis unfolding reference_sums_def by (intro exI conjI)
qed

context kyber_suite
begin

lemma psum_ints:
  assumes "\<forall>v\<in>set vs. 0 \<le> sint v" and "(\<Sum>v\<leftarrow>vs. sint v) < 2 ^ 62"
  shows "psum S (map (IntToPoint S) vs) = IntToPoint S (sum_list vs)"
  using assms
proof (induction vs)
  case (Cons v vs)
  have "(\<Sum>v\<leftarrow>vs. sint v) < 2 ^ 62" "0 \<le> sint v" using Cons.prems by simp_all
  then have "sint (v + sum_list vs) = sint v + sint (sum_list vs)"
    using sint_sum_list [of "v # vs"] sint_sum_list [of vs] Cons.prems by simp
  with Cons \<open>(\<Sum>v\<leftarrow>vs. sint v) < 2 ^ 62\<close> show ?case by (simp add: IntToPoint_add)
qed simp

text \<open>The answer of the survey and the sums in the clear, row by row.\<close>

lemma answers_reference:
  assumes ans: "answers S a (map (row_points S) krows) out"
    and ok: "\<forall>row\<in>set krows. reference_row shape g w a row" and small: "sums_small a krows"
    and e: "reference_sums a krows expected"
  shows "mset out = mset (map (\<lambda>q. (map (IntToPoint S) (row_groups q), map (IntToPoint S) (row_sums q))) expected)"
    and "\<forall>q\<in>set expected. \<forall>m\<in>set (row_groups q) \<union> set (row_sums q). 0 \<le> sint m \<and> sint m < MaxHomomorphicInt"
proof -
  let ?I = "map (IntToPoint S)" and ?of = "\<lambda>q. filter (\<lambda>r. row_groups r = row_groups q) krows"
  have d: "distinct (map row_groups expected)" and dom: "row_groups ` set expected = row_groups ` set krows"
    and sums: "\<forall>q\<in>set expected. length (row_sums q) = a \<and> (\<forall>i<a. row_sums q ! i = (\<Sum>r\<leftarrow>?of q. row_sums r ! i))"
    using e by (simp_all add: reference_sums_def)
  have nonneg: "0 \<le> sint (row_sums r ! i)" if "r \<in> set krows" "i < a" for r i
    using ok that by (auto simp: reference_row_def provider_row_ok_def)
  have bound: "(\<Sum>r\<leftarrow>?of q. sint (row_sums r ! i)) < MaxHomomorphicInt" if "i < a" for q i
    using sum_list_filter_le [of krows "\<lambda>r. sint (row_sums r ! i)" "\<lambda>r. row_groups r = row_groups q"] nonneg small that
    by (force simp: sums_small_def)
  have vs: "\<forall>v\<in>set (map (\<lambda>r. row_sums r ! i) (?of q)). 0 \<le> sint v" "(\<Sum>v\<leftarrow>map (\<lambda>r. row_sums r ! i) (?of q). sint v) < 2 ^ 62" if "i < a" for q i
    using nonneg that bound [OF that, of q] by (auto simp: comp_def MaxHomomorphicInt_def)
  have inj: "?I xs = ?I ys \<longleftrightarrow> xs = ys" for xs ys by (simp add: inj_map_eq_map inj_def)
  have total: "?I (row_sums q) = map (\<lambda>i. row_total S i (filter (\<lambda>r. fst r = ?I (row_groups q)) (map (row_points S) krows))) [0..<a]" if q: "q \<in> set expected" for q
  proof (intro nth_equalityI)
    show "length (?I (row_sums q)) = length (map (\<lambda>i. row_total S i (filter (\<lambda>r. fst r = ?I (row_groups q)) (map (row_points S) krows))) [0..<a])"
      using sums q by simp
    fix i assume "i < length (?I (row_sums q))"
    then have i: "i < a" "row_sums q ! i = (\<Sum>r\<leftarrow>?of q. row_sums r ! i)" using sums q by auto
    have f: "filter (\<lambda>r. fst r = ?I (row_groups q)) (map (row_points S) krows) = map (row_points S) (?of q)"
      by (simp add: filter_map comp_def row_points_def row_groups_def inj del: map_append)
    have "row_total S i (map (row_points S) (?of q)) = psum S (map (\<lambda>r. IntToPoint S (row_sums r ! i)) (?of q))"
      unfolding row_total_def using ok i(1)
      by (intro arg_cong [where f = "psum S"]) (auto simp: row_points_def reference_row_def provider_row_ok_def)
    also have "\<dots> = IntToPoint S (row_sums q ! i)"
      using psum_ints [OF vs [OF i(1), of q]] i(2) by (simp add: comp_def)
    finally show "?I (row_sums q) ! i = map (\<lambda>i. row_total S i (filter (\<lambda>r. fst r = ?I (row_groups q)) (map (row_points S) krows))) [0..<a] ! i"
      using i(1) sums q f by simp
  qed
  show "mset out = mset (map (\<lambda>q. (?I (row_groups q), ?I (row_sums q))) expected)"
  proof (rule mset_of_groups)
    show "distinct (map fst out)" using ans by (simp add: answers_def)
    have "inj ?I" by (simp add: inj_def inj)
    then show "distinct (map fst (map (\<lambda>q. (?I (row_groups q), ?I (row_sums q))) expected))"
      using d by (simp add: comp_def distinct_map inj_on_def inj)
    have "set (map fst out) = fst ` row_points S ` set krows" using ans by (simp add: answers_def)
    also have "\<dots> = ?I ` row_groups ` set krows" by (auto simp: row_points_def row_groups_def image_iff)
    also have "\<dots> = set (map fst (map (\<lambda>q. (?I (row_groups q), ?I (row_sums q))) expected))" unfolding dom [symmetric] by (simp add: image_image)
    finally show "set (map fst out) = set (map fst (map (\<lambda>q. (?I (row_groups q), ?I (row_sums q))) expected))" .
    show "\<forall>(k, v)\<in>set out. v = map (\<lambda>i. row_total S i (filter (\<lambda>r. fst r = k) (map (row_points S) krows))) [0..<a]"
      using ans by (simp add: answers_def)
    show "\<forall>(k, v)\<in>set (map (\<lambda>q. (?I (row_groups q), ?I (row_sums q))) expected).
        v = map (\<lambda>i. row_total S i (filter (\<lambda>r. fst r = k) (map (row_points S) krows))) [0..<a]"
      using total by auto
  qed
  have "0 \<le> sint m \<and> sint m < MaxHomomorphicInt" if q: "q \<in> set expected" and m: "m \<in> set (row_sums q)" for q m
  proof -
    obtain i where i: "i < a" "m = (\<Sum>r\<leftarrow>?of q. row_sums r ! i)" using sums q m unfolding in_set_conv_nth [of m] by metis
    have "0 \<le> (\<Sum>r\<leftarrow>?of q. sint (row_sums r ! i))" using nonneg i(1) by (intro sum_list_nonneg) auto
    then show ?thesis using sint_sum_list [OF vs [OF i(1), of q]] bound [OF i(1), of q] i(2) by (simp add: comp_def)
  qed
  moreover have "0 \<le> sint m \<and> sint m < MaxHomomorphicInt" if "q \<in> set expected" and "m \<in> set (row_groups q)" for q m
  proof -
    have "row_groups q \<in> row_groups ` set krows" unfolding dom [symmetric] using that(1) by (rule imageI)
    then obtain r where r: "r \<in> set krows" "row_groups q = row_groups r" by (rule imageE)
    then have "reference_row shape g w a r" using ok by blast
    then show ?thesis using r(2) that(2) unfolding reference_row_def by metis
  qed
  ultimately show "\<forall>q\<in>set expected. \<forall>m\<in>set (row_groups q) \<union> set (row_sums q). 0 \<le> sint m \<and> sint m < MaxHomomorphicInt" by blast
qed

end

section \<open>The survey and the reference\<close>

text \<open>
  The server holds the data of its providers. The wanted values of the conditions are 1, and the
  predicate holds when all conditions do and fails when none does.
\<close>

definition provider_server :: "('s, 'p) suite \<Rightarrow> 'p WhereQueryAttribute list \<Rightarrow> nat \<Rightarrow> nat \<Rightarrow> clear_row list \<Rightarrow> ('s, 'p, 'id) server \<Rightarrow> bool" where
  "provider_server S wh g a rows s \<longleftrightarrow> named_query (Query (survey s)) g (length wh) a \<and>
     provider_data S (Query (survey s)) rows (sv_Store (survey s))"

definition wants_ones :: "('s, 'p) suite \<Rightarrow> 's \<Rightarrow> (bool list \<Rightarrow> bool) \<Rightarrow> 'p WhereQueryAttribute list \<Rightarrow> bool" where
  "wants_ones S x ev wh \<longleftrightarrow> map (\<lambda>c. decryptPoint S x (wq_Value c)) wh = replicate (length wh) (IntToPoint S 1) \<and>
     ev (replicate (length wh) True) \<and> (wh \<noteq> [] \<longrightarrow> \<not> ev (replicate (length wh) False))"

context kyber_suite
begin

lemma satisfies_reference:
  assumes "wants_ones S x ev wh" and "reference_row shape g (length wh) a row"
  shows "satisfies ev (map (\<lambda>c. decryptPoint S x (wq_Value c)) wh) (row_points S row) \<longleftrightarrow> kept_row row"
proof -
  let ?w = "length wh"
  have wanted: "satisfies ev (map (\<lambda>c. decryptPoint S x (wq_Value c)) wh) (row_points S row) \<longleftrightarrow>
      ev (map2 (=) (replicate ?w (IntToPoint S 1)) (map (IntToPoint S) (row_conditions row)))"
    using assms(1) by (simp add: wants_ones_def satisfies_def row_points_def)
  consider "row_conditions row = replicate ?w 1" | "row_conditions row = replicate ?w 0" "wh \<noteq> []"
    using assms(2) by (cases "wh = []") (auto simp: reference_row_def)
  then show ?thesis
  proof cases
    case 1
    then show ?thesis using assms kept_reference [OF assms(2)] by (simp only: wanted) (simp add: wants_ones_def zip_replicate)
  next
    case 2
    then have "row_conditions row \<noteq> replicate ?w 1" by (simp add: replicate_eq_replicate)
    moreover have "IntToPoint S 1 \<noteq> IntToPoint S 0" by (simp only: IntToPoint_inject) simp
    ultimately show ?thesis using assms 2 kept_reference [OF assms(2)] by (simp only: wanted) (simp add: wants_ones_def zip_replicate del: int_point_0)
  qed
qed

lemma provider_server_rows:
  assumes s: "server_ok S Z servers wh pred g a i s" and p: "provider_server S wh g a rows s"
    and ok: "\<forall>row\<in>set rows. reference_row shape g (length wh) a row" and "g + length wh + a < 2 ^ 32"
  shows "map (viewed (decryptPoint S (joint_private S servers))) (stored (entries s) (survey s)) = map (row_points S) rows"
proof -
  have "\<exists>new. sv_Store (survey s) = NewStore\<lparr>DpResponses := new\<rparr> \<and>
      map (viewed (decryptPoint S (joint_private S servers))) new = map (row_points S) rows"
    using p s assms(4) ok by (intro provider_data_store) (auto simp: provider_server_def server_ok_def Let_def reference_row_def)
  then obtain new where new: "sv_Store (survey s) = NewStore\<lparr>DpResponses := new\<rparr>"
    "map (viewed (decryptPoint S (joint_private S servers))) new = map (row_points S) rows" by blast
  have "enumerates (entries s) (DpResponsesAggr (sv_Store (survey s)))" using s by (simp add: server_ok_def Let_def)
  then have "entries s = []" using enumerates_dom [of "entries s" Map.empty] by (simp add: new(1) NewStore_def)
  then show ?thesis using new by (simp add: stored_def)
qed

end

context proof_system
begin

text \<open>The servers hold the rows in any way; expected are the sums of the rows that are kept.\<close>

lemma survey_reference_stored:
  assumes table: "reachable_table S st"
    and ok: "\<forall>i<length servers. server_ok S Z servers wh pred g a i (servers ! i)"
    and rows: "\<forall>i<length servers. map (viewed (decryptPoint S (joint_private S servers))) (stored (entries (servers ! i)) (survey (servers ! i))) =
      map (row_points S) (rows i)"
    and ref: "\<forall>row\<in>set (concat (map rows [0..<length servers])). reference_row shape g (length wh) a row"
    and small: "sums_small a (concat (map rows [0..<length servers]))"
    and ones: "wants_ones S (joint_private S servers) ev wh"
    and inv: "Scalar_Mul S ia (sprod S (survey_secrets servers)) = Scalar_One S"
    and ev: "\<forall>s\<in>set servers. predicate_is gov (Query (survey s)) ev"
    and few: "0 < a" "g + length wh + a < 2 ^ 32" "length (concat (map rows [0..<length servers])) * (g + a) < 2 ^ 32"
    and trees: "arrivals_ok (\<lambda>lo da. lo = da) aggr" "mset (tree_nodes aggr) = mset [0..<length servers]"
      "arrivals_ok (\<lambda>_ _. True) switch" "mset (tree_nodes switch) = mset [0..<length servers]" "content switch = content aggr"
    and client: "ClientPubKey (Query (survey (servers ! content aggr))) = Some (Point_Mul S y (Point_Base S))"
    and e: "reference_sums a (filter kept_row (concat (map rows [0..<length servers]))) expected"
  shows "\<exists>results grp aggregates. survey_run S Z gov servers aggr switch = Inr results \<and>
    fst (SendSurveyResultsQuery S st y (Inr results)) = Inr (grp, aggregates) \<and> length aggregates = length grp \<and>
    mset (zip grp aggregates) = mset (map (\<lambda>q. (row_groups q, row_sums q)) expected)"
proof -
  let ?n = "length servers" and ?x = "joint_private S servers" and ?I = "map (IntToPoint S)"
  let ?all = "concat (map rows [0..<?n])" and ?P = "satisfies ev (map (\<lambda>c. decryptPoint S (joint_private S servers) (wq_Value c)) wh)"
  have "map (\<lambda>s. map (viewed (decryptPoint S ?x)) (stored (entries s) (survey s))) (map ((!) servers) [0..<?n]) = map (\<lambda>i. map (row_points S) (rows i)) [0..<?n]"
    using rows by simp
  then have plain: "plain_rows S ?x servers = map (row_points S) ?all"
    unfolding map_nth plain_rows_def by (simp add: map_concat comp_def)
  have "?P (row_points S row) \<longleftrightarrow> kept_row row" if "row \<in> set ?all" for row
    using satisfies_reference [OF ones bspec [OF ref that]] .
  then have "filter (?P \<circ> row_points S) ?all = filter kept_row ?all" by (intro filter_cong) simp_all
  then have sel: "filter ?P (plain_rows S ?x servers) = map (row_points S) (filter kept_row ?all)"
    by (simp only: plain filter_map)
  have "length wh < 2 ^ 62" using few(2) by simp
  then obtain results where run: "survey_run S Z gov servers aggr switch = Inr results"
    "answers S a (map (row_points S) (filter kept_row ?all)) (map (shown (decryptPoint S y)) results)"
    using survey_answered [OF ok inv ev few(1) _ few(2) _ arrivals_ok_mono [OF trees(1)] trees(2-) client] few(3) unfolding sel by (auto simp: plain)
  have keptok: "\<forall>row\<in>set (filter kept_row ?all). reference_row shape g (length wh) a row"
    using ref unfolding set_filter by blast
  have "(\<Sum>row\<leftarrow>filter kept_row ?all. sint (row_sums row ! i)) \<le> (\<Sum>row\<leftarrow>?all. sint (row_sums row ! i))" if "i < a" for i
    using ref that by (intro sum_list_filter_le) (auto simp: reference_row_def provider_row_ok_def)
  with small have keptsmall: "sums_small a (filter kept_row ?all)" unfolding sums_small_def by (meson le_less_trans)
  note m = answers_reference [OF run(2) keptok keptsmall e]
  have "mset (map (shown (decryptPoint S y)) results) =
      mset (map (\<lambda>(grp, aggr). (?I grp, ?I aggr)) (map (\<lambda>q. (row_groups q, row_sums q)) expected))"
    unfolding m(1) by (simp add: comp_def)
  then obtain ints where ints: "mset ints = mset (map (\<lambda>q. (row_groups q, row_sums q)) expected)"
    "map (shown (decryptPoint S y)) results = map (\<lambda>(grp, aggr). (?I grp, ?I aggr)) ints" by (blast dest: permuted_map)
  have "set ints = (\<lambda>q. (row_groups q, row_sums q)) ` set expected" using mset_eq_setD [OF ints(1)] by simp
  then have "\<forall>(grp, aggr)\<in>set ints. \<forall>m\<in>set grp \<union> set aggr. 0 \<le> sint m \<and> sint m < MaxHomomorphicInt" using m(2) by auto
  from decrypt_results_ints [OF reachable_table_inv [OF table] ints(2) this]
  have "fst (SendSurveyResultsQuery S st y (Inr results)) = Inr (map fst ints, map snd ints)" .
  moreover have "mset (zip (map fst ints) (map snd ints)) = mset (map (\<lambda>q. (row_groups q, row_sums q)) expected)"
    unfolding zip_map_fst_snd by (rule ints(1))
  moreover have "length (map snd ints) = length (map fst ints)" by simp
  ultimately show ?thesis using run(1) by blast
qed

lemma survey_reference:
  assumes table: "reachable_table S st" and visit: "\<forall>m. finite (dom m) \<longrightarrow> enumerates (visit m) m"
    and ok: "\<forall>i<length servers. server_ok S Z servers wh pred g a i (servers ! i) \<and> provider_server S wh g a (rows i) (servers ! i)"
    and ref: "\<forall>row\<in>set (concat (map rows [0..<length servers])). reference_row shape g (length wh) a row"
    and rest: "sums_small a (concat (map rows [0..<length servers]))" "wants_ones S (joint_private S servers) ev wh"
      "Scalar_Mul S ia (sprod S (survey_secrets servers)) = Scalar_One S" "\<forall>s\<in>set servers. predicate_is gov (Query (survey s)) ev"
    and few: "0 < a" "g + length wh + a < 2 ^ 32" "length (concat (map rows [0..<length servers])) * (g + a) < 2 ^ 32"
    and trees: "arrivals_ok (\<lambda>lo da. lo = da) aggr" "mset (tree_nodes aggr) = mset [0..<length servers]"
      "arrivals_ok (\<lambda>_ _. True) switch" "mset (tree_nodes switch) = mset [0..<length servers]" "content switch = content aggr"
    and client: "ClientPubKey (Query (survey (servers ! content aggr))) = Some (Point_Mul S y (Point_Base S))"
  shows "\<exists>results grp aggregates expected. survey_run S Z gov servers aggr switch = Inr results \<and>
    fst (SendSurveyResultsQuery S st y (Inr results)) = Inr (grp, aggregates) \<and>
    AddInClear visit spare (map clear_response (concat (map rows [0..<length servers]))) = Inr (map clear_response expected) \<and>
    mset (zip grp aggregates) = mset (map (\<lambda>q. (row_groups q, row_sums q)) expected)"
proof -
  have rows: "map (viewed (decryptPoint S (joint_private S servers))) (stored (entries (servers ! i)) (survey (servers ! i))) = map (row_points S) (rows i)"
    if i: "i < length servers" for i
  proof -
    have "\<forall>row\<in>set (rows i). reference_row shape g (length wh) a row" using ref i by simp
    with ok i few(2) show ?thesis by (blast intro: provider_server_rows)
  qed
  have few': "g \<le> 2 ^ 64" "length wh \<le> 2 ^ 64" "a \<le> 2 ^ 64" using few(2) by simp_all
  obtain expected where e: "AddInClear visit spare (map clear_response (concat (map rows [0..<length servers]))) = Inr (map clear_response expected)"
    "reference_sums a (filter kept_row (concat (map rows [0..<length servers]))) expected"
    using clear_reference [OF ref few' visit, of spare] by blast
  with survey_reference_stored [OF table _ _ ref rest few trees client e(2)] ok rows show ?thesis by blast
qed

end
section \<open>Properties\<close>

text \<open>
  C2. The survey agrees with the reference in the clear. Let data providers encrypt rows of test
  data and send them to their servers: rows of one shape, with conditions that are all 1 or all 0,
  groups within the range of the decryption, and attributes whose sums over all rows are. Let the
  query name the attributes of the rows and ask for the value 1 in every condition, and let the
  lengths and the data of the children reach a node of the aggregation in one order. Then the run of
  the survey by all servers succeeds, the querier decrypts its results with whatever table former
  searches have left, and what it reads are, up to their order, the groups and the sums of the
  responses that AddInClear computes from the rows of all providers together.
\<close>

theorem survey_matches_reference:
  assumes "proof_system S Z" and "reachable_table S st" and "\<forall>m. finite (dom m) \<longrightarrow> enumerates (visit m) m"
    and "\<forall>i<length servers. server_ok S Z servers wh pred g a i (servers ! i) \<and> provider_server S wh g a (rows i) (servers ! i)"
    and "\<forall>row\<in>set (concat (map rows [0..<length servers])). reference_row shape g (length wh) a row"
    and "sums_small a (concat (map rows [0..<length servers]))" and "wants_ones S (joint_private S servers) ev wh"
    and "Scalar_Mul S ia (sprod S (survey_secrets servers)) = Scalar_One S"
    and "\<forall>s\<in>set servers. predicate_is gov (Query (survey s)) ev"
    and "0 < a" and "g + length wh + a < 2 ^ 32" and "length (concat (map rows [0..<length servers])) * (g + a) < 2 ^ 32"
    and "arrivals_ok (\<lambda>lo da. lo = da) aggr" and "mset (tree_nodes aggr) = mset [0..<length servers]"
    and "arrivals_ok (\<lambda>_ _. True) switch" and "mset (tree_nodes switch) = mset [0..<length servers]" and "content switch = content aggr"
    and "ClientPubKey (Query (survey (servers ! content aggr))) = Some (Point_Mul S y (Point_Base S))"
  shows "\<exists>results grp aggregates expected. survey_run S Z gov servers aggr switch = Inr results \<and>
    fst (SendSurveyResultsQuery S st y (Inr results)) = Inr (grp, aggregates) \<and>
    AddInClear visit spare (map clear_response (concat (map rows [0..<length servers]))) = Inr (map clear_response expected) \<and>
    mset (zip grp aggregates) = mset (map (\<lambda>q. (row_groups q, row_sums q)) expected)"
  using assms by (rule proof_system.survey_reference)

text \<open>The rows of two providers, one for each of the two servers.\<close>

definition provider_rows :: "nat \<Rightarrow> clear_row list" where
  "provider_rows i =
     (let row = \<lambda>g w v. \<lparr>groups_clear = [], groups_enc = [g], where_clear = [], where_enc = [w], sums_clear = [], sums_enc = [v]\<rparr>
      in if i = 0 then [row 7 1 10, row 8 0 99] else [row 7 1 32])"

lemma provider_rows_ok: "row \<in> set (provider_rows i) \<Longrightarrow> reference_row (0, 1, 0, 1, 0, 1) 1 1 1 row"
  by (auto simp: provider_rows_def Let_def reference_row_def provider_row_ok_def row_shape_def row_conditions_def row_groups_def row_sums_def
      MaxHomomorphicInt_def split: if_splits)

lemma survey_query_named: "named_query survey_query 1 1 1"
  by (simp add: named_query_def survey_query_def Itoa_def dec.simps digit_def)

lemma example_rows_received:
  "\<exists>prs. provider_data ed25519 survey_query (provider_rows i) (NewStore\<lparr>DpResponses := prs\<rparr>) \<and> (\<forall>pr\<in>set prs. layout 1 1 1 pr)"
proof -
  have key: "Roster_Aggregate survey_query = Point_Mul ed25519 5 (Point_Base ed25519)" by (simp add: survey_query_def ed_simps)
  have rows: "\<forall>row\<in>set (provider_rows i). provider_row_ok 1 1 1 row" using provider_rows_ok by (simp add: reference_row_def)
  obtain store where store: "provider_data ed25519 survey_query (provider_rows i) store"
    using ed.provider_data_exists [OF key survey_query_named rows] by auto
  then obtain new where new: "store = NewStore\<lparr>DpResponses := new\<rparr>" "map (viewed (decryptPoint ed25519 5)) new = map (row_points ed25519) (provider_rows i)"
    using ed.provider_data_store [OF store key survey_query_named rows] by auto
  have "\<forall>pr\<in>set new. layout 1 1 1 pr" by (rule ed.viewed_layout [OF new(2) rows])
  with store new(1) show ?thesis by blast
qed

theorem survey_matches_reference_witness:
  "\<exists>prs prs' results grp aggregates expected.
    survey_run ed25519 (transparent ed25519) survey_predicate (two_servers prs prs') (Node 0 [0] [0] [Node 1 [] [] []]) (Node 0 [0] [0] [Node 1 [] [] []]) = Inr results \<and>
    fst (SendSurveyResultsQuery ed25519 empty_table 11 (Inr results)) = Inr (grp, aggregates) \<and>
    AddInClear visit_sorted (\<lambda>_. (0, 0)) (map clear_response (provider_rows 0 @ provider_rows 1)) = Inr (map clear_response expected) \<and>
    mset (zip grp aggregates) = mset (map (\<lambda>q. (row_groups q, row_sums q)) expected)"
proof -
  obtain prs prs' where p: "provider_data ed25519 survey_query (provider_rows 0) (NewStore\<lparr>DpResponses := prs\<rparr>)" "\<forall>pr\<in>set prs. layout 1 1 1 pr"
    "provider_data ed25519 survey_query (provider_rows 1) (NewStore\<lparr>DpResponses := prs'\<rparr>)" "\<forall>pr\<in>set prs'. layout 1 1 1 pr"
    using example_rows_received by metis
  let ?servers = "two_servers prs prs'" and ?t = "Node 0 [0] [0] [Node 1 [] [] []] :: nat tree"
  have ok: "server_ok ed25519 (transparent ed25519) ?servers (Where survey_query) '' v0 == v1 '' 1 1 i (?servers ! i)" if "i < 2" for i
    using two_servers_ok [of prs prs'] p(2,4) that by (auto simp: two_servers_simps)
  have w: "length (Where survey_query) = 1" by (simp add: survey_query_def)
  have server: "provider_server ed25519 (Where survey_query) 1 1 (provider_rows i) (?servers ! i)" if "i < 2" for i
    using that p(1,3) survey_query_named
    by (auto simp: less_2_cases_iff provider_server_def two_servers_simps w) (simp_all add: two_servers_def survey_server_def)
  have two: "[0..<length ?servers] = [0, 1]" "concat (map provider_rows [0..<length ?servers]) = provider_rows 0 @ provider_rows 1"
    by (simp_all add: two_servers_simps upt_rec)
  have "\<exists>results grp aggregates expected. survey_run ed25519 (transparent ed25519) survey_predicate ?servers ?t ?t = Inr results \<and>
    fst (SendSurveyResultsQuery ed25519 empty_table 11 (Inr results)) = Inr (grp, aggregates) \<and>
    AddInClear visit_sorted (\<lambda>_. (0, 0)) (map clear_response (concat (map provider_rows [0..<length ?servers]))) = Inr (map clear_response expected) \<and>
    mset (zip grp aggregates) = mset (map (\<lambda>q. (row_groups q, row_sums q)) expected)"
  proof (rule survey_matches_reference [OF ed.transparent_proof_system, where ia = 1 and ev = "\<lambda>bs. bs = [True]"])
    show "\<forall>i<length ?servers. server_ok ed25519 (transparent ed25519) ?servers (Where survey_query) '' v0 == v1 '' 1 1 i (?servers ! i) \<and>
        provider_server ed25519 (Where survey_query) 1 1 (provider_rows i) (?servers ! i)"
      using ok server by (simp add: two_servers_simps)
    show "\<forall>row\<in>set (concat (map provider_rows [0..<length ?servers])). reference_row (0, 1, 0, 1, 0, 1) 1 (length (Where survey_query)) 1 row"
      using provider_rows_ok by (auto simp: w)
    show "sums_small 1 (concat (map provider_rows [0..<length ?servers]))"
      unfolding two(2) by (simp add: sums_small_def provider_rows_def row_sums_def MaxHomomorphicInt_def)
    show "wants_ones ed25519 (joint_private ed25519 ?servers) (\<lambda>bs. bs = [True]) (Where survey_query)"
      using two_servers_simps(3) by (simp add: wants_ones_def two_servers_simps(1) w IntToPoint_def ed_simps)
    show "Scalar_Mul ed25519 1 (sprod ed25519 (survey_secrets ?servers)) = Scalar_One ed25519"
      by (simp add: two_servers_simps sprod_def ed_simps)
    show "\<forall>s\<in>set ?servers. predicate_is survey_predicate (Query (survey s)) (\<lambda>bs. bs = [True])"
      using survey_predicate_is by (simp add: two_servers_def survey_server_def)
    show "1 + length (Where survey_query) + 1 < 2 ^ 32" by (simp add: w)
    show "length (concat (map provider_rows [0..<length ?servers])) * (1 + 1) < 2 ^ 32" unfolding two(2) by (simp add: provider_rows_def)
    show "ClientPubKey (Query (survey (?servers ! content ?t))) = Some (Point_Mul ed25519 11 (Point_Base ed25519))"
      by (simp add: two_servers_def survey_server_def survey_query_def ed_simps)
  qed (simp_all add: two(1) reachable_table.init visit_sorted_enumerates)
  then show ?thesis unfolding two(2) by blast
qed


end
