(* ===== verification/ProofsVerification.thy ===== *)
theory ProofsVerification
  imports KeySwitch Tagging Aggregation Shuffle
begin

text \<open>
  The verification of all published proofs (protocols/utils/proofs_verification_protocol.go): one
  boolean for each of the six kinds of proofs. The lists are verified one after the other, so a
  panic of one of the verifiers ends the protocol; Dispatch hands the booleans on as they are.
\<close>

section \<open>The protocol\<close>

record 'p ProofsToVerify =
  KeySwitchingProofs :: "'p PublishedKSListProof"
  DetTagCreationProofs :: "'p PublishedDDTCreationListProof"
  DetTagAdditionProofs :: "'p PublishedDDTAdditionProof list"
  AggregationProofs :: "'p PublishedAggregationProof list"
  ShufflingProofs :: "'p PublishedShufflingProof list"
  CollectiveAggregationProofs :: "'p PublishedAggregationProof list"

text \<open>The percentage 1.0 is exact on every length: all proofs are verified.\<close>

definition ProofsVerification_Start :: "('s, 'p) suite \<Rightarrow> ('s, 'p) proofs \<Rightarrow> ('s, 'p) pair_shuffle \<Rightarrow> ('p \<Rightarrow> 'p \<Rightarrow> bool) \<Rightarrow> 'p
    \<Rightarrow> 'p ProofsToVerify \<Rightarrow> bool list res" where
  "ProofsVerification_Start S Z W deepEqual aggregate target =
     andThen (KeySwitchListProofVerification Z (KeySwitchingProofs target) full) (\<lambda>r0.
     andThen (DeterministicTagCrListProofVerification S Z (DetTagCreationProofs target) full) (\<lambda>r1.
     andThen (DeterministicTagAdditionListProofVerification S Z deepEqual (DetTagAdditionProofs target) full) (\<lambda>r2.
     andThen (AggregationListProofVerification S (AggregationProofs target) full) (\<lambda>r3.
     andThen (ShuffleListProofVerification S W (ShufflingProofs target) aggregate full) (\<lambda>r4.
     andThen (AggregationListProofVerification S (CollectiveAggregationProofs target) full) (\<lambda>r5.
     Inr [r0, r1, r2, r3, r4, r5]))))))"

section \<open>Honest proofs\<close>

text \<open>A shuffle of a server with its inputs, its random choices and its precomputed values.\<close>

record ('s, 'p) shuffle_run =
  sr_Input :: "'p CipherVector list"
  sr_Blind :: "nat \<Rightarrow> nat \<Rightarrow> 's"
  sr_Pickline :: "nat \<Rightarrow> nat"
  sr_Draw :: "nat \<Rightarrow> nat"
  sr_Precomputed :: "('s, 'p) CipherVectorScalar list option"

definition shuffle_run_ok :: "('s, 'p) suite \<Rightarrow> 'p \<Rightarrow> ('s, 'p) shuffle_run \<Rightarrow> bool" where
  "shuffle_run_ok S h r \<longleftrightarrow> 1 < length (sr_Input r) \<and>
     (\<exists>NQ. (\<forall>row\<in>set (sr_Input r). length row = NQ) \<and> blinding_ok S (Point_Base S) h NQ (sr_Precomputed r))"

definition prove_shuffle :: "('s, 'p) suite \<Rightarrow> ('s, 'p) pair_shuffle \<Rightarrow> 'p \<Rightarrow> ('s, 'p) shuffle_run \<Rightarrow> 'p PublishedShufflingProof res" where
  "prove_shuffle S W h r =
     andThen (ShuffleSequence S (sr_Blind r) (sr_Pickline r) (sr_Draw r) (sr_Input r) (Point_Base S) h (sr_Precomputed r)) (\<lambda>(outputList, perm, beta).
     ShuffleProofCreation S W (sr_Input r) outputList (Point_Base S) h beta perm)"

lemma prove_shuffle_accepted:
  assumes "shuffle_system S W" and "shuffle_run_ok S h r"
  shows "\<exists>psp. prove_shuffle S W h r = Inr psp \<and> ShuffleProofVerification S W psp h = Inr True"
proof -
  obtain NQ where r: "1 < length (sr_Input r)" "\<forall>row\<in>set (sr_Input r). length row = NQ" "blinding_ok S (Point_Base S) h NQ (sr_Precomputed r)"
    using assms(2) by (auto simp: shuffle_run_ok_def)
  then have "sr_Input r \<noteq> []" by auto
  from ShuffleSequence_Inr [OF this r(2,3), of "sr_Blind r" "sr_Pickline r" "sr_Draw r"] obtain out perm beta where
    s: "ShuffleSequence S (sr_Blind r) (sr_Pickline r) (sr_Draw r) (sr_Input r) (Point_Base S) h (sr_Precomputed r) = Inr (out, perm, beta)" by blast
  from shuffle_proof_accepted [OF assms(1) r s] show ?thesis by (simp add: prove_shuffle_def s)
qed

lemma traverse_all:
  assumes "\<forall>x\<in>set xs. \<exists>y. f x = Inr y \<and> P y"
  shows "\<exists>ys. traverse f xs = Inr ys \<and> length ys = length xs \<and> (\<forall>y\<in>set ys. P y)"
proof -
  from assms have "\<exists>g. \<forall>x\<in>set xs. f x = Inr (g x) \<and> P (g x)" by (rule bchoice)
  then obtain g where "\<forall>x\<in>set xs. f x = Inr (g x) \<and> P (g x)" ..
  then show ?thesis by (intro exI [of _ "map g xs"]) (simp add: traverse_Inr_map)
qed

text \<open>The proof of an addition has the base point and the second summand as its statement.\<close>

context proof_system
begin

lemma addition_proof_made:
  "\<exists>p. DeterministicTagAdditionProofCreation S Z c1 s (Point_Mul S s (Point_Base S)) r = Inr p \<and> da_C1 p = c1 \<and>
    da_C2 p = Point_Mul S s (Point_Base S) \<and> da_R p = r \<and>
    DeterministicTagAdditionProofVerification S Z deepEqual p = Inr (deepEqual (Point_Add S c1 (Point_Mul S s (Point_Base S))) r)"
proof -
  let ?pval = "[''B'' \<mapsto> Point_Base S, ''c1'' \<mapsto> c1, ''c2'' \<mapsto> Point_Mul S s (Point_Base S), ''r'' \<mapsto> r]"
  have "holds S [''s'' \<mapsto> s] ?pval createPredicateDeterministicTagAddition"
    by (simp add: createPredicateDeterministicTagAddition_def represents_def pv_def)
  from proofs_complete [OF this, of ?pval "''proofTest''"] obtain prf' where
    "HashProve Z ''proofTest'' createPredicateDeterministicTagAddition [''s'' \<mapsto> s] ?pval = Inr prf'"
    "HashVerify Z ''proofTest'' createPredicateDeterministicTagAddition ?pval prf' = Inr ()" by blast
  then show ?thesis
    by (simp add: DeterministicTagAdditionProofCreation_def DeterministicTagAdditionProofVerification_def)
qed

lemma addition_list_report:
  assumes "length ss = length c1s" and "length rs = length c1s"
  shows "\<exists>al. DeterministicTagAdditionListProofCreation S Z c1s ss (map (\<lambda>s. Point_Mul S s (Point_Base S)) ss) rs = Inr al \<and>
    DeterministicTagAdditionListProofVerification S Z deepEqual al full =
      Inr (list_all (\<lambda>i. deepEqual (Point_Add S (c1s ! i) (Point_Mul S (ss ! i) (Point_Base S))) (rs ! i))
        (filter (\<lambda>i. i mod VPARALLELIZE = 0) [0..<length c1s]))"
proof -
  let ?P = "\<lambda>i. deepEqual (Point_Add S (c1s ! i) (Point_Mul S (ss ! i) (Point_Base S))) (rs ! i)"
  have "\<exists>p. DeterministicTagAdditionProofCreation S Z (c1s ! i) (ss ! i) (Point_Mul S (ss ! i) (Point_Base S)) (rs ! i) = Inr p \<and>
      DeterministicTagAdditionProofVerification S Z deepEqual p = Inr (?P i)" for i
    using addition_proof_made [of "c1s ! i" "ss ! i" "rs ! i" deepEqual] by (elim exE conjE) (intro exI conjI)
  then obtain p where p: "\<And>i. DeterministicTagAdditionProofCreation S Z (c1s ! i) (ss ! i) (Point_Mul S (ss ! i) (Point_Base S)) (rs ! i) = Inr (p i)"
      "\<And>i. DeterministicTagAdditionProofVerification S Z deepEqual (p i) = Inr (?P i)" by metis
  let ?b = "\<lambda>m. m - m mod VPARALLELIZE" and ?al = "map (\<lambda>m. p (m - m mod VPARALLELIZE)) [0..<length c1s]"
  have b: "?b m \<le> m" "m mod VPARALLELIZE = 0 \<Longrightarrow> ?b m = m" for m by simp_all
  have b0: "?b m mod VPARALLELIZE = 0" for m by (simp only: minus_mod_eq_mult_div mod_mult_self1_is_0)
  have "DeterministicTagAdditionListProofCreation S Z c1s ss (map (\<lambda>s. Point_Mul S s (Point_Base S)) ss) rs = Inr ?al"
    unfolding DeterministicTagAdditionListProofCreation_def
  proof (rule par_list_Inr)
    fix m assume m: "m < length c1s"
    then have "?b m < length c1s" using b(1) [of m] by simp
    then show "(let i = ?b m in andThen (index_at c1s i) (\<lambda>c1. andThen (index_at ss i) (\<lambda>s.
        andThen (index_at (map (\<lambda>s. Point_Mul S s (Point_Base S)) ss) i) (\<lambda>c2. andThen (index_at rs i) (\<lambda>r.
        DeterministicTagAdditionProofCreation S Z c1 s c2 r))))) = Inr (p (?b m))"
      using assms p [of "?b m"] by (simp add: Let_def)
  qed (simp add: VPARALLELIZE_def)
  moreover have "DeterministicTagAdditionListProofVerification S Z deepEqual ?al full =
      Inr (list_all (\<lambda>pf. projr (DeterministicTagAdditionProofVerification S Z deepEqual pf)) ?al)"
    unfolding DeterministicTagAdditionListProofVerification_def by (rule verify_list_full) (auto simp: p)
  moreover have "list_all (\<lambda>pf. projr (DeterministicTagAdditionProofVerification S Z deepEqual pf)) ?al \<longleftrightarrow>
      list_all ?P (filter (\<lambda>i. i mod VPARALLELIZE = 0) [0..<length c1s])"
  proof -
    have "list_all (\<lambda>pf. projr (DeterministicTagAdditionProofVerification S Z deepEqual pf)) ?al \<longleftrightarrow> (\<forall>m<length c1s. ?P (?b m))"
      by (simp add: list_all_iff p) (simp add: Ball_def)
    also have "\<dots> \<longleftrightarrow> (\<forall>i<length c1s. i mod VPARALLELIZE = 0 \<longrightarrow> ?P i)"
      using b b0 by (metis le_less_trans)
    finally show ?thesis by (auto simp: list_all_iff)
  qed
  ultimately show ?thesis by (intro exI [of _ ?al]) simp
qed

end

section \<open>Properties\<close>

text \<open>
  C24. The report of the verification protocol on the proofs of servers that follow the code. The
  proofs of key switching and of shuffling are reported as true; the two entries of the
  aggregations are true exactly when every published result is the sum of its column; and the
  entry of the additions only tells whether the sums compare equal at the first position of every
  block of 100, since the other proofs of a block repeat it. The entry of the tagging is true for
  the proofs that DeterministicTagCrListProofCreation makes with its arguments in their places, as
  the simulation of this protocol calls it, and false for those that TaggingDet makes during the
  tagging protocol, when the secret and the private key act differently on the ciphertexts.
\<close>

theorem proofs_verification_report:
  fixes deepEqual :: "'p \<Rightarrow> 'p \<Rightarrow> bool"
  assumes "proof_system S Z" and "shuffle_system S W" and "KeySwitchSequence S picks Q rBs k = (cv, ks2s, rBNegs, vis)"
    and "length ss = length c1s" and "length rs = length c1s" and "\<forall>r\<in>set runs. shuffle_run_ok S h r"
    and "length sums1 = length local_cols" and "\<forall>cv\<in>set local_cols. cv \<noteq> []" and "length sums2 = length joint_cols" and "\<forall>cv\<in>set joint_cols. cv \<noteq> []"
  defines "report \<equiv> \<lambda>kl tl al gl sl cl. ProofsVerification_Start S Z W deepEqual h
      \<lparr>KeySwitchingProofs = kl, DetTagCreationProofs = tl, DetTagAdditionProofs = al, AggregationProofs = gl, ShufflingProofs = sl,
       CollectiveAggregationProofs = cl\<rparr>"
    and "entries \<equiv> \<lambda>tags. [True, tags,
      list_all (\<lambda>i. deepEqual (Point_Add S (c1s ! i) (Point_Mul S (ss ! i) (Point_Base S))) (rs ! i)) (filter (\<lambda>i. i mod VPARALLELIZE = 0) [0..<length c1s]),
      sums1 = map (csum S) local_cols, True, sums2 = map (csum S) joint_cols]"
  shows "\<exists>kl al gl sl cl.
    KeySwitchListProofCreation S Z (Point_Mul S k (Point_Base S)) Q k ks2s rBNegs vis = Some (Inr kl) \<and>
    DeterministicTagAdditionListProofCreation S Z c1s ss (map (\<lambda>s. Point_Mul S s (Point_Base S)) ss) rs = Inr al \<and>
    AggregationListProofCreation local_cols sums1 = Inr gl \<and> traverse (prove_shuffle S W h) runs = Inr sl \<and>
    AggregationListProofCreation joint_cols sums2 = Inr cl \<and>
    (\<exists>tl. DeterministicTagCrListProofCreation S Z v (DeterministicTagSequence S v x s) (Point_Mul S x (Point_Base S)) x s = Inr tl \<and>
      report kl tl al gl sl cl = Inr (entries True)) \<and>
    ((\<forall>a b. Point_Mul S a (Point_Base S) = Point_Mul S b (Point_Base S) \<longrightarrow> a = b) \<and> v \<noteq> [] \<and>
      (\<forall>ct\<in>set v. Point_Mul S s (ctK ct) \<noteq> Point_Mul S x (ctK ct)) \<longrightarrow>
      (\<forall>tl. TaggingDet_proofs S Z v x s (Point_Mul S x (Point_Base S)) = Inr tl \<and> None \<notin> set (dc_List tl) \<longrightarrow>
        report kl tl al gl sl cl = Inr (entries False)))"
proof -
  have S: "kyber_suite S" using assms(1) by (rule proof_system.axioms(1))
  obtain kl where kl: "KeySwitchListProofCreation S Z (Point_Mul S k (Point_Base S)) Q k ks2s rBNegs vis = Some (Inr kl)"
    "KeySwitchListProofVerification Z kl full = Inr True" using key_switch_proofs_accepted [OF assms(1,3)] by blast
  obtain tl where tl: "DeterministicTagCrListProofCreation S Z v (DeterministicTagSequence S v x s) (Point_Mul S x (Point_Base S)) x s = Inr tl"
    "DeterministicTagCrListProofVerification S Z tl full = Inr True" using tag_proofs_accepted [OF assms(1)] by blast
  obtain al where al: "DeterministicTagAdditionListProofCreation S Z c1s ss (map (\<lambda>s. Point_Mul S s (Point_Base S)) ss) rs = Inr al"
    "DeterministicTagAdditionListProofVerification S Z deepEqual al full =
      Inr (list_all (\<lambda>i. deepEqual (Point_Add S (c1s ! i) (Point_Mul S (ss ! i) (Point_Base S))) (rs ! i)) (filter (\<lambda>i. i mod VPARALLELIZE = 0) [0..<length c1s]))"
    using proof_system.addition_list_report [OF assms(1,4,5)] by blast
  obtain gl where gl: "AggregationListProofCreation local_cols sums1 = Inr gl" "AggregationListProofVerification S gl full = Inr (sums1 = map (csum S) local_cols)"
    using aggregation_list_exact [OF S assms(7,8)] by (auto simp: andThen_eq_Inr)
  obtain cl where cl: "AggregationListProofCreation joint_cols sums2 = Inr cl" "AggregationListProofVerification S cl full = Inr (sums2 = map (csum S) joint_cols)"
    using aggregation_list_exact [OF S assms(9,10)] by (auto simp: andThen_eq_Inr)
  obtain sl where sl: "traverse (prove_shuffle S W h) runs = Inr sl" "\<forall>psp\<in>set sl. ShuffleProofVerification S W psp h = Inr True"
    using traverse_all [of runs "prove_shuffle S W h" "\<lambda>psp. ShuffleProofVerification S W psp h = Inr True"] prove_shuffle_accepted [OF assms(2)] assms(6) by blast
  have "ShuffleListProofVerification S W sl h full = Inr (list_all (\<lambda>_. True) sl)"
    unfolding ShuffleListProofVerification_def by (rule verify_list_full) (use sl(2) in simp)
  then have "ShuffleListProofVerification S W sl h full = Inr True" by (simp add: list_all_iff)
  then have r: "report kl tl al gl sl cl = Inr (entries b)" if "DeterministicTagCrListProofVerification S Z tl full = Inr b" for tl b
    using kl(2) al(2) gl(2) cl(2) that by (simp add: report_def entries_def ProofsVerification_Start_def)
  have f: "DeterministicTagCrListProofVerification S Z tl full = Inr False"
    if "(\<forall>a b. Point_Mul S a (Point_Base S) = Point_Mul S b (Point_Base S) \<longrightarrow> a = b) \<and> v \<noteq> [] \<and>
        (\<forall>ct\<in>set v. Point_Mul S s (ctK ct) \<noteq> Point_Mul S x (ctK ct))"
      "TaggingDet_proofs S Z v x s (Point_Mul S x (Point_Base S)) = Inr tl \<and> None \<notin> set (dc_List tl)" for tl
    using proof_system.tagging_proofs_report [OF assms(1), of v s x _ tl] that by blast
  from kl(1) al(1) gl(1) cl(1) sl(1) tl(1) r [OF tl(2)] r [OF f] show ?thesis by blast
qed

theorem proofs_verification_report_witness:
  "\<exists>kl tl tl' al gl sl cl.
    DeterministicTagCrListProofCreation ed25519 (transparent ed25519) [\<lparr>ctK = 1, ctC = 9\<rparr>]
      (DeterministicTagSequence ed25519 [\<lparr>ctK = 1, ctC = 9\<rparr>] 3 2) 3 3 2 = Inr tl \<and>
    TaggingDet_proofs ed25519 (transparent ed25519) [\<lparr>ctK = 1, ctC = 9\<rparr>] 3 2 3 = Inr tl' \<and>
    ProofsVerification_Start ed25519 (transparent ed25519) (ideal_shuffle ed25519) (=) 7
      \<lparr>KeySwitchingProofs = kl, DetTagCreationProofs = tl, DetTagAdditionProofs = al, AggregationProofs = gl, ShufflingProofs = sl,
       CollectiveAggregationProofs = cl\<rparr> = Inr [True, True, True, True, True, False] \<and>
    ProofsVerification_Start ed25519 (transparent ed25519) (ideal_shuffle ed25519) (=) 7
      \<lparr>KeySwitchingProofs = kl, DetTagCreationProofs = tl', DetTagAdditionProofs = al, AggregationProofs = gl, ShufflingProofs = sl,
       CollectiveAggregationProofs = cl\<rparr> = Inr [True, False, True, True, True, False] \<and>
    length kl = 1 \<and> length sl = 1 \<and> AggregationListProofCreation [[\<lparr>ctK = 1, ctC = 2 :: ed_l\<rparr>]] [\<lparr>ctK = 1, ctC = 3\<rparr>] = Inr cl"
proof -
  let ?run = "\<lparr>sr_Input = [[\<lparr>ctK = 1, ctC = 2\<rparr>], [\<lparr>ctK = 3, ctC = 4 :: ed_l\<rparr>]], sr_Blind = (\<lambda>i j. of_nat (i + j)), sr_Pickline = (\<lambda>i. i), sr_Draw = (\<lambda>i. i), sr_Precomputed = None\<rparr>"
  have ks: "KeySwitchSequence ed25519 (\<lambda>_. 5) 9 [3] 4 = ([\<lparr>ctK = 5, ctC = -3 * 4 + 5 * 9\<rparr>], [-3 * 4 + 5 * 9], [-3], [5])"
    by (simp add: KeySwitchSequence_eq KeySwitch_def ed_simps)
  have run: "\<forall>r\<in>set [?run]. shuffle_run_ok ed25519 7 r" by (simp add: shuffle_run_ok_def blinding_ok_def)
  note report = proofs_verification_report [OF ed_proofs.proof_system_axioms ed_shuffle.shuffle_system_axioms ks _ _ run, of "[5]" "[4]" "[9]"
      "[\<lparr>ctK = 4, ctC = 6\<rparr>]" "[[\<lparr>ctK = 1, ctC = 2\<rparr>, \<lparr>ctK = 3, ctC = 4\<rparr>]]" "[\<lparr>ctK = 1, ctC = 3\<rparr>]" "[[\<lparr>ctK = 1, ctC = 2\<rparr>]]"
      "[\<lparr>ctK = 1, ctC = 9\<rparr>]" 3 2 "(=)"]
  have sums: "[\<lparr>ctK = 4, ctC = 6\<rparr>] = map (csum ed25519) [[\<lparr>ctK = 1, ctC = 2\<rparr>, \<lparr>ctK = 3, ctC = 4 :: ed_l\<rparr>]]"
    "[\<lparr>ctK = 1, ctC = 3\<rparr>] \<noteq> map (csum ed25519) [[\<lparr>ctK = 1, ctC = 2 :: ed_l\<rparr>]]"
    by (simp_all add: ct_Add_def NewCipherText_def ed_simps)
  obtain tl' where tl': "TaggingDet_proofs ed25519 (transparent ed25519) [\<lparr>ctK = 1, ctC = 9 :: ed_l\<rparr>] 3 2 3 = Inr tl'" "None \<notin> set (dc_List tl')"
    using transparent_TaggingDet_proofs by blast
  from report obtain kl tl al gl sl cl where r:
    "KeySwitchListProofCreation ed25519 (transparent ed25519) (Point_Mul ed25519 4 (Point_Base ed25519)) 9 4 [-3 * 4 + 5 * 9] [-3] [5] = Some (Inr kl)"
    "AggregationListProofCreation [[\<lparr>ctK = 1, ctC = 2 :: ed_l\<rparr>]] [\<lparr>ctK = 1, ctC = 3\<rparr>] = Inr cl" "traverse (prove_shuffle ed25519 (ideal_shuffle ed25519) 7) [?run] = Inr sl"
    "DeterministicTagCrListProofCreation ed25519 (transparent ed25519) [\<lparr>ctK = 1, ctC = 9\<rparr>]
      (DeterministicTagSequence ed25519 [\<lparr>ctK = 1, ctC = 9\<rparr>] 3 2) 3 3 2 = Inr tl"
    "ProofsVerification_Start ed25519 (transparent ed25519) (ideal_shuffle ed25519) (=) 7
      \<lparr>KeySwitchingProofs = kl, DetTagCreationProofs = tl, DetTagAdditionProofs = al, AggregationProofs = gl, ShufflingProofs = sl,
       CollectiveAggregationProofs = cl\<rparr> = Inr [True, True, True, True, True, False]"
    "ProofsVerification_Start ed25519 (transparent ed25519) (ideal_shuffle ed25519) (=) 7
      \<lparr>KeySwitchingProofs = kl, DetTagCreationProofs = tl', DetTagAdditionProofs = al, AggregationProofs = gl, ShufflingProofs = sl,
       CollectiveAggregationProofs = cl\<rparr> = Inr [True, False, True, True, True, False]"
    using sums tl' by (simp add: ed_simps) blast
  have "length sl = 1" using r(3) by (auto simp: andThen_eq_Inr)
  moreover have "length kl = 1" using r(1) key_switch_proofs_accepted [OF ed_proofs.proof_system_axioms ks] by auto
  ultimately show ?thesis using r(2,4-6) tl'(1) by blast
qed

end
