(* ===== verification/Application.thy ===== *)
theory Application
  imports ReferenceCheck TestDataFile
begin

text \<open>
  The creation of a survey at a server (HandleSurveyCreationQuery of services/service.go, up to its
  waiting loop) with the files that it uses: the precomputed values of the shuffling
  (lib/shuffle/shuffle.go) and, for an application, the test data of the server.
\<close>

section \<open>Files\<close>

text \<open>
  A gob file holds the encoded values, or something that does not decode. os.Create fails for the
  paths outside can_create; a text file is its contents or the error of os.Open.
\<close>

record files =
  gob_files :: "string \<rightharpoonup> CipherVectorScalarBytes list option"
  can_create :: "string \<Rightarrow> bool"
  text_file :: "string \<Rightarrow> string res"

definition WriteToGobFile :: "string \<Rightarrow> CipherVectorScalarBytes list \<Rightarrow> files \<Rightarrow> files res" where
  "WriteToGobFile path object fs =
     (if can_create fs path then Inr (fs\<lparr>gob_files := (gob_files fs)(path \<mapsto> Some object)\<rparr>)
      else Inl (Err ''could not write Gob file''))"

definition ReadFromGobFile :: "string \<Rightarrow> files \<Rightarrow> CipherVectorScalarBytes list res" where
  "ReadFromGobFile path fs =
     (case gob_files fs path of
        None \<Rightarrow> Inl (Err ''could not read Gob file'')
      | Some None \<Rightarrow> Inl (Err ''gob'')
      | Some (Some object) \<Rightarrow> Inr object)"

section \<open>Precomputed values\<close>

text \<open>XOF makes the random stream of the bytes of a scalar; rand is what it yields.\<close>

definition PrecomputeForShuffling :: "('s, 'p) suite \<Rightarrow> (byte list \<Rightarrow> nat \<Rightarrow> nat \<Rightarrow> 's) \<Rightarrow> string \<Rightarrow> 's \<Rightarrow> 'p \<Rightarrow> nat \<Rightarrow> files
    \<Rightarrow> (('s, 'p) CipherVectorScalar list \<times> files) res" where
  "PrecomputeForShuffling S xof gobFile surveySecret collectiveKey lineSize fs =
     andThen (Scalar_MarshalBinary S surveySecret) (\<lambda>scalarBytes.
     let precomputeShuffle = CreatePrecomputedRandomize S (Point_Base S) collectiveKey (xof scalarBytes) (lineSize * 2) 10 in
     andThen (EncodeCipherVectorScalar S precomputeShuffle) (\<lambda>encoded.
     andThen (WriteToGobFile gobFile encoded fs) (\<lambda>fs'.
     Inr (precomputeShuffle, fs'))))"

definition PrecomputationWritingForShuffling :: "('s, 'p) suite \<Rightarrow> (byte list \<Rightarrow> nat \<Rightarrow> nat \<Rightarrow> 's) \<Rightarrow> bool \<Rightarrow> string \<Rightarrow> 's \<Rightarrow> 'p \<Rightarrow> nat \<Rightarrow> files
    \<Rightarrow> (('s, 'p) CipherVectorScalar list \<times> files) res" where
  "PrecomputationWritingForShuffling S xof appFlag gobFile surveySecret collectiveKey lineSize fs =
     (if appFlag
      then (if gob_files fs gobFile = None
            then PrecomputeForShuffling S xof gobFile surveySecret collectiveKey lineSize fs
            else andThen (ReadFromGobFile gobFile fs) (\<lambda>encoded.
                 andThen (DecodeCipherVectorScalar S encoded) (\<lambda>precomputeShuffle.
                 Inr (precomputeShuffle, fs))))
      else andThen (Scalar_MarshalBinary S surveySecret) (\<lambda>scalarBytes.
           Inr (CreatePrecomputedRandomize S (Point_Base S) collectiveKey (xof scalarBytes) (lineSize * 2) 10, fs)))"

text \<open>nil when there is no file.\<close>

definition ReadPrecomputedFile :: "('s, 'p) suite \<Rightarrow> string \<Rightarrow> files \<Rightarrow> ('s, 'p) CipherVectorScalar list option res" where
  "ReadPrecomputedFile S fileName fs =
     (if gob_files fs fileName \<noteq> None
      then andThen (ReadFromGobFile fileName fs) (\<lambda>encoded. andThen (DecodeCipherVectorScalar S encoded) (\<lambda>lines. Inr (Some lines)))
      else Inr None)"

section \<open>The creation of a survey\<close>

text \<open>
  What the handler gets from elsewhere: the server itself and the text of an identity, the new
  identifier, the secret and the random streams, the picks and the range loops of the encryption,
  the order in which PushData visits the maps of the i-th response, and the errors of SendRaw to a
  server of the roster, or to the source of the query, which may be missing.
\<close>

record ('s, 'id) environment =
  own_id :: 'id
  identity_string :: "'id \<Rightarrow> string"
  new_uuid :: SurveyID
  survey_secret :: 's
  xof_stream :: "byte list \<Rightarrow> nat \<Rightarrow> nat \<Rightarrow> 's"
  data_choices :: "nat \<Rightarrow> 's encryption_choices"
  push_order :: "nat \<Rightarrow> DpResponseToSend \<Rightarrow> received"
  send_error :: "'id \<Rightarrow> string option"
  reply_error :: "'id option \<Rightarrow> string option"
  error_format :: "string \<Rightarrow> string"

definition gobFile :: string where
  "gobFile = ''pre_compute_multiplications.gob''"

definition test_data_path :: string where
  "test_data_path = ''unlynx_test_data.txt''"

text \<open>The position of the server in the roster, or the length of the roster.\<close>

definition roster_index :: "('s, 'id) environment \<Rightarrow> 'id list \<Rightarrow> nat" where
  "roster_index env roster = length (takeWhile (\<lambda>e. identity_string env e \<noteq> identity_string env (own_id env)) roster)"

definition app_data :: "('s, 'p) suite \<Rightarrow> ('s, 'id) environment \<Rightarrow> ('p, 'id) SurveyCreationQuery \<Rightarrow> files
    \<Rightarrow> (SurveyID \<rightharpoonup> ('s, 'p, 'id) Survey) \<Rightarrow> (SurveyID \<rightharpoonup> ('s, 'p, 'id) Survey) res" where
  "app_data S env recq fs surveys =
     (let index = roster_index env (Roster_List recq) in
      andThen (ReadDataFromFile (text_file fs test_data_path)) (\<lambda>testData.
      andThen (EncryptDataToSurvey S (data_choices env) (case testData (Itoa (of_nat index)) of None \<Rightarrow> [] | Some d \<Rightarrow> d)
                 (Roster_Aggregate recq) 1 (Count recq)) (\<lambda>resp.
      andThen (PushData S (SurveyID recq) (map (\<lambda>i. push_order env i (resp ! i)) [0..<length resp]) (scq_Proofs recq) surveys) (\<lambda>surveys'.
      andThen (getSurvey surveys' (SurveyID recq)) (\<lambda>survey.
      Inr (putSurvey (SurveyID recq) (survey\<lparr>DpChannel := DpChannel survey + 1\<rparr>) surveys'))))))"

definition HandleSurveyCreationQuery :: "('s, 'p) suite \<Rightarrow> ('s, 'id) environment \<Rightarrow> ('p, 'id) SurveyCreationQuery \<Rightarrow> files
    \<Rightarrow> (SurveyID \<rightharpoonup> ('s, 'p, 'id) Survey) \<Rightarrow> (SurveyID \<times> (SurveyID \<rightharpoonup> ('s, 'p, 'id) Survey) \<times> files) res" where
  "HandleSurveyCreationQuery S env recq0 fs surveys =
     (let recq = (if scq_IntraMessage recq0 then recq0 else recq0\<lparr>SurveyID := new_uuid env\<rparr>);
          lineSize = length (scq_Sum recq) + length (Where recq) + length (GroupBy recq) + 1 in
      andThen (PrecomputationWritingForShuffling S (xof_stream env) (AppFlag recq) gobFile (survey_secret env) (Roster_Aggregate recq) lineSize fs)
        (\<lambda>(precomputeShuffle, fs').
      let surveys' = surveys(SurveyID recq \<mapsto>
            \<lparr>sv_Store = NewStore, Query = recq, SurveySecretKey = survey_secret env, ShufflePrecompute = Some precomputeShuffle,
             Lengths = [], TargetOfSwitch = [], SurveyChannel = 0, DpChannel = 0, DDTChannel = 0, Noise = None\<rparr>) in
      andThen (if \<not> scq_IntraMessage recq
               then snd (SendISMOthers (send_error env) (error_format env) (own_id env) (Roster_List recq))
               else (case reply_error env (Source recq) of None \<Rightarrow> Inr () | Some e \<Rightarrow> Inl (Err e))) (\<lambda>_.
      andThen (if AppFlag recq then app_data S env recq fs' surveys' else Inr surveys') (\<lambda>surveys''.
      Inr (SurveyID recq, surveys'', fs')))))"
section \<open>Facts\<close>

context kyber_suite
begin

text \<open>What an application wrote is what every later application gets.\<close>

lemma precomputation_file:
  assumes "gob_files fs path = None" and "can_create fs path"
  shows "\<exists>lines fs' rand. PrecomputationWritingForShuffling S xof True path secret key lineSize fs = Inr (lines, fs') \<and>
    lines = CreatePrecomputedRandomize S (Point_Base S) key rand (lineSize * 2) 10 \<and> text_file fs' = text_file fs \<and>
    (\<forall>xof' secret' key' lineSize'. PrecomputationWritingForShuffling S xof' True path secret' key' lineSize' fs' = Inr (lines, fs')) \<and>
    ReadPrecomputedFile S path fs' = Inr (Some lines)"
proof -
  obtain b where b: "Scalar_MarshalBinary S secret = Inr b" using scalar_marshal by blast
  let ?lines = "CreatePrecomputedRandomize S (Point_Base S) key (xof b) (lineSize * 2) 10"
  obtain encoded where e: "EncodeCipherVectorScalar S ?lines = Inr encoded" "DecodeCipherVectorScalar S encoded = Inr ?lines"
    using DecodeCipherVectorScalar_Encode [of ?lines] by (auto simp: andThen_eq_Inr)
  show ?thesis
    using assms b e
    by (intro exI [of _ ?lines] exI [of _ "fs\<lparr>gob_files := (gob_files fs)(path \<mapsto> Some encoded)\<rparr>"] exI [of _ "xof b"])
      (simp add: PrecomputationWritingForShuffling_def PrecomputeForShuffling_def ReadPrecomputedFile_def WriteToGobFile_def ReadFromGobFile_def)
qed

lemma decrypt_reblind_key:
  "decryptPoint S x (reblind S (Point_Base S) h b c) =
   Point_Add S (decryptPoint S x c) (Point_Mul S b (Point_Sub S h (Point_Mul S x (Point_Base S))))"
  by (simp add: reblind_def decryptPoint_def Let_def mul_sub mul_linear mul_commute [of x b] algebra_simps) (simp add: sc_ac)

text \<open>Without the application flag nothing is read or written.\<close>

lemma HandleSurveyCreationQuery_plain:
  assumes "\<not> AppFlag recq" and "\<not> scq_IntraMessage recq" and "\<forall>e. send_error env e = None"
  shows "\<exists>b. Scalar_MarshalBinary S (survey_secret env) = Inr b \<and>
    HandleSurveyCreationQuery S env recq fs surveys =
      Inr (new_uuid env, create_survey S (xof_stream env b) (survey_secret env) (recq\<lparr>SurveyID := new_uuid env\<rparr>) surveys, fs)"
proof -
  obtain b where b: "Scalar_MarshalBinary S (survey_secret env) = Inr b" using scalar_marshal by blast
  moreover have "snd (SendISMOthers (send_error env) (error_format env) (own_id env) (Roster_List recq)) = Inr ()"
    using assms(3) by (simp add: SendISMOthers_ok)
  ultimately show ?thesis
    using assms(1,2) by (simp add: HandleSurveyCreationQuery_def PrecomputationWritingForShuffling_def create_survey_def Let_def)
qed

end
context kyber_suite
begin

lemma stale_shuffle:
  assumes "inputList \<noteq> []" and "\<forall>row\<in>set inputList. length row = NQ" and "blinding_ok S (Point_Base S) key NQ (Some lines)"
  shows "\<exists>outputList perm beta. ShuffleSequence S picks lineof draws inputList (Point_Base S) (Point_Mul S x (Point_Base S)) (Some lines) = Inr (outputList, perm, beta) \<and>
    mset perm = mset [0..<length inputList] \<and> length outputList = length inputList \<and>
    (\<forall>i<length inputList. \<forall>j<NQ. decryptPoint S x (outputList ! i ! j) =
      Point_Add S (decryptPoint S x (inputList ! (perm ! i) ! j)) (Point_Mul S (beta ! (perm ! i) ! j) (Point_Sub S key (Point_Mul S x (Point_Base S)))))"
proof -
  let ?perm = "RandomPermutation draws (length inputList)"
  obtain beta where b: "ShuffleSequence S picks lineof draws inputList (Point_Base S) (Point_Mul S x (Point_Base S)) (Some lines) =
      Inr (shuffled S (Point_Base S) key ?perm beta inputList, ?perm, beta)" "length beta = length inputList" "\<forall>row\<in>set beta. length row = NQ"
    using ShuffleSequence_blinded [OF assms, of "Point_Mul S x (Point_Base S)" picks lineof draws] by blast
  have "?perm ! i < length inputList" if "i < length inputList" for i
    using nth_mem [of i ?perm] that by (simp add: RandomPermutation_perm(1,3))
  then have "decryptPoint S x (shuffled S (Point_Base S) key ?perm beta inputList ! i ! j) =
      Point_Add S (decryptPoint S x (inputList ! (?perm ! i) ! j)) (Point_Mul S (beta ! (?perm ! i) ! j) (Point_Sub S key (Point_Mul S x (Point_Base S))))"
    if "i < length inputList" "j < NQ" for i j
    using that b(2,3) assms(2) by (simp add: shuffled_def RandomPermutation_perm(1) decrypt_reblind_key)
  moreover have "mset ?perm = mset [0..<length inputList]" by (rule RandomPermutation_mset)
  moreover have "length (shuffled S (Point_Base S) key ?perm beta inputList) = length inputList" by (simp add: shuffled_def RandomPermutation_perm(1))
  ultimately show ?thesis using b(1) by blast
qed

text \<open>The survey of an application before its data is read.\<close>

lemma app_data_loaded:
  assumes data: "ReadDataFromFile (text_file fs test_data_path) = Inr testData"
      "testData (Itoa (of_nat (roster_index env (Roster_List recq)))) = Some (map clear_response rows)"
    and q: "\<not> Count recq" "Roster_Aggregate recq = Point_Mul S x (Point_Base S)" "named_query recq g w a"
    and rows: "\<forall>row\<in>set rows. provider_row_ok g w a row" "g \<le> 2 ^ 64" "w \<le> 2 ^ 64" "a \<le> 2 ^ 64"
    and ch: "\<forall>i < length rows. choices_ok (data_choices env i) (clear_response (rows ! i))"
    and push: "\<forall>i ts. finite (dom (GroupByEnc ts)) \<and> finite (dom (WhereEnc ts)) \<and> finite (dom (AggregatingAttributesEnc ts)) \<longrightarrow>
      fst (push_order env i ts) = ts \<and> received_ok (push_order env i ts)"
    and s: "surveys (SurveyID recq) = Some sv" "Query sv = recq" "sv_Store sv = NewStore" "DpChannel sv = 0"
  shows "\<exists>store. app_data S env recq fs surveys = Inr (surveys(SurveyID recq \<mapsto> sv\<lparr>sv_Store := store, DpChannel := 1\<rparr>)) \<and>
    provider_data S recq rows store"
proof -
  have enc: "\<exists>t. EncryptDpClearResponse S (enc_picks (data_choices env i)) (order_groups (data_choices env i)) (order_where (data_choices env i))
      (order_sums (data_choices env i)) (clear_response (rows ! i)) (Roster_Aggregate recq) False = Inr t \<and>
      fst (push_order env i t) = t \<and> received_ok (push_order env i t)" if "i < length rows" for i
    using EncryptDpClearResponse_finite [of "data_choices env i" "clear_response (rows ! i)" "Roster_Aggregate recq"] ch push that by blast
  then have "\<forall>i. i < length rows \<longrightarrow> (\<exists>t. EncryptDpClearResponse S (enc_picks (data_choices env i)) (order_groups (data_choices env i)) (order_where (data_choices env i))
      (order_sums (data_choices env i)) (clear_response (rows ! i)) (Roster_Aggregate recq) False = Inr t \<and>
      fst (push_order env i t) = t \<and> received_ok (push_order env i t))" by (intro allI impI)
  then obtain t where t: "\<forall>i < length rows. EncryptDpClearResponse S (enc_picks (data_choices env i)) (order_groups (data_choices env i))
      (order_where (data_choices env i)) (order_sums (data_choices env i)) (clear_response (rows ! i)) (Roster_Aggregate recq) False = Inr (t i) \<and>
      fst (push_order env i (t i)) = t i \<and> received_ok (push_order env i (t i))" unfolding choice_iff' by (elim exE)
  let ?ts = "map t [0..<length rows]" and ?ms = "map (\<lambda>i. push_order env i (t i)) [0..<length rows]"
  have ts: "EncryptDataToSurvey S (data_choices env) (map clear_response rows) (Roster_Aggregate recq) 1 False = Inr ?ts"
    unfolding EncryptDataToSurvey_once using t by (simp add: par_list_eq_Inr)
  have ms: "map fst ?ms = ?ts" "\<forall>m\<in>set ?ms. received_ok m" using t by auto
  from provider_rows_stored [OF provider_rows_received [OF q(2,3) rows ch ts ms], of "scq_Proofs recq" NewStore] obtain store where
    store: "fold_res (\<lambda>(v, grp, whr, aggr) store. andThen (FromDpResponseToSend S grp whr aggr v) (\<lambda>dr.
      InsertDpResponse S dr (scq_Proofs recq) (GroupBy recq) (scq_Sum recq) (Where recq) store)) ?ms NewStore = Inr store" by blast
  have m: "map (\<lambda>i. push_order env i (?ts ! i)) [0..<length rows] = ?ms" by simp
  have p: "PushData S (SurveyID recq) ?ms (scq_Proofs recq) surveys = Inr (surveys(SurveyID recq \<mapsto> sv\<lparr>sv_Store := store\<rparr>))"
    using store s by (simp add: PushData_def getSurvey_def putSurvey_def)
  have "app_data S env recq fs surveys = Inr (surveys(SurveyID recq \<mapsto> sv\<lparr>sv_Store := store, DpChannel := 1\<rparr>))"
    using data q(1) ts s(4) by (simp add: app_data_def Let_def m p getSurvey_def putSurvey_def)
  moreover have "provider_data S recq rows store" unfolding provider_data_def by (rule provider_sendsI [OF ch ts ms store])
  ultimately show ?thesis by blast
qed

end
section \<open>Properties\<close>

text \<open>
  The picks and the range loops go through the maps they encrypt or receive, and no message is
  lost; the text file is one that WriteDataToFile wrote with the rows under the identifier.
\<close>

definition environment_ok :: "('s, 'id) environment \<Rightarrow> clear_row list \<Rightarrow> bool" where
  "environment_ok env rows \<longleftrightarrow> (\<forall>i < length rows. choices_ok (data_choices env i) (clear_response (rows ! i))) \<and>
     (\<forall>i ts. finite (dom (GroupByEnc ts)) \<and> finite (dom (WhereEnc ts)) \<and> finite (dom (AggregatingAttributesEnc ts)) \<longrightarrow>
       fst (push_order env i ts) = ts \<and> received_ok (push_order env i ts)) \<and>
     (\<forall>e. send_error env e = None) \<and> (\<forall>e. reply_error env e = None)"

definition data_file_holds :: "files \<Rightarrow> string \<Rightarrow> clear_row list \<Rightarrow> bool" where
  "data_file_holds fs uid rows \<longleftrightarrow>
     (\<exists>visit testData es. text_file fs test_data_path = Inr (WriteDataToFile visit testData) \<and>
        visit testData = map (\<lambda>(k, rows). (k, map clear_response rows)) es \<and> enumerates (visit testData) testData \<and>
        (\<forall>(k, rows)\<in>set es. clean_line (''#'' @ k) \<and> (\<forall>row\<in>set rows. fits row \<and> (\<forall>l\<in>set (row_lines row). length l < 65536))) \<and>
        (uid, rows) \<in> set es)"

lemma data_file_read:
  assumes "data_file_holds fs uid rows"
  shows "\<exists>testData. ReadDataFromFile (text_file fs test_data_path) = Inr testData \<and> testData uid = Some (map clear_response rows)"
proof -
  obtain visit testData es where f: "text_file fs test_data_path = Inr (WriteDataToFile visit testData)"
    "visit testData = map (\<lambda>(k, rows). (k, map clear_response rows)) es" "enumerates (visit testData) testData"
    "\<forall>(k, rows)\<in>set es. clean_line (''#'' @ k) \<and> (\<forall>row\<in>set rows. fits row \<and> (\<forall>l\<in>set (row_lines row). length l < 65536))"
    "(uid, rows) \<in> set es" using assms unfolding data_file_holds_def by blast
  have "es \<noteq> []" using f(5) by auto
  then have "ReadDataFromFile (text_file fs test_data_path) = Inr testData" using read_written_data [of visit testData es, OF f(2-4)] f(1) by simp
  moreover have "(uid, map clear_response rows) \<in> set (visit testData)" unfolding f(2) using f(5) by force
  then have "testData uid = Some (map clear_response rows)" using enumerates_set [OF f(3)] by simp
  ultimately show ?thesis by blast
qed

context kyber_suite
begin

lemma app_survey:
  assumes q: "AppFlag q" "\<not> Count q" "Roster_Aggregate q = Point_Mul S x (Point_Base S)" "named_query q g w a"
    and rows: "\<forall>row\<in>set rows. provider_row_ok g w a row" and few: "g + w + a < 2 ^ 32"
    and env: "environment_ok env rows" and datafile: "data_file_holds fs (Itoa (of_nat (roster_index env (Roster_List q)))) rows"
    and gob: "gob_files fs gobFile = None" "can_create fs gobFile"
  shows "\<exists>sid sv fs'. HandleSurveyCreationQuery S env q fs surveys = Inr (sid, surveys(sid \<mapsto> sv), fs') \<and>
    sid = (if scq_IntraMessage q then SurveyID q else new_uuid env) \<and> Query sv = q\<lparr>SurveyID := sid\<rparr> \<and>
    provider_data S (Query sv) rows (sv_Store sv) \<and> DpChannel sv = 1 \<and>
    blinding_ok S (Point_Base S) (Point_Mul S x (Point_Base S)) (g + w + a) (ShufflePrecompute sv)"
proof -
  let ?sid = "if scq_IntraMessage q then SurveyID q else new_uuid env"
  let ?q = "q\<lparr>SurveyID := ?sid\<rparr>"
  have q': "(if scq_IntraMessage q then q else q\<lparr>SurveyID := new_uuid env\<rparr>) = ?q" by simp
  have names: "length (scq_Sum q) = a" "length (Where q) = w" "length (GroupBy q) = g"
    using q(4) by (auto simp: named_query_def dest: arg_cong [of _ _ length])
  obtain lines fs' rand where l: "PrecomputationWritingForShuffling S (xof_stream env) True gobFile (survey_secret env) (Roster_Aggregate q) (a + w + g + 1) fs = Inr (lines, fs')"
    "lines = CreatePrecomputedRandomize S (Point_Base S) (Roster_Aggregate q) rand ((a + w + g + 1) * 2) 10" "text_file fs' = text_file fs"
    using precomputation_file [OF gob, of "xof_stream env" "survey_secret env" "Roster_Aggregate q" "a + w + g + 1"] by blast
  have blinding: "blinding_ok S (Point_Base S) (Point_Mul S x (Point_Base S)) (g + w + a) (Some lines)"
    unfolding l(2) q(3) by (rule CreatePrecomputedRandomize_ok) simp_all
  let ?sv = "\<lparr>sv_Store = NewStore, Query = ?q, SurveySecretKey = survey_secret env, ShufflePrecompute = Some lines,
    Lengths = [], TargetOfSwitch = [], SurveyChannel = 0, DpChannel = 0, DDTChannel = 0, Noise = None\<rparr>"
  obtain testData where data: "ReadDataFromFile (text_file fs' test_data_path) = Inr testData"
    "testData (Itoa (of_nat (roster_index env (Roster_List ?q)))) = Some (map clear_response rows)"
    using data_file_read [OF datafile] l(3) by auto
  have few': "g \<le> 2 ^ 64" "w \<le> 2 ^ 64" "a \<le> 2 ^ 64" using few by simp_all
  obtain store where "app_data S env ?q fs' (surveys(?sid \<mapsto> ?sv)) =
      Inr ((surveys(?sid \<mapsto> ?sv))(?sid \<mapsto> ?sv\<lparr>sv_Store := store, DpChannel := 1\<rparr>))" "provider_data S ?q rows store"
    using app_data_loaded [OF data _ _ _ rows few', of x "surveys(?sid \<mapsto> ?sv)" ?sv] q env by (auto simp: environment_ok_def named_query_def)
  moreover have "snd (SendISMOthers (send_error env) (error_format env) (own_id env) (Roster_List q)) = Inr ()" "reply_error env (Source q) = None"
    using env by (simp_all add: environment_ok_def SendISMOthers_ok)
  ultimately have "HandleSurveyCreationQuery S env q fs surveys = Inr (?sid, surveys(?sid \<mapsto> ?sv\<lparr>sv_Store := store, DpChannel := 1\<rparr>), fs')"
    unfolding HandleSurveyCreationQuery_def q' Let_def using l(1) q(1) names by simp
  then show ?thesis using \<open>provider_data S ?q rows store\<close> blinding
    by (intro exI [of _ ?sid] exI [of _ "?sv\<lparr>sv_Store := store, DpChannel := 1\<rparr>"] exI [of _ fs']) simp
qed

end
text \<open>
  C25. A server in application mode loads the data of its provider. If the text file was written
  with the rows under the position of the server in the roster, and there is no file of precomputed
  values yet, HandleSurveyCreationQuery succeeds: the new survey holds the query, its store is what
  a data provider with these rows would have sent, one data provider is counted, and the values
  precomputed for the shuffling fit the collective key and the rows. No other survey changes.
\<close>

theorem app_survey_loaded:
  assumes "kyber_suite S" and "AppFlag q" and "\<not> Count q" and "Roster_Aggregate q = Point_Mul S x (Point_Base S)" and "named_query q g w a"
    and "\<forall>row\<in>set rows. provider_row_ok g w a row" and "g + w + a < 2 ^ 32"
    and "environment_ok env rows" and "data_file_holds fs (Itoa (of_nat (roster_index env (Roster_List q)))) rows"
    and "gob_files fs gobFile = None" and "can_create fs gobFile"
  shows "\<exists>sid sv fs'. HandleSurveyCreationQuery S env q fs surveys = Inr (sid, surveys(sid \<mapsto> sv), fs') \<and>
    sid = (if scq_IntraMessage q then SurveyID q else new_uuid env) \<and> Query sv = q\<lparr>SurveyID := sid\<rparr> \<and>
    provider_data S (Query sv) rows (sv_Store sv) \<and> DpChannel sv = 1 \<and>
    blinding_ok S (Point_Base S) (Point_Mul S x (Point_Base S)) (g + w + a) (ShufflePrecompute sv)"
  using assms by (rule kyber_suite.app_survey)

definition app_environment :: "(ed_l, string) environment" where
  "app_environment =
     \<lparr>own_id = ''a'', identity_string = (\<lambda>s. s), new_uuid = ''u'', survey_secret = 6, xof_stream = (\<lambda>_ i j. of_nat (i + j)),
      data_choices = (\<lambda>i. \<lparr>enc_picks = (\<lambda>j _. of_nat (i + j)),
        order_groups = visit_sorted (GroupByEnc (clear_response (provider_rows 0 ! i))), order_where = visit_sorted (WhereEnc (clear_response (provider_rows 0 ! i))),
        order_sums = visit_sorted (AggregatingAttributesEnc (clear_response (provider_rows 0 ! i)))\<rparr>),
      push_order = (\<lambda>_ ts. (ts, visit_sorted (GroupByEnc ts), visit_sorted (WhereEnc ts), visit_sorted (AggregatingAttributesEnc ts))),
      send_error = (\<lambda>_. None), reply_error = (\<lambda>_. None), error_format = (\<lambda>s. s)\<rparr>"

definition app_files :: files where
  "app_files =
     \<lparr>gob_files = Map.empty, can_create = (\<lambda>_. True),
      text_file = (\<lambda>_. Inr (WriteDataToFile (\<lambda>_. [(''0'', map clear_response (provider_rows 0))]) [''0'' \<mapsto> map clear_response (provider_rows 0)]))\<rparr>"

lemma app_files_hold: "data_file_holds app_files ''0'' (provider_rows 0)"
proof -
  have "\<forall>row\<in>set (provider_rows 0). fits row \<and> (\<forall>l\<in>set (row_lines row). length l < 65536)"
    by (simp add: provider_rows_def fits_def row_lines_def Int64ArrayToString_eq Itoa_def dec.simps)
  moreover have "clean_line ''#0''" by (simp add: clean_line_def newline_def)
  ultimately show ?thesis
    unfolding data_file_holds_def
    by (intro exI [of _ "\<lambda>_. [(''0'', map clear_response (provider_rows 0))]"] exI [of _ "[''0'' \<mapsto> map clear_response (provider_rows 0)]"]
        exI [of _ "[(''0'', provider_rows 0)]"]) (simp add: app_files_def enumerates_def)
qed

theorem app_survey_loaded_witness:
  "\<exists>sv fs'. HandleSurveyCreationQuery ed25519 app_environment (survey_query\<lparr>AppFlag := True\<rparr>) app_files Map.empty = Inr (''u'', [''u'' \<mapsto> sv], fs') \<and>
    provider_data ed25519 (Query sv) (provider_rows 0) (sv_Store sv) \<and> DpChannel sv = 1"
proof -
  let ?q = "survey_query\<lparr>AppFlag := True\<rparr>"
  have names: "named_query ?q 1 1 1" using survey_query_named by (simp add: named_query_def)
  have rows: "\<forall>row\<in>set (provider_rows 0). provider_row_ok 1 1 1 row" using provider_rows_ok by (simp add: reference_row_def)
  have env: "environment_ok app_environment (provider_rows 0)"
    by (simp add: environment_ok_def app_environment_def choices_ok_def received_ok_def visit_sorted_enumerates clear_response_def)
  have "roster_index app_environment (Roster_List ?q) = 0" by (simp add: roster_index_def app_environment_def survey_query_def)
  then have file_ok: "data_file_holds app_files (Itoa (of_nat (roster_index app_environment (Roster_List ?q)))) (provider_rows 0)"
    using app_files_hold by (simp add: Itoa_def dec.simps digit_def)
  have "\<exists>sid sv fs'. HandleSurveyCreationQuery ed25519 app_environment ?q app_files Map.empty = Inr (sid, [sid \<mapsto> sv], fs') \<and>
    sid = (if scq_IntraMessage ?q then SurveyID ?q else new_uuid app_environment) \<and> Query sv = ?q\<lparr>SurveyID := sid\<rparr> \<and>
    provider_data ed25519 (Query sv) (provider_rows 0) (sv_Store sv) \<and> DpChannel sv = 1 \<and>
    blinding_ok ed25519 (Point_Base ed25519) (Point_Mul ed25519 5 (Point_Base ed25519)) (1 + 1 + 1) (ShufflePrecompute sv)"
    by (rule app_survey_loaded [OF ed.kyber_suite_axioms _ _ _ names rows _ env file_ok])
      (simp_all add: survey_query_def ed_simps app_files_def)
  moreover have "(if scq_IntraMessage ?q then SurveyID ?q else new_uuid app_environment) = ''u''" by (simp add: survey_query_def app_environment_def)
  ultimately show ?thesis by metis
qed

text \<open>
  C26. A file of precomputed values outlives its survey. When an application has created a survey
  under the key x1 B, every later one in the same directory gets the same values from the file,
  whatever its own key, secret and number of columns. A shuffle under another key x2 B still
  succeeds with them, but every entry of every row it puts out decrypts to the plaintext plus a
  multiple of the difference of the keys, so the plaintexts are lost unless the keys agree.
\<close>

theorem precomputation_reused:
  assumes "kyber_suite S" and "gob_files fs path = None" and "can_create fs path"
    and "inputList \<noteq> []" and "\<forall>row\<in>set inputList. length row = NQ" and "NQ \<le> lineSize1 * 2"
  shows "\<exists>lines fs'. PrecomputationWritingForShuffling S xof1 True path secret1 (Point_Mul S x1 (Point_Base S)) lineSize1 fs = Inr (lines, fs') \<and>
    PrecomputationWritingForShuffling S xof2 True path secret2 (Point_Mul S x2 (Point_Base S)) lineSize2 fs' = Inr (lines, fs') \<and>
    ReadPrecomputedFile S path fs' = Inr (Some lines) \<and>
    (\<exists>outputList perm beta. ShuffleSequence S picks lineof draws inputList (Point_Base S) (Point_Mul S x2 (Point_Base S)) (Some lines) = Inr (outputList, perm, beta) \<and>
      mset perm = mset [0..<length inputList] \<and> length outputList = length inputList \<and>
      (\<forall>i<length inputList. \<forall>j<NQ. decryptPoint S x2 (outputList ! i ! j) =
        Point_Add S (decryptPoint S x2 (inputList ! (perm ! i) ! j))
          (Point_Mul S (beta ! (perm ! i) ! j) (Point_Sub S (Point_Mul S x1 (Point_Base S)) (Point_Mul S x2 (Point_Base S))))))"
proof -
  obtain lines fs' rand where l: "PrecomputationWritingForShuffling S xof1 True path secret1 (Point_Mul S x1 (Point_Base S)) lineSize1 fs = Inr (lines, fs')"
    "lines = CreatePrecomputedRandomize S (Point_Base S) (Point_Mul S x1 (Point_Base S)) rand (lineSize1 * 2) 10"
    "PrecomputationWritingForShuffling S xof2 True path secret2 (Point_Mul S x2 (Point_Base S)) lineSize2 fs' = Inr (lines, fs')"
    "ReadPrecomputedFile S path fs' = Inr (Some lines)"
    using kyber_suite.precomputation_file [OF assms(1-3)] by blast
  have "blinding_ok S (Point_Base S) (Point_Mul S x1 (Point_Base S)) NQ (Some lines)"
    unfolding l(2) using assms(6) by (intro CreatePrecomputedRandomize_ok) simp_all
  from kyber_suite.stale_shuffle [OF assms(1,4,5) this, of picks lineof draws x2] l(1,3,4) show ?thesis by blast
qed

theorem precomputation_reused_witness:
  "\<exists>lines fs' out. PrecomputationWritingForShuffling ed25519 (\<lambda>_ _ _. 1) True gobFile 6 7 2 app_files = Inr (lines, fs') \<and>
    PrecomputationWritingForShuffling ed25519 (\<lambda>_ _ _. 4) True gobFile 8 9 1 fs' = Inr (lines, fs') \<and>
    length out = 1 \<and> (\<exists>perm beta. ShuffleSequence ed25519 (\<lambda>_ _. 1) (\<lambda>_. 0) (\<lambda>i. i) [[\<lparr>ctK = 1, ctC = 2\<rparr>]] 1 9 (Some lines) = Inr (out, perm, beta) \<and>
      decryptPoint ed25519 9 (out ! 0 ! 0) = - 7 + beta ! 0 ! 0 * (7 - 9))"
proof -
  have free: "gob_files app_files gobFile = None" "can_create app_files gobFile" by (simp_all add: app_files_def)
  from precomputation_reused [OF ed.kyber_suite_axioms free, of "[[\<lparr>ctK = 1, ctC = 2\<rparr>]]" 1 2 "\<lambda>_ _ _. 1" 6 7 "\<lambda>_ _ _. 4" 8 9 1 "\<lambda>_ _. 1" "\<lambda>_. 0" "\<lambda>i. i"]
  obtain lines fs' out perm beta where r:
    "PrecomputationWritingForShuffling ed25519 (\<lambda>_ _ _. 1) True gobFile 6 7 2 app_files = Inr (lines, fs')"
    "PrecomputationWritingForShuffling ed25519 (\<lambda>_ _ _. 4) True gobFile 8 9 1 fs' = Inr (lines, fs')"
    "ShuffleSequence ed25519 (\<lambda>_ _. 1) (\<lambda>_. 0) (\<lambda>i. i) [[\<lparr>ctK = 1, ctC = 2\<rparr>]] 1 9 (Some lines) = Inr (out, perm, beta)"
    "mset perm = mset [0]" "length out = 1"
    "decryptPoint ed25519 9 (out ! 0 ! 0) = decryptPoint ed25519 9 ([[\<lparr>ctK = 1, ctC = 2\<rparr>]] ! (perm ! 0) ! 0) + beta ! (perm ! 0) ! 0 * (7 - 9)"
    by (auto simp: ed_simps)
  have "perm = [0]" using r(4) by (cases perm) auto
  then have "decryptPoint ed25519 9 (out ! 0 ! 0) = - 7 + beta ! 0 ! 0 * (7 - 9)" using r(6) by (simp add: decryptPoint_def ed_simps)
  with r(1-3,5) show ?thesis by blast
qed

end
