(* ===== verification/DifferentialPrivacy.thy ===== *)
theory DifferentialPrivacy
  imports SurveyRun
begin

text \<open>
  Differential privacy: the list of noise values (lib/differential_privacy/diff_privacy.go), its
  shuffling by the servers (DROPhase of services/service.go) and the release of the results, which
  the constant DIFFPRI turns off.
\<close>

section \<open>Noise values\<close>












section \<open>The DRO phase\<close>

text \<open>
  NewProtocol makes a shuffling protocol without precomputed values. It sets the lengths of the
  noise in its own copy of the survey and never puts it back, so DROPhase cuts the shuffled rows
  with the lengths that the shuffling phase left.
\<close>

definition new_dro :: "('s, 'p, 'id) Survey \<Rightarrow> 's shuffle_choices \<Rightarrow> ('s, 'p) ShufflingProtocol" where
  "new_dro sv ch = (new_shuffling sv ch)\<lparr>sp_Precomputed := None\<rparr>"

definition DROPhase :: "('s, 'p) suite \<Rightarrow> int64 list \<Rightarrow> 's shuffle_choices \<Rightarrow> ('s, 'p) ShufflingProtocol list \<Rightarrow> ('s, 'p, 'id) Survey \<Rightarrow> ('s, 'p, 'id) Survey res" where
  "DROPhase S noiseArray ch others sv =
     (let clientResponses = map (\<lambda>v. \<lparr>pr_WhereEnc = [], pr_GroupByEnc = [], pr_AggregatingAttributes = IntArrayToCipherVector S [v]\<rparr>) noiseArray;
          (toShuffleCV, lengths) = ProcessResponseToMatrixCipherText S clientResponses
      in andThen (Shuffling_run S ((new_dro sv ch)\<lparr>sp_ShuffleTarget := Some toShuffleCV\<rparr>) others) (\<lambda>tmpShufflingResult.
         andThen (MatrixCipherTextToProcessResponse tmpShufflingResult (Lengths sv)) (\<lambda>shufflingResult.
         andThen (index_at shufflingResult 0) (\<lambda>r.
         andThen (index_at (pr_AggregatingAttributes r) 0) (\<lambda>noise.
         Inr (sv\<lparr>Noise := Some noise\<rparr>))))))"

text \<open>StartService at the root after the aggregation phase.\<close>

definition release_phases :: "('s, 'p) suite \<Rightarrow> bool \<Rightarrow> int64 list \<Rightarrow> 's shuffle_choices \<Rightarrow> ('s, 'p) ShufflingProtocol list \<Rightarrow> ('s, 'p) aggregation_choices
    \<Rightarrow> 's \<Rightarrow> (nat \<Rightarrow> 's) \<Rightarrow> nat list \<Rightarrow> nat list \<Rightarrow> ('s, 'p) KeySwitchingProtocol tree list \<Rightarrow> ('s, 'p, 'id) Survey \<Rightarrow> ('s, 'p, 'id) Survey res" where
  "release_phases S diffPri noiseArray sch shufflers ch priv picks lo da switchers sv =
     andThen (if diffPri then DROPhase S noiseArray sch shufflers sv else Inr sv) (\<lambda>sv'.
     KeySwitchingPhase S diffPri ch priv picks lo da switchers sv')"

lemma root_phases_release:
  "root_phases S servers aggr switch tagged =
     (let r = content aggr; root = servers ! r in
      andThen (AggregationPhase S (aggregation root) (length_order aggr) (data_order aggr)
          (map (map_tree (\<lambda>j. fst (new_aggregation (tagged ! j) (aggregation (servers ! j))))) (children aggr)) (tagged ! r)) (\<lambda>sv.
      release_phases S DIFFPRI noiseArray sch shufflers (aggregation root) (Private root) (switch_picks root) (length_order switch) (data_order switch)
          (map (map_tree (\<lambda>j. new_keyswitching (Private (servers ! j)) (switch_picks (servers ! j)))) (children switch)) sv))"
  by (simp add: root_phases_def release_phases_def DIFFPRI_def Let_def)

text \<open>The noise of the survey has no effect on its results.\<close>

lemma KeySwitchingPhase_noise:
  "KeySwitchingPhase S diffPri ch priv picks lo da switchers (sv\<lparr>Noise := c\<rparr>) =
     andThen (KeySwitchingPhase S False ch priv picks lo da switchers sv) (\<lambda>sv'. Inr (sv'\<lparr>Noise := c\<rparr>))"
  by (simp add: KeySwitchingPhase_def PullCothorityAggregatedFilteredResponses_def Let_def andThen_def case_prod_beta split: sum.splits option.splits)

lemma traverse_error: "traverse f xs = Inl e \<Longrightarrow> \<exists>x\<in>set xs. f x = Inl e"
  by (induction xs) (auto simp: andThen_def split: sum.splits)

lemma row_response_error: "row_response row l = Inl e \<Longrightarrow> e = Panic"
  by (auto simp: andThen_def row_response_def slice_def Let_def split: if_splits)

text \<open>The rows of the noise have one column; with other lengths their aggregate is out of reach.\<close>

lemma noise_cut_panics:
  assumes "rows \<noteq> []" and "\<forall>row\<in>set rows. length row = 1" and "ls = [] \<or> 0 < fst (ls ! 0) + snd (ls ! 0)"
  shows "andThen (MatrixCipherTextToProcessResponse rows ls) (\<lambda>result. andThen (index_at result 0) (\<lambda>r. andThen (index_at (pr_AggregatingAttributes r) 0) f)) = Inl Panic"
proof (cases "MatrixCipherTextToProcessResponse rows ls")
  case (Inl e)
  then have "e = Panic"
    by (auto simp: MatrixCipherTextToProcessResponse_def index_at_def andThen_def dest!: traverse_error row_response_error split: if_splits)
  with Inl show ?thesis by simp
next
  case (Inr result)
  show ?thesis
  proof (cases ls)
    case Nil
    with Inr show ?thesis by (simp add: MatrixCipherTextToProcessResponse_def index_at_def)
  next
    case (Cons l ls')
    then have "[0..<length ls] = 0 # [1..<length ls]" by (simp add: upt_conv_Cons del: upt_Suc)
    with Inr assms(1) Cons obtain r rs where r: "result = r # rs" "row_response (rows ! 0) l = Inr r"
      by (auto simp: MatrixCipherTextToProcessResponse_def andThen_eq_Inr)
    have "length (rows ! 0) = 1" using assms(1,2) by simp
    with r(2) have "pr_AggregatingAttributes r = drop (fst l + snd l) (rows ! 0)" "fst l + snd l \<le> 1"
      by (auto simp: row_response_def slice_def Let_def andThen_eq_Inr split: if_splits)
    moreover have "0 < fst l + snd l" using assms(3) Cons by simp
    ultimately have "pr_AggregatingAttributes r = []" using \<open>length (rows ! 0) = 1\<close> by simp
    with Inr r(1) show ?thesis by (simp add: index_at_def)
  qed
qed

lemma noise_cut:
  assumes "k < length rows" and "\<forall>row\<in>set rows. length row = 1"
  shows "andThen (MatrixCipherTextToProcessResponse rows (replicate (Suc k) (0, 0))) (\<lambda>result. andThen (index_at result 0) (\<lambda>r.
    andThen (index_at (pr_AggregatingAttributes r) 0) f)) = f (rows ! 0 ! 0)"
proof -
  have "MatrixCipherTextToProcessResponse rows (replicate (Suc k) (0, 0)) = Inr (map (\<lambda>i. cut_row 0 0 (rows ! i)) [0..<Suc k])"
    unfolding MatrixCipherTextToProcessResponse_def length_replicate
    by (rule traverse_Inr_map) (use assms in \<open>simp add: row_response_Inr del: replicate.simps upt_Suc\<close>)
  moreover have "length (rows ! 0) = 1" using assms by (cases rows) auto
  ultimately show ?thesis by (simp add: cut_row_def upt_conv_Cons del: replicate.simps upt_Suc)
qed

context kyber_suite
begin

lemma DROPhase_shuffled:
  assumes "\<forall>p\<in>set (new_dro sv ch # others). shuffler S x 1 p" and "noiseArray \<noteq> []"
  shows "\<exists>rows. DROPhase S noiseArray ch others sv =
      andThen (MatrixCipherTextToProcessResponse rows (Lengths sv)) (\<lambda>result. andThen (index_at result 0) (\<lambda>r.
        andThen (index_at (pr_AggregatingAttributes r) 0) (\<lambda>noise. Inr (sv\<lparr>Noise := Some noise\<rparr>)))) \<and>
    rows \<noteq> [] \<and> length noiseArray \<le> length rows \<and> (\<forall>row\<in>set rows. length row = 1) \<and>
    (\<forall>row\<in>set rows. decryptPoint S x (row ! 0) \<in> IntToPoint S ` insert 0 (set noiseArray))"
proof -
  let ?pr = "map (\<lambda>v. \<lparr>pr_WhereEnc = [], pr_GroupByEnc = [], pr_AggregatingAttributes = IntArrayToCipherVector S [v]\<rparr>) noiseArray"
  obtain cvs lengths where m: "ProcessResponseToMatrixCipherText S ?pr = (cvs, lengths)" by (cases "ProcessResponseToMatrixCipherText S ?pr") auto
  have cvs: "cvs = map (\<lambda>v. pr_GroupByEnc v @ pr_WhereEnc v @ pr_AggregatingAttributes v) (pad_single S ?pr)"
    using m by (simp add: ProcessResponseToMatrixCipherText_def Let_def)
  have rows: "\<exists>v\<in>insert 0 (set noiseArray). row = [IntToCipherText S v]" if "row \<in> set cvs" for row
  proof (cases "\<exists>v. noiseArray = [v]")
    case True
    with that show ?thesis by (auto simp: cvs pad_single_def IntArrayToCipherVector_def IntToCipherText_def)
  next
    case False
    then have "pad_single S ?pr = ?pr" by (auto simp: pad_single_def split: list.splits)
    with that show ?thesis by (auto simp: cvs IntArrayToCipherVector_def IntToCipherText_def)
  qed
  have n: "cvs \<noteq> []" "length noiseArray \<le> length cvs" using assms(2) by (auto simp: cvs pad_single_def split: list.splits)
  let ?start = "(new_dro sv ch)\<lparr>sp_ShuffleTarget := Some cvs\<rparr>"
  have "\<forall>p\<in>set (?start # others). shuffler S x 1 p" using assms(1) by (auto simp: shuffler_def shuffling_key_def new_dro_def new_shuffling_def)
  moreover have "\<forall>row\<in>set cvs. length row = 1" using rows by fastforce
  ultimately obtain out where out: "Shuffling_run S ?start others = Inr out" "length out = length cvs" "\<forall>row\<in>set out. length row = 1"
    "mset (map (map (decryptPoint S x)) out) = mset (map (map (decryptPoint S x)) cvs)"
    using shuffling_run [of ?start cvs others x 1] n(1) by auto
  have "decryptPoint S x (row ! 0) \<in> IntToPoint S ` insert 0 (set noiseArray)" if row: "row \<in> set out" for row
  proof -
    have "map (decryptPoint S x) row \<in> set (map (map (decryptPoint S x)) cvs)" using mset_eq_setD [OF out(4)] row by auto
    then obtain row' where "row' \<in> set cvs" "map (decryptPoint S x) row = map (decryptPoint S x) row'" by auto
    moreover from rows [OF this(1)] obtain v where "v \<in> insert 0 (set noiseArray)" "row' = [IntToCipherText S v]" by blast
    ultimately have "v \<in> insert 0 (set noiseArray)" "map (decryptPoint S x) row = [IntToPoint S v]"
      by (simp_all add: decrypt_IntToCipherText del: insert_iff)
    then show ?thesis by (cases row) auto
  qed
  moreover have "DROPhase S noiseArray ch others sv = andThen (MatrixCipherTextToProcessResponse out (Lengths sv)) (\<lambda>result. andThen (index_at result 0) (\<lambda>r.
      andThen (index_at (pr_AggregatingAttributes r) 0) (\<lambda>noise. Inr (sv\<lparr>Noise := Some noise\<rparr>))))"
    by (simp add: DROPhase_def m out(1) del: list.map)
  ultimately show ?thesis using out(2,3) n by (intro exI [of _ out]) auto
qed

end
section \<open>Properties\<close>


text \<open>
  C27. Differential privacy cannot be turned on. With DIFFPRI set, and data in the survey whose
  responses have a group or a condition, or without any data at the root, DROPhase panics, because
  it cuts the shuffled noise with the lengths of the responses. If the responses have neither, the
  noise of the survey becomes an encryption of one of the noise values, or of the 0 that pads a
  single one, but the results are those of a release without noise.
\<close>

theorem differential_privacy_ineffective:
  assumes "kyber_suite S" and "\<forall>p\<in>set (new_dro sv sch # shufflers). shuffler S x 1 p" and "noiseArray \<noteq> []"
  shows "(Lengths sv = [] \<or> 0 < fst (Lengths sv ! 0) + snd (Lengths sv ! 0) \<longrightarrow>
      release_phases S True noiseArray sch shufflers ch priv picks lo da switchers sv = Inl Panic) \<and>
    (Lengths sv = replicate (Suc k) (0, 0) \<and> k < length noiseArray \<longrightarrow>
      (\<exists>c. DROPhase S noiseArray sch shufflers sv = Inr (sv\<lparr>Noise := Some c\<rparr>) \<and> decryptPoint S x c \<in> IntToPoint S ` insert 0 (set noiseArray) \<and>
        release_phases S True noiseArray sch shufflers ch priv picks lo da switchers sv =
          andThen (release_phases S False noiseArray sch shufflers ch priv picks lo da switchers sv) (\<lambda>sv'. Inr (sv'\<lparr>Noise := Some c\<rparr>))))"
proof -
  obtain rows where r: "DROPhase S noiseArray sch shufflers sv =
      andThen (MatrixCipherTextToProcessResponse rows (Lengths sv)) (\<lambda>result. andThen (index_at result 0) (\<lambda>r.
        andThen (index_at (pr_AggregatingAttributes r) 0) (\<lambda>noise. Inr (sv\<lparr>Noise := Some noise\<rparr>))))"
    "rows \<noteq> []" "length noiseArray \<le> length rows" "\<forall>row\<in>set rows. length row = 1"
    "\<forall>row\<in>set rows. decryptPoint S x (row ! 0) \<in> IntToPoint S ` insert 0 (set noiseArray)"
    using kyber_suite.DROPhase_shuffled [OF assms] by blast
  have "release_phases S True noiseArray sch shufflers ch priv picks lo da switchers sv = Inl Panic"
    if "Lengths sv = [] \<or> 0 < fst (Lengths sv ! 0) + snd (Lengths sv ! 0)"
  proof -
    have "DROPhase S noiseArray sch shufflers sv = Inl Panic" unfolding r(1) by (rule noise_cut_panics [OF r(2,4) that])
    then show ?thesis by (simp add: release_phases_def)
  qed
  moreover have "\<exists>c. DROPhase S noiseArray sch shufflers sv = Inr (sv\<lparr>Noise := Some c\<rparr>) \<and> decryptPoint S x c \<in> IntToPoint S ` insert 0 (set noiseArray) \<and>
      release_phases S True noiseArray sch shufflers ch priv picks lo da switchers sv =
        andThen (release_phases S False noiseArray sch shufflers ch priv picks lo da switchers sv) (\<lambda>sv'. Inr (sv'\<lparr>Noise := Some c\<rparr>))"
    if l: "Lengths sv = replicate (Suc k) (0, 0)" "k < length noiseArray"
  proof -
    have "k < length rows" using l(2) r(3) by simp
    then have "DROPhase S noiseArray sch shufflers sv = Inr (sv\<lparr>Noise := Some (rows ! 0 ! 0)\<rparr>)"
      unfolding r(1) l(1) by (rule noise_cut) (rule r(4))
    moreover have "decryptPoint S x (rows ! 0 ! 0) \<in> IntToPoint S ` insert 0 (set noiseArray)" using r(2,5) by simp
    ultimately show ?thesis by (intro exI [of _ "rows ! 0 ! 0"]) (simp add: release_phases_def KeySwitchingPhase_noise)
  qed
  ultimately show ?thesis by (intro conjI impI) blast+
qed

text \<open>A survey at the root with the lengths ls left by its shuffling phase.\<close>

definition private_survey :: "(nat \<times> nat) list \<Rightarrow> (ed_l, ed_l, string) Survey" where
  "private_survey ls =
     \<lparr>sv_Store = NewStore, Query = \<lparr>SurveyID = ''s'', Roster_List = [''a''], Roster_Aggregate = 5, ClientPubKey = None, MapDPs = Map.empty,
        scq_Proofs = False, AppFlag = False, scq_IntraMessage = False, Source = None, scq_Sum = [''s0''], Count = False,
        Where = [], Predicate = '''', GroupBy = []\<rparr>,
      SurveySecretKey = 1, ShufflePrecompute = None, Lengths = ls, TargetOfSwitch = [], SurveyChannel = 0, DpChannel = 0, DDTChannel = 0, Noise = None\<rparr>"

theorem differential_privacy_ineffective_witness:
  "\<forall>sch ch picks. release_phases ed25519 True [0, 1, -1] sch [] ch 5 picks [] [] [] (private_survey [(1, 1), (1, 1)]) = Inl Panic \<and>
   (\<exists>c. DROPhase ed25519 [0, 1, -1] sch [] (private_survey [(0, 0), (0, 0)]) = Inr ((private_survey [(0, 0), (0, 0)])\<lparr>Noise := Some c\<rparr>) \<and>
     decryptPoint ed25519 5 c \<in> IntToPoint ed25519 ` {0, 1, -1})"
proof (intro allI)
  fix sch :: "ed_l shuffle_choices" and ch :: "(ed_l, ed_l) aggregation_choices" and picks :: "nat \<Rightarrow> ed_l"
  have s: "\<forall>p\<in>set (new_dro (private_survey ls) sch # []). shuffler ed25519 5 1 p" for ls
    by (simp add: new_dro_def new_shuffling_def private_survey_def shuffler_def shuffling_key_def blinding_ok_def ed_simps)
  have ls: "Lengths (private_survey ls) = ls" for ls by (simp add: private_survey_def)
  have "release_phases ed25519 True [0, 1, -1] sch [] ch 5 picks [] [] [] (private_survey [(1, 1), (1, 1)]) = Inl Panic"
    using differential_privacy_ineffective [OF ed.kyber_suite_axioms s, of "[0, 1, -1]" "[(1, 1), (1, 1)]" ch 5 picks "[]" "[]" "[]" 0] by (simp add: ls)
  moreover have "\<exists>c. DROPhase ed25519 [0, 1, -1] sch [] (private_survey [(0, 0), (0, 0)]) = Inr ((private_survey [(0, 0), (0, 0)])\<lparr>Noise := Some c\<rparr>) \<and>
     decryptPoint ed25519 5 c \<in> IntToPoint ed25519 ` {0, 1, -1}"
    using differential_privacy_ineffective [OF ed.kyber_suite_axioms s, of "[0, 1, -1]" "[(0, 0), (0, 0)]" ch 5 picks "[]" "[]" "[]" 1] by (simp add: ls) blast
  ultimately show "release_phases ed25519 True [0, 1, -1] sch [] ch 5 picks [] [] [] (private_survey [(1, 1), (1, 1)]) = Inl Panic \<and>
   (\<exists>c. DROPhase ed25519 [0, 1, -1] sch [] (private_survey [(0, 0), (0, 0)]) = Inr ((private_survey [(0, 0), (0, 0)])\<lparr>Noise := Some c\<rparr>) \<and>
     decryptPoint ed25519 5 c \<in> IntToPoint ed25519 ` {0, 1, -1})" by blast
qed

end
