(* ===== verification/Simulation.thy ===== *)
theory Simulation
  imports ReferenceCheck TestData
begin

text \<open>
  simul/unlynx_simul.go: a round of the simulation of the whole service. The querier asks for the
  sums of all attributes of generated test data, the data providers send the data, and the results
  that the querier decrypts are compared with the ones computed in the clear.
\<close>

section \<open>The configuration and the query\<close>

record SimulationUnLynx =
  NbrDPs :: int64
  NbrResponsesTot :: int64
  NbrResponsesFiltered :: int64
  Sizes :: data_sizes
  NbrGroupAttributes :: "int64 list"
  sim_Count :: bool
  RandomGroups :: bool
  DataRepetitions :: int64
  sim_Proofs :: bool

text \<open>The names of n attributes; make panics for a length that is negative.\<close>

definition attribute_names :: "string \<Rightarrow> int64 \<Rightarrow> string list res" where
  "attribute_names first n =
     (if sint n < 0 then Inl Panic else Inr (map (\<lambda>i. first @ Itoa (of_nat i)) [0..<nat (sint n)]))"

text \<open>
  Every condition asks for the value 1. The loop writes the predicate with a last conjunction sign
  that is cut off afterwards.
\<close>

definition predicate_step :: "nat \<Rightarrow> string \<times> int64 \<Rightarrow> string \<times> int64" where
  "predicate_step i acc =
     (case acc of (predicate, counter) \<Rightarrow>
        (predicate @ '' v'' @ Itoa counter @ '' == v'' @ Itoa (counter + 1) @ '' &&'', counter + 2))"

definition where_statement :: "('s, 'p) suite \<Rightarrow> 'p \<Rightarrow> (nat \<Rightarrow> 's) \<Rightarrow> int64 \<Rightarrow> ('p WhereQueryAttribute list \<times> string) res" where
  "where_statement S aggregate picks n =
     (if sint n < 0 then Inl Panic
      else (let whereQueryValues = map (\<lambda>i. \<lparr>wq_Name = ''w'' @ Itoa (of_nat i), wq_Value = EncryptInt S aggregate 1 (picks i)\<rparr>) [0..<nat (sint n)];
                predicate = fst (fold predicate_step [0..<nat (sint n)] ([], 0))
            in Inr (whereQueryValues, if 0 < sint n then take (length predicate - 2) predicate else predicate)))"

definition simulation_query :: "('s, 'p) suite \<Rightarrow> SimulationUnLynx \<Rightarrow> 'id list \<Rightarrow> 'p \<Rightarrow> (nat \<Rightarrow> 's) \<Rightarrow> ('p, 'id) SurveyCreationQuery res" where
  "simulation_query S sim servers aggregate picks =
     andThen (attribute_names ''s'' (numAggrClear (Sizes sim) + numAggrEnc (Sizes sim))) (\<lambda>sumNames.
     andThen (where_statement S aggregate picks (numWhereClear (Sizes sim) + numWhereEnc (Sizes sim))) (\<lambda>(whereQueryValues, predicate).
     andThen (attribute_names ''g'' (numGroupsClear (Sizes sim) + numGroupsEnc (Sizes sim))) (\<lambda>groupBy.
     Inr (creation_query servers aggregate [] None (map_of (map (\<lambda>server. (server, 1)) servers)) (sim_Proofs sim) False
       sumNames (sim_Count sim) whereQueryValues predicate groupBy))))"

section \<open>The check of the results\<close>

definition output_response :: "int64 list \<Rightarrow> int64 list \<Rightarrow> DpClearResponse" where
  "output_response grp aggr =
     \<lparr>WhereClear = Map.empty, WhereEnc = Map.empty, GroupByClear = ConvertDataToMap grp ''g'' 0, GroupByEnc = Map.empty,
      AggregatingAttributesClear = ConvertDataToMap aggr ''s'' 0, AggregatingAttributesEnc = Map.empty\<rparr>"

text \<open>The verdict that the simulation prints for the answer of the service.\<close>

definition check_results :: "('s, 'p) suite \<Rightarrow> ((string \<rightharpoonup> DpClearResponse list) \<Rightarrow> (string \<times> DpClearResponse list) list)
    \<Rightarrow> ((string \<rightharpoonup> int64 list) \<Rightarrow> (string \<times> int64 list) list) \<Rightarrow> (string \<Rightarrow> nat \<times> nat) \<Rightarrow> 'p dlog_table \<Rightarrow> 's
    \<Rightarrow> int64 \<Rightarrow> (string \<rightharpoonup> DpClearResponse list) \<Rightarrow> 'p FilteredResponse list res \<Rightarrow> bool res" where
  "check_results S visitData visit spare st private dataRepetitions testData answer =
     (case fst (SendSurveyResultsQuery S st private answer) of
        Inl e \<Rightarrow> Inl (result_error e)
      | Inr (grp, aggr) \<Rightarrow>
          andThen (traverse (\<lambda>i. andThen (index_at aggr i) (\<lambda>a. Inr (output_response (grp ! i) a))) [0..<length grp]) (\<lambda>allData.
          andThen (fst (ComputeExpectedResult visitData visit spare testData dataRepetitions True)) (\<lambda>expected.
          Inr (CompareClearResponses expected allData))))"

text \<open>
  A round: service gives the answer of the servers to the results query, after the survey with the
  query was created and the providers have sent the test data.
\<close>

definition simulation_round :: "('s, 'p) suite \<Rightarrow> ((string \<rightharpoonup> DpClearResponse list) \<Rightarrow> (string \<times> DpClearResponse list) list)
    \<Rightarrow> ((string \<rightharpoonup> int64 list) \<Rightarrow> (string \<times> int64 list) list) \<Rightarrow> (string \<Rightarrow> nat \<times> nat) \<Rightarrow> 'p dlog_table \<Rightarrow> 's
    \<Rightarrow> (nat \<Rightarrow> 's) \<Rightarrow> (nat \<Rightarrow> nat \<Rightarrow> nat \<Rightarrow> nat) \<Rightarrow> (nat \<Rightarrow> nat \<Rightarrow> nat \<Rightarrow> nat)
    \<Rightarrow> (('p, 'id) SurveyCreationQuery \<Rightarrow> (string \<rightharpoonup> DpClearResponse list) \<Rightarrow> 'p FilteredResponse list res)
    \<Rightarrow> SimulationUnLynx \<Rightarrow> 'id list \<Rightarrow> 'p \<Rightarrow> bool res" where
  "simulation_round S visitData visit spare st private picks pickAggr pickGroup service sim servers aggregate =
     (if sint (NbrDPs sim) < int (length servers)
      then Inl (Err (''hosts: '' @ Itoa (of_nat (length servers)) @ '' must be the same or lower as num_clients '' @ Itoa (NbrDPs sim)))
      else andThen (simulation_query S sim servers aggregate picks) (\<lambda>q.
           andThen (GenerateData pickAggr pickGroup (NbrDPs sim) (NbrResponsesTot sim) (NbrResponsesFiltered sim) (Sizes sim)
             (NbrGroupAttributes sim) (RandomGroups sim)) (\<lambda>testData.
           check_results S visitData visit spare st private (DataRepetitions sim) testData (service q testData))))"

section \<open>The providers\<close>

text \<open>
  Provider d sends its data to the server d mod nbrHosts. The providers of a server arrive in any
  order, one after the other.
\<close>

fun providers_send :: "('s, 'p) suite \<Rightarrow> ('p, 'id) SurveyCreationQuery \<Rightarrow> int \<Rightarrow> bool \<Rightarrow> DpClearResponse list list \<Rightarrow> 'p Store \<Rightarrow> 'p Store \<Rightarrow> bool" where
  "providers_send S q n c [] s s' \<longleftrightarrow> s' = s"
| "providers_send S q n c (dataCollection # rest) s s' \<longleftrightarrow>
     (\<exists>u. provider_sends S q n c dataCollection s u \<and> providers_send S q n c rest u s')"

text \<open>A key that the test data lack gives no responses.\<close>

definition data_of :: "(string \<rightharpoonup> DpClearResponse list) \<Rightarrow> nat \<Rightarrow> DpClearResponse list" where
  "data_of testData d = (case testData (Itoa (of_nat d)) of None \<Rightarrow> [] | Some dataCollection \<Rightarrow> dataCollection)"

definition holds_test_data :: "('s, 'p) suite \<Rightarrow> SimulationUnLynx \<Rightarrow> nat \<Rightarrow> (string \<rightharpoonup> DpClearResponse list) \<Rightarrow> nat \<Rightarrow> ('p, 'id) SurveyCreationQuery \<Rightarrow> 'p Store \<Rightarrow> bool" where
  "holds_test_data S sim nbrHosts testData i q store \<longleftrightarrow>
     (\<exists>ds. mset ds = mset (filter (\<lambda>d. d mod nbrHosts = i) [0..<nat (sint (NbrDPs sim))]) \<and>
        providers_send S q (sint (DataRepetitions sim)) (sim_Count sim) (map (data_of testData) ds) NewStore store)"

text \<open>The server has the statement of the query.\<close>

definition same_statement :: "('p, 'id) SurveyCreationQuery \<Rightarrow> ('p, 'id) SurveyCreationQuery \<Rightarrow> bool" where
  "same_statement q q' \<longleftrightarrow> Roster_Aggregate q' = Roster_Aggregate q \<and> scq_Sum q' = scq_Sum q \<and> Where q' = Where q \<and>
     Predicate q' = Predicate q \<and> GroupBy q' = GroupBy q"

section \<open>The query of the simulation\<close>

text \<open>
  The text of a conjunction of equalities of parameters, and what govaluate promises for it: it
  parses, and when all parameters are given it evaluates to the conjunction.
\<close>

definition equality_text :: "nat \<times> nat \<Rightarrow> string" where
  "equality_text p = '' '' @ parameter (fst p) @ '' == '' @ parameter (snd p) @ '' ''"

fun conjunction_text :: "(nat \<times> nat) list \<Rightarrow> string" where
  "conjunction_text [] = []"
| "conjunction_text [p] = equality_text p"
| "conjunction_text (p # q # ps) = equality_text p @ ''&&'' @ conjunction_text (q # ps)"

definition evaluates_conjunction :: "govaluate \<Rightarrow> (nat \<times> nat) list \<Rightarrow> bool" where
  "evaluates_conjunction gov ps \<longleftrightarrow>
     (\<exists>expression. gov (conjunction_text ps) = Some expression \<and>
        (\<forall>m. (\<forall>p\<in>set ps. m (parameter (fst p)) \<noteq> None \<and> m (parameter (snd p)) \<noteq> None) \<longrightarrow>
          expression m = Some (list_all (\<lambda>p. m (parameter (fst p)) = m (parameter (snd p))) ps)))"

abbreviation condition_pairs :: "nat \<Rightarrow> (nat \<times> nat) list" where
  "condition_pairs n \<equiv> map (\<lambda>i. (2 * i, 2 * i + 1)) [0..<n]"

text \<open>All conditions hold.\<close>

definition all_hold :: "nat \<Rightarrow> bool list \<Rightarrow> bool" where
  "all_hold n bs \<longleftrightarrow> n = 0 \<or> list_all (\<lambda>b. b) bs"

lemma conjunction_text_ends: "ps \<noteq> [] \<Longrightarrow> conjunction_text ps @ ''&&'' = concat (map (\<lambda>p. equality_text p @ ''&&'') ps)"
  by (induction ps rule: conjunction_text.induct) simp_all

lemma predicate_loop: "fold predicate_step [0..<n] ([], 0) = (concat (map (\<lambda>p. equality_text p @ ''&&'') (condition_pairs n)), of_nat (2 * n))"
  by (induction n) (simp_all add: predicate_step_def equality_text_def algebra_simps)

lemma attribute_names_of_nat: "n < 2 ^ 62 \<Longrightarrow> attribute_names first (of_nat n) = Inr (data_keys first 0 n)"
  by (simp add: attribute_names_def sint_of_nat)

lemma where_statement_of_nat:
  assumes "n < 2 ^ 62"
  shows "where_statement S aggregate picks (of_nat n) =
    Inr (map (\<lambda>i. \<lparr>wq_Name = ''w'' @ Itoa (of_nat i), wq_Value = EncryptInt S aggregate 1 (picks i)\<rparr>) [0..<n], conjunction_text (condition_pairs n))"
proof -
  have "take (length (conjunction_text ps @ ''&&'') - 2) (conjunction_text ps @ ''&&'') = conjunction_text ps" for ps by simp
  moreover have "concat (map (\<lambda>p. equality_text p @ ''&&'') (condition_pairs n)) = conjunction_text (condition_pairs n) @ ''&&''" if "0 < n"
    using that by (intro conjunction_text_ends [symmetric]) simp
  ultimately show ?thesis using assms
    by (cases "n = 0") (simp_all add: where_statement_def sint_of_nat predicate_loop Let_def del: map_map)
qed

lemma simulation_query_statement:
  assumes "Sizes sim = lengths_sizes (gc, ge, wc, we, ac, ae)" and "list_all (\<lambda>n. n < 2 ^ 61) [gc, ge, wc, we, ac, ae]"
  shows "simulation_query S sim servers aggregate picks =
    Inr (creation_query servers aggregate [] None (map_of (map (\<lambda>server. (server, 1)) servers)) (sim_Proofs sim) False
      (data_keys ''s'' 0 (ac + ae)) (sim_Count sim)
      (map (\<lambda>i. \<lparr>wq_Name = ''w'' @ Itoa (of_nat i), wq_Value = EncryptInt S aggregate 1 (picks i)\<rparr>) [0..<wc + we])
      (conjunction_text (condition_pairs (wc + we))) (data_keys ''g'' 0 (gc + ge)))"
  using assms attribute_names_of_nat [of "ac + ae" "''s''"] attribute_names_of_nat [of "gc + ge" "''g''"]
    where_statement_of_nat [of "wc + we" S aggregate picks]
  by (simp add: simulation_query_def lengths_sizes_def)

lemma all_hold_predicate:
  assumes "length (Where q) = n" and "Predicate q = conjunction_text (condition_pairs n)" and "0 < n \<longrightarrow> evaluates_conjunction gov (condition_pairs n)"
  shows "predicate_is gov q (all_hold n)"
proof (cases "n = 0")
  case True
  with assms show ?thesis by (simp add: predicate_is_def all_hold_def fun_eq_iff)
next
  case False
  with assms obtain expression where e: "gov (Predicate q) = Some expression"
    "\<And>m. \<forall>p\<in>set (condition_pairs n). m (parameter (fst p)) \<noteq> None \<and> m (parameter (snd p)) \<noteq> None \<Longrightarrow>
      expression m = Some (list_all (\<lambda>p. m (parameter (fst p)) = m (parameter (snd p))) (condition_pairs n))"
    by (auto simp: evaluates_conjunction_def)
  have "compares_pairs expression n (all_hold n)"
    unfolding compares_pairs_def
  proof (intro allI impI)
    fix m :: "string \<rightharpoonup> string" and qs ds
    assume a: "length qs = n \<and> length ds = n \<and> (\<forall>i<n. m (parameter (2 * i)) = Some (qs ! i) \<and> m (parameter (2 * i + 1)) = Some (ds ! i))"
    then have "expression m = Some (list_all (\<lambda>p. m (parameter (fst p)) = m (parameter (snd p))) (condition_pairs n))"
      by (intro e(2)) auto
    moreover have "list_all (\<lambda>p. m (parameter (fst p)) = m (parameter (snd p))) (condition_pairs n) \<longleftrightarrow> (\<forall>i<n. m (parameter (2 * i)) = m (parameter (2 * i + 1)))"
      unfolding list_all_length by simp
    moreover have "\<dots> \<longleftrightarrow> (\<forall>i<n. qs ! i = ds ! i)" using a by simp
    moreover have "\<dots> \<longleftrightarrow> all_hold n (map2 (=) qs ds)" using a False by (simp add: all_hold_def list_all_length)
    ultimately show "expression m = Some (all_hold n (map2 (=) qs ds))" by simp
  qed
  moreover have "conjunction_text (condition_pairs n) \<noteq> []"
    using False by (cases n; cases "condition_pairs n" rule: conjunction_text.cases) (simp_all add: equality_text_def)
  ultimately show ?thesis using e(1) assms False unfolding predicate_is_def by (metis length_0_conv)
qed

context kyber_suite
begin

lemma simulation_wants_ones:
  "wants_ones S x (all_hold n) (map (\<lambda>i. \<lparr>wq_Name = f i, wq_Value = EncryptInt S (Point_Mul S x (Point_Base S)) 1 (picks i)\<rparr>) [0..<n])"
  by (auto simp: wants_ones_def all_hold_def comp_def decrypt_EncryptInt map_replicate_trivial list_all_iff)

text \<open>What the providers of a server leave in its store.\<close>

lemma providers_send_rows:
  assumes "Roster_Aggregate q = Point_Mul S x (Point_Base S)" and "named_query q g w a"
    and "\<forall>rows\<in>set rss. \<forall>row\<in>set rows. provider_row_ok g w a row" and "g \<le> 2 ^ 64" "w \<le> 2 ^ 64" "a \<le> 2 ^ 64" and "0 < n"
    and "providers_send S q (int n) c (map (map clear_response) rss) s s'"
  shows "\<exists>new. s' = s\<lparr>DpResponses := DpResponses s @ new\<rparr> \<and> map (viewed (decryptPoint S x)) new = map (row_points S) (sent n (concat rss))"
  using assms(3,8)
proof (induction rss arbitrary: s)
  case Nil
  then show ?case by (simp add: sent_def)
next
  case (Cons rows rss)
  then obtain u where u: "provider_sends S q (int n) c (map clear_response rows) s u" "providers_send S q (int n) c (map (map clear_response) rss) u s'"
    by auto
  obtain new where new: "u = s\<lparr>DpResponses := DpResponses s @ new\<rparr>" "map (viewed (decryptPoint S x)) new = map (row_points S) (sent n rows)"
    using provider_sends_rows [OF assms(1,2) _ assms(4-7) u(1)] Cons.prems(1) by auto
  obtain more where "s' = u\<lparr>DpResponses := DpResponses u @ more\<rparr>" "map (viewed (decryptPoint S x)) more = map (row_points S) (sent n (concat rss))"
    using Cons.IH [OF _ u(2)] Cons.prems(1) by auto
  with new show ?case by (intro exI [of _ "new @ more"]) (simp add: sent_def)
qed

end

section \<open>Permutations and repetitions of rows\<close>

lemma mset_concat_map: "mset (concat (map f xs)) = (\<Sum>x\<in>#mset xs. mset (f x))"
  by (induction xs) simp_all

lemma sum_list_mset: "mset xs = mset ys \<Longrightarrow> (\<Sum>x\<leftarrow>xs. f x) = (\<Sum>x\<leftarrow>ys. (f x :: 'b :: comm_monoid_add))"
  by (metis mset_map sum_mset_sum_list)

lemma classes_mset:
  assumes "0 < k"
  shows "(\<Sum>i\<leftarrow>[0..<k]. mset (filter (\<lambda>d. d mod k = i) xs)) = mset xs"
proof (induction xs)
  case (Cons x xs)
  have "(\<Sum>i\<leftarrow>[0..<k]. mset (filter (\<lambda>d. d mod k = i) (x # xs))) =
      (\<Sum>i\<leftarrow>[0..<k]. (if i = x mod k then {#x#} else {#}) + mset (filter (\<lambda>d. d mod k = i) xs))"
    by (intro arg_cong [where f = sum_list] map_cong) auto
  also have "\<dots> = (\<Sum>i\<leftarrow>[0..<k]. if i = x mod k then {#x#} else {#}) + mset xs"
    by (simp add: sum_list_addf Cons.IH del: mset_filter)
  also have "(\<Sum>i\<leftarrow>[0..<k]. if i = x mod k then {#x#} else {#}) = {#x#}"
    using assms by (simp add: interv_sum_list_conv_sum_set_nat)
  finally show ?case by simp
qed (simp add: interv_sum_list_conv_sum_set_nat)

lemma classes_together:
  assumes "0 < k" and "\<forall>i<k. mset (ds i) = mset (filter (\<lambda>d. d mod k = i) xs)"
  shows "mset (concat (map ds [0..<k])) = mset xs"
proof -
  have "mset (concat (map ds [0..<k])) = (\<Sum>i\<leftarrow>[0..<k]. mset (ds i))" by (simp add: mset_concat comp_def)
  also have "\<dots> = (\<Sum>i\<leftarrow>[0..<k]. mset (filter (\<lambda>d. d mod k = i) xs))"
    using assms(2) by (intro arg_cong [where f = sum_list] map_cong) auto
  finally show ?thesis using classes_mset [OF assms(1)] by simp
qed

lemma sent_concat: "sent n (concat xss) = concat (map (sent n) xss)"
  by (induction xss) (simp_all add: sent_def)

lemma sent_sums: "(\<Sum>r\<leftarrow>filter P (sent n rows). f r) = of_nat n * (\<Sum>r\<leftarrow>filter P rows. (f r :: int64))"
proof (induction rows)
  case (Cons row rows)
  have "filter P (replicate n row) = (if P row then replicate n row else [])" by (simp add: filter_replicate)
  with Cons show ?case by (simp add: sent_def sum_list_replicate algebra_simps)
qed (simp add: sent_def)

lemma repeated_parts [simp]:
  "row_groups (repeated n row) = row_groups row" "row_conditions (repeated n row) = row_conditions row"
  "row_sums (repeated n row) = (if 1 <s n then map (\<lambda>v. v * n) (row_sums row) else row_sums row)"
  by (simp_all add: repeated_def row_groups_def row_conditions_def row_sums_def)

lemma repetitions: "0 < n \<Longrightarrow> n < 2 ^ 62 \<Longrightarrow> (of_nat n :: int64) = 1 \<or> 1 <s (of_nat n :: int64)"
  using sint_of_nat [of n] by (cases "n = 1") (simp_all add: word_sless_alt)

text \<open>Sending every row n times sums up to the same as multiplying its attributes with n.\<close>

lemma reference_sums_sent:
  assumes e: "reference_sums a (filter kept_row (map (repeated (of_nat n)) xs)) expected"
    and m: "mset xs = mset ys" "mset rows = mset (sent n ys)" and n: "0 < n" "n < 2 ^ 62" and a: "\<forall>r\<in>set xs. length (row_sums r) = a"
  shows "reference_sums a (filter kept_row rows) expected"
proof -
  have sets: "set rows = set xs" using mset_eq_setD [OF m(1)] mset_eq_setD [OF m(2)] n(1) by simp
  have "filter kept_row (map (repeated k) zs) = map (repeated k) (filter kept_row zs)" for k zs by (simp add: filter_map comp_def)
  note f = this [of "of_nat n" xs]
  have "(\<Sum>r\<leftarrow>filter G (map (repeated (of_nat n)) (filter kept_row xs)). row_sums r ! i) = (\<Sum>r\<leftarrow>filter G (filter kept_row rows). row_sums r ! i)"
    if i: "i < a" and G: "\<And>r. G (repeated (of_nat n) r) = G r" for G i
  proof -
    have "(\<Sum>r\<leftarrow>filter G (map (repeated (of_nat n)) (filter kept_row xs)). row_sums r ! i) =
        (\<Sum>r\<leftarrow>filter G (filter kept_row xs). row_sums (repeated (of_nat n) r) ! i)" by (simp add: filter_map comp_def G del: repeated_parts)
    also have "\<dots> = (\<Sum>r\<leftarrow>filter G (filter kept_row xs). row_sums r ! i * of_nat n)"
      using repeated_sums [OF repetitions [OF n]] i a by (intro arg_cong [where f = sum_list] map_cong) auto
    also have "\<dots> = of_nat n * (\<Sum>r\<leftarrow>filter G (filter kept_row xs). row_sums r ! i)" unfolding sum_list_mult_const by (rule mult.commute)
    also have "(\<Sum>r\<leftarrow>filter G (filter kept_row xs). row_sums r ! i) = (\<Sum>r\<leftarrow>filter G (filter kept_row ys). row_sums r ! i)"
      by (intro sum_list_mset) (simp add: mset_filter m(1))
    also have "of_nat n * \<dots> = (\<Sum>r\<leftarrow>filter (\<lambda>r. kept_row r \<and> G r) (sent n ys). row_sums r ! i)"
      unfolding sent_sums by (simp add: filter_filter conj_commute)
    also have "\<dots> = (\<Sum>r\<leftarrow>filter G (filter kept_row rows). row_sums r ! i)"
      by (intro sum_list_mset) (simp add: mset_filter m(2) filter_filter_mset conj_commute)
    finally show ?thesis .
  qed
  note sums = this
  have "row_groups ` set (filter kept_row (map (repeated (of_nat n)) xs)) = row_groups ` set (filter kept_row rows)"
    unfolding f using sets by (simp add: image_image)
  with e show ?thesis unfolding reference_sums_def f by (simp add: sums)
qed

section \<open>The rows of the test data\<close>

text \<open>
  The configurations for which the sums stay in the range of the decryption; every response has an
  encrypted group or an encrypted condition, and there is an attribute to sum.
\<close>

definition simulation_ok :: "SimulationUnLynx \<Rightarrow> nat \<times> nat \<times> nat \<times> nat \<times> nat \<times> nat \<Rightarrow> nat \<Rightarrow> nat \<Rightarrow> nat \<Rightarrow> nat \<Rightarrow> bool" where
  "simulation_ok sim shape dps amount wanted n \<longleftrightarrow>
     (let (gc, ge, wc, we, ac, ae) = shape in
      Sizes sim = lengths_sizes shape \<and> NbrDPs sim = of_nat dps \<and> NbrResponsesTot sim = of_nat amount \<and>
      NbrResponsesFiltered sim = of_nat wanted \<and> DataRepetitions sim = of_nat n \<and> RandomGroups sim \<and>
      length (NbrGroupAttributes sim) = gc + ge \<and> (\<forall>t\<in>set (NbrGroupAttributes sim). 0 < sint t \<and> sint t \<le> MaxHomomorphicInt) \<and>
      0 < ge + we \<and> 0 < ac + ae \<and> 0 < n \<and> gc + ge + (wc + we) + (ac + ae) < 2 ^ 32 \<and>
      list_all (\<lambda>k. k < 2 ^ 61) [dps, amount, wanted, n] \<and>
      int (n * (dps * amount)) < MaxHomomorphicInt \<and> n * (dps * amount) * (gc + ge + (ac + ae)) < 2 ^ 32)"

lemma generated_reference_row:
  assumes r: "generated_row (gc, ge, wc, we, ac, ae) types x row" and "x = 0 \<or> x = 1" and "\<forall>t\<in>set types. sint t \<le> MaxHomomorphicInt" and "0 < ge + we"
  shows "reference_row (gc, ge, wc, we, ac, ae) (gc + ge) (wc + we) (ac + ae) row"
    and "kept_row row \<longleftrightarrow> x = 1 \<or> wc + we = 0" and "\<forall>v\<in>set (row_sums row). v = 0 \<or> v = 1"
proof -
  have shape: "row_shape row = (gc, ge, wc, we, ac, ae)" and groups: "list_all2 (\<lambda>g t. 0 \<le> sint g \<and> sint g < sint t) (row_groups row) types"
    and c: "\<forall>c\<in>set (row_conditions row). c = x" and v: "\<forall>v\<in>set (row_sums row). v = 0 \<or> v = 1"
    using r by (simp_all add: generated_row_def row_groups_def)
  have w: "row_conditions row = replicate (wc + we) x"
  proof (rule replicate_eqI)
    show "length (row_conditions row) = wc + we" using shape by (simp add: row_shape_def row_conditions_def)
  qed (use c in blast)
  have g: "\<forall>m\<in>set (row_groups row). 0 \<le> sint m \<and> sint m < MaxHomomorphicInt"
  proof
    fix m assume "m \<in> set (row_groups row)"
    then obtain i where "i < length (row_groups row)" "m = row_groups row ! i" by (auto simp: in_set_conv_nth)
    with groups have t: "types ! i \<in> set types" "0 \<le> sint m" "sint m < sint (types ! i)" by (simp_all add: list_all2_conv_all_nth)
    have "sint (types ! i) \<le> MaxHomomorphicInt" using assms(3) t(1) by (rule bspec)
    with t(2,3) show "0 \<le> sint m \<and> sint m < MaxHomomorphicInt" by simp
  qed
  have "provider_row_ok (gc + ge) (wc + we) (ac + ae) row"
    using shape assms(4) by (auto simp: row_shape_def provider_row_ok_def row_conditions_def row_sums_def)
  then show ref: "reference_row (gc, ge, wc, we, ac, ae) (gc + ge) (wc + we) (ac + ae) row"
    using shape w assms(2) g v by (auto simp: reference_row_def)
  show "kept_row row \<longleftrightarrow> x = 1 \<or> wc + we = 0"
    unfolding kept_reference [OF ref] w by (auto simp: replicate_eq_replicate)
  show "\<forall>v\<in>set (row_sums row). v = 0 \<or> v = 1" by (rule v)
qed

lemma repeated_reference_row:
  assumes "reference_row shape g w a row" and "\<forall>v\<in>set (row_sums row). v = 0 \<or> v = 1" and "0 < n" "n < 2 ^ 62"
  shows "reference_row shape g w a (repeated (of_nat n) row)"
proof -
  have "groups_enc (repeated k row) = groups_enc row" "where_enc (repeated k row) = where_enc row" "groups_clear (repeated k row) = groups_clear row" for k
    by (simp_all add: repeated_def)
  moreover have "0 \<le> sint (v * of_nat n)" if "v \<in> set (row_sums row)" for v
    using assms(2) that sint_of_nat [OF assms(4)] by fastforce
  ultimately show ?thesis using assms(1) by (auto simp: reference_row_def provider_row_ok_def)
qed

lemma sums_small_bits:
  assumes "\<forall>row\<in>set rows. length (row_sums row) = a \<and> (\<forall>v\<in>set (row_sums row). v = 0 \<or> v = 1)" and "int (length rows) < MaxHomomorphicInt"
  shows "sums_small a rows"
proof -
  have "(\<Sum>row\<leftarrow>rows. sint (row_sums row ! i)) \<le> int (length rows)" if "i < a" for i
    using assms(1)
  proof (induction rows)
    case (Cons row rows)
    then have "row_sums row ! i \<in> set (row_sums row)" using that by simp
    then have "sint (row_sums row ! i) \<le> 1" using Cons.prems by fastforce
    then show ?case using Cons by simp
  qed simp
  with assms(2) show ?thesis unfolding sums_small_def by (meson le_less_trans)
qed

section \<open>The comparison\<close>

text \<open>A result of the service as a row.\<close>

definition answer_row :: "int64 list \<Rightarrow> int64 list \<Rightarrow> clear_row" where
  "answer_row grp aggr = \<lparr>groups_clear = grp, groups_enc = [], where_clear = [], where_enc = [], sums_clear = aggr, sums_enc = []\<rparr>"

lemma output_response_row: "output_response grp aggr = clear_response (answer_row grp aggr)"
proof -
  have "ConvertDataToMap [] first base = Map.empty" for first base by (simp add: ConvertDataToMap_def)
  then show ?thesis by (simp add: output_response_def clear_response_def answer_row_def)
qed

lemma merged_row: "merged q = answer_row (row_groups q) (row_sums q)"
  by (simp add: merged_def answer_row_def row_groups_def row_sums_def)

lemma output_rows:
  assumes "length aggr = length grp"
  shows "traverse (\<lambda>i. andThen (index_at aggr i) (\<lambda>a. Inr (output_response (grp ! i) a))) [0..<length grp] =
    Inr (map clear_response (map (\<lambda>(g, a). answer_row g a) (zip grp aggr)))"
proof -
  have "traverse (\<lambda>i. andThen (index_at aggr i) (\<lambda>a. Inr (output_response (grp ! i) a))) [0..<length grp] =
      Inr (map (\<lambda>i. output_response (grp ! i) (aggr ! i)) [0..<length grp])"
    using assms by (intro traverse_Inr_map) (simp add: index_at_def)
  also have "map (\<lambda>i. output_response (grp ! i) (aggr ! i)) [0..<length grp] = map clear_response (map (\<lambda>(g, a). answer_row g a) (zip grp aggr))"
    using assms by (intro nth_equalityI) (simp_all add: output_response_row)
  finally show ?thesis .
qed

lemma right_results:
  assumes "mset (zip grp aggr) = mset (map (\<lambda>q. (row_groups q, row_sums q)) expected)"
  shows "CompareClearResponses (ClearExpectedResult (map clear_response expected)) (map clear_response (map (\<lambda>(g, a). answer_row g a) (zip grp aggr))) \<longleftrightarrow> expected \<noteq> []"
proof -
  have "set (zip grp aggr) = (\<lambda>q. (row_groups q, row_sums q)) ` set expected" using mset_eq_setD [OF assms] by simp
  then have "set (map (\<lambda>(g, a). answer_row g a) (zip grp aggr)) = set (map merged expected)" by (simp add: image_image merged_row)
  then show ?thesis unfolding ClearExpectedResult_rows CompareClearResponses_def compare_loop_rows by simp
qed

section \<open>A round\<close>

text \<open>The servers have the query of the simulation and the test data of their providers.\<close>

definition serves_test_data :: "('s, 'p) suite \<Rightarrow> ('s, 'p) proofs \<Rightarrow> SimulationUnLynx \<Rightarrow> nat \<Rightarrow> nat \<Rightarrow> ('s, 'p, 'id) server list
    \<Rightarrow> ('p, 'id) SurveyCreationQuery \<Rightarrow> (string \<rightharpoonup> DpClearResponse list) \<Rightarrow> bool" where
  "serves_test_data S Z sim g a servers q testData \<longleftrightarrow>
     (\<forall>i<length servers. server_ok S Z servers (Where q) (Predicate q) g a i (servers ! i) \<and> same_statement q (Query (survey (servers ! i))) \<and>
        holds_test_data S sim (length servers) testData i (Query (survey (servers ! i))) (sv_Store (survey (servers ! i))))"

lemma data_of_generated:
  assumes "dps < 2 ^ 61" and "d < dps"
  shows "data_of (map_of (map (\<lambda>i. (Itoa (of_nat i), f i)) [0..<dps])) d = f d"
proof -
  have "distinct (map fst (map (\<lambda>i. (Itoa (of_nat i), f i)) [0..<dps]))" using provider_keys [OF assms(1)] by (simp add: comp_def distinct_map)
  moreover have "(Itoa (of_nat d), f d) \<in> set (map (\<lambda>i. (Itoa (of_nat i), f i)) [0..<dps])" using assms(2) by auto
  ultimately show ?thesis unfolding data_of_def by (simp add: map_of_is_SomeI)
qed

text \<open>The order in which the expected results go through the test data.\<close>

lemma visited_data:
  assumes "\<forall>m. finite (dom m) \<longrightarrow> enumerates (visitData m) m" and "dps < 2 ^ 61"
  obtains ds where "mset ds = mset [0..<dps]" "visitData (map_of (map (\<lambda>i. (Itoa (of_nat i), f i)) [0..<dps])) = map (\<lambda>i. (Itoa (of_nat i), f i)) ds"
proof -
  let ?es = "map (\<lambda>i. (Itoa (of_nat i), f i)) [0..<dps]"
  have "enumerates ?es (map_of ?es)" using provider_keys [OF assms(2)] by (simp add: enumerates_def comp_def distinct_map)
  moreover have "enumerates (visitData (map_of ?es)) (map_of ?es)" using assms(1) by (simp add: finite_dom_map_of)
  ultimately have "mset (visitData (map_of ?es)) = mset ?es" by (intro enumerates_mset)
  from permuted_map [OF this] show ?thesis using that by blast
qed

context kyber_suite
begin

text \<open>The rows at the servers, and all of them together.\<close>

lemma servers_rows:
  assumes ok: "simulation_ok sim (gc, ge, wc, we, ac, ae) dps amount wanted n"
    and serves: "serves_test_data S Z sim (gc + ge) (ac + ae) servers q testData"
    and q: "named_query q (gc + ge) (wc + we) (ac + ae)"
    and data: "testData = map_of (map (\<lambda>d. (Itoa (of_nat d), map clear_response (rs d))) [0..<dps])"
    and rs: "\<forall>d<dps. \<forall>row\<in>set (rs d). provider_row_ok (gc + ge) (wc + we) (ac + ae) row"
    and k: "0 < length servers"
  shows "\<exists>rows. (\<forall>i<length servers. map (viewed (decryptPoint S (joint_private S servers))) (stored (entries (servers ! i)) (survey (servers ! i))) =
      map (row_points S) (rows i)) \<and> mset (concat (map rows [0..<length servers])) = mset (sent n (concat (map rs [0..<dps])))"
proof -
  let ?k = "length servers" and ?x = "joint_private S servers"
  have n: "sint (DataRepetitions sim) = int n" "0 < n" "nat (sint (NbrDPs sim)) = dps" "dps < 2 ^ 61" "gc + ge + (wc + we) + (ac + ae) < 2 ^ 32"
    using ok sint_of_nat [of n] sint_of_nat [of dps] by (auto simp: simulation_ok_def)
  have "\<forall>i<?k. \<exists>ds. mset ds = mset (filter (\<lambda>d. d mod ?k = i) [0..<dps]) \<and>
      map (viewed (decryptPoint S ?x)) (stored (entries (servers ! i)) (survey (servers ! i))) = map (row_points S) (sent n (concat (map rs ds)))"
  proof (intro allI impI)
    fix i assume i: "i < ?k"
    let ?s = "servers ! i" and ?q = "Query (survey (servers ! i))"
    have s: "server_ok S Z servers (Where q) (Predicate q) (gc + ge) (ac + ae) i ?s" "same_statement q ?q"
      "holds_test_data S sim ?k testData i ?q (sv_Store (survey ?s))" using serves i by (simp_all add: serves_test_data_def)
    from s(3) obtain ds where ds: "mset ds = mset (filter (\<lambda>d. d mod ?k = i) [0..<dps])"
      "providers_send S ?q (int n) (sim_Count sim) (map (data_of testData) ds) NewStore (sv_Store (survey ?s))"
      unfolding holds_test_data_def n(1,3) by blast
    have below: "\<forall>d\<in>set ds. d < dps" using mset_eq_setD [OF ds(1)] by auto
    have "map (data_of testData) ds = map (map clear_response) (map rs ds)"
      using below data_of_generated [OF n(4)] unfolding data by simp
    note send = ds(2) [unfolded this]
    have key: "Roster_Aggregate ?q = Point_Mul S ?x (Point_Base S)" using s(1) by (simp add: server_ok_def Let_def)
    have names: "named_query ?q (gc + ge) (wc + we) (ac + ae)" using q s(2) by (simp add: named_query_def same_statement_def)
    have "\<forall>rows\<in>set (map rs ds). \<forall>row\<in>set rows. provider_row_ok (gc + ge) (wc + we) (ac + ae) row" using rs below by auto
    from providers_send_rows [OF key names this _ _ _ n(2) send] n(5) obtain new where
      new: "sv_Store (survey ?s) = NewStore\<lparr>DpResponses := new\<rparr>" "map (viewed (decryptPoint S ?x)) new = map (row_points S) (sent n (concat (map rs ds)))"
      by (auto simp: NewStore_def)
    have "enumerates (entries ?s) (DpResponsesAggr (sv_Store (survey ?s)))" using s(1) by (simp add: server_ok_def Let_def)
    then have "entries ?s = []" using enumerates_dom [of "entries ?s" Map.empty] by (simp add: new(1) NewStore_def)
    with ds(1) new show "\<exists>ds. mset ds = mset (filter (\<lambda>d. d mod ?k = i) [0..<dps]) \<and>
        map (viewed (decryptPoint S ?x)) (stored (entries ?s) (survey ?s)) = map (row_points S) (sent n (concat (map rs ds)))"
      by (intro exI [of _ ds]) (simp add: stored_def)
  qed
  then obtain ds where ds: "\<forall>i<?k. mset (ds i) = mset (filter (\<lambda>d. d mod ?k = i) [0..<dps]) \<and>
      map (viewed (decryptPoint S ?x)) (stored (entries (servers ! i)) (survey (servers ! i))) = map (row_points S) (sent n (concat (map rs (ds i))))"
    unfolding choice_iff' by blast
  have together: "mset (concat (map ds [0..<?k])) = mset [0..<dps]" using ds by (intro classes_together [OF k]) simp
  have "concat (map (\<lambda>i. sent n (concat (map rs (ds i)))) is) = concat (map (\<lambda>d. sent n (rs d)) (concat (map ds is)))" for "is"
    by (induction "is") (simp_all add: sent_concat comp_def)
  moreover have "mset (concat (map f (concat (map ds [0..<?k])))) = mset (concat (map f [0..<dps]))" for f :: "nat \<Rightarrow> clear_row list"
    by (simp only: mset_concat_map [of f] together)
  then have "mset (concat (map (\<lambda>d. sent n (rs d)) (concat (map ds [0..<?k])))) = mset (sent n (concat (map rs [0..<dps])))"
    by (simp only: sent_concat map_map comp_def)
  ultimately show ?thesis using ds by (intro exI [of _ "\<lambda>i. sent n (concat (map rs (ds i)))"]) simp
qed

end

text \<open>The rows of the test data, and the sums that ComputeExpectedResult makes of them.\<close>

definition reference_data :: "nat \<times> nat \<times> nat \<times> nat \<times> nat \<times> nat \<Rightarrow> nat \<Rightarrow> nat \<Rightarrow> nat \<Rightarrow> (nat \<Rightarrow> clear_row list) \<Rightarrow> bool" where
  "reference_data shape dps amount wanted rs \<longleftrightarrow>
     (let (gc, ge, wc, we, ac, ae) = shape in
      \<forall>d<dps. length (rs d) = amount \<and>
        (\<forall>j<amount. reference_row shape (gc + ge) (wc + we) (ac + ae) (rs d ! j) \<and>
          (kept_row (rs d ! j) \<longleftrightarrow> j < wanted \<or> wc + we = 0) \<and> (\<forall>v\<in>set (row_sums (rs d ! j)). v = 0 \<or> v = 1)))"

lemma reference_data_rows:
  assumes "reference_data (gc, ge, wc, we, ac, ae) dps amount wanted rs" and "d < dps" and "row \<in> set (rs d)"
  shows "reference_row (gc, ge, wc, we, ac, ae) (gc + ge) (wc + we) (ac + ae) row" "\<forall>v\<in>set (row_sums row). v = 0 \<or> v = 1"
proof -
  obtain j where "j < length (rs d)" "row = rs d ! j" using assms(3) by (auto simp: in_set_conv_nth)
  with assms(1,2) show "reference_row (gc, ge, wc, we, ac, ae) (gc + ge) (wc + we) (ac + ae) row" "\<forall>v\<in>set (row_sums row). v = 0 \<or> v = 1"
    by (simp_all add: reference_data_def)
qed

lemma reference_data_kept:
  assumes "reference_data (gc, ge, wc, we, ac, ae) dps amount wanted rs" and "0 < dps"
  shows "(\<exists>d<dps. \<exists>row\<in>set (rs d). kept_row row) \<longleftrightarrow> 0 < amount \<and> (0 < wanted \<or> wc + we = 0)"
proof
  assume "\<exists>d<dps. \<exists>row\<in>set (rs d). kept_row row"
  with assms(1) show "0 < amount \<and> (0 < wanted \<or> wc + we = 0)" by (auto simp: reference_data_def in_set_conv_nth)
next
  assume a: "0 < amount \<and> (0 < wanted \<or> wc + we = 0)"
  with assms have "kept_row (rs 0 ! 0)" "rs 0 ! 0 \<in> set (rs 0)" by (auto simp: reference_data_def)
  with assms(2) show "\<exists>d<dps. \<exists>row\<in>set (rs d). kept_row row" by blast
qed

lemma simulation_data:
  assumes "simulation_ok sim (gc, ge, wc, we, ac, ae) dps amount wanted n"
    and "GenerateData pickAggr pickGroup (NbrDPs sim) (NbrResponsesTot sim) (NbrResponsesFiltered sim) (Sizes sim) (NbrGroupAttributes sim) (RandomGroups sim) = Inr testData"
  obtains rs where "testData = map_of (map (\<lambda>d. (Itoa (of_nat d), map clear_response (rs d))) [0..<dps])"
    "reference_data (gc, ge, wc, we, ac, ae) dps amount wanted rs"
proof -
  have sim: "Sizes sim = lengths_sizes (gc, ge, wc, we, ac, ae)" "NbrDPs sim = of_nat dps" "NbrResponsesTot sim = of_nat amount" "NbrResponsesFiltered sim = of_nat wanted"
      "RandomGroups sim" "length (NbrGroupAttributes sim) = gc + ge" "\<forall>t\<in>set (NbrGroupAttributes sim). 0 < sint t"
    and t: "\<forall>t\<in>set (NbrGroupAttributes sim). sint t \<le> MaxHomomorphicInt" "0 < ge + we"
    and sizes: "list_all (\<lambda>n. n < 2 ^ 61) [gc, ge, wc, we, ac, ae, dps, amount, wanted]"
    using assms(1) by (auto simp: simulation_ok_def)
  obtain rows where rows: "testData = map_of (map (\<lambda>i. (Itoa (of_nat i), map (\<lambda>j. clear_response (rows i j)) [0..<amount])) [0..<dps])"
    "\<And>i j. i < dps \<Longrightarrow> j < amount \<Longrightarrow> generated_row (gc, ge, wc, we, ac, ae) (NbrGroupAttributes sim) (if j < wanted then 1 else 0) (rows i j)"
    using generated_rows [OF refl sizes sim(6,7), of pickAggr pickGroup] assms(2) sim by auto
  have "reference_data (gc, ge, wc, we, ac, ae) dps amount wanted (\<lambda>d. map (rows d) [0..<amount])"
    using generated_reference_row [OF rows(2) _ t] by (auto simp: reference_data_def)
  moreover have "testData = map_of (map (\<lambda>d. (Itoa (of_nat d), map clear_response (map (rows d) [0..<amount]))) [0..<dps])"
    using rows(1) by (simp add: comp_def)
  ultimately show ?thesis by (intro that [of "\<lambda>d. map (rows d) [0..<amount]"])
qed

lemma simulation_expected:
  assumes data: "reference_data (gc, ge, wc, we, ac, ae) dps amount wanted rs" and few: "dps < 2 ^ 61" "0 < n" "n < 2 ^ 62" "gc + ge + (wc + we) + (ac + ae) < 2 ^ 32"
    and visits: "\<forall>m. finite (dom m) \<longrightarrow> enumerates (visit m) m" "\<forall>m. finite (dom m) \<longrightarrow> enumerates (visitData m) m"
    and all: "mset rows = mset (sent n (concat (map rs [0..<dps])))"
  shows "\<exists>expected. fst (ComputeExpectedResult visitData visit spare (map_of (map (\<lambda>d. (Itoa (of_nat d), map clear_response (rs d))) [0..<dps])) (of_nat n) True) =
      Inr (ClearExpectedResult (map clear_response expected)) \<and> reference_sums (ac + ae) (filter kept_row rows) expected"
proof -
  obtain ds where ds: "mset ds = mset [0..<dps]"
    "visitData (map_of (map (\<lambda>i. (Itoa (of_nat i), map clear_response (rs i))) [0..<dps])) = map (\<lambda>i. (Itoa (of_nat i), map clear_response (rs i))) ds"
    by (rule visited_data [OF visits(2) few(1)])
  let ?xs = "concat (map rs ds)" and ?rep = "map (repeated (of_nat n)) (concat (map rs ds))"
  have below: "\<forall>d\<in>set ds. d < dps" using mset_eq_setD [OF ds(1)] by auto
  have row: "reference_row (gc, ge, wc, we, ac, ae) (gc + ge) (wc + we) (ac + ae) row" "\<forall>v\<in>set (row_sums row). v = 0 \<or> v = 1"
    if r: "row \<in> set ?xs" for row
  proof -
    from r below obtain d where "d < dps" "row \<in> set (rs d)" by auto
    then show "reference_row (gc, ge, wc, we, ac, ae) (gc + ge) (wc + we) (ac + ae) row" "\<forall>v\<in>set (row_sums row). v = 0 \<or> v = 1"
      using reference_data_rows [OF data] by blast+
  qed
  have "\<forall>row\<in>set ?rep. reference_row (gc, ge, wc, we, ac, ae) (gc + ge) (wc + we) (ac + ae) row"
  proof
    fix r assume "r \<in> set ?rep"
    then obtain row where "row \<in> set ?xs" "r = repeated (of_nat n) row" unfolding set_map [of "repeated (of_nat n)"] by (rule imageE)
    then show "reference_row (gc, ge, wc, we, ac, ae) (gc + ge) (wc + we) (ac + ae) r" using repeated_reference_row [OF row few(2,3)] by simp
  qed
  from clear_reference [OF this _ _ _ visits(1), of spare] few(4) obtain expected where
    e: "AddInClear visit spare (map clear_response ?rep) = Inr (map clear_response expected)" "reference_sums (ac + ae) (filter kept_row ?rep) expected"
    by auto
  have "concat (map (\<lambda>(k, v). map (repeat_entry (of_nat n)) v) (map (\<lambda>i. (Itoa (of_nat i), map clear_response (rs i))) ds)) = map clear_response ?rep"
    by (simp add: map_concat comp_def repeat_clear_response)
  then have "fst (ComputeExpectedResult visitData visit spare (map_of (map (\<lambda>d. (Itoa (of_nat d), map clear_response (rs d))) [0..<dps])) (of_nat n) True) =
      Inr (ClearExpectedResult (map clear_response expected))"
    using e(1) by (simp add: ComputeExpectedResult_def Let_def ds(2) del: map_map map_concat)
  moreover have "mset ?xs = mset (concat (map rs [0..<dps]))" by (simp only: mset_concat_map [of rs] ds(1))
  then have "reference_sums (ac + ae) (filter kept_row rows) expected"
    using row(1) by (intro reference_sums_sent [OF e(2) _ all few(2,3)]) (auto simp: reference_row_def provider_row_ok_def)
  ultimately show ?thesis by blast
qed

context proof_system
begin

lemma simulation_right:
  assumes table: "reachable_table S st"
    and visits: "\<forall>m. finite (dom m) \<longrightarrow> enumerates (visit m) m" "\<forall>m. finite (dom m) \<longrightarrow> enumerates (visitData m) m"
    and ok: "simulation_ok sim (gc, ge, wc, we, ac, ae) dps amount wanted n"
    and hosts: "length servers = length names" "0 < length servers" "length servers \<le> dps"
    and gov: "0 < wc + we \<longrightarrow> evaluates_conjunction gov (condition_pairs (wc + we))"
    and q: "simulation_query S sim names aggregate picks = Inr q"
    and gen: "GenerateData pickAggr pickGroup (NbrDPs sim) (NbrResponsesTot sim) (NbrResponsesFiltered sim) (Sizes sim) (NbrGroupAttributes sim) (RandomGroups sim) = Inr testData"
    and serves: "serves_test_data S Z sim (gc + ge) (ac + ae) servers q testData"
    and inv: "Scalar_Mul S ia (sprod S (survey_secrets servers)) = Scalar_One S"
    and trees: "arrivals_ok (\<lambda>lo da. lo = da) aggr" "mset (tree_nodes aggr) = mset [0..<length servers]"
      "arrivals_ok (\<lambda>_ _. True) switch" "mset (tree_nodes switch) = mset [0..<length servers]" "content switch = content aggr"
    and client: "ClientPubKey (Query (survey (servers ! content aggr))) = Some (Point_Mul S private (Point_Base S))"
  shows "simulation_round S visitData visit spare st private picks pickAggr pickGroup (\<lambda>_ _. survey_run S Z gov servers aggr switch) sim names aggregate =
    Inr (0 < amount \<and> (0 < wanted \<or> wc + we = 0))"
proof -
  let ?g = "gc + ge" and ?w = "wc + we" and ?a = "ac + ae" and ?x = "joint_private S servers" and ?k = "length servers"
  have sim: "Sizes sim = lengths_sizes (gc, ge, wc, we, ac, ae)" "list_all (\<lambda>n. n < 2 ^ 61) [gc, ge, wc, we, ac, ae]" "DataRepetitions sim = of_nat n"
      "sint (NbrDPs sim) = int dps" "0 < ?a" "?g + ?w + ?a < 2 ^ 32" "dps < 2 ^ 61" "0 < n" "n < 2 ^ 62"
      "int (n * (dps * amount)) < MaxHomomorphicInt" "n * (dps * amount) * (?g + ?a) < 2 ^ 32"
    using ok sint_of_nat [of dps] by (auto simp: simulation_ok_def)
  have stmt: "scq_Sum q = data_keys ''s'' 0 ?a" "GroupBy q = data_keys ''g'' 0 ?g" "Roster_Aggregate q = aggregate" "Predicate q = conjunction_text (condition_pairs ?w)"
      "Where q = map (\<lambda>i. \<lparr>wq_Name = ''w'' @ Itoa (of_nat i), wq_Value = EncryptInt S aggregate 1 (picks i)\<rparr>) [0..<?w]"
    using q simulation_query_statement [OF sim(1,2), of S names aggregate picks] by (auto simp: creation_query_def)
  then have named: "named_query q ?g ?w ?a" and w: "length (Where q) = ?w" by (simp_all add: named_query_def)
  have served: "server_ok S Z servers (Where q) (Predicate q) ?g ?a i (servers ! i)" "same_statement q (Query (survey (servers ! i)))" if "i < ?k" for i
    using serves that by (simp_all add: serves_test_data_def)
  then have key: "aggregate = Point_Mul S ?x (Point_Base S)"
    using served [OF hosts(2)] stmt(3) by (simp add: server_ok_def Let_def same_statement_def)
  obtain rs where data: "testData = map_of (map (\<lambda>d. (Itoa (of_nat d), map clear_response (rs d))) [0..<dps])"
    "reference_data (gc, ge, wc, we, ac, ae) dps amount wanted rs" by (rule simulation_data [OF ok gen])
  note ref = reference_data_rows [OF data(2)]
  have "\<forall>d<dps. \<forall>row\<in>set (rs d). provider_row_ok ?g ?w ?a row" using ref(1) by (simp add: reference_row_def)
  from servers_rows [OF ok serves named data(1) this hosts(2)] obtain rows where
    rows: "\<forall>i<?k. map (viewed (decryptPoint S ?x)) (stored (entries (servers ! i)) (survey (servers ! i))) = map (row_points S) (rows i)"
      "mset (concat (map rows [0..<?k])) = mset (sent n (concat (map rs [0..<dps])))" by blast
  let ?all = "concat (map rows [0..<?k])"
  have all: "set ?all = (\<Union>d<dps. set (rs d))" using mset_eq_setD [OF rows(2)] sim(8) by (auto simp: atLeast0LessThan)
  have "length (concat (map rs [0..<dps])) = dps * amount"
  proof -
    have "map (\<lambda>d. length (rs d)) [0..<dps] = map (\<lambda>_. amount) [0..<dps]" using data(2) by (simp add: reference_data_def)
    then show ?thesis by (simp add: length_concat comp_def sum_list_triv del: map_eq_conv)
  qed
  then have len: "length ?all = n * (dps * amount)" using mset_eq_length [OF rows(2)] by simp
  have small: "sums_small ?a ?all"
    using ref all sim(10) by (intro sums_small_bits) (auto simp: len reference_row_def provider_row_ok_def)
  obtain expected where e: "fst (ComputeExpectedResult visitData visit spare testData (of_nat n) True) = Inr (ClearExpectedResult (map clear_response expected))"
    "reference_sums ?a (filter kept_row ?all) expected"
    using simulation_expected [OF data(2) sim(7,8,9,6) visits rows(2), of spare] data(1) by blast
  have pred: "\<forall>s\<in>set servers. predicate_is gov (Query (survey s)) (all_hold ?w)"
    using served(2) w stmt(4) gov by (auto simp: in_set_conv_nth same_statement_def intro!: all_hold_predicate)
  have refs: "\<forall>row\<in>set ?all. reference_row (gc, ge, wc, we, ac, ae) ?g (length (Where q)) ?a row" using ref(1) unfolding all w by blast
  have ones: "wants_ones S ?x (all_hold ?w) (Where q)" unfolding stmt(5) key by (rule simulation_wants_ones)
  have few: "?g + length (Where q) + ?a < 2 ^ 32" "length ?all * (?g + ?a) < 2 ^ 32" unfolding w len by (rule sim(6), rule sim(11))
  obtain results grp aggregates where run: "survey_run S Z gov servers aggr switch = Inr results" "fst (SendSurveyResultsQuery S st private (Inr results)) = Inr (grp, aggregates)"
    "length aggregates = length grp" "mset (zip grp aggregates) = mset (map (\<lambda>q. (row_groups q, row_sums q)) expected)"
    using survey_reference_stored [OF table _ rows(1) refs small ones inv pred sim(5) few trees client e(2), of "Predicate q"] served(1) by blast
  have "expected \<noteq> [] \<longleftrightarrow> row_groups ` set (filter kept_row ?all) \<noteq> {}" using e(2) unfolding reference_sums_def by (metis image_is_empty set_empty)
  also have "\<dots> \<longleftrightarrow> (\<exists>d<dps. \<exists>row\<in>set (rs d). kept_row row)" unfolding set_filter all by auto
  also have "\<dots> \<longleftrightarrow> 0 < amount \<and> (0 < wanted \<or> ?w = 0)" using hosts(2,3) by (intro reference_data_kept [OF data(2)]) linarith
  finally have "check_results S visitData visit spare st private (DataRepetitions sim) testData (Inr results) = Inr (0 < amount \<and> (0 < wanted \<or> ?w = 0))"
    using right_results [OF run(4)] unfolding check_results_def run(2) sim(3) e(1) by (simp add: output_rows [OF run(3)] e(1))
  then show ?thesis using hosts by (simp add: simulation_round_def sim(4) q gen run(1))
qed

end

section \<open>Properties\<close>

text \<open>
  C3. A round of the simulation of the service. Take a configuration with random groups whose sums
  stay in the range of the decryption, at most as many servers as data providers, and a govaluate
  that evaluates a conjunction of equalities. Let the servers have the query that the simulation
  makes, and let every provider have sent its generated data, with the repetitions of the
  configuration, to its server, and let the lengths and the data of the children reach a node of the
  aggregation in one order. Then the round ends, and it reports a right result exactly when
  some response satisfies the conditions: the service agrees with the expected results, but a
  correct empty result is reported as wrong.
\<close>

theorem simulation_result_right:
  assumes "proof_system S Z" and "reachable_table S st" and "\<forall>m. finite (dom m) \<longrightarrow> enumerates (visit m) m" and "\<forall>m. finite (dom m) \<longrightarrow> enumerates (visitData m) m"
    and "simulation_ok sim (gc, ge, wc, we, ac, ae) dps amount wanted n"
    and "length servers = length names" and "0 < length servers" and "length servers \<le> dps"
    and "0 < wc + we \<longrightarrow> evaluates_conjunction gov (condition_pairs (wc + we))"
    and "simulation_query S sim names aggregate picks = Inr q"
    and "GenerateData pickAggr pickGroup (NbrDPs sim) (NbrResponsesTot sim) (NbrResponsesFiltered sim) (Sizes sim) (NbrGroupAttributes sim) (RandomGroups sim) = Inr testData"
    and "serves_test_data S Z sim (gc + ge) (ac + ae) servers q testData"
    and "Scalar_Mul S ia (sprod S (survey_secrets servers)) = Scalar_One S"
    and "arrivals_ok (\<lambda>lo da. lo = da) aggr" and "mset (tree_nodes aggr) = mset [0..<length servers]"
    and "arrivals_ok (\<lambda>_ _. True) switch" and "mset (tree_nodes switch) = mset [0..<length servers]" and "content switch = content aggr"
    and "ClientPubKey (Query (survey (servers ! content aggr))) = Some (Point_Mul S private (Point_Base S))"
  shows "simulation_round S visitData visit spare st private picks pickAggr pickGroup (\<lambda>_ _. survey_run S Z gov servers aggr switch) sim names aggregate =
    Inr (0 < amount \<and> (0 < wanted \<or> wc + we = 0))"
  using assms by (rule proof_system.simulation_right)

text \<open>Two servers, each with one provider that sends two responses three times.\<close>

definition example_simulation :: SimulationUnLynx where
  "example_simulation = \<lparr>NbrDPs = 2, NbrResponsesTot = 2, NbrResponsesFiltered = 1, Sizes = lengths_sizes (0, 1, 0, 1, 0, 1),
     NbrGroupAttributes = [8], sim_Count = False, RandomGroups = True, DataRepetitions = 3, sim_Proofs = False\<rparr>"

lemma example_simulation_ok: "simulation_ok example_simulation (0, 1, 0, 1, 0, 1) 2 2 1 3"
  by (simp add: simulation_ok_def example_simulation_def MaxHomomorphicInt_def)

lemma example_text: "conjunction_text (condition_pairs 1) = '' v0 == v1 ''"
  by (simp add: equality_text_def Itoa_def dec.simps digit_def)

lemma example_conjunction: "evaluates_conjunction survey_predicate (condition_pairs 1)"
  unfolding evaluates_conjunction_def example_text
  by (auto simp: survey_predicate_def Itoa_def dec.simps digit_def)

lemma example_store:
  assumes "\<forall>row\<in>set rows. provider_row_ok 1 1 1 row"
  shows "\<exists>prs. providers_send ed25519 survey_query 3 False [map clear_response rows] NewStore (NewStore\<lparr>DpResponses := prs\<rparr>) \<and> (\<forall>pr\<in>set prs. layout 1 1 1 pr)"
proof -
  have key: "Roster_Aggregate survey_query = Point_Mul ed25519 5 (Point_Base ed25519)" by (simp add: survey_query_def ed_simps)
  obtain store where s: "provider_sends ed25519 survey_query (int 3) False (map clear_response rows) NewStore store"
    using ed.provider_sends_exists [OF key survey_query_named assms, of 3 NewStore] by auto
  then obtain new where new: "store = NewStore\<lparr>DpResponses := new\<rparr>" "map (viewed (decryptPoint ed25519 5)) new = map (row_points ed25519) (sent 3 rows)"
    using ed.provider_sends_rows [OF key survey_query_named assms, of 3 False NewStore store] by (auto simp: NewStore_def)
  have "\<forall>pr\<in>set new. layout 1 1 1 pr" using assms by (intro ed.viewed_layout [OF new(2)]) simp
  with s new(1) show ?thesis by auto
qed

theorem simulation_result_right_witness:
  "\<forall>pickAggr pickGroup. \<exists>prs prs'. simulation_round ed25519 visit_sorted visit_sorted (\<lambda>_. (0, 0)) empty_table 11 (\<lambda>_. 2) pickAggr pickGroup
     (\<lambda>_ _. survey_run ed25519 (transparent ed25519) survey_predicate (two_servers prs prs') (Node 0 [0] [0] [Node 1 [] [] []]) (Node 0 [0] [0] [Node 1 [] [] []]))
     example_simulation [''a'', ''b''] 5 = Inr True"
proof (intro allI)
  fix pickAggr pickGroup
  let ?sim = example_simulation and ?t = "Node 0 [0] [0] [Node 1 [] [] []] :: nat tree"
  have sizes: "Sizes ?sim = lengths_sizes (0, 1, 0, 1, 0, 1)" by (simp add: example_simulation_def)
  obtain q :: "(ed_l, string) SurveyCreationQuery" where q: "simulation_query ed25519 ?sim [''a'', ''b''] 5 (\<lambda>_. 2) = Inr q"
      "Roster_Aggregate q = 5" "scq_Sum q = data_keys ''s'' 0 1" "GroupBy q = data_keys ''g'' 0 1" "Predicate q = conjunction_text (condition_pairs 1)"
      "Where q = [\<lparr>wq_Name = ''w'' @ Itoa 0, wq_Value = EncryptInt ed25519 5 1 2\<rparr>]"
    using simulation_query_statement [OF sizes, of ed25519 "[''a'', ''b'']" 5 "\<lambda>_. 2"] by (simp add: creation_query_def)
  have same: "same_statement q survey_query"
    unfolding same_statement_def q(2-6) example_text
    by (simp add: survey_query_def EncryptInt_def encryptPoint_def IntToPoint_def ed_simps Itoa_def dec.simps digit_def)
  have amounts: "list_all (\<lambda>n. n < 2 ^ 61) [0, 1, 0, 1, 0, 1, 2, 2, 1 :: nat]" by simp
  obtain testData where gen: "GenerateData pickAggr pickGroup (NbrDPs ?sim) (NbrResponsesTot ?sim) (NbrResponsesFiltered ?sim) (Sizes ?sim) (NbrGroupAttributes ?sim) (RandomGroups ?sim) = Inr testData"
    using generated_rows [OF refl amounts, of "[8]" pickAggr pickGroup] by (auto simp: example_simulation_def)
  obtain rs where data: "testData = map_of (map (\<lambda>d. (Itoa (of_nat d), map clear_response (rs d))) [0..<2])" "reference_data (0, 1, 0, 1, 0, 1) 2 2 1 rs"
    by (rule simulation_data [OF example_simulation_ok gen])
  have ok: "\<forall>row\<in>set (rs d). provider_row_ok 1 1 1 row" if "d < 2" for d
    using reference_data_rows(1) [OF data(2) that] by (simp add: reference_row_def)
  obtain prs where p: "providers_send ed25519 survey_query 3 False [map clear_response (rs 0)] NewStore (NewStore\<lparr>DpResponses := prs\<rparr>)"
    "\<forall>pr\<in>set prs. layout 1 1 1 pr" using example_store [OF ok] by force
  obtain prs' where p': "providers_send ed25519 survey_query 3 False [map clear_response (rs 1)] NewStore (NewStore\<lparr>DpResponses := prs'\<rparr>)"
    "\<forall>pr\<in>set prs'. layout 1 1 1 pr" using example_store [OF ok, of 1] by force
  let ?servers = "two_servers prs prs'"
  have "data_of testData d = map clear_response (rs d)" if "d < 2" for d
    using data_of_generated [of 2 d "\<lambda>d. map clear_response (rs d)"] that data(1) by simp
  then have data': "holds_test_data ed25519 ?sim 2 testData i survey_query (sv_Store (survey (?servers ! i)))" if "i < 2" for i
    using that p(1) p'(1) by (auto simp: holds_test_data_def less_2_cases_iff example_simulation_def two_servers_def survey_server_def upt_rec intro!: exI [of _ "[i]"])
  have query: "Query (survey (?servers ! i)) = survey_query" if "i < 2" for i
    using that by (auto simp: two_servers_def survey_server_def less_2_cases_iff)
  have ok': "server_ok ed25519 (transparent ed25519) ?servers (Where survey_query) '' v0 == v1 '' 1 1 i (?servers ! i)" if "i < 2" for i
    using two_servers_ok [of prs prs'] p(2) p'(2) that by (auto simp: two_servers_simps(4))
  have stmt: "Where q = Where survey_query" "Predicate q = '' v0 == v1 ''" using same q(5) example_text by (simp_all add: same_statement_def)
  have serves: "serves_test_data ed25519 (transparent ed25519) ?sim (0 + 1) (0 + 1) ?servers q testData"
    unfolding serves_test_data_def two_servers_simps(4) stmt using data' query ok' same by simp
  have "simulation_round ed25519 visit_sorted visit_sorted (\<lambda>_. (0, 0)) empty_table 11 (\<lambda>_. 2) pickAggr pickGroup
      (\<lambda>_ _. survey_run ed25519 (transparent ed25519) survey_predicate ?servers ?t ?t) ?sim [''a'', ''b''] 5 = Inr (0 < (2 :: nat) \<and> (0 < (1 :: nat) \<or> 0 + (1 :: nat) = 0))"
  proof (rule simulation_result_right [OF ed.transparent_proof_system _ _ _ example_simulation_ok _ _ _ _ q(1) gen serves, where ia = 1])
    show "0 < 0 + (1 :: nat) \<longrightarrow> evaluates_conjunction survey_predicate (condition_pairs (0 + 1))" using example_conjunction by simp
    show "Scalar_Mul ed25519 1 (sprod ed25519 (survey_secrets ?servers)) = Scalar_One ed25519"
      by (simp add: two_servers_simps sprod_def ed_simps)
    show "ClientPubKey (Query (survey (?servers ! content ?t))) = Some (Point_Mul ed25519 11 (Point_Base ed25519))"
      by (simp add: two_servers_def survey_server_def survey_query_def ed_simps)
  qed (simp_all add: two_servers_simps upt_rec reachable_table.init visit_sorted_enumerates)
  then show "\<exists>prs prs'. simulation_round ed25519 visit_sorted visit_sorted (\<lambda>_. (0, 0)) empty_table 11 (\<lambda>_. 2) pickAggr pickGroup
     (\<lambda>_ _. survey_run ed25519 (transparent ed25519) survey_predicate (two_servers prs prs') ?t ?t) ?sim [''a'', ''b''] 5 = Inr True" by auto
qed

end
