(* ===== verification/CommandLine.thy ===== *)
theory CommandLine
  imports QueryParser Client
begin

text \<open>
  The command run of cmd/unlynx/client.go: the roster of the group file, the query of the flags, the
  creation of the survey and its results. The calls of the servers and the reader of the group
  file are arguments.
\<close>

text \<open>The flags of the command.\<close>

record cli_flags =
  flag_file :: string
  flag_proofs :: bool
  flag_sum :: string
  flag_count :: bool
  flag_where :: string
  flag_predicate :: string
  flag_groupBy :: string

definition openGroupToml :: "(string \<Rightarrow> ('id list \<times> 'p) res) \<Rightarrow> string \<Rightarrow> ('id list \<times> 'p) res" where
  "openGroupToml readGroup tomlFileName =
     andThen (readGroup tomlFileName) (\<lambda>(servers, aggregate).
     if length servers = 0 then Inl (Err (''empty or invalid unlynx group file: '' @ tomlFileName)) else Inr (servers, aggregate))"

text \<open>The pairs of groups and sums that startQuery logs for the answer of the server.\<close>

definition log_results :: "('s, 'p) suite \<Rightarrow> 'p dlog_table \<Rightarrow> 's \<Rightarrow> 'p FilteredResponse list res \<Rightarrow> (int64 list \<times> int64 list) list res" where
  "log_results S st priv answer =
     (case fst (SendSurveyResultsQuery S st priv answer) of
        Inl e \<Rightarrow> Inl (result_error e)
      | Inr (grp, aggr) \<Rightarrow> traverse (\<lambda>i. andThen (index_at aggr i) (\<lambda>a. Inr (grp ! i, a))) [0..<length grp])"

text \<open>
  startQuery asks the first server of the roster to create the survey, with one data provider for
  every server and in application mode, and then for its results.
\<close>

definition startQuery :: "('s, 'p) suite \<Rightarrow> 'p dlog_table \<Rightarrow> 's \<Rightarrow> ('id \<Rightarrow> ('p, 'id) SurveyCreationQuery \<Rightarrow> SurveyID res)
    \<Rightarrow> ('id \<Rightarrow> SurveyID \<Rightarrow> 'p FilteredResponse list res) \<Rightarrow> 'id list \<times> 'p \<Rightarrow> bool
    \<Rightarrow> string list \<times> bool \<times> 'p WhereQueryAttribute list \<times> string \<times> string list \<Rightarrow> (int64 list \<times> int64 list) list res" where
  "startQuery S st priv create results el proofs query =
     (let (servers, aggregate) = el; (sumNames, count0, whereQueryValues, predicate, groupBy) = query in
      andThen (index_at servers 0) (\<lambda>entryPoint.
      andThen (create entryPoint (creation_query servers aggregate [] None (map_of (map (\<lambda>server. (server, 1)) servers)) proofs True
        sumNames count0 whereQueryValues predicate groupBy)) (\<lambda>surveyID.
      log_results S st priv (results entryPoint surveyID))))"

text \<open>
  runUnLynx ends with the error of openGroupToml, and goes on after an error of parseQuery with the
  values that come with it.
\<close>

definition parsed_query :: "('s, 'p) suite \<Rightarrow> 'p \<Rightarrow> (nat \<Rightarrow> 's) \<Rightarrow> cli_flags
    \<Rightarrow> (string list \<times> bool \<times> 'p WhereQueryAttribute list \<times> string \<times> string list) res" where
  "parsed_query S aggregate picks flags =
     (case parseQuery S aggregate picks (flag_sum flags) (flag_count flags) (flag_where flags) (flag_predicate flags) (flag_groupBy flags) of
        Inl Panic \<Rightarrow> Inl Panic
      | Inl (Err e) \<Rightarrow> Inr ([], False, [], [], [])
      | Inr query \<Rightarrow> Inr query)"

definition runUnLynx :: "('s, 'p) suite \<Rightarrow> 'p dlog_table \<Rightarrow> 's \<Rightarrow> (nat \<Rightarrow> 's) \<Rightarrow> (string \<Rightarrow> ('id list \<times> 'p) res)
    \<Rightarrow> ('id \<Rightarrow> ('p, 'id) SurveyCreationQuery \<Rightarrow> SurveyID res) \<Rightarrow> ('id \<Rightarrow> SurveyID \<Rightarrow> 'p FilteredResponse list res)
    \<Rightarrow> cli_flags \<Rightarrow> (int64 list \<times> int64 list) list res" where
  "runUnLynx S st priv picks readGroup create results flags =
     andThen (openGroupToml readGroup (flag_file flags)) (\<lambda>(servers, aggregate).
     andThen (parsed_query S aggregate picks flags) (\<lambda>query.
     startQuery S st priv create results (servers, aggregate) (flag_proofs flags) query))"

text \<open>Groups and sums come in pairs.\<close>

lemma log_results_pairs:
  assumes "fst (SendSurveyResultsQuery S st priv answer) = Inr (grp, aggr)"
  shows "log_results S st priv answer = Inr (zip grp aggr)"
proof -
  have len: "length aggr = length grp"
    using assms by (auto simp: SendSurveyResultsQuery_def split: sum.splits prod.splits)
  have "traverse (\<lambda>i. andThen (index_at aggr i) (\<lambda>a. Inr (grp ! i, a))) [0..<length grp] = Inr (map (\<lambda>i. (grp ! i, aggr ! i)) [0..<length grp])"
    using len by (intro traverse_Inr_map) (simp add: index_at_def)
  moreover have "map (\<lambda>i. (grp ! i, aggr ! i)) [0..<length grp] = zip grp aggr" using len by (intro nth_equalityI) simp_all
  ultimately show ?thesis using assms by (simp add: log_results_def)
qed

text \<open>The query that the first server gets.\<close>

definition sends_query :: "('p, 'id) SurveyCreationQuery \<Rightarrow> string list \<Rightarrow> 'p WhereQueryAttribute list \<Rightarrow> string \<Rightarrow> string list \<Rightarrow> bool" where
  "sends_query q sumNames wh predicate groupBy \<longleftrightarrow>
     scq_Sum q = sumNames \<and> \<not> Count q \<and> Where q = wh \<and> Predicate q = predicate \<and> GroupBy q = groupBy \<and> AppFlag q \<and> ClientPubKey q = None"

lemma runUnLynx_sends:
  assumes "readGroup (flag_file flags) = Inr (entryPoint # rest, aggregate)"
    and "parsed_query S aggregate picks flags = Inr (sumNames, False, wh, predicate, groupBy)"
  shows "\<exists>q. sends_query q sumNames wh predicate groupBy \<and> Roster_List q = entryPoint # rest \<and>
    runUnLynx S st priv picks readGroup create results flags =
      andThen (create entryPoint q) (\<lambda>surveyID. log_results S st priv (results entryPoint surveyID))"
  using assms
  by (intro exI [of _ "creation_query (entryPoint # rest) aggregate [] None (map_of (map (\<lambda>server. (server, 1)) (entryPoint # rest))) (flag_proofs flags) True
      sumNames False wh predicate groupBy"])
    (simp add: runUnLynx_def openGroupToml_def startQuery_def index_at_def sends_query_def, simp add: creation_query_def)

section \<open>Properties\<close>

text \<open>
  C40. The command run. A query that is written as the expressions of parseQuery want it, with sums,
  conditions, a predicate and groups, reaches the first server of the roster as it was written. A query
  without conditions, one without groups, and a counting query are rejected by parseQuery, but
  the error is not looked at: the first server is asked to create a survey without sums, conditions, predicate and
  groups in their place. What is logged are the pairs of groups and sums that the querier decrypts.
\<close>

theorem command_line_query:
  assumes "readGroup (flag_file flags) = Inr (entryPoint # rest, aggregate)"
  shows "(flag_sum flags = show_names (CHR ''s'') ss \<and> flag_where flags = show_where wh \<and> flag_predicate flags \<noteq> [] \<and> flag_groupBy flags = show_names (CHR ''g'') gs \<and>
      ss \<noteq> [] \<and> gs \<noteq> [] \<and> \<not> flag_count flags \<and> (\<forall>(w, v)\<in>set wh. v < 2 ^ 63) \<longrightarrow>
      (\<exists>q. sends_query q (map (attribute_name (CHR ''s'')) ss) (encrypted_where S aggregate picks 0 wh) (flag_predicate flags) (map (attribute_name (CHR ''g'')) gs) \<and>
        runUnLynx S st priv picks readGroup create results flags =
          andThen (create entryPoint q) (\<lambda>surveyID. log_results S st priv (results entryPoint surveyID)))) \<and>
    (flag_where flags = [] \<or> flag_groupBy flags = [] \<or> flag_count flags \<and> flag_sum flags = show_names (CHR ''s'') ss \<longrightarrow>
      (\<exists>q. sends_query q [] [] [] [] \<and> runUnLynx S st priv picks readGroup create results flags =
        andThen (create entryPoint q) (\<lambda>surveyID. log_results S st priv (results entryPoint surveyID)))) \<and>
    (\<forall>answer grp aggr. fst (SendSurveyResultsQuery S st priv answer) = Inr (grp, aggr) \<longrightarrow> log_results S st priv answer = Inr (zip grp aggr))"
proof (intro conjI impI allI)
  assume a: "flag_sum flags = show_names (CHR ''s'') ss \<and> flag_where flags = show_where wh \<and> flag_predicate flags \<noteq> [] \<and> flag_groupBy flags = show_names (CHR ''g'') gs \<and>
      ss \<noteq> [] \<and> gs \<noteq> [] \<and> \<not> flag_count flags \<and> (\<forall>(w, v)\<in>set wh. v < 2 ^ 63)"
  then have "parsed_query S aggregate picks flags = Inr (map (attribute_name (CHR ''s'')) ss, False, encrypted_where S aggregate picks 0 wh,
      flag_predicate flags, map (attribute_name (CHR ''g'')) gs)"
    using parse_shown_query [of ss gs "flag_predicate flags" wh S aggregate picks] by (simp add: parsed_query_def)
  from runUnLynx_sends [where readGroup = readGroup and st = st and priv = priv and create = create and results = results, OF assms this]
  show "\<exists>q. sends_query q (map (attribute_name (CHR ''s'')) ss) (encrypted_where S aggregate picks 0 wh) (flag_predicate flags) (map (attribute_name (CHR ''g'')) gs) \<and>
      runUnLynx S st priv picks readGroup create results flags =
        andThen (create entryPoint q) (\<lambda>surveyID. log_results S st priv (results entryPoint surveyID))" by blast
next
  assume "flag_where flags = [] \<or> flag_groupBy flags = [] \<or> flag_count flags \<and> flag_sum flags = show_names (CHR ''s'') ss"
  then obtain e where e: "parseQuery S aggregate picks (flag_sum flags) (flag_count flags) (flag_where flags) (flag_predicate flags) (flag_groupBy flags) = Inl e"
    using parse_query_rejects [of S aggregate picks] by metis
  then have "parsed_query S aggregate picks flags = Inr ([], False, [], [], [])"
    using parse_query_error [OF e] by (cases e) (simp_all add: parsed_query_def)
  from runUnLynx_sends [where readGroup = readGroup and st = st and priv = priv and create = create and results = results, OF assms this]
  show "\<exists>q. sends_query q [] [] [] [] \<and> runUnLynx S st priv picks readGroup create results flags =
      andThen (create entryPoint q) (\<lambda>surveyID. log_results S st priv (results entryPoint surveyID))" by blast
qed (rule log_results_pairs)

text \<open>A command with a condition, and a server that wants a sum.\<close>

definition example_flags :: cli_flags where
  "example_flags = \<lparr>flag_file = ''group.toml'', flag_proofs = False, flag_sum = show_names (CHR ''s'') [1, 2], flag_count = False,
     flag_where = show_where [(1, 27)], flag_predicate = ''v0 == v1'', flag_groupBy = show_names (CHR ''g'') [3]\<rparr>"

definition example_create :: "string \<Rightarrow> (ed_l, string) SurveyCreationQuery \<Rightarrow> SurveyID res" where
  "example_create entryPoint q = (if scq_Sum q = [] then Inl (Err ''nothing to sum'') else Inr ''survey'')"

theorem command_line_query_witness:
  "runUnLynx ed25519 empty_table 11 (\<lambda>i. of_nat i) (\<lambda>_. Inr ([''a''], 5)) example_create (\<lambda>_ _. Inr []) example_flags = Inr [] \<and>
   runUnLynx ed25519 empty_table 11 (\<lambda>i. of_nat i) (\<lambda>_. Inr ([''a''], 5)) example_create (\<lambda>_ _. Inr []) (example_flags\<lparr>flag_where := []\<rparr>) =
     Inl (Err ''nothing to sum'')"
proof
  have "fst (SendSurveyResultsQuery ed25519 empty_table 11 (Inr [])) = Inr ([], [])" by (simp add: SendSurveyResultsQuery_def)
  moreover note run = command_line_query [where readGroup = "\<lambda>_. Inr ([''a''], 5)" and entryPoint = "''a''" and rest = "[]" and aggregate = 5, OF refl,
      where ss = "[1, 2]" and wh = "[(1, 27)]" and gs = "[3]" and S = ed25519 and st = empty_table and priv = 11 and picks = "\<lambda>i. of_nat i"
        and create = example_create and results = "\<lambda>_ _. Inr []"]
  ultimately have "log_results ed25519 empty_table 11 (Inr []) = Inr []" by fastforce
  then show "runUnLynx ed25519 empty_table 11 (\<lambda>i. of_nat i) (\<lambda>_. Inr ([''a''], 5)) example_create (\<lambda>_ _. Inr []) example_flags = Inr []"
    using run [of example_flags] by (auto simp: example_flags_def example_create_def sends_query_def)
  show "runUnLynx ed25519 empty_table 11 (\<lambda>i. of_nat i) (\<lambda>_. Inr ([''a''], 5)) example_create (\<lambda>_ _. Inr []) (example_flags\<lparr>flag_where := []\<rparr>) =
     Inl (Err ''nothing to sum'')"
    using run [of "example_flags\<lparr>flag_where := []\<rparr>"] by (auto simp: example_flags_def example_create_def sends_query_def)
qed

end
