(* ===== verification/Spec2Isabelle.thy ===== *)
theory Spec2Isabelle
  imports DiscreteLog Marshal Tools Structs KeySwitching DetTag Aggregation AddRm Shuffle CollectiveAggregation Tagging Shuffling ShufflingDDT
    Store ProtocolTools SurveyResult Coordination Circuit TestData TestDataFile QueryParser Client ReferenceCheck
    ProofsVerification Application DifferentialPrivacy Simulation CommandLine
begin

text \<open>
  A verification library for UnLynx.

  UnLynx lets a querier ask SELECT SUM(...) WHERE ... GROUP BY ... of data that data providers keep
  encrypted at several servers. Every provider encrypts its rows under the sum of the servers' public
  keys (ElGamal over an elliptic curve, with the plaintext in the exponent) and sends them to a
  server. The servers shuffle their rows so that no one knows whose they are, replace groups and
  conditions by deterministic tags so that equal values become comparable, filter, add up the rows of
  every group, and finally switch the encryption of the sums to the key of the querier.

  Theories and sources. Every theory opens with what it holds; src/ is left out of the file names.

  \<^item> Prelude: results (an error or a panic, or a value), slices, the loops that parallelise over
    blocks, association lists and maps, the permutations; shared by everything else.
  \<^item> Suite: kyber's ciphersuite as a record of operations with the locale kyber_suite of its laws, and
    ed25519, an interpretation on words. The proof systems of kyber are the locales proof_system
    (Zkp) and shuffle_system (Shuffle), with an interpretation each.
  \<^item> Crypto, Marshal, DiscreteLog: lib/crypto.go. Ciphertexts, vectors, keys; wire formats;
    decryption with its global table of discrete logarithms.
  \<^item> Tools: lib/tools/tools.go. Structs: lib/structs.go, the responses and their maps.
  \<^item> KeySwitch, DetTag, Aggregation, AddRm, Shuffle: the packages lib/key_switch,
    lib/deterministic_tag, lib/aggregation, lib/add_rm (with protocols/utils/addrm_server_protocol.go)
    and lib/shuffle: the operation of one server, its proofs, their verification and byte formats.
  \<^item> Network: trees, circuits and the order of arrival of messages. KeySwitching, CollectiveAggregation,
    Tagging, Shuffling, ShufflingDDT: the protocols of the directory protocols, as functions of the
    servers' states, the tree or circuit, and the orders of arrival; Circuit: the circuit of the
    shuffling as a relay of messages. ProtocolTools: protocols/tools_protocol.go.
  \<^item> Store: lib/store/store.go and protocols/utils/local_aggregation_protocol.go.
  \<^item> Service: services/service.go, the survey and the phases of StartService. SurveyRun: all servers
    together, from their stores to the results. SurveyResult: what the querier decrypts.
    Coordination: the handlers, waiting loops and messages of the services as a step relation.
    Application: HandleSurveyCreationQuery with its files. DifferentialPrivacy: DROPhase and
    lib/differential_privacy/diff_privacy.go.
  \<^item> ClearReference: AddInClear of lib/store/store.go, the local clear aggregation protocol and the
    expected results of data/handle_data.go; TestData and TestDataFile: the generator and the text
    file of the same source. Client: services/api.go. ReferenceCheck: a survey against AddInClear.
    Simulation: a round of the simulation of the service, simul/unlynx_simul.go.
    QueryParser and CommandLine: the parser of queries and the command run of cmd/unlynx/client.go.
  \<^item> ProofsVerification: protocols/utils/proofs_verification_protocol.go.

  How the model corresponds to the code. A struct is a record with the source's fields (a prefix
  where two structs share a name), an operation is a function of the same name, a method of a
  ciphertext, a vector or a response has a prefix (ct_Add is CipherText.Add). Integers of 64 bits are
  words; the unbounded lengths are nat. A function that may return an error or panic returns Inl of
  the error or of Panic, and every early return is a branch. A function that reads or writes a
  global or a store takes it and returns it. Random choices are functions of the place at which they
  are made, and the order of a range loop over a map is a list of its entries, so a theorem over all
  of them holds for every run. Concurrent goroutines of one function write to separate places and
  are run in blocks as StartParallelize has them. Every assertion about a protocol quantifies over
  the tree or circuit and over the orders of arrival of the messages: any orders in the key
  switching; in the collective aggregation, any orders when no server's map is empty, and otherwise
  those in which a node receives the lengths and the data of its children in one order
  (crossed_messages_lose_data). The laws of the shuffle proofs are about vectors of more than one
  element, since kyber panics on others.

  What the lemmas show.

  \<^item> The survey: its run refines the query on the clear rows (survey_answers_query), and the querier's
    decrypted results are those that AddInClear computes on the test data
    (survey_matches_reference); the simulation of the whole service, with its own query, predicate,
    generated data and repetitions, reports a right result (simulation_result_right). These rest on one theorem for each protocol (key_switching_run,
    shuffling_protocol_run, tagging_protocol_tags, collective_aggregation_run), on the invariant
    of the store (store_layout_invariant) and on the discrete logarithm (decrypt_encrypt_nonneg).
  \<^item> The coordination: no interleaving of handlers and messages starts the aggregation before all
    servers have tagged, none loses a token and none deadlocks (aggregation_waits_for_tagging,
    coordination_completes); the circuit visits everyone once (circuit_terminates).
  \<^item> The proofs: what the verification reports on the proofs that the code makes
    (proofs_verification_report; those of the tagging protocol are rejected,
    tagging_protocol_proofs_rejected), what an accepted
    proof says and does not say (shuffle_proof_sound, key_switch_proof_sound, tag_proof_forgeable).
  \<^item> Formats: what is written is read back, with the conditions (the roundtrip theorems; exact for
    the 4-byte integers and for the text file of the test data).
  \<^item> Divergences, each stated as a theorem: negative integers lost after positive ones, proofs of the
    tagging protocol that do not verify, data lost when messages cross, precomputed values reused
    under another key, noise that has no effect, filters in the clear that look at one digit,
    rejected queries that are sent all the same.

  Bounds. Lengths travel as 32-bit integers, hence the bounds 2^32 on sizes; a plaintext
  decrypts up to MaxHomomorphicInt = 100000. No definition has fuel: dlog_search ends by a measure,
  since its integers stay below this bound. The message relay of Circuit and the loop of noise
  values are partial functions: that they return, and when they do not, is proved. The waiting loops
  of Coordination are steps, and every sequence of steps is finite.

  What is a parameter. kyber (group, scalars, their encodings, hash proofs, the Neff shuffle),
  govaluate (the parser of predicates), gob, uuid, reflect.DeepEqual on points, the density of the
  Laplace distribution, and the delivery of messages by onet. Their documented behaviour is stated by
  the locales and by named hypotheses, and every theorem that has hypotheses has a witness.

  What is not modelled. The registration of channels, handlers and protocol instances with onet,
  timers, timeouts (TIMEOUT never strikes) and logs; the state of a survey after an error; the
  floating-point computation of the quanta; the start of a server and the flags of the command line
  (cmd/unlynx/main.go, cmd/unlynx/server.go); the simulations of simul
  that time one protocol, and the set-up of the one that is modelled. The handlers of a service are
  taken to run one after the other, although PushData appends to the store without its mutex.
  Slices alias their arrays in Go: the model copies them, and the places where the code writes
  through an alias that another value still uses are noted in the theories.
\<close>

end
